(* ===== verification/Prelude.thy ===== *)
theory Prelude
  imports Main "HOL-Library.AList" "HOL-Library.Word" "HOL-Library.List_Lexorder"
begin

text \<open>
  Shared vocabulary of the development: JavaScript strings as lists of UTF-16 code units, bytes,
  the state-and-error computations in which every asynchronous method of the program is written,
  the transaction bracket of the driver (\<^verbatim>\<open>sql.begin\<close>), and the generic lemmas on lists,
  association lists and batches that the component theories share.
\<close>

section \<open>Types\<close>

text \<open>
  A JavaScript string is a sequence of 16-bit code units; a \<^verbatim>\<open>Uint8Array\<close> or
  \<^verbatim>\<open>Buffer\<close> is a sequence of bytes. Ordinary Isabelle strings stand for the ASCII literals
  of the source (SQLSTATE codes, table names, messages); \<open>js\<close> embeds them.
\<close>

type_synonym jsstr = "16 word list"
type_synonym byte = "8 word"
type_synonym bytes = "8 word list"

definition js :: "string \<Rightarrow> jsstr" where
  "js s = map of_char s"

lemma js_Nil [simp]: "js [] = []"
  by (simp add: js_def)

lemma js_append [simp]: "js (xs @ ys) = js xs @ js ys"
  by (simp add: js_def)

lemma length_js [simp]: "length (js s) = length s"
  by (simp add: js_def)

section \<open>Computations with state and exceptions\<close>

text \<open>
  A method that reads and writes a state of type \<open>'s\<close> and may throw is a function from the state
  to a result (\<open>Inl\<close> the thrown error) and the new state. The state of a throwing computation is
  kept: what a failed statement leaves behind is decided by the transaction bracket, not by the
  exception.
\<close>

type_synonym ('e, 's, 'a) exec = "'s \<Rightarrow> ('e + 'a) \<times> 's"

definition eret :: "'a \<Rightarrow> ('e, 's, 'a) exec" where
  "eret a s = (Inr a, s)"

definition ethrow :: "'e \<Rightarrow> ('e, 's, 'a) exec" where
  "ethrow e s = (Inl e, s)"

definition ebind :: "('e, 's, 'a) exec \<Rightarrow> ('a \<Rightarrow> ('e, 's, 'b) exec) \<Rightarrow> ('e, 's, 'b) exec" where
  "ebind m f s = (case m s of (Inl e, s') \<Rightarrow> (Inl e, s') | (Inr a, s') \<Rightarrow> f a s')"

definition elift :: "'e + 'a \<Rightarrow> ('e, 's, 'a) exec" where
  "elift r s = (r, s)"

text \<open>\<open>try m catch (e) { throw h(e) }\<close>: the shape of every error-translating wrapper.\<close>

definition emap_error :: "('e \<Rightarrow> 'f) \<Rightarrow> ('e, 's, 'a) exec \<Rightarrow> ('f, 's, 'a) exec" where
  "emap_error h m s = (case m s of (Inl e, s') \<Rightarrow> (Inl (h e), s') | (Inr a, s') \<Rightarrow> (Inr a, s'))"

text \<open>A loop that awaits a step for every element and stops at the first exception.\<close>

fun eforeach :: "('a \<Rightarrow> ('e, 's, unit) exec) \<Rightarrow> 'a list \<Rightarrow> ('e, 's, unit) exec" where
  "eforeach f [] = eret ()"
| "eforeach f (x # xs) = ebind (f x) (\<lambda>_. eforeach f xs)"

named_theorems exec_simps \<open>evaluation rules of state-and-error computations\<close>

lemma eret_app [exec_simps, simp]: "eret a s = (Inr a, s)"
  by (simp add: eret_def)

lemma ethrow_app [exec_simps, simp]: "ethrow e s = (Inl e, s)"
  by (simp add: ethrow_def)

lemma elift_app [exec_simps, simp]: "elift r s = (r, s)"
  by (simp add: elift_def)

lemma ebind_Inl [exec_simps]: "m s = (Inl e, s') \<Longrightarrow> ebind m f s = (Inl e, s')"
  by (simp add: ebind_def)

lemma ebind_Inr [exec_simps]: "m s = (Inr a, s') \<Longrightarrow> ebind m f s = f a s'"
  by (simp add: ebind_def)

lemma ebind_eret [simp]: "ebind (eret a) f = f a"
  by (rule ext) (simp add: ebind_def)

lemma ebind_ethrow [simp]: "ebind (ethrow e) f = ethrow e"
  by (rule ext) (simp add: ebind_def)

lemma ebind_elift_Inr [simp]: "ebind (elift (Inr a)) f = f a"
  by (rule ext) (simp add: ebind_def)

lemma ebind_elift_Inl [simp]: "ebind (elift (Inl e)) f = ethrow e"
  by (rule ext) (simp add: ebind_def)

lemma ebind_Pair_Inr [simp]: "ebind (Pair (Inr a)) f = f a"
  by (rule ext) (simp add: ebind_def)

lemma ebind_Pair_Inl [simp]: "ebind (Pair (Inl e)) f = Pair (Inl e)"
  by (rule ext) (simp add: ebind_def)

lemma ebind_assoc: "ebind (ebind m f) g = ebind m (\<lambda>a. ebind (f a) g)"
  by (rule ext) (auto simp: ebind_def split: prod.splits sum.splits)

lemma ebind_InrE:
  assumes "ebind m f s = (Inr b, t)"
  obtains a s' where "m s = (Inr a, s')" and "f a s' = (Inr b, t)"
  using assms by (auto simp: ebind_def split: prod.splits sum.splits)

lemma ebind_InlE:
  assumes "ebind m f s = (Inl e, t)"
  obtains (first) "m s = (Inl e, t)"
  | (later) a s' where "m s = (Inr a, s')" and "f a s' = (Inl e, t)"
  using assms by (auto simp: ebind_def split: prod.splits sum.splits)

lemma emap_error_Inr [simp]: "emap_error h m s = (Inr a, t) \<longleftrightarrow> m s = (Inr a, t)"
  by (auto simp: emap_error_def split: prod.splits sum.splits)

lemma emap_error_Inl: "emap_error h m s = (Inl e, t) \<longleftrightarrow> (\<exists>e0. m s = (Inl e0, t) \<and> e = h e0)"
  by (auto simp: emap_error_def split: prod.splits sum.splits)

lemma snd_emap_error [simp]: "snd (emap_error h m s) = snd (m s)"
  by (auto simp: emap_error_def split: prod.splits sum.splits)

text \<open>A property of the state kept by both parts of a sequence is kept by the sequence.\<close>

definition keeps :: "('s \<Rightarrow> bool) \<Rightarrow> ('e, 's, 'a) exec \<Rightarrow> bool" where
  "keeps P m \<longleftrightarrow> (\<forall>s. P s \<longrightarrow> P (snd (m s)))"

lemma keepsI: "(\<And>s. P s \<Longrightarrow> P (snd (m s))) \<Longrightarrow> keeps P m"
  by (simp add: keeps_def)

lemma keepsD: "keeps P m \<Longrightarrow> P s \<Longrightarrow> P (snd (m s))"
  by (simp add: keeps_def)

lemma keeps_eret [intro, simp]: "keeps P (eret a)"
  by (simp add: keeps_def)

lemma keeps_ethrow [intro, simp]: "keeps P (ethrow e)"
  by (simp add: keeps_def)

lemma keeps_elift [intro, simp]: "keeps P (elift r)"
  by (simp add: keeps_def)

lemma keeps_Pair [intro, simp]: "keeps P (Pair r)"
  by (simp add: keeps_def)

lemma keeps_ebind [intro]:
  assumes "keeps P m" and "\<And>a. keeps P (f a)"
  shows "keeps P (ebind m f)"
proof (rule keepsI)
  fix s assume P: "P s"
  obtain r s' where m: "m s = (r, s')" by (cases "m s")
  with keepsD [OF assms(1) P] have P': "P s'" by simp
  show "P (snd (ebind m f s))"
  proof (cases r)
    case (Inl e)
    with m P' show ?thesis by (simp add: ebind_def)
  next
    case (Inr a)
    with m keepsD [OF assms(2) P', of a] show ?thesis by (simp add: ebind_def)
  qed
qed

lemma keeps_emap_error [intro]: "keeps P m \<Longrightarrow> keeps P (emap_error h m)"
  by (simp add: keeps_def)

lemma keeps_eforeach [intro]: "(\<And>x. keeps P (f x)) \<Longrightarrow> keeps P (eforeach f xs)"
  by (induction xs) auto

section \<open>The driver's transaction bracket\<close>

text \<open>
  \<^verbatim>\<open>sql.begin(cb)\<close> of the driver: BEGIN, run the callback on the transaction's connection,
  COMMIT when it resolves, ROLLBACK when it rejects. The driver is outside the repository, so what
  the network and the server may do to BEGIN and COMMIT is an argument: \<open>None\<close> when the statement
  succeeds, the raised error otherwise. A failed COMMIT leaves the state of before BEGIN.
\<close>

definition sql_begin ::
  "'e option \<Rightarrow> 'e option \<Rightarrow> ('e, 's, 'a) exec \<Rightarrow> ('e, 's, 'a) exec" where
  "sql_begin begin_fault commit_fault body s =
     (case begin_fault of
        Some e \<Rightarrow> (Inl e, s)
      | None \<Rightarrow>
          (case body s of
             (Inl e, _) \<Rightarrow> (Inl e, s)
           | (Inr a, s') \<Rightarrow>
               (case commit_fault of
                  Some e \<Rightarrow> (Inl e, s)
                | None \<Rightarrow> (Inr a, s'))))"

lemma sql_begin_atomic: "sql_begin bf cf body s = (Inl e, t) \<Longrightarrow> t = s"
  by (auto simp: sql_begin_def split: option.splits prod.splits sum.splits)

lemma sql_begin_Inr:
  "sql_begin bf cf body s = (Inr a, t) \<longleftrightarrow> bf = None \<and> cf = None \<and> body s = (Inr a, t)"
  by (auto simp: sql_begin_def split: option.splits prod.splits sum.splits)

lemma keeps_sql_begin [intro]: "keeps P body \<Longrightarrow> keeps P (sql_begin bf cf body)"
proof (rule keepsI)
  fix s assume k: "keeps P body" and P: "P s"
  from keepsD [OF k P] have "P (snd (body s))" .
  with P show "P (snd (sql_begin bf cf body s))"
    by (auto simp: sql_begin_def split: option.splits prod.splits sum.splits)
qed

section \<open>Lists, association lists, batches\<close>

text \<open>
  \<open>for (let i = 0; i < rows.length; i += n) f(rows.slice(i, i + n))\<close>: the offset loop of the
  sub-batched inserts and of the chunker. With \<open>n = 0\<close> the source loop would not end; no call
  site passes 0, and the model returns no batch there.
\<close>

function slices :: "nat \<Rightarrow> nat \<Rightarrow> 'a list \<Rightarrow> 'a list list" where
  "slices n i xs =
     (if n = 0 \<or> length xs \<le> i then []
      else take (min (i + n) (length xs) - i) (drop i xs) # slices n (i + n) xs)"
  by pat_completeness auto
termination
  by (relation "measure (\<lambda>(n, i, xs). length xs - i)") auto

declare slices.simps [simp del]

lemma slices_end [simp]: "length xs \<le> i \<Longrightarrow> slices n i xs = []"
  by (simp add: slices.simps)

lemma slices_step:
  "0 < n \<Longrightarrow> i < length xs \<Longrightarrow> slices n i xs = take n (drop i xs) # slices n (i + n) xs"
  by (subst slices.simps) (auto simp: min_def)

lemma concat_slices: "0 < n \<Longrightarrow> concat (slices n i xs) = drop i xs"
proof (induction n i xs rule: slices.induct)
  case (1 n i xs)
  show ?case
  proof (cases "length xs \<le> i")
    case True
    then show ?thesis by simp
  next
    case False
    with 1 have "concat (slices n (i + n) xs) = drop (i + n) xs" by simp
    with False 1 show ?thesis
      by (simp add: slices_step) (metis append_take_drop_id drop_drop add.commute)
  qed
qed

lemma slices_bound: "0 < n \<Longrightarrow> c \<in> set (slices n i xs) \<Longrightarrow> c \<noteq> [] \<and> length c \<le> n"
proof (induction n i xs rule: slices.induct)
  case (1 n i xs)
  show ?case
  proof (cases "length xs \<le> i")
    case True
    with 1 show ?thesis by simp
  next
    case False
    with 1 show ?thesis by (auto simp: slices_step)
  qed
qed

lemma length_slices: "0 < n \<Longrightarrow> length (slices n i xs) = (length xs - i + n - 1) div n"
proof (induction n i xs rule: slices.induct)
  case (1 n i xs)
  show ?case
  proof (cases "length xs \<le> i")
    case True
    with 1 show ?thesis by simp
  next
    case False
    with 1 have IH: "length (slices n (i + n) xs) = (length xs - (i + n) + n - 1) div n"
      by simp
    have "(length xs - i + n - 1) div n = Suc ((length xs - (i + n) + n - 1) div n)"
    proof (cases "n \<le> length xs - i")
      case True
      then have "length xs - i + n - 1 = (length xs - (i + n) + n - 1) + n" by simp
      with \<open>0 < n\<close> show ?thesis by (metis div_add_self2 add.commute plus_1_eq_Suc less_numeral_extra(3))
    next
      case F: False
      with False have "0 < length xs - i" and "length xs - i < n" by simp_all
      then have "length xs - i + n - 1 = n + (length xs - i - 1)"
        and "length xs - (i + n) = 0" and "length xs - i - 1 < n" by simp_all
      then have "(length xs - i + n - 1) div n = 1 + (length xs - i - 1) div n"
        using \<open>0 < n\<close> by (simp only: div_add_self1)
      with \<open>length xs - i - 1 < n\<close> \<open>length xs - (i + n) = 0\<close> \<open>0 < n\<close> show ?thesis
        by (simp only: div_less)
    qed
    with IH False 1 show ?thesis by (simp add: slices_step)
  qed
qed

lemma eforeach_append:
  "eforeach f (xs @ ys) = ebind (eforeach f xs) (\<lambda>_. eforeach f ys)"
  by (induction xs) (simp_all only: append_Nil append_Cons eforeach.simps ebind_eret ebind_assoc)

text \<open>Running one multi-row statement per batch is running the rows one after the other.\<close>

lemma eforeach_batches:
  assumes "0 < n"
  shows "eforeach (eforeach f) (slices n i xs) = eforeach f (drop i xs)"
proof -
  have "eforeach (eforeach f) xss = eforeach f (concat xss)" for xss
    by (induction xss) (simp_all add: eforeach_append)
  with assms show ?thesis by (simp add: concat_slices)
qed

lemma map_of_update [simp]: "map_of (AList.update k v al) = (map_of al)(k \<mapsto> v)"
  by (rule ext) (simp add: AList.update_conv)

lemma distinct_fst_update [simp]:
  "distinct (map fst al) \<Longrightarrow> distinct (map fst (AList.update k v al))"
  by (simp add: AList.distinct_update)

lemma distinct_fst_filter [simp]:
  "distinct (map fst al) \<Longrightarrow> distinct (map fst (filter P al))"
  by (induction al) auto

lemma map_of_filter_distinct:
  "distinct (map fst al) \<Longrightarrow>
   map_of (filter P al) k = (case map_of al k of None \<Rightarrow> None | Some v \<Rightarrow> if P (k, v) then Some v else None)"
proof (induction al)
  case Nil
  then show ?case by simp
next
  case (Cons x al)
  show ?case
  proof (cases "fst x = k")
    case True
    with Cons have "k \<notin> fst ` set al" by (cases x) auto
    then have "map_of al k = None" by (simp add: map_of_eq_None_iff)
    with Cons True show ?thesis by (cases x) auto
  next
    case False
    with Cons show ?thesis by (cases x) auto
  qed
qed

text \<open>LIMIT 1 on a scan in which only one row can match.\<close>

definition limit1 :: "'a list \<Rightarrow> 'a option" where
  "limit1 xs = (case xs of [] \<Rightarrow> None | x # _ \<Rightarrow> Some x)"

lemma limit1_Nil [simp]: "limit1 [] = None"
  by (simp add: limit1_def)

lemma limit1_Cons [simp]: "limit1 (x # xs) = Some x"
  by (simp add: limit1_def)

lemma limit1_set: "limit1 xs = Some x \<Longrightarrow> x \<in> set xs"
  by (cases xs) simp_all

lemma limit1_append: "limit1 (xs @ ys) = (if xs = [] then limit1 ys else limit1 xs)"
  by (cases xs) simp_all

lemma limit1_map: "limit1 (map f xs) = map_option f (limit1 xs)"
  by (cases xs) simp_all

lemma limit1_unique:
  assumes "x \<in> set xs" and "P x" and "\<And>y. y \<in> set xs \<Longrightarrow> P y \<Longrightarrow> y = x"
  shows "limit1 (filter P xs) = Some x"
proof -
  have "filter P xs \<noteq> []" using assms(1,2) by (auto simp: filter_empty_conv)
  then obtain y ys where f: "filter P xs = y # ys" by (meson neq_Nil_conv)
  then have "y \<in> set xs \<and> P y" by (auto simp: filter_eq_Cons_iff)
  with assms(3) have "y = x" by blast
  with f show ?thesis by simp
qed

text \<open>The first element that satisfies a predicate: the \<^verbatim>\<open>rows[0]\<close> of a unique lookup.\<close>

lemma find_SomeE:
  assumes "find P xs = Some x"
  obtains "x \<in> set xs" and "P x"
  using assms by (auto simp: find_Some_iff)

section \<open>Sequences of calls\<close>

text \<open>Calls issued one after the other, the result of each and the final state.\<close>

fun run_calls :: "('c \<Rightarrow> ('e, 's, 'r) exec) \<Rightarrow> 'c list \<Rightarrow> 's \<Rightarrow> ('e + 'r) list \<times> 's" where
  "run_calls call [] s = ([], s)"
| "run_calls call (c # cs) s =
     (case call c s of (r, s1) \<Rightarrow> (case run_calls call cs s1 of (rs, s2) \<Rightarrow> (r # rs, s2)))"

lemma run_calls_append:
  "run_calls call (xs @ ys) s =
     (case run_calls call xs s of (rs, s1) \<Rightarrow> (case run_calls call ys s1 of (qs, s2) \<Rightarrow> (rs @ qs, s2)))"
  by (induction xs arbitrary: s) (auto split: prod.splits)

lemma length_run_calls: "run_calls call cs s = (rs, s') \<Longrightarrow> length rs = length cs"
  by (induction cs arbitrary: s rs) (auto split: prod.splits)

lemma run_calls_invariant:
  assumes "\<And>c s. c \<in> set cs \<Longrightarrow> I s \<Longrightarrow> I (snd (call c s))" and "I s" and "run_calls call cs s = (rs, s')"
  shows "I s'"
  using assms
proof (induction cs arbitrary: s rs)
  case Nil
  then show ?case by simp
next
  case (Cons c cs)
  obtain r s1 where c: "call c s = (r, s1)" by (cases "call c s")
  with Cons.prems(1) [of c s] Cons.prems(2) have "I s1" by simp
  moreover obtain rs1 where "run_calls call cs s1 = (rs1, s')"
    using Cons.prems(3) c by (auto split: prod.splits)
  ultimately show ?case using Cons.IH Cons.prems(1) by (metis list.set_intros(2))
qed

section \<open>Mapping with exceptions\<close>

text \<open>\<open>xs.map(f)\<close> for a callback that may throw: the first error ends it.\<close>

fun map_throw :: "('a \<Rightarrow> 'e + 'b) \<Rightarrow> 'a list \<Rightarrow> 'e + 'b list" where
  "map_throw f [] = Inr []"
| "map_throw f (x # xs) =
     (case f x of Inl e \<Rightarrow> Inl e
      | Inr y \<Rightarrow> (case map_throw f xs of Inl e \<Rightarrow> Inl e | Inr ys \<Rightarrow> Inr (y # ys)))"

lemma map_throw_Inr: "(\<And>x. x \<in> set xs \<Longrightarrow> f x = Inr (g x)) \<Longrightarrow> map_throw f xs = Inr (map g xs)"
  by (induction xs) auto

lemma map_throw_cong [fundef_cong]:
  assumes "xs = ys" and "\<And>x. x \<in> set ys \<Longrightarrow> f x = g x"
  shows "map_throw f xs = map_throw g ys"
  unfolding assms(1) using assms(2) by (induction ys) (auto split: sum.splits)

lemma map_throw_eq_Inr: "map_throw f xs = Inr ys \<longleftrightarrow> list_all2 (\<lambda>x y. f x = Inr y) xs ys"
proof (induction xs arbitrary: ys)
  case (Cons x xs)
  then show ?case by (cases "f x"; cases "map_throw f xs") (auto simp: list_all2_Cons1 Cons.IH [symmetric])
qed auto

lemma map_throw_Inl: "map_throw f xs = Inl e \<Longrightarrow> \<exists>x \<in> set xs. f x = Inl e"
  by (induction xs) (auto split: sum.splits)

end
