(* ===== verification/StorageErrors.thy ===== *)
theory StorageErrors
  imports Prelude
begin

text \<open>
  The typed error hierarchy (\<^verbatim>\<open>src/src/interfaces/storage-errors.ts\<close> and the error classes of
  every interface), its stable codes and retryability, the values that JavaScript code can throw, the
  \<^verbatim>\<open>AbortSignal\<close> helpers (\<^verbatim>\<open>src/src/postgres/abort.ts\<close>) and the translation of
  driver errors (\<^verbatim>\<open>src/src/postgres/errors.ts\<close>). The human-readable message texts are not
  modelled except where the code copies one; every structured field is.
\<close>

section \<open>The error classes\<close>

datatype retryability = Retryable | NonRetryable | Conditional

datatype fault_kind = ConnectionLost | SerializationFailure | Deadlock | Timeout | ReserveFailed | Unknown

datatype rollback_cause =
    CallbackRequested "string option"
  | ConstraintViolation string "string option"

text \<open>\<^verbatim>\<open>AsOf\<close>, the point-in-time selector, is a field of \<^verbatim>\<open>HistoryUnavailableError\<close>.\<close>

datatype as_of = AsOfVersion int | AsOfAt int

record violation =
  v_setting :: string
  v_value :: string

datatype storage_error =
    ValidationError string
  | SerializationFailedError string
  | ConnectionError string
  | VersionConflictError int "int option"
  | HistoryUnavailableError as_of int int
  | TransactionKeyReuseError jsstr jsstr jsstr
  | CheckpointNotFoundError jsstr jsstr "int option"
  | ChunkMissingError bytes
  | ChunkIntegrityError bytes bytes
  | ManifestCorruptError bytes string
  | TransactionRolledBackError rollback_cause
  | TransactionFaultError fault_kind
  | TransactionHandleInvalidError nat
  | LeaseTimeoutError jsstr int
  | LeaseNotHeldError jsstr
  | LeaseFaultError fault_kind
  | EnvelopeVersionUnsupportedError int
  | EnvelopeCorruptError string
  | ExclusionViolationError string
  | ClockRegressionError string
  | ChainArchiveInvariantError string string
  | ChainArchiveCheckViolationError string string
  | UnrecognizedPostgresError string
  | MigrationLockTimeoutError jsstr int
  | DurabilityContractError "violation list"
  | TransactionPoolerDetectedError
  | BlobIntegrityError jsstr jsstr
  | BlobMissingError jsstr
  | BlockNotFoundError jsstr int "jsstr option"

fun error_code :: "storage_error \<Rightarrow> string" where
  "error_code (ValidationError _) = ''VALIDATION_FAILED''"
| "error_code (SerializationFailedError _) = ''SERIALIZATION_FAILED''"
| "error_code (ConnectionError _) = ''CONNECTION_ERROR''"
| "error_code (VersionConflictError _ _) = ''VERSION_CONFLICT''"
| "error_code (HistoryUnavailableError _ _ _) = ''HISTORY_UNAVAILABLE''"
| "error_code (TransactionKeyReuseError _ _ _) = ''TRANSACTION_KEY_REUSE''"
| "error_code (CheckpointNotFoundError _ _ _) = ''NOT_FOUND''"
| "error_code (ChunkMissingError _) = ''CHUNK_MISSING''"
| "error_code (ChunkIntegrityError _ _) = ''CHUNK_INTEGRITY''"
| "error_code (ManifestCorruptError _ _) = ''MANIFEST_CORRUPT''"
| "error_code (TransactionRolledBackError _) = ''TRANSACTION_ROLLED_BACK''"
| "error_code (TransactionFaultError _) = ''TRANSACTION_FAULT''"
| "error_code (TransactionHandleInvalidError _) = ''TRANSACTION_HANDLE_INVALID''"
| "error_code (LeaseTimeoutError _ _) = ''LEASE_TIMEOUT''"
| "error_code (LeaseNotHeldError _) = ''LEASE_NOT_HELD''"
| "error_code (LeaseFaultError _) = ''LEASE_FAULT''"
| "error_code (EnvelopeVersionUnsupportedError _) = ''VERSION_UNSUPPORTED''"
| "error_code (EnvelopeCorruptError _) = ''CORRUPT''"
| "error_code (ExclusionViolationError _) = ''EXCLUSION_VIOLATION''"
| "error_code (ClockRegressionError _) = ''CLOCK_REGRESSION''"
| "error_code (ChainArchiveInvariantError _ _) = ''CHAIN_ARCHIVE_INVARIANT_VIOLATION''"
| "error_code (ChainArchiveCheckViolationError _ _) = ''CHAIN_ARCHIVE_CHECK_VIOLATION''"
| "error_code (UnrecognizedPostgresError _) = ''UNRECOGNIZED_POSTGRES_ERROR''"
| "error_code (MigrationLockTimeoutError _ _) = ''MIGRATION_LOCK_TIMEOUT''"
| "error_code (DurabilityContractError _) = ''DURABILITY_CONTRACT_VIOLATION''"
| "error_code TransactionPoolerDetectedError = ''TRANSACTION_POOLER_DETECTED''"
| "error_code (BlobIntegrityError _ _) = ''BLOB_INTEGRITY''"
| "error_code (BlobMissingError _) = ''BLOB_MISSING''"
| "error_code (BlockNotFoundError _ _ _) = ''BLOCK_NOT_FOUND''"

fun retryable :: "storage_error \<Rightarrow> retryability" where
  "retryable (ConnectionError _) = Retryable"
| "retryable (TransactionFaultError _) = Retryable"
| "retryable (LeaseTimeoutError _ _) = Retryable"
| "retryable (MigrationLockTimeoutError _ _) = Retryable"
| "retryable (ClockRegressionError _) = Conditional"
| "retryable _ = NonRetryable"

section \<open>Thrown values\<close>

text \<open>
  What a \<^verbatim>\<open>catch (err)\<close> can see: one of the typed errors, an \<^verbatim>\<open>AbortError\<close>, the
  \<^verbatim>\<open>Rollback\<close> signal, any other \<^verbatim>\<open>Error\<close> object with the properties the
  classifier looks at, or a thrown value that is no \<^verbatim>\<open>Error\<close> at all.
\<close>

record err_fields =
  ef_message :: string
  ef_code :: "string option"
  ef_severity :: "string option"
  ef_constraint_name :: "string option"

datatype js_error =
    StorageErr storage_error
  | AbortErr
  | RollbackErr rollback_cause
  | PlainErr err_fields
  | NonError string

definition plain_error :: "string \<Rightarrow> js_error" where
  "plain_error m = PlainErr \<lparr>ef_message = m, ef_code = None, ef_severity = None, ef_constraint_name = None\<rparr>"

text \<open>An error report of the server: SQLSTATE, severity and, where it names one, the constraint.\<close>

definition pg_error :: "string \<Rightarrow> string option \<Rightarrow> js_error" where
  "pg_error code con =
     PlainErr \<lparr>ef_message = [], ef_code = Some code, ef_severity = Some ''ERROR'', ef_constraint_name = con\<rparr>"

abbreviation validation_error :: "string \<Rightarrow> js_error" where
  "validation_error m \<equiv> StorageErr (ValidationError m)"

section \<open>Abort signals\<close>

text \<open>No signal, a signal that has not fired, or one that has, with its reason.\<close>

datatype signal = NoSignal | LiveSignal | Aborted js_error

fun aborted :: "signal \<Rightarrow> bool" where
  "aborted (Aborted _) = True"
| "aborted _ = False"

fun abortError :: "signal \<Rightarrow> js_error" where
  "abortError (Aborted AbortErr) = AbortErr"
| "abortError _ = AbortErr"

definition withAbort :: "(js_error, 's, 'a) exec \<Rightarrow> signal \<Rightarrow> (js_error, 's, 'a) exec" where
  "withAbort fn sig = (if aborted sig then ethrow (abortError sig) else fn)"

lemma abortError_AbortErr [simp]: "abortError sig = AbortErr"
  by (cases sig rule: abortError.cases) auto

lemma withAbort_live [simp]: "\<not> aborted sig \<Longrightarrow> withAbort fn sig = fn"
  by (simp add: withAbort_def)

lemma withAbort_aborted [simp]: "aborted sig \<Longrightarrow> withAbort fn sig s = (Inl AbortErr, s)"
  by (simp add: withAbort_def)

lemma keeps_withAbort [intro]: "keeps P fn \<Longrightarrow> keeps P (withAbort fn sig)"
  by (simp add: withAbort_def keeps_def)

section \<open>Driver errors and their translation\<close>

definition CHAIN_ARCHIVE_INVARIANT_CONSTRAINT_NAMES :: "string list" where
  "CHAIN_ARCHIVE_INVARIANT_CONSTRAINT_NAMES =
     [''chain_blob_roles_completeness'', ''blocks_finalized_monotonic'', ''chain_blob_roles_removal_guard'']"

definition CHAIN_ARCHIVE_CHECK_TABLE_PREFIXES :: "string list" where
  "CHAIN_ARCHIVE_CHECK_TABLE_PREFIXES =
     [''blocks_'', ''transactions_'', ''bridge_observations_'', ''chain_blobs_'', ''chain_blob_roles_'',
      ''verifier_key_observations_'']"

definition starts_with :: "'a list \<Rightarrow> 'a list \<Rightarrow> bool" where
  "starts_with s p \<longleftrightarrow> take (length p) s = p"

definition isChainArchiveCheckConstraintName :: "string \<Rightarrow> bool" where
  "isChainArchiveCheckConstraintName n \<longleftrightarrow> list_ex (starts_with n) CHAIN_ARCHIVE_CHECK_TABLE_PREFIXES"

definition CONNECTION_FAILURE_CODES :: "string list" where
  "CONNECTION_FAILURE_CODES =
     [''ECONNREFUSED'', ''ENOTFOUND'', ''ETIMEDOUT'', ''ECONNRESET'', ''CONNECTION_CLOSED'',
      ''CONNECT_TIMEOUT'', ''CONNECTION_ENDED'', ''CONNECTION_DESTROYED'',
      ''08000'', ''08001'', ''08003'', ''08004'', ''08006'', ''08007'', ''08P01'',
      ''28000'', ''28P01'', ''57P01'', ''57P02'', ''57P03'']"

text \<open>
  The typed errors carry a string \<^verbatim>\<open>code\<close> too, but no \<^verbatim>\<open>severity\<close>; none of their
  codes is a connection-failure code, which \<open>storage_error_not_driver\<close> below checks.
\<close>

fun isPgDriverError :: "js_error \<Rightarrow> bool" where
  "isPgDriverError (PlainErr f) =
     (case ef_code f of
        None \<Rightarrow> False
      | Some c \<Rightarrow> ef_severity f \<noteq> None \<or> List.member CONNECTION_FAILURE_CODES c)"
| "isPgDriverError (StorageErr e) = List.member CONNECTION_FAILURE_CODES (error_code e)"
| "isPgDriverError _ = False"

fun driver_code :: "js_error \<Rightarrow> string" where
  "driver_code (PlainErr f) = (case ef_code f of None \<Rightarrow> [] | Some c \<Rightarrow> c)"
| "driver_code (StorageErr e) = error_code e"
| "driver_code _ = []"

definition isConnectionFailure :: "js_error \<Rightarrow> bool" where
  "isConnectionFailure err \<longleftrightarrow> isPgDriverError err \<and> List.member CONNECTION_FAILURE_CODES (driver_code err)"

definition isStatementTimeout :: "js_error \<Rightarrow> bool" where
  "isStatementTimeout err \<longleftrightarrow> isPgDriverError err \<and> driver_code err = ''57014''"

definition isLockTimeout :: "js_error \<Rightarrow> bool" where
  "isLockTimeout err \<longleftrightarrow> isPgDriverError err \<and> driver_code err = ''55P03''"

text \<open>The \<^verbatim>\<open>switch (err.code)\<close> on a recognised driver error.\<close>

definition translate_code ::
  "string \<Rightarrow> string option \<Rightarrow> string \<Rightarrow> (jsstr \<times> jsstr \<times> jsstr) option \<Rightarrow> storage_error" where
  "translate_code code con msg ctx =
     (if List.member CONNECTION_FAILURE_CODES code then ConnectionError msg
      else if code = ''UB001'' then
        (case ctx of
           Some (ns, scope, key) \<Rightarrow> TransactionKeyReuseError ns scope key
         | None \<Rightarrow> ExclusionViolationError msg)
      else if code = ''23P01'' then ExclusionViolationError msg
      else if code = ''23514'' then
        (case con of
           Some n \<Rightarrow>
             (if List.member CHAIN_ARCHIVE_INVARIANT_CONSTRAINT_NAMES n then ChainArchiveInvariantError msg n
              else if isChainArchiveCheckConstraintName n then ChainArchiveCheckViolationError msg n
              else ClockRegressionError msg)
         | None \<Rightarrow> ClockRegressionError msg)
      else if code = ''40001'' then TransactionFaultError SerializationFailure
      else if code = ''40P01'' then TransactionFaultError Deadlock
      else UnrecognizedPostgresError msg)"

fun translatePostgresError :: "js_error \<Rightarrow> (jsstr \<times> jsstr \<times> jsstr) option \<Rightarrow> js_error" where
  "translatePostgresError (StorageErr e) ctx = StorageErr e"
| "translatePostgresError (NonError s) ctx = plain_error s"
| "translatePostgresError (PlainErr f) ctx =
     (if isPgDriverError (PlainErr f)
      then StorageErr (translate_code (driver_code (PlainErr f)) (ef_constraint_name f) (ef_message f) ctx)
      else PlainErr f)"
| "translatePostgresError e ctx = e"

section \<open>Lemmas\<close>

lemma error_code_not_connection [simp]: "error_code e \<notin> set CONNECTION_FAILURE_CODES"
  by (cases e) (simp_all add: CONNECTION_FAILURE_CODES_def)

lemma storage_error_not_driver: "\<not> isPgDriverError (StorageErr e)"
  by simp

lemma not_connection_failure [simp]:
  "\<not> isConnectionFailure (StorageErr e)" "\<not> isConnectionFailure AbortErr"
  "\<not> isConnectionFailure (RollbackErr c)" "\<not> isConnectionFailure (NonError m)"
  by (simp_all add: isConnectionFailure_def)

lemma not_statement_timeout [simp]:
  "\<not> isStatementTimeout (StorageErr e)" "\<not> isStatementTimeout AbortErr"
  "\<not> isStatementTimeout (RollbackErr c)" "\<not> isStatementTimeout (NonError m)"
  by (simp_all add: isStatementTimeout_def)

lemma translate_pg_error [simp]:
  "translatePostgresError (pg_error code con) ctx = StorageErr (translate_code code con [] ctx)"
  by (simp add: pg_error_def)

lemma translate_code_simps [simp]:
  "translate_code ''UB001'' con m (Some (ns, sc, key)) = TransactionKeyReuseError ns sc key"
  "translate_code ''23P01'' con m ctx = ExclusionViolationError m"
  "translate_code ''23514'' None m ctx = ClockRegressionError m"
  "translate_code ''23514'' (Some ''kv_history_range'') m ctx = ClockRegressionError m"
  "translate_code ''22000'' con m ctx = UnrecognizedPostgresError m"
  "translate_code ''22003'' con m ctx = UnrecognizedPostgresError m"
  "translate_code ''23502'' con m ctx = UnrecognizedPostgresError m"
  "translate_code ''23505'' con m ctx = UnrecognizedPostgresError m"
  "translate_code ''23503'' con m ctx = UnrecognizedPostgresError m"
  by (simp_all add: translate_code_def CONNECTION_FAILURE_CODES_def isChainArchiveCheckConstraintName_def
      CHAIN_ARCHIVE_INVARIANT_CONSTRAINT_NAMES_def CHAIN_ARCHIVE_CHECK_TABLE_PREFIXES_def starts_with_def)

text \<open>
  The retry classes of the catalogue: what is retryable is exactly a connection failure, a
  transaction fault, a lease timeout or a migration-lock timeout.
\<close>

lemma retryable_codes:
  "retryable e = Retryable \<longleftrightarrow>
     error_code e \<in> {''CONNECTION_ERROR'', ''TRANSACTION_FAULT'', ''LEASE_TIMEOUT'', ''MIGRATION_LOCK_TIMEOUT''}"
  by (cases e) simp_all

text \<open>
  No raw driver error escapes: whatever the driver reports, translation yields a typed
  storage error; a typed error passes through unchanged; translating twice is translating once;
  and an error that is not the driver's keeps its identity.
\<close>

lemma translatePostgresError_total:
  "(isPgDriverError err \<longrightarrow> (\<exists>e. translatePostgresError err ctx = StorageErr e))
   \<and> translatePostgresError (StorageErr se) ctx = StorageErr se
   \<and> translatePostgresError (translatePostgresError err ctx) ctx' = translatePostgresError err ctx
   \<and> (\<not> isPgDriverError err \<longrightarrow> (\<forall>m. err \<noteq> NonError m) \<longrightarrow> translatePostgresError err ctx = err)"
  by (cases err) (auto simp: plain_error_def)

end
