(* ===== verification/JsonText.thy ===== *)
theory JsonText
  imports StorageErrors Complex_Main
begin

text \<open>
  Text and value boundaries (\<^verbatim>\<open>src/src/interfaces/temporal-kv.ts\<close>): the PostgreSQL-safe text
  check, JavaScript values and the JSON subset of them, the iterative depth guard, the boundary
  schemas of namespaces, scopes, keys and versions, and the \<^verbatim>\<open>LIKE\<close> escaping of
  \<^verbatim>\<open>listKeys\<close>.
\<close>

section \<open>PostgreSQL-safe text\<close>

definition is_high :: "16 word \<Rightarrow> bool" where
  "is_high u \<longleftrightarrow> 0xD800 \<le> u \<and> u \<le> 0xDBFF"

definition is_low :: "16 word \<Rightarrow> bool" where
  "is_low u \<longleftrightarrow> 0xDC00 \<le> u \<and> u \<le> 0xDFFF"

text \<open>
  \<^verbatim>\<open>LONE_SURROGATE_PATTERN\<close>: a high surrogate with no low one after it (negative look-ahead), or
  a low surrogate with no high one before it (negative look-behind), at any position.
\<close>

definition lone_surrogate_at :: "jsstr \<Rightarrow> nat \<Rightarrow> bool" where
  "lone_surrogate_at s i \<longleftrightarrow>
     (is_high (s ! i) \<and> \<not> (Suc i < length s \<and> is_low (s ! Suc i)))
   \<or> (is_low (s ! i) \<and> \<not> (0 < i \<and> is_high (s ! (i - 1))))"

definition LONE_SURROGATE_PATTERN :: "jsstr \<Rightarrow> bool" where
  "LONE_SURROGATE_PATTERN s \<longleftrightarrow> list_ex (lone_surrogate_at s) [0..<length s]"

definition hasPostgresUnsafeText :: "jsstr \<Rightarrow> bool" where
  "hasPostgresUnsafeText s \<longleftrightarrow> List.member s 0 \<or> LONE_SURROGATE_PATTERN s"

text \<open>The reference: a one-pass reader of well-formed UTF-16.\<close>

fun wf_utf16 :: "jsstr \<Rightarrow> bool" where
  "wf_utf16 [] = True"
| "wf_utf16 (u # us) =
     (if is_high u then (case us of [] \<Rightarrow> False | v # vs \<Rightarrow> is_low v \<and> wf_utf16 vs)
      else \<not> is_low u \<and> wf_utf16 us)"

section \<open>JavaScript values and JSON\<close>

text \<open>
  The values a caller can hand in: JSON values, and the leaves JSON has no form for. Numbers are the
  finite ones, exactly (every finite double is rational); NaN and the infinities are one constructor,
  since every schema treats them alike. An object is its \<^verbatim>\<open>Object.entries\<close>.
\<close>

datatype jsval =
    JNull
  | JUndefined
  | JBool bool
  | JNum rat
  | JNonFinite
  | JStr jsstr
  | JBigint int
  | JDate "int option"
  | JArr "jsval list"
  | JObj "(jsstr \<times> jsval) list"

fun jsonValueHasUnsafeText :: "jsval \<Rightarrow> bool" where
  "jsonValueHasUnsafeText (JStr s) = hasPostgresUnsafeText s"
| "jsonValueHasUnsafeText (JArr xs) = list_ex jsonValueHasUnsafeText xs"
| "jsonValueHasUnsafeText (JObj kvs) =
     list_ex (\<lambda>(k, v). hasPostgresUnsafeText k \<or> jsonValueHasUnsafeText v) kvs"
| "jsonValueHasUnsafeText _ = False"

definition MAX_JSON_DEPTH :: nat where
  "MAX_JSON_DEPTH = 64"

fun children :: "jsval \<Rightarrow> jsval list" where
  "children (JArr xs) = xs"
| "children (JObj kvs) = map snd kvs"
| "children _ = []"

text \<open>The work list of \<^verbatim>\<open>exceedsMaxDepth\<close>; the top of the JavaScript stack is the head.\<close>

lemma sum_list_children: "(\<Sum>c\<leftarrow>children v. Suc (size c)) \<le> size v"
proof (cases v)
  case (JArr xs)
  have "(\<Sum>c\<leftarrow>xs. Suc (size c)) = size_list size xs" by (induction xs) auto
  with JArr show ?thesis by simp
next
  case (JObj kvs)
  have "(\<Sum>c\<leftarrow>map snd kvs. Suc (size c)) \<le> size_list (size_prod (\<lambda>_. 0) size) kvs"
    by (induction kvs) auto
  with JObj show ?thesis by simp
qed auto

function depth_loop :: "nat \<Rightarrow> (jsval \<times> nat) list \<Rightarrow> bool" where
  "depth_loop maxDepth [] = False"
| "depth_loop maxDepth ((v, depth) # stack) =
     (if maxDepth < depth then True
      else depth_loop maxDepth (rev (map (\<lambda>c. (c, depth + 1)) (children v)) @ stack))"
  by pat_completeness auto
termination
proof (relation "measure (\<lambda>(n, st). \<Sum>p\<leftarrow>st. Suc (size (fst p)))", simp)
  fix maxDepth depth :: nat and v stack
  have "(\<Sum>p\<leftarrow>rev (map (\<lambda>c. (c, depth + 1)) (children v)). Suc (size (fst p)))
        = (\<Sum>c\<leftarrow>children v. Suc (size c))"
    by (simp add: rev_map [symmetric] sum_list_rev o_def)
  also have "\<dots> < Suc (size v)"
    using sum_list_children [of v] by simp
  finally show "((maxDepth, rev (map (\<lambda>c. (c, depth + 1)) (children v)) @ stack),
      maxDepth, (v, depth) # stack) \<in> measure (\<lambda>(n, st). \<Sum>p\<leftarrow>st. Suc (size (fst p)))"
    by simp
qed

definition exceedsMaxDepth :: "jsval \<Rightarrow> nat \<Rightarrow> bool" where
  "exceedsMaxDepth value maxDepth = depth_loop maxDepth [(value, 0)]"

text \<open>The nesting depth of a value, by recursion on its structure: the reference.\<close>

fun json_depth :: "jsval \<Rightarrow> nat" where
  "json_depth (JArr xs) = fold max (map (\<lambda>x. Suc (json_depth x)) xs) 0"
| "json_depth (JObj kvs) = fold max (map (\<lambda>(k, v). Suc (json_depth v)) kvs) 0"
| "json_depth _ = 0"

section \<open>Boundary schemas\<close>

text \<open>\<^verbatim>\<open>z.json()\<close> accepts exactly the JSON values.\<close>

fun z_json :: "jsval \<Rightarrow> bool" where
  "z_json JNull = True"
| "z_json (JBool _) = True"
| "z_json (JNum _) = True"
| "z_json (JStr _) = True"
| "z_json (JArr xs) = list_all z_json xs"
| "z_json (JObj kvs) = list_all (\<lambda>(k, v). z_json v) kvs"
| "z_json _ = False"

definition JsonValueInnerSchema :: "jsval \<Rightarrow> bool" where
  "JsonValueInnerSchema v \<longleftrightarrow> z_json v \<and> \<not> jsonValueHasUnsafeText v"

definition JsonValueSchema :: "jsval \<Rightarrow> bool" where
  "JsonValueSchema v = (if exceedsMaxDepth v MAX_JSON_DEPTH then False else JsonValueInnerSchema v)"

definition NamespaceSchema :: "jsstr \<Rightarrow> bool" where
  "NamespaceSchema s \<longleftrightarrow> 1 \<le> length s \<and> length s \<le> 63 \<and> \<not> hasPostgresUnsafeText s"

definition ScopeSchema :: "jsstr \<Rightarrow> bool" where
  "ScopeSchema s \<longleftrightarrow> 1 \<le> length s \<and> length s \<le> 63 \<and> \<not> hasPostgresUnsafeText s"

definition KeySchema :: "jsstr \<Rightarrow> bool" where
  "KeySchema s \<longleftrightarrow> 1 \<le> length s \<and> \<not> hasPostgresUnsafeText s"

definition POSTGRES_BIGINT_MAX :: int where
  "POSTGRES_BIGINT_MAX = 9223372036854775807"

definition StoredVersionSchema :: "int \<Rightarrow> bool" where
  "StoredVersionSchema v \<longleftrightarrow> 0 < v \<and> v \<le> POSTGRES_BIGINT_MAX"

definition ExpectedVersionSchema :: "int \<Rightarrow> bool" where
  "ExpectedVersionSchema v \<longleftrightarrow> 0 \<le> v \<and> v \<le> POSTGRES_BIGINT_MAX"

section \<open>LIKE patterns\<close>

definition percent :: "16 word" where "percent = 0x25"
definition underscore :: "16 word" where "underscore = 0x5F"
definition backslash :: "16 word" where "backslash = 0x5C"

lemmas like_chars = percent_def underscore_def backslash_def

definition escapeLikePrefix :: "jsstr \<Rightarrow> jsstr" where
  "escapeLikePrefix s =
     concat (map (\<lambda>c. if c = backslash \<or> c = percent \<or> c = underscore then [backslash, c] else [c]) s)"

text \<open>\<^verbatim>\<open>key LIKE pattern ESCAPE '\\'\<close>. A pattern that ends in the escape character matches nothing here.\<close>

function like :: "jsstr \<Rightarrow> jsstr \<Rightarrow> bool" where
  "like [] s = (s = [])"
| "like (p # ps) s =
     (if p = backslash then
        (case (ps, s) of (q # qs, c # cs) \<Rightarrow> c = q \<and> like qs cs | _ \<Rightarrow> False)
      else if p = percent then like ps s \<or> (case s of [] \<Rightarrow> False | c # cs \<Rightarrow> like (p # ps) cs)
      else if p = underscore then (case s of [] \<Rightarrow> False | c # cs \<Rightarrow> like ps cs)
      else (case s of [] \<Rightarrow> False | c # cs \<Rightarrow> c = p \<and> like ps cs))"
  by pat_completeness auto
termination
  by (relation "measure (\<lambda>(p, s). length p + length s)") auto

section \<open>Lemmas\<close>

lemma is_low_not_high: "is_low u \<Longrightarrow> \<not> is_high u"
  unfolding is_low_def is_high_def word_le_nat_alt by simp

lemma LONE_SURROGATE_iff: "LONE_SURROGATE_PATTERN s \<longleftrightarrow> (\<exists>i < length s. lone_surrogate_at s i)"
  by (auto simp: LONE_SURROGATE_PATTERN_def list_ex_iff)

text \<open>Reading after a given previous unit: what the look-behind sees at the first position.\<close>

definition lone_after :: "16 word option \<Rightarrow> jsstr \<Rightarrow> bool" where
  "lone_after p s \<longleftrightarrow> (\<exists>i < length s.
     (is_high (s ! i) \<and> \<not> (Suc i < length s \<and> is_low (s ! Suc i)))
   \<or> (is_low (s ! i) \<and> \<not> (if i = 0 then (case p of None \<Rightarrow> False | Some q \<Rightarrow> is_high q)
                          else is_high (s ! (i - 1)))))"

lemma lone_after_None: "lone_after None s = LONE_SURROGATE_PATTERN s"
  unfolding LONE_SURROGATE_iff lone_after_def lone_surrogate_at_def
  by (intro ex_cong1 conj_cong refl disj_cong) (auto split: if_splits)

lemma lone_after_Nil [simp]: "\<not> lone_after p []"
  by (simp add: lone_after_def)

lemma lone_after_Cons:
  "lone_after p (u # s) \<longleftrightarrow>
     (is_high u \<and> \<not> (s \<noteq> [] \<and> is_low (hd s)))
   \<or> (is_low u \<and> \<not> (case p of None \<Rightarrow> False | Some q \<Rightarrow> is_high q))
   \<or> lone_after (Some u) s" (is "?L \<longleftrightarrow> ?A \<or> ?B \<or> ?C")
proof -
  have "?L \<longleftrightarrow> (?A \<or> ?B) \<or> (\<exists>i < length s.
     (is_high (s ! i) \<and> \<not> (Suc i < length s \<and> is_low (s ! Suc i)))
   \<or> (is_low (s ! i) \<and> \<not> (is_high ((u # s) ! i))))"
    unfolding lone_after_def length_Cons Ex_less_Suc2
    by (cases s) (simp_all add: hd_conv_nth)
  also have "(\<exists>i < length s.
     (is_high (s ! i) \<and> \<not> (Suc i < length s \<and> is_low (s ! Suc i)))
   \<or> (is_low (s ! i) \<and> \<not> (is_high ((u # s) ! i)))) \<longleftrightarrow> ?C"
    unfolding lone_after_def by (intro ex_cong1) (auto simp: nth_Cons' )
  finally show ?thesis by blast
qed

lemma lone_after_pair:
  "is_low v \<Longrightarrow> lone_after (Some v) s = lone_after None s"
proof (cases s)
  case (Cons w s')
  assume "is_low v"
  then have "\<not> is_high v" by (rule is_low_not_high)
  with Cons show ?thesis by (simp add: lone_after_Cons)
qed simp

lemma lone_after_other: "\<not> is_high v \<Longrightarrow> lone_after (Some v) s = lone_after None s"
  by (cases s) (simp_all add: lone_after_Cons)

lemma wf_utf16_lone_after: "wf_utf16 s \<longleftrightarrow> \<not> lone_after None s"
proof (induction s rule: wf_utf16.induct)
  case 1
  then show ?case by simp
next
  case (2 u us)
  show ?case
  proof (cases "is_high u")
    case True
    show ?thesis
    proof (cases us)
      case Nil
      with True show ?thesis by (simp add: lone_after_Cons)
    next
      case (Cons v vs)
      with True 2 is_low_not_high [of u] is_low_not_high [of v] show ?thesis
        by (auto simp: lone_after_Cons [of _ u] lone_after_Cons [of _ v] lone_after_pair)
    qed
  next
    case False
    with 2 show ?thesis by (simp add: lone_after_Cons [of _ u] lone_after_other)
  qed
qed

lemma fold_max_gt: "(n::nat) < fold max xs a \<longleftrightarrow> n < a \<or> (\<exists>x \<in> set xs. n < x)"
  by (induction xs arbitrary: a) auto

lemma json_depth_gt: "n < json_depth v \<longleftrightarrow> (\<exists>c \<in> set (children v). n < Suc (json_depth c))"
  by (cases v) (simp_all add: fold_max_gt case_prod_beta)

lemma depth_loop_iff: "depth_loop n st \<longleftrightarrow> (\<exists>(v, d) \<in> set st. n < d + json_depth v)"
proof (induction n st rule: depth_loop.induct)
  case (1 n)
  then show ?case by simp
next
  case (2 n v d st)
  show ?case
  proof (cases "n < d")
    case True
    then show ?thesis by auto
  next
    case False
    have "n < d + json_depth v \<longleftrightarrow> n - d < json_depth v" using False by arith
    also have "\<dots> \<longleftrightarrow> (\<exists>c \<in> set (children v). n < d + 1 + json_depth c)"
      unfolding json_depth_gt [of "n - d" v] using False by (intro bex_cong refl) arith
    finally show ?thesis using 2 False by (simp add: bex_Un)
  qed
qed

lemma exceedsMaxDepth_iff: "exceedsMaxDepth v n \<longleftrightarrow> n < json_depth v"
  by (simp add: exceedsMaxDepth_def depth_loop_iff)

lemma like_percent_end: "like [percent] s"
  by (induction s) (simp_all add: like_chars)

lemma like_escaped:
  "like (escapeLikePrefix p @ q) s \<longleftrightarrow> starts_with s p \<and> like q (drop (length p) s)"
proof (induction p arbitrary: s)
  case Nil
  then show ?case by (simp add: escapeLikePrefix_def starts_with_def)
next
  case (Cons c p)
  show ?case
  proof (cases s)
    case Nil
    then show ?thesis by (simp add: escapeLikePrefix_def starts_with_def)
  next
    case (Cons d t)
    with Cons.IH [of t] show ?thesis
      by (auto simp: escapeLikePrefix_def starts_with_def)
  qed
qed

section \<open>Properties\<close>

text \<open>
  The text boundary is exact: a string passes \<open>hasPostgresUnsafeText\<close> if and only if it has
  no NUL and is well-formed UTF-16, as the one-pass reader decides it.
\<close>

lemma hasPostgresUnsafeText_exact:
  "\<not> hasPostgresUnsafeText s \<longleftrightarrow> 0 \<notin> set s \<and> wf_utf16 s"
  by (simp add: hasPostgresUnsafeText_def wf_utf16_lone_after lone_after_None)

text \<open>
  The iterative depth walk with its explicit stack decides the recursive nesting depth: a value is
  rejected exactly when some leaf or container lies deeper than the bound, so an accepted JSON value
  is at most 64 levels deep.
\<close>

lemma exceedsMaxDepth_exact:
  "(exceedsMaxDepth v n \<longleftrightarrow> n < json_depth v) \<and> (JsonValueSchema w \<longrightarrow> json_depth w \<le> 64)"
  by (auto simp: exceedsMaxDepth_iff JsonValueSchema_def MAX_JSON_DEPTH_def split: if_splits)

text \<open>
  A prefix query is literal: whatever metacharacters the caller's prefix holds, the escaped pattern
  followed by \<^verbatim>\<open>%\<close> matches exactly the strings that start with the prefix.
\<close>

lemma like_escapeLikePrefix: "like (escapeLikePrefix p @ [percent]) s \<longleftrightarrow> starts_with s p"
  by (simp only: like_escaped like_percent_end simp_thms)

end
