(* ===== verification/Schema.thy ===== *)
theory Schema
  imports JsonText
begin

text \<open>
  The Tier-1 tables, as the migrations \<^verbatim>\<open>000\<close> to \<^verbatim>\<open>006\<close> under
  \<^verbatim>\<open>src/src/postgres/migrations\<close> create them. A table with a primary key is an association
  list from the key to the row; a table that is only scanned is a list of rows in insertion order.
  Timestamps are microseconds, the precision of \<^verbatim>\<open>timestamptz\<close>; a JavaScript
  \<^verbatim>\<open>Date\<close> is milliseconds.
\<close>

section \<open>Server time\<close>

text \<open>
  What a statement can observe of the server: \<^verbatim>\<open>now()\<close> (fixed at transaction start),
  \<^verbatim>\<open>clock_timestamp()\<close> (read during the statement) and \<^verbatim>\<open>txid_current()\<close>;
  and which of the statements a method issues, numbered in the order the method issues them, the
  driver or the server fails, with which error.
\<close>

record pg_env =
  env_now :: int
  env_clock :: int
  env_xact :: int
  env_faults :: "nat \<Rightarrow> js_error option"

text \<open>A server that answers: a clock, a transaction id, and no failing statement.\<close>

definition quiet :: "int \<Rightarrow> int \<Rightarrow> pg_env" where
  "quiet clock xact = \<lparr>env_now = clock, env_clock = clock, env_xact = xact, env_faults = (\<lambda>_. None)\<rparr>"

lemma quiet_simps [simp]:
  "env_now (quiet c x) = c" "env_clock (quiet c x) = c" "env_xact (quiet c x) = x"
  "env_faults (quiet c x) = (\<lambda>_. None)"
  by (simp_all add: quiet_def)

text \<open>The \<open>n\<close>-th statement of a method: it fails as the environment says, or runs.\<close>

definition stmt :: "pg_env \<Rightarrow> nat \<Rightarrow> (js_error, 's, 'a) exec \<Rightarrow> (js_error, 's, 'a) exec" where
  "stmt env n m s = (case env_faults env n of Some e \<Rightarrow> (Inl e, s) | None \<Rightarrow> m s)"

lemma stmt_ok [simp]: "env_faults env n = None \<Longrightarrow> stmt env n m = m"
  by (rule ext) (simp add: stmt_def)

lemma stmt_Inr: "stmt env n m s = (Inr a, t) \<longleftrightarrow> env_faults env n = None \<and> m s = (Inr a, t)"
  by (auto simp: stmt_def split: option.splits)

lemma keeps_stmt [intro]: "keeps P m \<Longrightarrow> keeps P (stmt env n m)"
  by (auto simp: keeps_def stmt_def split: option.splits)

text \<open>A loop that issues one statement per batch, the first of them number \<open>n\<close>.\<close>

fun stmts :: "pg_env \<Rightarrow> nat \<Rightarrow> ('b \<Rightarrow> (js_error, 's, unit) exec) \<Rightarrow> 'b list \<Rightarrow> (js_error, 's, unit) exec" where
  "stmts env n f [] = eret ()"
| "stmts env n f (b # bs) = ebind (stmt env n (f b)) (\<lambda>_. stmts env (Suc n) f bs)"

lemma stmts_ok: "env_faults env = (\<lambda>_. None) \<Longrightarrow> stmts env n f bs = eforeach f bs"
  by (induction bs arbitrary: n) simp_all

lemma stmts_Inr: "stmts env n f bs s = (Inr u, t) \<Longrightarrow> eforeach f bs s = (Inr u, t)"
  by (induction bs arbitrary: n s) (auto simp: ebind_def stmt_Inr stmt_def split: prod.splits sum.splits option.splits)

lemma keeps_stmts: "(\<And>b. b \<in> set bs \<Longrightarrow> keeps P (f b)) \<Longrightarrow> keeps P (stmts env n f bs)"
  by (induction bs arbitrary: n) (auto intro!: keeps_ebind keeps_stmt)

text \<open>
  A statement binds one parameter per value; the driver refuses a statement with 65534 parameters or
  more (\<^verbatim>\<open>checkpoint-store.ts\<close> lines 38 to 60).
\<close>

definition bind_params :: "nat \<Rightarrow> (js_error, 's, 'a) exec \<Rightarrow> (js_error, 's, 'a) exec" where
  "bind_params n m = (if 65534 \<le> n then ethrow (plain_error ''MAX_PARAMETERS_EXCEEDED'') else m)"

lemma bind_params_ok [simp]: "n < 65534 \<Longrightarrow> bind_params n m = m"
  by (simp add: bind_params_def)

lemma keeps_bind_params [intro]: "keeps P m \<Longrightarrow> keeps P (bind_params n m)"
  by (simp add: bind_params_def)

text \<open>
  A text parameter: the server refuses U+0000 (SQLSTATE 22021), and the UTF-8 encoder of the runtime
  replaces an unpaired surrogate by U+FFFD.
\<close>

definition utf8_text :: "jsstr \<Rightarrow> jsstr" where
  "utf8_text s = map (\<lambda>i. if lone_surrogate_at s i then 0xFFFD else s ! i) [0..<length s]"

definition bind_text :: "jsstr \<Rightarrow> js_error + jsstr" where
  "bind_text s = (if 0 \<in> set s then Inl (pg_error ''22021'' None) else Inr (utf8_text s))"

lemma utf8_text_safe: "\<not> hasPostgresUnsafeText s \<Longrightarrow> utf8_text s = s"
  by (rule nth_equalityI) (auto simp: utf8_text_def hasPostgresUnsafeText_def LONE_SURROGATE_iff)

lemma bind_text_safe [simp]: "\<not> hasPostgresUnsafeText s \<Longrightarrow> bind_text s = Inr s"
  by (simp add: bind_text_def utf8_text_safe) (simp add: hasPostgresUnsafeText_def)

definition date_trunc_ms :: "int \<Rightarrow> int" where
  "date_trunc_ms t = t div 1000 * 1000"

text \<open>Crossing the driver: \<^verbatim>\<open>timestamptz\<close> to \<^verbatim>\<open>Date\<close> and back.\<close>

definition to_Date :: "int \<Rightarrow> int" where
  "to_Date t = t div 1000"

definition of_Date :: "int \<Rightarrow> int" where
  "of_Date d = d * 1000"

lemma of_Date_to_Date [simp]: "of_Date (to_Date (date_trunc_ms t)) = date_trunc_ms t"
  by (simp add: of_Date_def to_Date_def date_trunc_ms_def)

lemma of_Date_aligned: "t mod 1000 = 0 \<Longrightarrow> of_Date (to_Date t) = t"
  by (simp add: of_Date_def to_Date_def) (metis add.right_neutral div_mult_mod_eq)

section \<open>Rows\<close>

type_synonym kvkey = "jsstr \<times> jsstr \<times> jsstr"

record kv_current_row =
  c_value :: jsval
  c_version :: int
  c_updated_at :: int
  c_updated_xact :: int

record kv_history_row =
  h_key :: kvkey
  h_value :: jsval
  h_version :: int
  h_valid_from :: int
  h_valid_to :: int

record chunk_row =
  ch_data :: bytes
  ch_created_at :: int

record manifest_row =
  m_id :: int
  m_w :: jsstr
  m_net :: jsstr
  m_seq :: int
  m_complete :: bool
  m_manifest_hash :: bytes
  m_label :: "jsstr option"
  m_created_at :: int

record manifest_chunk_row =
  mc_manifest_id :: int
  mc_position :: nat
  mc_chunk_hash :: bytes

record watermark_row =
  w_value :: jsval
  w_updated_at :: int

record tx_history_row =
  t_entry :: jsval
  t_identifiers :: "jsstr list"
  t_lifecycle :: string
  t_updated_at :: int

text \<open>
  \<^verbatim>\<open>ckpt_chunks.size_bytes\<close> is a generated column: a function of the row.
\<close>

definition size_bytes :: "chunk_row \<Rightarrow> int" where
  "size_bytes r = int (length (ch_data r))"

section \<open>The database\<close>

text \<open>
  \<^verbatim>\<open>ckpt_next_id\<close> is the sequence behind the \<^verbatim>\<open>bigserial\<close> of
  \<^verbatim>\<open>ckpt_manifests.id\<close>. The server does not undo a sequence on rollback; the model does, which
  changes only which fresh number a later manifest gets.
\<close>

record db =
  kv_current :: "(kvkey \<times> kv_current_row) list"
  kv_history :: "kv_history_row list"
  ckpt_chunks :: "(bytes \<times> chunk_row) list"
  ckpt_manifests :: "manifest_row list"
  ckpt_manifest_chunks :: "manifest_chunk_row list"
  ckpt_sequence_counters :: "((jsstr \<times> jsstr) \<times> int) list"
  ckpt_next_id :: int
  watermarks :: "((jsstr \<times> jsstr) \<times> watermark_row) list"
  transaction_history :: "((jsstr \<times> jsstr) \<times> tx_history_row) list"

definition empty_db :: db where
  "empty_db = \<lparr>kv_current = [], kv_history = [], ckpt_chunks = [], ckpt_manifests = [],
     ckpt_manifest_chunks = [], ckpt_sequence_counters = [], ckpt_next_id = 1, watermarks = [],
     transaction_history = []\<rparr>"

lemma empty_db_simps [simp]:
  "kv_current empty_db = []" "kv_history empty_db = []" "ckpt_chunks empty_db = []"
  "ckpt_manifests empty_db = []" "ckpt_manifest_chunks empty_db = []" "ckpt_sequence_counters empty_db = []"
  "ckpt_next_id empty_db = 1" "watermarks empty_db = []" "transaction_history empty_db = []"
  by (simp_all add: empty_db_def)

text \<open>A computation on the database: what a method does once its connection is known.\<close>

type_synonym 'a dbrun = "(js_error, db, 'a) exec"

end
