(* ===== verification/TransactionLease.thy ===== *)
theory TransactionLease
  imports Schema
begin

text \<open>
  Transactions (\<^verbatim>\<open>src/src/postgres/transaction-lease.ts\<close>, first half, with the options of
  \<^verbatim>\<open>src/src/interfaces/transaction-lease.ts\<close>): the module-level registry of live transaction
  handles, \<^verbatim>\<open>resolveTransaction\<close>, and \<^verbatim>\<open>withTransaction\<close> with its validation,
  abort pre-check, commit or rollback, and error mapping.
\<close>

section \<open>State\<close>

text \<open>
  The world an adapter method runs in: the database as the transaction's connection sees it, the
  registry \<^verbatim>\<open>activeTransactions\<close>, and the supply of \<^verbatim>\<open>randomUUID()\<close>. A UUID is
  a number drawn from the supply: what the code relies on is that no two draws are equal.
\<close>

record world =
  w_db :: db
  active_transactions :: "nat list"
  next_uuid :: nat

definition initial_world :: world where
  "initial_world = \<lparr>w_db = empty_db, active_transactions = [], next_uuid = 0\<rparr>"

lemma initial_world_simps [simp]:
  "w_db initial_world = empty_db" "active_transactions initial_world = []" "next_uuid initial_world = 0"
  by (simp_all add: initial_world_def)

type_synonym 'a run = "(js_error, world, 'a) exec"

definition registerTransaction :: "nat run" where
  "registerTransaction w =
     (Inr (next_uuid w),
      w\<lparr>active_transactions := next_uuid w # active_transactions w, next_uuid := Suc (next_uuid w)\<rparr>)"

definition unregisterTransaction :: "nat \<Rightarrow> world \<Rightarrow> world" where
  "unregisterTransaction h w = w\<lparr>active_transactions := filter (\<lambda>x. x \<noteq> h) (active_transactions w)\<rparr>"

text \<open>
  The value a handle resolves to is the transaction-scoped \<^verbatim>\<open>sql\<close>; the database it works on
  is \<open>w_db\<close>, so resolving only checks that the handle is live.
\<close>

definition resolveTransaction :: "nat \<Rightarrow> unit run" where
  "resolveTransaction h w =
     (if List.member (active_transactions w) h then (Inr (), w)
      else (Inl (StorageErr (TransactionHandleInvalidError h)), w))"

text \<open>
  \<^verbatim>\<open>opts.tx !== undefined ? resolveTransaction(opts.tx) : this.sql\<close>, the first line of every
  adapter method; and running a computation on the database of the chosen connection.
\<close>

definition sql_of :: "nat option \<Rightarrow> unit run" where
  "sql_of tx = (case tx of None \<Rightarrow> eret () | Some h \<Rightarrow> resolveTransaction h)"

definition on_db :: "'a dbrun \<Rightarrow> 'a run" where
  "on_db m w = (case m (w_db w) of (r, d) \<Rightarrow> (r, w\<lparr>w_db := d\<rparr>))"

section \<open>Options\<close>

definition POSTGRES_INT4_MAX :: rat where
  "POSTGRES_INT4_MAX = 2147483647"

definition timeout_schema :: "rat option \<Rightarrow> bool" where
  "timeout_schema t \<longleftrightarrow>
     (case t of None \<Rightarrow> True | Some x \<Rightarrow> x \<in> \<int> \<and> 0 < x \<and> x \<le> POSTGRES_INT4_MAX)"

record tx_options =
  o_isolation :: "string option"
  o_timeoutMs :: "rat option"
  o_signal :: signal

definition TransactionOptionsSchema :: "tx_options \<Rightarrow> bool" where
  "TransactionOptionsSchema opts \<longleftrightarrow>
     (case o_isolation opts of None \<Rightarrow> True
      | Some i \<Rightarrow> List.member [''read committed'', ''repeatable read'', ''serializable''] i)
   \<and> timeout_schema (o_timeoutMs opts)"

definition no_tx_options :: tx_options where
  "no_tx_options = \<lparr>o_isolation = None, o_timeoutMs = None, o_signal = NoSignal\<rparr>"

definition repeatable_read :: tx_options where
  "repeatable_read = no_tx_options\<lparr>o_isolation := Some ''repeatable read''\<rparr>"

definition validateTransactionOptions :: "tx_options \<Rightarrow> js_error + tx_options" where
  "validateTransactionOptions opts =
     (if TransactionOptionsSchema opts then Inr opts
      else Inl (validation_error ''PgTransactionLeaseLayer withTransaction opts''))"

section \<open>withTransaction\<close>

text \<open>What the driver and the server may do to the statements the layer itself issues.\<close>

record tx_faults =
  f_begin :: "js_error option"
  f_set_timeout :: "js_error option"
  f_commit :: "js_error option"

definition no_faults :: tx_faults where
  "no_faults = \<lparr>f_begin = None, f_set_timeout = None, f_commit = None\<rparr>"

text \<open>The callback given to \<^verbatim>\<open>sql.begin\<close>: timeout, register, run, always unregister.\<close>

definition txCallback ::
  "tx_options \<Rightarrow> tx_faults \<Rightarrow> (nat \<Rightarrow> 'a run) \<Rightarrow> 'a run" where
  "txCallback opts fl fn w =
     (case (o_timeoutMs opts, f_set_timeout fl) of
        (Some _, Some e) \<Rightarrow> (Inl e, w)
      | _ \<Rightarrow>
          (case registerTransaction w of
             (Inl e, w1) \<Rightarrow> (Inl e, w1)
           | (Inr h, w1) \<Rightarrow>
               (case fn h w1 of (r, w2) \<Rightarrow> (r, unregisterTransaction h w2))))"

text \<open>
  \<^verbatim>\<open>this.sql.begin(...)\<close>: only the database is restored on rollback; the registry and the
  UUID supply are process memory.
\<close>

definition layer_begin :: "tx_faults \<Rightarrow> 'a run \<Rightarrow> 'a run" where
  "layer_begin fl body w =
     (case f_begin fl of
        Some e \<Rightarrow> (Inl e, w)
      | None \<Rightarrow>
          (case body w of
             (Inl e, w') \<Rightarrow> (Inl e, w'\<lparr>w_db := w_db w\<rparr>)
           | (Inr a, w') \<Rightarrow>
               (case f_commit fl of
                  Some e \<Rightarrow> (Inl e, w'\<lparr>w_db := w_db w\<rparr>)
                | None \<Rightarrow> (Inr a, w'))))"

definition map_tx_error :: "tx_options \<Rightarrow> js_error \<Rightarrow> js_error" where
  "map_tx_error opts err =
     (case err of
        RollbackErr c \<Rightarrow> StorageErr (TransactionRolledBackError c)
      | _ \<Rightarrow>
          (if isStatementTimeout err \<and> o_timeoutMs opts \<noteq> None
           then StorageErr (TransactionFaultError Timeout)
           else if isConnectionFailure err then StorageErr (TransactionFaultError ConnectionLost)
           else translatePostgresError err None))"

definition withTransaction ::
  "(nat \<Rightarrow> 'a run) \<Rightarrow> tx_options \<Rightarrow> tx_faults \<Rightarrow> 'a run" where
  "withTransaction fn opts fl =
     ebind (elift (validateTransactionOptions opts)) (\<lambda>validated.
       emap_error (map_tx_error validated)
         (withAbort (layer_begin fl (txCallback validated fl fn)) (o_signal validated)))"

section \<open>Lemmas\<close>

lemma sql_of_None [simp]: "sql_of None = eret ()"
  by (simp add: sql_of_def)

lemma sql_of_Some [simp]: "sql_of (Some h) = resolveTransaction h"
  by (simp add: sql_of_def)

lemma sql_of_state: "sql_of tx w = (r, w') \<Longrightarrow> w' = w"
  by (auto simp: sql_of_def resolveTransaction_def split: option.splits if_splits)

text \<open>The connection a method may use: the pool's, or that of a live transaction.\<close>

definition usable :: "nat option \<Rightarrow> world \<Rightarrow> bool" where
  "usable tx w \<longleftrightarrow> (case tx of None \<Rightarrow> True | Some h \<Rightarrow> h \<in> set (active_transactions w))"

lemma sql_of_usable [simp]: "usable tx w \<Longrightarrow> sql_of tx w = (Inr (), w)"
  by (auto simp: sql_of_def usable_def resolveTransaction_def split: option.splits)

lemma usable_None [simp]: "usable None w"
  by (simp add: usable_def)

lemma sql_of_Inr: "sql_of tx w = (Inr u, w') \<longleftrightarrow> usable tx w \<and> w' = w"
  by (auto simp: sql_of_def usable_def resolveTransaction_def split: option.splits)

lemma keeps_sql_of [intro]: "keeps P (sql_of tx)"
  by (simp add: keeps_def) (metis sql_of_state prod.collapse)

lemma on_db_Inr: "on_db m w = (Inr a, w') \<longleftrightarrow> (\<exists>d. m (w_db w) = (Inr a, d) \<and> w' = w\<lparr>w_db := d\<rparr>)"
  by (auto simp: on_db_def split: prod.splits)

lemma fst_on_db [simp]: "fst (on_db m w) = fst (m (w_db w))"
  by (simp add: on_db_def split: prod.splits)

lemma w_db_on_db [simp]: "w_db (snd (on_db m w)) = snd (m (w_db w))"
  by (simp add: on_db_def split: prod.splits)

lemma keeps_on_db: "keeps P m \<Longrightarrow> keeps (\<lambda>w. P (w_db w)) (on_db m)"
  by (simp add: keeps_def)

lemma resolveTransaction_live [simp]:
  "h \<in> set (active_transactions w) \<Longrightarrow> resolveTransaction h w = (Inr (), w)"
  by (simp add: resolveTransaction_def)

lemma resolveTransaction_stale [simp]:
  "h \<notin> set (active_transactions w) \<Longrightarrow>
   resolveTransaction h w = (Inl (StorageErr (TransactionHandleInvalidError h)), w)"
  by (simp add: resolveTransaction_def)

lemma tx_options_signal [simp]:
  "o_signal no_tx_options = NoSignal" "o_signal repeatable_read = NoSignal"
  by (simp_all add: no_tx_options_def repeatable_read_def)

lemma no_tx_options_valid [simp]: "validateTransactionOptions no_tx_options = Inr no_tx_options"
  by (simp add: validateTransactionOptions_def TransactionOptionsSchema_def no_tx_options_def
      timeout_schema_def)

lemma repeatable_read_valid [simp]: "validateTransactionOptions repeatable_read = Inr repeatable_read"
  by (simp add: validateTransactionOptions_def TransactionOptionsSchema_def repeatable_read_def
      no_tx_options_def timeout_schema_def)

text \<open>What \<open>fn\<close> sees: the same database, and its own handle live.\<close>

definition opened :: "world \<Rightarrow> world" where
  "opened w = w\<lparr>active_transactions := next_uuid w # active_transactions w, next_uuid := Suc (next_uuid w)\<rparr>"

lemma opened_simps [simp]:
  "w_db (opened w) = w_db w" "next_uuid w \<in> set (active_transactions (opened w))"
  "next_uuid (opened w) = Suc (next_uuid w)"
  "active_transactions (opened w) = next_uuid w # active_transactions w"
  by (simp_all add: opened_def)

lemma w_db_unregister [simp]: "w_db (unregisterTransaction h w) = w_db w"
  by (simp add: unregisterTransaction_def)

lemma registerTransaction_opened: "registerTransaction w = (Inr (next_uuid w), opened w)"
  by (simp add: registerTransaction_def opened_def)

lemma withTransaction_rollback:
  "withTransaction fn opts fl w = (Inl e, w') \<Longrightarrow> w_db w' = w_db w"
  by (auto simp: withTransaction_def validateTransactionOptions_def emap_error_Inl layer_begin_def
      withAbort_def txCallback_def registerTransaction_opened
      split: if_splits option.splits prod.splits sum.splits)

lemma withTransaction_commit:
  assumes "withTransaction fn opts fl w = (Inr a, w')"
  shows "\<exists>w2. fn (next_uuid w) (opened w) = (Inr a, w2) \<and> w' = unregisterTransaction (next_uuid w) w2"
  using assms
  by (auto simp: withTransaction_def validateTransactionOptions_def layer_begin_def
      withAbort_def txCallback_def registerTransaction_opened
      split: if_splits option.splits prod.splits sum.splits)

lemma withTransaction_run:
  assumes "TransactionOptionsSchema opts" and "\<not> aborted (o_signal opts)" and "fl = no_faults"
  shows "withTransaction fn opts fl w =
     (case fn (next_uuid w) (opened w) of
        (Inl e, w2) \<Rightarrow> (Inl (map_tx_error opts e), (unregisterTransaction (next_uuid w) w2)\<lparr>w_db := w_db w\<rparr>)
      | (Inr a, w2) \<Rightarrow> (Inr a, unregisterTransaction (next_uuid w) w2))"
  using assms
  by (auto simp: withTransaction_def validateTransactionOptions_def layer_begin_def emap_error_def
      txCallback_def registerTransaction_opened no_faults_def
      split: if_splits option.splits prod.splits sum.splits)

lemma handle_dead_afterwards:
  assumes "withTransaction fn opts fl w = (r, w')" and "next_uuid w \<notin> set (active_transactions w)"
    and "fn (next_uuid w) (opened w) = (q, w2)"
  shows "next_uuid w \<notin> set (active_transactions w')"
  using assms
  by (auto simp: withTransaction_def validateTransactionOptions_def layer_begin_def
      withAbort_def txCallback_def registerTransaction_opened emap_error_def unregisterTransaction_def
      split: if_splits option.splits prod.splits sum.splits)

text \<open>
  The shape of every method that opens its own transaction: resolve the fresh handle, run a database
  computation. \<open>settled w d\<close> is the world afterwards.
\<close>

definition settled :: "world \<Rightarrow> db \<Rightarrow> world" where
  "settled w d = unregisterTransaction (next_uuid w) ((opened w)\<lparr>w_db := d\<rparr>)"

lemma w_db_settled [simp]: "w_db (settled w d) = d"
  by (simp add: settled_def)

lemma active_settled [simp]:
  "active_transactions (settled w d) = filter (\<lambda>x. x \<noteq> next_uuid w) (active_transactions w)"
  by (simp add: settled_def unregisterTransaction_def)

lemma own_transaction_run:
  assumes "validateTransactionOptions opts = Inr opts" and "\<not> aborted (o_signal opts)"
  shows "withTransaction (\<lambda>tx. ebind (resolveTransaction tx) (\<lambda>_. on_db m)) opts no_faults w =
     (case m (w_db w) of
        (Inl e, d) \<Rightarrow> (Inl (map_tx_error opts e), settled w (w_db w))
      | (Inr a, d) \<Rightarrow> (Inr a, settled w d))"
proof -
  have "TransactionOptionsSchema opts"
    using assms(1) by (auto simp: validateTransactionOptions_def split: if_splits)
  note run = withTransaction_run [OF this assms(2) refl, of "\<lambda>tx. ebind (resolveTransaction tx) (\<lambda>_. on_db m)" w]
  obtain r d where m: "m (w_db w) = (r, d)" by (cases "m (w_db w)")
  then have fn: "ebind (resolveTransaction (next_uuid w)) (\<lambda>_. on_db m) (opened w) = (r, (opened w)\<lparr>w_db := d\<rparr>)"
    by (simp add: ebind_def on_db_def)
  show ?thesis
    by (cases r) (simp_all add: run fn m settled_def, simp add: unregisterTransaction_def opened_def)
qed

lemma own_transaction_Inr:
  assumes "withTransaction (\<lambda>tx. ebind (resolveTransaction tx) (\<lambda>_. on_db m)) opts fl w = (Inr a, w')"
  shows "\<exists>d. m (w_db w) = (Inr a, d) \<and> w_db w' = d"
  using withTransaction_commit [OF assms] by (auto simp: ebind_def on_db_def split: prod.splits)

section \<open>The interface the composing code relies on\<close>

text \<open>
  What \<^verbatim>\<open>TransactionLeaseLayer.withTransaction\<close> promises a client that composes other
  modules' methods inside one transaction: all or nothing on the database, and a live handle for the
  callback.
\<close>

locale transaction_layer =
  fixes run_tx :: "(nat \<Rightarrow> (js_error, 'w, 'a) exec) \<Rightarrow> (js_error, 'w, 'a) exec"
    and db_of :: "'w \<Rightarrow> 'd"
    and live :: "'w \<Rightarrow> nat \<Rightarrow> bool"
  assumes rolled_back: "run_tx fn w = (Inl e, w') \<Longrightarrow> db_of w' = db_of w"
    and committed: "run_tx fn w = (Inr a, w') \<Longrightarrow>
      \<exists>h w1 w2. live w1 h \<and> db_of w1 = db_of w \<and> fn h w1 = (Inr a, w2) \<and> db_of w' = db_of w2"
begin

text \<open>Any property of the database that the callback keeps is kept by the transaction.\<close>

lemma run_tx_invariant:
  assumes "I (db_of w)"
    and "\<And>h w1 a w2. live w1 h \<Longrightarrow> I (db_of w1) \<Longrightarrow> fn h w1 = (Inr a, w2) \<Longrightarrow> I (db_of w2)"
    and "run_tx fn w = (r, w')"
  shows "I (db_of w')"
proof (cases r)
  case (Inl e)
  with assms(1,3) rolled_back show ?thesis by metis
next
  case (Inr a)
  with assms(3) committed obtain h w1 w2
    where "live w1 h" "db_of w1 = db_of w" "fn h w1 = (Inr a, w2)" "db_of w' = db_of w2"
    by metis
  with assms(1,2) show ?thesis by metis
qed

end

definition is_live :: "world \<Rightarrow> nat \<Rightarrow> bool" where
  "is_live w h \<longleftrightarrow> h \<in> set (active_transactions w)"

interpretation pg_tx: transaction_layer "\<lambda>fn. withTransaction fn opts fl" w_db is_live
proof
  fix fn :: "nat \<Rightarrow> 'a run" and w e w'
  assume "withTransaction fn opts fl w = (Inl e, w')"
  then show "w_db w' = w_db w" by (rule withTransaction_rollback)
next
  fix fn :: "nat \<Rightarrow> 'a run" and w a w'
  assume "withTransaction fn opts fl w = (Inr a, w')"
  from withTransaction_commit [OF this]
  show "\<exists>h w1 w2. is_live w1 h \<and> w_db w1 = w_db w \<and> fn h w1 = (Inr a, w2) \<and> w_db w' = w_db w2"
    by (metis is_live_def opened_simps(1,2) w_db_unregister)
qed

section \<open>Properties\<close>



text \<open>
  A handle is only usable inside its transaction: the callback's handle resolves while the
  callback runs, and after \<open>withTransaction\<close> has settled, either way, resolving it throws
  \<open>TransactionHandleInvalidError\<close>.
\<close>

lemma handle_scoped_to_transaction:
  assumes "next_uuid w \<notin> set (active_transactions w)"
    and "withTransaction fn opts fl w = (r, w')"
  shows "resolveTransaction (next_uuid w) (opened w) = (Inr (), opened w) \<and>
    resolveTransaction (next_uuid w) w'
      = (Inl (StorageErr (TransactionHandleInvalidError (next_uuid w))), w')"
proof -
  obtain q w2 where "fn (next_uuid w) (opened w) = (q, w2)" by fastforce
  with assms handle_dead_afterwards have "next_uuid w \<notin> set (active_transactions w')" by blast
  then show ?thesis by simp
qed



end
