(* ===== verification/Lease.thy ===== *)
theory Lease
  imports TransactionLease
begin

text \<open>
  Writer leases (\<^verbatim>\<open>src/src/postgres/transaction-lease.ts\<close>, second half): session-level
  advisory locks on reserved connections, with timeouts, cancellation and cleanup. PostgreSQL's
  \<^verbatim>\<open>hashtext\<close> is an argument. What the pool, the server and the signal do during a call is
  an environment; which environments are possible is the predicate \<open>legal\<close>, the documented
  behaviour of the server: a lock is granted only when no other session holds it, and an unlock or a
  reset on a reserved connection fails only when that connection is lost, with which the server drops
  the session's locks and settings. In particular a cancellation request sent for the lock query is
  taken not to hit the cleanup statement that follows it on the same connection.
\<close>

section \<open>State\<close>

record held_lease =
  hl_reserved :: nat
  hl_key :: jsstr
  hl_hadTimeout :: bool

text \<open>
  \<open>locks\<close> are the granted session locks (lock id, connection); \<open>timeouts\<close> the connections with a
  session \<^verbatim>\<open>statement_timeout\<close>; \<open>reserved\<close> the connections out of the pool;
  \<open>heldLeases\<close> the map of the layer, by token.
\<close>

record lease_state =
  locks :: "(int \<times> nat) list"
  timeouts :: "nat list"
  reserved :: "nat list"
  heldLeases :: "(nat \<times> held_lease) list"
  next_token :: nat

definition initial_leases :: lease_state where
  "initial_leases = \<lparr>locks = [], timeouts = [], reserved = [], heldLeases = [], next_token = 0\<rparr>"

record lease =
  l_key :: jsstr
  l_token :: nat

type_synonym 'a lrun = "(js_error, lease_state, 'a) exec"

section \<open>Options and environment\<close>

record lease_opts =
  lo_timeoutMs :: "rat option"
  lo_signal :: signal

definition LeaseAcquireOptionsSchema :: "lease_opts \<Rightarrow> bool" where
  "LeaseAcquireOptionsSchema opts \<longleftrightarrow> timeout_schema (lo_timeoutMs opts)"

definition validateLeaseAcquireOptions :: "lease_opts \<Rightarrow> js_error + lease_opts" where
  "validateLeaseAcquireOptions opts =
     (if LeaseAcquireOptionsSchema opts then Inr opts
      else Inl (validation_error ''PgTransactionLeaseLayer lease-acquire opts''))"

definition hadTimeout :: "lease_opts \<Rightarrow> bool" where
  "hadTimeout opts \<longleftrightarrow> lo_timeoutMs opts \<noteq> None"

definition has_signal :: "lease_opts \<Rightarrow> bool" where
  "has_signal opts \<longleftrightarrow> lo_signal opts \<noteq> NoSignal"

text \<open>
  How \<^verbatim>\<open>reserveBounded\<close> settles. When it gives up, a connection that arrives later is released
  at once, so that outcome has no effect on the state.
\<close>

datatype reserve_outcome = Reserved nat | ReserveTimedOut | ReserveAborted | ReserveFails js_error

text \<open>A statement on the reserved connection: the flag says whether the connection is lost.\<close>

datatype stmt_outcome = Ok | Fails js_error bool

text \<open>
  The blocking lock query raced against the signal. With \<open>AbortFirst\<close> the cancellation may still
  lose to the grant at the server: the flag says whether the lock was granted.
\<close>

datatype lock_outcome = Granted | LockFails js_error bool | AbortFirst bool

datatype try_outcome = TryResult bool | TryFails js_error bool

record lease_env =
  le_reserve :: reserve_outcome
  le_set :: stmt_outcome
  le_lock :: lock_outcome
  le_try :: try_outcome
  le_late_abort :: bool
  le_unlock :: stmt_outcome
  le_reset :: stmt_outcome

section \<open>Statements on a connection\<close>

definition lost :: "bool \<Rightarrow> nat \<Rightarrow> lease_state \<Rightarrow> lease_state" where
  "lost dead c s =
     (if dead then s\<lparr>locks := filter (\<lambda>l. snd l \<noteq> c) (locks s), timeouts := filter (\<lambda>x. x \<noteq> c) (timeouts s)\<rparr> else s)"

definition reserve_conn :: "nat \<Rightarrow> lease_state \<Rightarrow> lease_state" where
  "reserve_conn c s = s\<lparr>reserved := c # reserved s\<rparr>"

definition release_conn :: "nat \<Rightarrow> lease_state \<Rightarrow> lease_state" where
  "release_conn c s = s\<lparr>reserved := filter (\<lambda>x. x \<noteq> c) (reserved s)\<rparr>"

definition grant :: "bool \<Rightarrow> int \<Rightarrow> nat \<Rightarrow> lease_state \<Rightarrow> lease_state" where
  "grant granted h c s = (if granted then s\<lparr>locks := (h, c) # locks s\<rparr> else s)"

definition set_timeout :: "bool \<Rightarrow> stmt_outcome \<Rightarrow> nat \<Rightarrow> unit lrun" where
  "set_timeout had out c s =
     (if \<not> had then (Inr (), s)
      else case out of
        Ok \<Rightarrow> (Inr (), s\<lparr>timeouts := c # timeouts s\<rparr>)
      | Fails e dead \<Rightarrow> (Inl e, lost dead c s))"

text \<open>\<^verbatim>\<open>select pg_advisory_unlock(...)\<close>, errors reported to the caller of this step.\<close>

definition unlock :: "stmt_outcome \<Rightarrow> int \<Rightarrow> nat \<Rightarrow> unit lrun" where
  "unlock out h c s =
     (case out of
        Ok \<Rightarrow> (Inr (), s\<lparr>locks := filter (\<lambda>l. l \<noteq> (h, c)) (locks s)\<rparr>)
      | Fails e dead \<Rightarrow> (Inl e, lost dead c s))"

definition resetStatementTimeout :: "bool \<Rightarrow> stmt_outcome \<Rightarrow> nat \<Rightarrow> lease_state \<Rightarrow> lease_state" where
  "resetStatementTimeout had out c s =
     (if \<not> had then s
      else case out of
        Ok \<Rightarrow> s\<lparr>timeouts := filter (\<lambda>x. x \<noteq> c) (timeouts s)\<rparr>
      | Fails _ dead \<Rightarrow> lost dead c s)"

text \<open>Unlock (errors swallowed), reset, give the connection back: the cleanup of every failed acquisition.\<close>

definition cleanup :: "lease_env \<Rightarrow> bool \<Rightarrow> int \<Rightarrow> nat \<Rightarrow> lease_state \<Rightarrow> lease_state" where
  "cleanup env had h c s =
     release_conn c (resetStatementTimeout had (le_reset env) c (snd (unlock (le_unlock env) h c s)))"

section \<open>Operations\<close>

definition raceAgainstAbort :: "lock_outcome \<Rightarrow> int \<Rightarrow> nat \<Rightarrow> unit lrun" where
  "raceAgainstAbort out h c s =
     (case out of
        Granted \<Rightarrow> (Inr (), grant True h c s)
      | LockFails e dead \<Rightarrow> (Inl e, lost dead c s)
      | AbortFirst granted \<Rightarrow> (Inl AbortErr, grant granted h c s))"

definition late_abort_check :: "bool \<Rightarrow> unit lrun" where
  "late_abort_check ab = (if ab then ethrow AbortErr else eret ())"

definition hold :: "nat \<Rightarrow> jsstr \<Rightarrow> bool \<Rightarrow> lease lrun" where
  "hold c key had s =
     (Inr \<lparr>l_key = key, l_token = next_token s\<rparr>,
      s\<lparr>heldLeases := (next_token s, \<lparr>hl_reserved = c, hl_key = key, hl_hadTimeout = had\<rparr>) # heldLeases s,
        next_token := Suc (next_token s)\<rparr>)"

definition reserve_error :: "jsstr \<Rightarrow> lease_opts \<Rightarrow> reserve_outcome \<Rightarrow> js_error" where
  "reserve_error key opts out =
     (case out of
        ReserveTimedOut \<Rightarrow> StorageErr (LeaseTimeoutError key \<lfloor>the (lo_timeoutMs opts)\<rfloor>)
      | ReserveAborted \<Rightarrow> AbortErr
      | ReserveFails e \<Rightarrow> if e = AbortErr then e else StorageErr (LeaseFaultError ReserveFailed)
      | Reserved _ \<Rightarrow> AbortErr)"

definition acquireLease :: "(jsstr \<Rightarrow> int) \<Rightarrow> lease_env \<Rightarrow> jsstr \<Rightarrow> lease_opts \<Rightarrow> lease lrun" where
  "acquireLease hashtext env key opts s =
     (case validateLeaseAcquireOptions opts of
        Inl e \<Rightarrow> (Inl e, s)
      | Inr validated \<Rightarrow>
          if aborted (lo_signal validated) then (Inl (abortError (lo_signal validated)), s)
          else case le_reserve env of
            Reserved c \<Rightarrow>
              (let had = hadTimeout validated; h = hashtext key in
               case ebind (set_timeout had (le_set env) c) (\<lambda>_.
                    ebind (raceAgainstAbort (le_lock env) h c) (\<lambda>_.
                      late_abort_check (has_signal validated \<and> le_late_abort env))) (reserve_conn c s) of
                 (Inr _, s1) \<Rightarrow> hold c key had s1
               | (Inl err, s1) \<Rightarrow>
                   (Inl (if err = AbortErr then err
                         else if had \<and> isStatementTimeout err
                         then StorageErr (LeaseTimeoutError key \<lfloor>the (lo_timeoutMs validated)\<rfloor>)
                         else StorageErr (LeaseFaultError ConnectionLost)),
                    cleanup env had h c s1))
          | out \<Rightarrow> (Inl (reserve_error key validated out), s))"

definition try_lock :: "try_outcome \<Rightarrow> int \<Rightarrow> nat \<Rightarrow> bool lrun" where
  "try_lock out h c s =
     (case out of
        TryResult b \<Rightarrow> (Inr b, grant b h c s)
      | TryFails e dead \<Rightarrow> (Inl e, lost dead c s))"

definition tryAcquireLease :: "(jsstr \<Rightarrow> int) \<Rightarrow> lease_env \<Rightarrow> jsstr \<Rightarrow> lease_opts \<Rightarrow> lease option lrun" where
  "tryAcquireLease hashtext env key opts s =
     (case validateLeaseAcquireOptions opts of
        Inl e \<Rightarrow> (Inl e, s)
      | Inr validated \<Rightarrow>
          if aborted (lo_signal validated) then (Inl (abortError (lo_signal validated)), s)
          else case le_reserve env of
            ReserveTimedOut \<Rightarrow> (Inr None, s)
          | Reserved c \<Rightarrow>
              (let had = hadTimeout validated; h = hashtext key; s0 = reserve_conn c s;
                   give_up = (\<lambda>err s1. (Inl (if err = AbortErr then err else StorageErr (LeaseFaultError ConnectionLost)),
                                        cleanup env had h c s1));
                   got_it = (\<lambda>s1. if has_signal validated \<and> le_late_abort env then give_up AbortErr s1
                                  else case hold c key had s1 of (Inr l, s2) \<Rightarrow> (Inr (Some l), s2) | (Inl e, s2) \<Rightarrow> (Inl e, s2))
               in if \<not> had then
                    (case try_lock (le_try env) h c s0 of
                       (Inl err, s1) \<Rightarrow> give_up err s1
                     | (Inr False, s1) \<Rightarrow> (Inr None, release_conn c s1)
                     | (Inr True, s1) \<Rightarrow> got_it s1)
                  else
                    (case set_timeout had (le_set env) c s0 of
                       (Inl err, s1) \<Rightarrow> give_up err s1
                     | (Inr _, s1) \<Rightarrow>
                         (case raceAgainstAbort (le_lock env) h c s1 of
                            (Inr _, s2) \<Rightarrow> got_it s2
                          | (Inl err, s2) \<Rightarrow>
                              (if isStatementTimeout err then (Inr None, cleanup env had h c s2)
                               else give_up err s2))))
          | out \<Rightarrow> (Inl (reserve_error key validated out), s))"

definition releaseLease :: "(jsstr \<Rightarrow> int) \<Rightarrow> lease_env \<Rightarrow> lease \<Rightarrow> unit lrun" where
  "releaseLease hashtext env lease s =
     (case map_of (heldLeases s) (l_token lease) of
        None \<Rightarrow> (Inl (StorageErr (LeaseNotHeldError (l_key lease))), s)
      | Some held \<Rightarrow>
          (let s1 = s\<lparr>heldLeases := filter (\<lambda>x. fst x \<noteq> l_token lease) (heldLeases s)\<rparr>;
               c = hl_reserved held
           in case unlock (le_unlock env) (hashtext (hl_key held)) c s1 of
                (r, s2) \<Rightarrow>
                  (case r of
                     Inr _ \<Rightarrow> (Inr (), release_conn c (resetStatementTimeout (hl_hadTimeout held) (le_reset env) c s2))
                   | Inl _ \<Rightarrow> (Inl (StorageErr (LeaseFaultError ConnectionLost)),
                                 release_conn c (resetStatementTimeout (hl_hadTimeout held) (le_reset env) c s2)))))"

text \<open>
  What \<^verbatim>\<open>withLease\<close> rejects with: an error as thrown, the callback's error with the release
  fault as its cause, or an aggregate of both. \<open>attachable\<close> says of an error whether it is an
  extensible \<^verbatim>\<open>Error\<close> object without a cause. \<open>callback\<close> says whether
  \<^verbatim>\<open>onReleaseFault\<close> was supplied; the second component of the result is what it was called with.
\<close>

datatype lease_error = Thrown js_error | WithCause js_error js_error | Aggregate js_error js_error

definition withLease ::
  "(jsstr \<Rightarrow> int) \<Rightarrow> (js_error \<Rightarrow> bool) \<Rightarrow> bool \<Rightarrow> lease_env \<Rightarrow> lease_env \<Rightarrow> jsstr \<Rightarrow> (lease \<Rightarrow> 'a lrun) \<Rightarrow> lease_opts
    \<Rightarrow> lease_state \<Rightarrow> (lease_error + 'a) \<times> js_error option \<times> lease_state" where
  "withLease hashtext attachable callback env env' key fn opts s =
     (case acquireLease hashtext env key opts s of
        (Inl e, s1) \<Rightarrow> (Inl (Thrown e), None, s1)
      | (Inr lease, s1) \<Rightarrow>
          (case fn lease s1 of
             (outcome, s2) \<Rightarrow>
               (case releaseLease hashtext env' lease s2 of
                  (Inl releaseFault, s3) \<Rightarrow>
                    (case outcome of
                       Inl error \<Rightarrow>
                         (if callback then (Inl (Thrown error), Some releaseFault, s3)
                          else if attachable error then (Inl (WithCause error releaseFault), None, s3)
                          else (Inl (Aggregate error releaseFault), None, s3))
                     | Inr v \<Rightarrow>
                         (if callback then (Inr v, Some releaseFault, s3)
                          else (Inl (Thrown releaseFault), None, s3)))
                | (Inr _, s3) \<Rightarrow>
                    (case outcome of Inl error \<Rightarrow> (Inl (Thrown error), None, s3) | Inr v \<Rightarrow> (Inr v, None, s3)))))"

section \<open>The server's side of the contract\<close>

definition lock_free :: "int \<Rightarrow> lease_state \<Rightarrow> bool" where
  "lock_free h s \<longleftrightarrow> \<not> list_ex (\<lambda>l. fst l = h) (locks s)"

fun fails_only_when_lost :: "stmt_outcome \<Rightarrow> bool" where
  "fails_only_when_lost Ok = True"
| "fails_only_when_lost (Fails _ dead) = dead"

definition legal :: "int \<Rightarrow> lease_env \<Rightarrow> lease_state \<Rightarrow> bool" where
  "legal h env s \<longleftrightarrow>
     (case le_reserve env of Reserved c \<Rightarrow> \<not> List.member (reserved s) c | _ \<Rightarrow> True)
   \<and> (case le_lock env of Granted \<Rightarrow> lock_free h s | AbortFirst True \<Rightarrow> lock_free h s | _ \<Rightarrow> True)
   \<and> (case le_try env of TryResult True \<Rightarrow> lock_free h s | _ \<Rightarrow> True)
   \<and> fails_only_when_lost (le_unlock env) \<and> fails_only_when_lost (le_reset env)"

section \<open>Invariant\<close>

definition lease_inv :: "(jsstr \<Rightarrow> int) \<Rightarrow> lease_state \<Rightarrow> bool" where
  "lease_inv hashtext s \<longleftrightarrow>
     distinct (map fst (locks s))
   \<and> distinct (map fst (heldLeases s)) \<and> (\<forall>t \<in> fst ` set (heldLeases s). t < next_token s)
   \<and> distinct (map (hl_reserved \<circ> snd) (heldLeases s))
   \<and> set (reserved s) = (hl_reserved \<circ> snd) ` set (heldLeases s)
   \<and> (\<forall>(h, c) \<in> set (locks s). \<exists>l \<in> snd ` set (heldLeases s). hl_reserved l = c \<and> hashtext (hl_key l) = h)
   \<and> (\<forall>c \<in> set (timeouts s). \<exists>l \<in> snd ` set (heldLeases s). hl_reserved l = c \<and> hl_hadTimeout l)"

lemma lease_inv_initial [simp]: "lease_inv hashtext initial_leases"
  by (simp add: lease_inv_def initial_leases_def)

text \<open>A connection with nothing on it: what a legal reservation hands out.\<close>

definition clean :: "nat \<Rightarrow> lease_state \<Rightarrow> bool" where
  "clean c s \<longleftrightarrow> c \<notin> set (reserved s) \<and> c \<notin> snd ` set (locks s) \<and> c \<notin> set (timeouts s)"

lemma reserved_clean:
  assumes "lease_inv hashtext s" and "c \<notin> set (reserved s)"
  shows "clean c s"
  using assms by (force simp: clean_def lease_inv_def)

text \<open>The states an acquisition goes through on connection \<open>c\<close>, before it holds or cleans up.\<close>

definition busy :: "bool \<Rightarrow> int \<Rightarrow> nat \<Rightarrow> lease_state \<Rightarrow> lease_state \<Rightarrow> bool" where
  "busy had h c s s1 \<longleftrightarrow>
     reserved s1 = c # reserved s \<and> heldLeases s1 = heldLeases s \<and> next_token s1 = next_token s
     \<and> (locks s1 = locks s \<or> locks s1 = (h, c) # locks s)
     \<and> (timeouts s1 = timeouts s \<or> had \<and> timeouts s1 = c # timeouts s)"

lemma filter_clean:
  assumes "clean c s"
  shows "filter (\<lambda>l. snd l \<noteq> c) (locks s) = locks s" and "filter (\<lambda>l. l \<noteq> (h, c)) (locks s) = locks s"
    and "filter (\<lambda>x. x \<noteq> c) (timeouts s) = timeouts s" and "filter (\<lambda>x. x \<noteq> c) (reserved s) = reserved s"
  using assms by (force simp: clean_def filter_id_conv)+

lemma busy_start: "busy had h c s (reserve_conn c s)"
  by (auto simp: busy_def reserve_conn_def)

lemma busy_lost: "clean c s \<Longrightarrow> busy had h c s s1 \<Longrightarrow> busy had h c s (lost dead c s1)"
  by (auto simp: busy_def lost_def filter_clean)

lemma cleanup_restores:
  assumes "clean c s" and "busy had h c s s1"
    and "fails_only_when_lost (le_unlock env)" and "fails_only_when_lost (le_reset env)"
  shows "cleanup env had h c s1 = s"
proof -
  let ?s2 = "snd (unlock (le_unlock env) h c s1)"
  have "locks ?s2 = locks s" and s2: "busy had h c s ?s2"
    using assms by (cases "le_unlock env"; auto simp: busy_def unlock_def lost_def filter_clean)+
  moreover have "timeouts (resetStatementTimeout had (le_reset env) c ?s2) = timeouts s"
    using assms(1,4) s2 by (cases "le_reset env") (auto simp: busy_def resetStatementTimeout_def lost_def filter_clean)
  moreover have "locks (resetStatementTimeout had (le_reset env) c ?s2) = locks ?s2"
    using assms(1,4) \<open>locks ?s2 = locks s\<close>
    by (cases "le_reset env") (auto simp: resetStatementTimeout_def lost_def filter_clean)
  moreover have "reserved (resetStatementTimeout had (le_reset env) c ?s2) = c # reserved s"
    "heldLeases (resetStatementTimeout had (le_reset env) c ?s2) = heldLeases s"
    "next_token (resetStatementTimeout had (le_reset env) c ?s2) = next_token s"
    using s2 by (auto simp: busy_def resetStatementTimeout_def lost_def split: stmt_outcome.splits)
  ultimately show ?thesis
    using assms(1) by (intro lease_state.equality) (simp_all add: cleanup_def release_conn_def filter_clean)
qed

lemma set_timeout_busy:
  assumes "clean c s" and "set_timeout had out c (reserve_conn c s) = (r, s1)"
  shows "busy had h c s s1 \<and> locks s1 = locks s"
  using assms busy_lost [OF assms(1) busy_start, of had h]
  by (auto simp: set_timeout_def reserve_conn_def busy_def lost_def filter_clean split: if_splits stmt_outcome.splits)

lemma race_busy:
  assumes "clean c s" and "busy had h c s s0" and "locks s0 = locks s" and "raceAgainstAbort out h c s0 = (r, s1)"
  shows "busy had h c s s1"
  using assms busy_lost [OF assms(1,2)]
  by (auto simp: raceAgainstAbort_def grant_def busy_def split: if_splits lock_outcome.splits)

lemma race_granted:
  assumes "raceAgainstAbort out h c s0 = (Inr u, s1)"
  shows "out = Granted" and "s1 = s0\<lparr>locks := (h, c) # locks s0\<rparr>"
  using assms by (auto simp: raceAgainstAbort_def grant_def split: lock_outcome.splits)

text \<open>A held lease and its lock, on top of a state.\<close>

definition holding :: "(jsstr \<Rightarrow> int) \<Rightarrow> nat \<Rightarrow> jsstr \<Rightarrow> bool \<Rightarrow> lease_state \<Rightarrow> lease_state \<Rightarrow> bool" where
  "holding hashtext c key had s s' \<longleftrightarrow>
     reserved s' = c # reserved s \<and> locks s' = (hashtext key, c) # locks s
     \<and> (timeouts s' = timeouts s \<or> had \<and> timeouts s' = c # timeouts s)
     \<and> heldLeases s' = (next_token s, \<lparr>hl_reserved = c, hl_key = key, hl_hadTimeout = had\<rparr>) # heldLeases s
     \<and> next_token s' = Suc (next_token s)"

lemma lease_inv_holding:
  assumes "lease_inv hashtext s" and "c \<notin> set (reserved s)" and "lock_free (hashtext key) s"
    and "holding hashtext c key had s s'"
  shows "lease_inv hashtext s'"
proof -
  have "hashtext key \<notin> fst ` set (locks s)" using assms(3) by (auto simp: lock_free_def list_ex_iff)
  moreover have "next_token s \<notin> fst ` set (heldLeases s)" using assms(1) by (auto simp: lease_inv_def)
  moreover have "c \<notin> (hl_reserved \<circ> snd) ` set (heldLeases s)" using assms(1,2) by (simp add: lease_inv_def)
  ultimately show ?thesis
    using assms(1,4) by (auto simp: lease_inv_def holding_def less_Suc_eq)
qed

text \<open>What a successful acquisition does: a free lock and a fresh connection, now held under a fresh token.\<close>

definition acquired ::
  "(jsstr \<Rightarrow> int) \<Rightarrow> jsstr \<Rightarrow> lease_opts \<Rightarrow> lease \<Rightarrow> lease_state \<Rightarrow> lease_state \<Rightarrow> bool" where
  "acquired hashtext key opts l s s' \<longleftrightarrow>
     (\<exists>c. c \<notin> set (reserved s) \<and> lock_free (hashtext key) s
        \<and> holding hashtext c key (hadTimeout opts) s s' \<and> l = \<lparr>l_key = key, l_token = next_token s\<rparr>)"

lemma acquireLease_cases:
  assumes inv: "lease_inv hashtext s" and legal: "legal (hashtext key) env s"
    and run: "acquireLease hashtext env key opts s = (r, s')"
  shows "case r of
      Inl e \<Rightarrow> s' = s
    | Inr l \<Rightarrow> acquired hashtext key opts l s s'"
proof -
  let ?had = "hadTimeout opts" and ?h = "hashtext key"
  consider e where "r = Inl e" "s' = s"
    | c where "le_reserve env = Reserved c" "validateLeaseAcquireOptions opts = Inr opts"
        "\<not> aborted (lo_signal opts)"
    using run by (auto simp: acquireLease_def validateLeaseAcquireOptions_def split: if_splits reserve_outcome.splits)
  then show ?thesis
  proof cases
    case 1
    then show ?thesis by simp
  next
    case 2
    have c: "c \<notin> set (reserved s)" using legal 2(1) by (simp add: legal_def)
    note cl = reserved_clean [OF inv c]
    have fo: "fails_only_when_lost (le_unlock env)" "fails_only_when_lost (le_reset env)" using legal by (simp_all add: legal_def)
    obtain r1 s1 where st: "set_timeout ?had (le_set env) c (reserve_conn c s) = (r1, s1)" by fastforce
    note b1 = set_timeout_busy [OF cl st, of ?h]
    show ?thesis
    proof (cases r1)
      case (Inl e)
      then show ?thesis using run 2 st cleanup_restores [OF cl conjunct1 [OF b1] fo]
        by (auto simp: acquireLease_def ebind_def Let_def split: if_splits)
    next
      case r1: (Inr u)
      obtain r2 s2 where ra: "raceAgainstAbort (le_lock env) ?h c s1 = (r2, s2)" by fastforce
      have b2: "busy ?had ?h c s s2" using race_busy [OF cl _ _ ra, of ?had] b1 by blast
      show ?thesis
      proof (cases "r2 = Inr () \<and> \<not> (has_signal opts \<and> le_late_abort env)")
        case True
        then have "le_lock env = Granted" "s2 = s1\<lparr>locks := (?h, c) # locks s1\<rparr>" using race_granted ra by auto
        then have "lock_free ?h s" "holding hashtext c key ?had s (snd (hold c key ?had s2))"
          using legal b1 by (auto simp: legal_def hold_def holding_def busy_def)
        moreover have "(r, s') = hold c key ?had s2"
          using run 2 st r1 ra True by (simp add: acquireLease_def ebind_def Let_def late_abort_check_def)
        moreover have "next_token s2 = next_token s" using b2 by (simp add: busy_def)
        ultimately show ?thesis using c by (auto simp: acquired_def hold_def intro!: exI [of _ c])
      next
        case False
        then show ?thesis using run 2 st r1 ra cleanup_restores [OF cl b2 fo]
          by (cases r2) (auto simp: acquireLease_def ebind_def Let_def late_abort_check_def split: if_splits)
      qed
    qed
  qed
qed

lemma release_reserve [simp]: "clean c s \<Longrightarrow> release_conn c (reserve_conn c s) = s"
  by (simp add: release_conn_def reserve_conn_def filter_clean)

lemma try_lock_busy:
  assumes "clean c s" and "try_lock out h c (reserve_conn c s) = (r, s1)"
  shows "busy had h c s s1"
  using assms busy_lost [OF assms(1) busy_start, of had h] busy_start [of had h c s]
  by (auto simp: try_lock_def grant_def busy_def reserve_conn_def split: if_splits try_outcome.splits)

lemma try_lock_free:
  assumes "try_lock out h c s0 = (Inr b, s1)"
  shows "out = TryResult b" and "b \<Longrightarrow> s1 = s0\<lparr>locks := (h, c) # locks s0\<rparr>" and "\<not> b \<Longrightarrow> s1 = s0"
  using assms by (auto simp: try_lock_def grant_def split: try_outcome.splits)

lemma acquired_hold:
  assumes "c \<notin> set (reserved s)" and "lock_free (hashtext key) s" and "busy (hadTimeout opts) (hashtext key) c s s0"
    and "locks s0 = (hashtext key, c) # locks s"
  obtains s'' where "hold c key (hadTimeout opts) s0 = (Inr \<lparr>l_key = key, l_token = next_token s\<rparr>, s'')"
    and "acquired hashtext key opts \<lparr>l_key = key, l_token = next_token s\<rparr> s s''"
  using assms by (auto simp: hold_def busy_def acquired_def holding_def intro!: exI [of _ c])

lemma tryAcquireLease_cases:
  assumes inv: "lease_inv hashtext s" and legal: "legal (hashtext key) env s"
    and run: "tryAcquireLease hashtext env key opts s = (r, s')"
  shows "case r of Inr (Some l) \<Rightarrow> acquired hashtext key opts l s s' | _ \<Rightarrow> s' = s"
proof -
  let ?had = "hadTimeout opts" and ?h = "hashtext key"
  consider "s' = s" "\<forall>l. r \<noteq> Inr (Some l)"
    | c where "le_reserve env = Reserved c" "validateLeaseAcquireOptions opts = Inr opts"
        "\<not> aborted (lo_signal opts)"
    using run by (auto simp: tryAcquireLease_def validateLeaseAcquireOptions_def split: if_splits reserve_outcome.splits)
  then show ?thesis
  proof cases
    case 1
    then show ?thesis by (auto split: sum.splits option.splits)
  next
    case 2
    have c: "c \<notin> set (reserved s)" using legal 2(1) by (simp add: legal_def)
    note cl = reserved_clean [OF inv c]
    have fo: "fails_only_when_lost (le_unlock env)" "fails_only_when_lost (le_reset env)" using legal by (simp_all add: legal_def)
    note restore = cleanup_restores [OF cl _ fo]
    show ?thesis
    proof (cases ?had)
      case False
      obtain r1 s1 where tl: "try_lock (le_try env) ?h c (reserve_conn c s) = (r1, s1)" by fastforce
      have b1: "busy ?had ?h c s s1" by (rule try_lock_busy [OF cl tl])
      show ?thesis
      proof (cases "r1 = Inr True \<and> \<not> (has_signal opts \<and> le_late_abort env)")
        case True
        then have "le_try env = TryResult True" "s1 = (reserve_conn c s)\<lparr>locks := (?h, c) # locks s\<rparr>"
          using try_lock_free [OF tl [unfolded conjunct1 [OF True]]] by (simp_all add: reserve_conn_def)
        then have "lock_free ?h s" "locks s1 = (?h, c) # locks s" using legal by (simp_all add: legal_def)
        from c this(1) b1 this(2) show ?thesis
          by (rule acquired_hold) (use run 2 False tl True in \<open>auto simp: tryAcquireLease_def Let_def\<close>)
      next
        case nt: False
        have "r1 = Inr False \<Longrightarrow> s1 = reserve_conn c s" using try_lock_free(3) [of "le_try env" ?h c _ False s1] tl by auto
        then show ?thesis using nt run 2 False tl restore [OF b1] cl
          by (cases r1) (auto simp: tryAcquireLease_def Let_def split: bool.splits if_splits)
      qed
    next
      case had: True
      obtain r1 s1 where st: "set_timeout ?had (le_set env) c (reserve_conn c s) = (r1, s1)" by fastforce
      note b1 = set_timeout_busy [OF cl st, of ?h]
      show ?thesis
      proof (cases r1)
        case (Inl e)
        then show ?thesis using run 2 had st restore [OF conjunct1 [OF b1]]
          by (auto simp: tryAcquireLease_def Let_def)
      next
        case r1: (Inr u)
        obtain r2 s2 where ra: "raceAgainstAbort (le_lock env) ?h c s1 = (r2, s2)" by fastforce
        have b2: "busy ?had ?h c s s2" using race_busy [OF cl _ _ ra, of ?had] b1 by blast
        show ?thesis
        proof (cases "r2 = Inr () \<and> \<not> (has_signal opts \<and> le_late_abort env)")
          case True
          with ra have "raceAgainstAbort (le_lock env) ?h c s1 = (Inr (), s2)" by simp
          from race_granted [OF this] have "le_lock env = Granted" "locks s2 = (?h, c) # locks s" using b1 by auto
          moreover from this have "lock_free ?h s" using legal by (simp add: legal_def)
          ultimately have l: "lock_free ?h s" "locks s2 = (?h, c) # locks s" by simp_all
          from c l(1) b2 l(2) show ?thesis
            by (rule acquired_hold) (use run 2 had st r1 ra True in \<open>auto simp: tryAcquireLease_def Let_def\<close>)
        next
          case False
          then show ?thesis using run 2 had st r1 ra restore [OF b2]
            by (cases r2) (auto simp: tryAcquireLease_def Let_def split: if_splits)
        qed
      qed
    qed
  qed
qed

lemma acquired_inv:
  assumes "lease_inv hashtext s" and "acquired hashtext key opts l s s'"
  shows "lease_inv hashtext s'"
  using assms lease_inv_holding unfolding acquired_def by blast

section \<open>Release\<close>

text \<open>Everything a lease occupies, given back.\<close>

definition released :: "nat \<Rightarrow> nat \<Rightarrow> lease_state \<Rightarrow> lease_state" where
  "released t c s =
     s\<lparr>locks := filter (\<lambda>l. snd l \<noteq> c) (locks s), timeouts := filter (\<lambda>x. x \<noteq> c) (timeouts s),
       reserved := filter (\<lambda>x. x \<noteq> c) (reserved s), heldLeases := filter (\<lambda>x. fst x \<noteq> t) (heldLeases s)\<rparr>"

lemma held_unique:
  assumes "lease_inv hashtext s" and "(t, l) \<in> set (heldLeases s)" and "(t', l') \<in> set (heldLeases s)"
    and "hl_reserved l = hl_reserved l'"
  shows "t = t' \<and> l = l'"
proof -
  have "inj_on (hl_reserved \<circ> snd) (set (heldLeases s))" using assms(1) by (simp add: lease_inv_def distinct_map)
  from inj_onD [OF this _ assms(2,3)] show ?thesis using assms(4) by simp
qed

lemma releaseLease_effect:
  assumes inv: "lease_inv hashtext s" and held: "map_of (heldLeases s) (l_token lease) = Some held"
    and fo: "fails_only_when_lost (le_unlock env)" "fails_only_when_lost (le_reset env)"
  shows "releaseLease hashtext env lease s =
    (if le_unlock env = Ok then Inr () else Inl (StorageErr (LeaseFaultError ConnectionLost)),
     released (l_token lease) (hl_reserved held) s)"
proof -
  let ?c = "hl_reserved held"
  note mem = map_of_SomeD [OF held]
  have one: "l = held" if "(t', l) \<in> set (heldLeases s)" "hl_reserved l = ?c" for t' l
    using held_unique [OF inv that(1) mem that(2)] by simp
  have lk: "filter (\<lambda>l. l \<noteq> (hashtext (hl_key held), ?c)) (locks s) = filter (\<lambda>l. snd l \<noteq> ?c) (locks s)"
    using inv one by (intro filter_cong) (fastforce simp: lease_inv_def)+
  have tm: "\<not> hl_hadTimeout held \<Longrightarrow> filter (\<lambda>x. x \<noteq> ?c) (timeouts s) = timeouts s"
    using inv one by (fastforce simp: lease_inv_def filter_id_conv)
  show ?thesis
    using held fo lk tm
    by (cases "le_unlock env"; cases "le_reset env")
       (auto simp: releaseLease_def Let_def unlock_def lost_def resetStatementTimeout_def release_conn_def released_def
          filter_filter intro!: lease_state.equality)
qed

lemma lease_inv_released:
  assumes inv: "lease_inv hashtext s" and mem: "(t, l) \<in> set (heldLeases s)"
  shows "lease_inv hashtext (released t (hl_reserved l) s)"
proof -
  have one: "t' = t" if "(t', l') \<in> set (heldLeases s)" "hl_reserved l' = hl_reserved l" for t' l'
    using held_unique [OF inv that(1) mem that(2)] by simp
  have two: "l' = l" if "(t, l') \<in> set (heldLeases s)" for l'
    using inv that mem by (auto simp: lease_inv_def intro: eq_key_imp_eq_value)
  have three: "{x \<in> set (reserved s). x \<noteq> hl_reserved l} = (hl_reserved \<circ> snd) ` {x \<in> set (heldLeases s). fst x \<noteq> t}"
    (is "?L = ?R")
  proof -
    have "set (reserved s) = (hl_reserved \<circ> snd) ` set (heldLeases s)" using inv by (simp add: lease_inv_def)
    moreover have "fst x \<noteq> t \<longleftrightarrow> hl_reserved (snd x) \<noteq> hl_reserved l" if "x \<in> set (heldLeases s)" for x
      using one [of "fst x" "snd x"] two [of "snd x"] that by (metis prod.collapse)
    ultimately show ?thesis by auto
  qed
  have keep: "\<exists>l' \<in> snd ` {x \<in> set (heldLeases s). fst x \<noteq> t}. Q l'"
    if "\<exists>l' \<in> snd ` set (heldLeases s). Q l'" and "\<And>l'. Q l' \<Longrightarrow> hl_reserved l' \<noteq> hl_reserved l" for Q
    using that two by force
  have "\<forall>(h, c) \<in> {x \<in> set (locks s). snd x \<noteq> hl_reserved l}.
      \<exists>l' \<in> snd ` {x \<in> set (heldLeases s). fst x \<noteq> t}. hl_reserved l' = c \<and> hashtext (hl_key l') = h"
  proof safe
    fix h c assume "(h, c) \<in> set (locks s)" "snd (h, c) \<noteq> hl_reserved l"
    then show "\<exists>l' \<in> snd ` {x \<in> set (heldLeases s). fst x \<noteq> t}. hl_reserved l' = c \<and> hashtext (hl_key l') = h"
      by (intro keep) (use inv in \<open>force simp: lease_inv_def\<close>)+
  qed
  moreover have "\<forall>c \<in> {x \<in> set (timeouts s). x \<noteq> hl_reserved l}.
      \<exists>l' \<in> snd ` {x \<in> set (heldLeases s). fst x \<noteq> t}. hl_reserved l' = c \<and> hl_hadTimeout l'"
  proof safe
    fix c assume "c \<in> set (timeouts s)" "c \<noteq> hl_reserved l"
    then show "\<exists>l' \<in> snd ` {x \<in> set (heldLeases s). fst x \<noteq> t}. hl_reserved l' = c \<and> hl_hadTimeout l'"
      by (intro keep) (use inv in \<open>force simp: lease_inv_def\<close>)+
  qed
  ultimately show ?thesis
    using inv three by (simp add: lease_inv_def released_def distinct_map_filter)
qed

section \<open>Runs\<close>

text \<open>
  Any sequence of calls, by any number of holders, each in an environment the server allows, and
  connections dying at any moment.
\<close>

inductive lease_step :: "(jsstr \<Rightarrow> int) \<Rightarrow> lease_state \<Rightarrow> lease_state \<Rightarrow> bool" for hashtext where
  acquire: "legal (hashtext key) env s \<Longrightarrow> acquireLease hashtext env key opts s = (r, s') \<Longrightarrow> lease_step hashtext s s'"
| try_acquire: "legal (hashtext key) env s \<Longrightarrow> tryAcquireLease hashtext env key opts s = (r, s') \<Longrightarrow> lease_step hashtext s s'"
| release: "fails_only_when_lost (le_unlock env) \<Longrightarrow> fails_only_when_lost (le_reset env)
    \<Longrightarrow> releaseLease hashtext env lease s = (r, s') \<Longrightarrow> lease_step hashtext s s'"
| connection_dies: "lease_step hashtext s (lost True c s)"

inductive reachable :: "(jsstr \<Rightarrow> int) \<Rightarrow> lease_state \<Rightarrow> bool" for hashtext where
  start: "reachable hashtext initial_leases"
| step: "reachable hashtext s \<Longrightarrow> lease_step hashtext s s' \<Longrightarrow> reachable hashtext s'"

inductive_cases lease_stepE: "lease_step hashtext s s'"

lemma lease_inv_lost: "lease_inv hashtext s \<Longrightarrow> lease_inv hashtext (lost dead c s)"
  by (auto simp: lease_inv_def lost_def distinct_map_filter)

lemma releaseLease_inv:
  assumes "lease_inv hashtext s" and "fails_only_when_lost (le_unlock env)" and "fails_only_when_lost (le_reset env)"
    and "releaseLease hashtext env lease s = (r, s')"
  shows "lease_inv hashtext s'"
proof (cases "map_of (heldLeases s) (l_token lease)")
  case None
  then show ?thesis using assms by (simp add: releaseLease_def)
next
  case (Some held)
  then show ?thesis
    using assms releaseLease_effect [OF assms(1) Some assms(2,3)] lease_inv_released [OF assms(1) map_of_SomeD]
    by auto
qed

lemma lease_step_inv:
  assumes "lease_step hashtext s s'" and "lease_inv hashtext s"
  shows "lease_inv hashtext s'"
  using assms(1)
proof cases
  case (acquire key env opts r)
  from acquireLease_cases [OF assms(2) acquire] show ?thesis
    using acquired_inv [OF assms(2)] assms(2) by (auto split: sum.splits)
next
  case (try_acquire key env opts r)
  from tryAcquireLease_cases [OF assms(2) try_acquire] show ?thesis
    using acquired_inv [OF assms(2)] assms(2) by (auto split: sum.splits option.splits)
next
  case (release env lease r)
  then show ?thesis using releaseLease_inv [OF assms(2)] by blast
next
  case (connection_dies c)
  then show ?thesis using lease_inv_lost [OF assms(2)] by simp
qed

lemma reachable_inv: "reachable hashtext s \<Longrightarrow> lease_inv hashtext s"
  by (induction rule: reachable.induct) (auto intro: lease_step_inv)

section \<open>Properties\<close>

text \<open>The leases that hold the lock of a key's hash.\<close>

definition holders :: "(jsstr \<Rightarrow> int) \<Rightarrow> int \<Rightarrow> lease_state \<Rightarrow> nat list" where
  "holders hashtext h s =
     map fst (filter (\<lambda>x. hashtext (hl_key (snd x)) = h \<and> List.member (locks s) (h, hl_reserved (snd x))) (heldLeases s))"

lemma holders_mem:
  "t \<in> set (holders hashtext h s) \<longleftrightarrow>
     (\<exists>l. (t, l) \<in> set (heldLeases s) \<and> hashtext (hl_key l) = h \<and> (h, hl_reserved l) \<in> set (locks s))"
proof -
  have "(\<exists>x. x \<in> set (heldLeases s) \<and> P x \<and> t = fst x) \<longleftrightarrow> (\<exists>l. (t, l) \<in> set (heldLeases s) \<and> P (t, l))" for P
    by (metis fst_conv prod.collapse)
  from this [of "\<lambda>x. hashtext (hl_key (snd x)) = h \<and> (h, hl_reserved (snd x)) \<in> set (locks s)"]
  show ?thesis by (simp add: holders_def image_iff Bex_def conj_ac)
qed

lemma holders_distinct: "lease_inv hashtext s \<Longrightarrow> distinct (holders hashtext h s)"
  by (simp add: lease_inv_def holders_def distinct_map_filter)

lemma at_most_one: "distinct xs \<Longrightarrow> \<forall>x \<in> set xs. \<forall>y \<in> set xs. x = y \<Longrightarrow> length xs \<le> 1"
  by (metis One_nat_def List.finite_set card_le_Suc0_iff_eq distinct_card)

lemma holders_unique:
  assumes inv: "lease_inv hashtext s" and "t \<in> set (holders hashtext h s)" and "t' \<in> set (holders hashtext h s)"
  shows "t = t'"
proof -
  from assms(2,3) obtain l l' where l: "(t, l) \<in> set (heldLeases s)" "(h, hl_reserved l) \<in> set (locks s)"
    "(t', l') \<in> set (heldLeases s)" "(h, hl_reserved l') \<in> set (locks s)"
    by (auto simp: holders_mem)
  have "distinct (map fst (locks s))" using inv by (simp add: lease_inv_def)
  from eq_key_imp_eq_value [OF this l(2,4)] held_unique [OF inv l(1,3)] show ?thesis by blast
qed

lemma locked_holder:
  assumes "lease_inv hashtext s" and "(h, c) \<in> set (locks s)"
  shows "\<exists>t. t \<in> set (holders hashtext h s)"
proof -
  from assms obtain x where "x \<in> set (heldLeases s)" "hl_reserved (snd x) = c" "hashtext (hl_key (snd x)) = h"
    by (force simp: lease_inv_def)
  then have "fst x \<in> set (holders hashtext h s)" using assms(2) by (auto simp: holders_def)
  then show ?thesis ..
qed



lemma no_holders: "lock_free h s \<Longrightarrow> holders hashtext h s = []"
  by (force simp: holders_def filter_empty_conv lock_free_def list_ex_iff)

lemma acquired_holder:
  assumes inv: "lease_inv hashtext s" and acq: "acquired hashtext key opts l s s'"
  shows "holders hashtext (hashtext key) s = [] \<and> holders hashtext (hashtext key) s' = [l_token l]
    \<and> l_token l \<notin> fst ` set (heldLeases s)"
proof -
  from acq obtain c where c: "c \<notin> set (reserved s)" "lock_free (hashtext key) s"
    "holding hashtext c key (hadTimeout opts) s s'" "l = \<lparr>l_key = key, l_token = next_token s\<rparr>"
    by (auto simp: acquired_def)
  have "\<not> (hashtext (hl_key (snd x)) = hashtext key \<and> List.member (locks s') (hashtext key, hl_reserved (snd x)))"
    if "x \<in> set (heldLeases s)" for x
    using that c inv by (force simp: holding_def lock_free_def list_ex_iff lease_inv_def)
  then have "holders hashtext (hashtext key) s' = [l_token l]"
    using c(3,4) by (simp add: holders_def holding_def filter_empty_conv)
  then show ?thesis using c(4) no_holders [OF c(2)] inv by (auto simp: lease_inv_def)
qed

text \<open>
  An acquisition either holds or leaves no trace. A blocking acquisition that fails, and a
  non-blocking one that fails or returns null, restore the state they found: no lock, no session
  timeout and no connection is left behind, whichever statement failed, timed out, was aborted or
  lost its connection. One that succeeds took a free lock on a fresh connection under a fresh token,
  and its lease is then the holder of the key.
\<close>

lemma lease_acquisition_exact:
  assumes "reachable hashtext s" and "legal (hashtext key) env s"
    and "acquireLease hashtext env key opts s = (r, s')" and "tryAcquireLease hashtext env key opts s = (q, t')"
  shows "(case r of
            Inl e \<Rightarrow> s' = s
          | Inr l \<Rightarrow> holders hashtext (hashtext key) s = [] \<and> holders hashtext (hashtext key) s' = [l_token l]
              \<and> l_token l \<notin> fst ` set (heldLeases s))
    \<and> (case q of
            Inr (Some l) \<Rightarrow> holders hashtext (hashtext key) s = [] \<and> holders hashtext (hashtext key) t' = [l_token l]
              \<and> l_token l \<notin> fst ` set (heldLeases s)
          | _ \<Rightarrow> t' = s)"
proof -
  note inv = reachable_inv [OF assms(1)]
  have got: "holders hashtext (hashtext key) s = [] \<and> holders hashtext (hashtext key) s'' = [l_token l]
      \<and> l_token l \<notin> fst ` set (heldLeases s)" if "acquired hashtext key opts l s s''" for l s''
    by (rule acquired_holder [OF inv that])
  have "case r of Inl e \<Rightarrow> s' = s | Inr l \<Rightarrow> acquired hashtext key opts l s s'"
    by (rule acquireLease_cases [OF inv assms(2,3)])
  moreover have "case q of Inr (Some l) \<Rightarrow> acquired hashtext key opts l s t' | _ \<Rightarrow> t' = s"
    by (rule tryAcquireLease_cases [OF inv assms(2,4)])
  ultimately show ?thesis using got by (auto split: sum.splits option.splits)
qed

text \<open>The errors a rejection of \<^verbatim>\<open>withLease\<close> carries, the primary one first.\<close>

fun surfaced :: "lease_error \<Rightarrow> js_error list" where
  "surfaced (Thrown e) = [e]"
| "surfaced (WithCause e f) = [e, f]"
| "surfaced (Aggregate e f) = [e, f]"

lemma releaseLease_forgets:
  "releaseLease hashtext env lease s = (r, s') \<Longrightarrow> map_of (heldLeases s') (l_token lease) = None"
  by (auto simp: releaseLease_def Let_def unlock_def lost_def resetStatementTimeout_def release_conn_def map_of_eq_None_iff
      split: option.splits stmt_outcome.splits if_splits prod.splits sum.splits)

text \<open>
  Once it has acquired, \<^verbatim>\<open>withLease\<close> runs its body, always releases, and masks nothing.
  When the body fails, the rejection carries its error first; when the body succeeds, the result is
  its value unless the release failed and nobody listens for release faults; a release fault is
  always reported, through the callback or in the rejection; the lease's token is unknown afterwards.
\<close>

lemma withLease_masks_nothing:
  assumes "acquireLease hashtext env key opts s = (Inr lease, s1)" and "fn lease s1 = (outcome, s2)"
    and "releaseLease hashtext env' lease s2 = (rel, s3)"
    and "withLease hashtext attachable callback env env' key fn opts s = (res, notified, s')"
  shows "s' = s3 \<and> map_of (heldLeases s') (l_token lease) = None
    \<and> (case outcome of
         Inl e \<Rightarrow> (\<exists>le. res = Inl le \<and> hd (surfaced le) = e)
       | Inr v \<Rightarrow> res = Inr v \<or> (\<exists>f. rel = Inl f \<and> \<not> callback \<and> res = Inl (Thrown f)))
    \<and> (case rel of
         Inr _ \<Rightarrow> notified = None
       | Inl f \<Rightarrow> if callback then notified = Some f else (\<exists>le. res = Inl le \<and> f \<in> set (surfaced le)))"
  using assms releaseLease_forgets [OF assms(3)]
  by (auto simp: withLease_def split: sum.splits if_splits)

section \<open>Witnesses\<close>

definition calm_env :: "nat \<Rightarrow> lease_env" where
  "calm_env c = \<lparr>le_reserve = Reserved c, le_set = Ok, le_lock = Granted, le_try = TryResult True,
     le_late_abort = False, le_unlock = Ok, le_reset = Ok\<rparr>"

definition no_opts :: lease_opts where
  "no_opts = \<lparr>lo_timeoutMs = None, lo_signal = NoSignal\<rparr>"

definition one_lease :: lease_state where
  "one_lease = snd (acquireLease (\<lambda>_. 7) (calm_env 3) [119] no_opts initial_leases)"

lemmas lease_run_simps = acquireLease_def tryAcquireLease_def releaseLease_def validateLeaseAcquireOptions_def
  LeaseAcquireOptionsSchema_def timeout_schema_def aborted.simps hadTimeout_def has_signal_def calm_env_def no_opts_def
  initial_leases_def reserve_conn_def set_timeout_def raceAgainstAbort_def late_abort_check_def hold_def grant_def ebind_def
  eret_def Let_def try_lock_def unlock_def resetStatementTimeout_def release_conn_def lost_def

lemma legal_initial: "legal ((\<lambda>_. 7) [119]) (calm_env 3) initial_leases"
  by (simp add: legal_def calm_env_def lock_free_def initial_leases_def)

lemma acquire_initial:
  "acquireLease (\<lambda>_. 7) (calm_env 3) [119] no_opts initial_leases = (Inr \<lparr>l_key = [119], l_token = 0\<rparr>, one_lease)"
  by (simp add: one_lease_def lease_run_simps)

lemma one_lease_reachable: "reachable (\<lambda>_. 7) one_lease"
  using reachable.step [OF reachable.start lease_step.acquire [OF legal_initial acquire_initial]] .


end
