(* ===== verification/JsFormat.thy ===== *)
theory JsFormat
  imports JsonText "HOL-Library.Monad_Syntax"
begin

text \<open>
  The textual forms of the language that the program stores and reads back: the decimal form of a
  \<^verbatim>\<open>bigint\<close> and the ISO form of a \<^verbatim>\<open>Date\<close>, as ECMAScript defines them
  (\<^verbatim>\<open>BigInt.prototype.toString\<close>, \<^verbatim>\<open>Date.prototype.toISOString\<close>, the date-time
  string format of \<^verbatim>\<open>Date.parse\<close>).
\<close>

section \<open>Literals\<close>

lemma of_char_nat_less: "(of_char c :: nat) < 256"
  by (cases c) (simp add: of_char_def horner_sum_simps of_bool_def split: if_splits)

lemma of_char_word_inj: "inj (of_char :: char \<Rightarrow> 16 word)"
proof (rule injI)
  fix c d assume "(of_char c :: 16 word) = of_char d"
  then have "unat (of_nat (of_char c) :: 16 word) = unat (of_nat (of_char d) :: 16 word)" by (simp only: of_nat_of_char)
  then have "(of_char c :: nat) = of_char d"
    using of_char_nat_less [of c] of_char_nat_less [of d] unfolding unat_of_nat by (simp add: take_bit_nat_eq_self)
  then show "c = d" by simp
qed

lemma js_eq_iff [simp]: "js s = js t \<longleftrightarrow> s = t"
  using inj_map_eq_map [OF of_char_word_inj] by (simp add: js_def)

section \<open>Decimal digits\<close>

definition digit :: "nat \<Rightarrow> 16 word" where
  "digit n = of_nat (48 + n)"

definition is_digit :: "16 word \<Rightarrow> bool" where
  "is_digit c \<longleftrightarrow> 48 \<le> c \<and> c \<le> 57"

definition digit_val :: "16 word \<Rightarrow> nat" where
  "digit_val c = unat c - 48"

lemma unat_digit: "n < 10 \<Longrightarrow> unat (digit n) = 48 + n"
  by (simp only: digit_def unat_of_nat) (simp add: take_bit_eq_mod)

lemma digit_val_digit [simp]: "n < 10 \<Longrightarrow> digit_val (digit n) = n"
  by (simp add: digit_val_def unat_digit)

lemma is_digit_iff: "is_digit c \<longleftrightarrow> 48 \<le> unat c \<and> unat c \<le> 57"
  by (simp add: is_digit_def word_le_nat_alt)

lemma is_digit_digit [simp]: "n < 10 \<Longrightarrow> is_digit (digit n)"
  by (simp add: is_digit_iff unat_digit)

lemma digit_digit_val: "is_digit c \<Longrightarrow> digit (digit_val c) = c"
  by (simp add: digit_def digit_val_def is_digit_iff)

lemma digit_val_less [simp]: "is_digit c \<Longrightarrow> digit_val c < 10"
  by (auto simp: digit_val_def is_digit_iff)

lemma digit_zero_iff: "n < 10 \<Longrightarrow> digit n = 48 \<longleftrightarrow> n = 0"
  using digit_val_digit [of n] by (auto simp: digit_val_def digit_def)

fun dec :: "nat \<Rightarrow> jsstr" where
  "dec n = (if n < 10 then [digit n] else dec (n div 10) @ [digit (n mod 10)])"

declare dec.simps [simp del]

definition undec :: "jsstr \<Rightarrow> nat" where
  "undec s = foldl (\<lambda>a c. 10 * a + digit_val c) 0 s"

lemma undec_Nil [simp]: "undec [] = 0" and undec_snoc [simp]: "undec (s @ [c]) = 10 * undec s + digit_val c"
  by (simp_all add: undec_def)

lemma undec_dec [simp]: "undec (dec n) = n"
  by (induction n rule: dec.induct) (subst dec.simps, auto simp: undec_def)

lemma dec_digits: "c \<in> set (dec n) \<Longrightarrow> is_digit c"
  by (induction n rule: dec.induct) (subst (asm) (2) dec.simps, auto split: if_splits)

lemma dec_not_Nil [simp]: "dec n \<noteq> []"
  by (subst dec.simps) simp

text \<open>\<open>0\<close>, or a non-zero digit and then digits.\<close>

fun canonical_dec :: "jsstr \<Rightarrow> bool" where
  "canonical_dec [] = False"
| "canonical_dec (c # cs) = (c = 48 \<and> cs = [] \<or> is_digit c \<and> c \<noteq> 48 \<and> list_all is_digit cs)"

lemma canonical_dec_snoc:
  "s \<noteq> [] \<Longrightarrow> s \<noteq> [48] \<Longrightarrow> canonical_dec s \<Longrightarrow> is_digit c \<Longrightarrow> canonical_dec (s @ [c])"
  by (cases s) auto

lemma canonical_dec_last: "canonical_dec (s @ [c]) \<Longrightarrow> is_digit c"
  by (cases s) (auto simp: is_digit_def)

lemma undec_zero: "canonical_dec s \<Longrightarrow> undec s = 0 \<Longrightarrow> s = [48]"
proof (induction s rule: rev_induct)
  case (snoc c s)
  have c: "is_digit c" by (rule canonical_dec_last [OF snoc.prems(1)])
  show ?case
  proof (cases s)
    case Nil
    with snoc.prems c show ?thesis using digit_digit_val [of c] by (auto simp: digit_def undec_def)
  next
    case (Cons a t)
    then have "canonical_dec s" using snoc.prems by auto
    moreover have "undec s = 0" using snoc.prems(2) by simp
    ultimately have "s = [48]" by (rule snoc.IH)
    then show ?thesis using snoc.prems(1) by simp
  qed
qed simp

lemma canonical_dec_dec: "canonical_dec (dec n)"
proof (induction n rule: dec.induct)
  case (1 n)
  show ?case
  proof (cases "n < 10")
    case True
    then show ?thesis using digit_zero_iff [of n] by (subst dec.simps) auto
  next
    case False
    then have "dec (n div 10) \<noteq> [48]"
      using undec_dec [of "n div 10"] by (auto simp: undec_def digit_val_def)
    with 1 False show ?thesis by (subst dec.simps) (simp add: canonical_dec_snoc)
  qed
qed

lemma dec_undec: "canonical_dec s \<Longrightarrow> dec (undec s) = s"
proof (induction s rule: rev_induct)
  case (snoc c s)
  have c: "is_digit c" by (rule canonical_dec_last [OF snoc.prems])
  show ?case
  proof (cases s)
    case Nil
    then show ?thesis using c digit_digit_val [of c] by (subst dec.simps) (simp add: undec_def)
  next
    case (Cons a t)
    then have cs: "canonical_dec s" "s \<noteq> [48]" using snoc.prems by auto
    then have "undec s \<noteq> 0" using undec_zero by blast
    then have "\<not> 10 * undec s + digit_val c < 10" by simp
    then show ?thesis using snoc.IH [OF cs(1)] digit_digit_val [OF c] c by (subst dec.simps) simp
  qed
qed simp

section \<open>bigint\<close>

definition bigint_toString :: "int \<Rightarrow> jsstr" where
  "bigint_toString i = (if i < 0 then 45 # dec (nat (- i)) else dec (nat i))"

text \<open>\<^verbatim>\<open>BigInt(raw)\<close> on a decimal literal with an optional minus sign.\<close>

definition BigInt :: "jsstr \<Rightarrow> int" where
  "BigInt s = (case s of [] \<Rightarrow> 0 | c # cs \<Rightarrow> if c = 45 then - int (undec cs) else int (undec s))"

lemma dec_hd_not_minus: "dec n = c # cs \<Longrightarrow> c \<noteq> 45"
  using dec_digits [of c n] by (auto simp: is_digit_def)

lemma BigInt_toString [simp]: "BigInt (bigint_toString i) = i"
proof (cases "i < 0")
  case False
  obtain c cs where "dec (nat i) = c # cs" by (cases "dec (nat i)") auto
  with False dec_hd_not_minus [OF this] undec_dec [of "nat i"] show ?thesis by (simp add: BigInt_def bigint_toString_def)
qed (simp add: BigInt_def bigint_toString_def)

section \<open>Dates\<close>

text \<open>
  Time values are milliseconds since the epoch; the day, year, month and date of a time value as the
  language defines them. The year is found from the mean length of a year and corrected by at most
  one.
\<close>

definition msPerDay :: int where
  "msPerDay = 86400000"

definition DayFromYear :: "int \<Rightarrow> int" where
  "DayFromYear y = 365 * (y - 1970) + (y - 1969) div 4 - (y - 1901) div 100 + (y - 1601) div 400"

definition InLeapYear :: "int \<Rightarrow> int" where
  "InLeapYear y = (if y mod 4 = 0 \<and> (y mod 100 \<noteq> 0 \<or> y mod 400 = 0) then 1 else 0)"

definition YearFromDay :: "int \<Rightarrow> int" where
  "YearFromDay d =
     (let y = 1970 + d * 400 div 146097 in
      if d < DayFromYear y then y - 1 else if DayFromYear (y + 1) \<le> d then y + 1 else y)"

lemma div_bounds:
  fixes k x :: int
  assumes "0 < k"
  shows "k * (x div k) \<le> x" and "x < k * (x div k) + k"
  using mult_div_mod_eq [of k x] pos_mod_bound [OF assms, of x] pos_mod_sign [OF assms, of x] by linarith+

lemma div_plus_one:
  fixes k x :: int
  assumes "0 < k"
  shows "(x + 1) div k = x div k + (if (x + 1) mod k = 0 then 1 else 0)"
proof (cases "x mod k + 1 = k")
  case True
  then have "x + 1 = k * (x div k) + k" using mult_div_mod_eq [of k x] by linarith
  then have "x + 1 = k * (x div k + 1)" by (simp add: distrib_left)
  then show ?thesis using assms by simp
next
  case False
  then have r: "x + 1 = k * (x div k) + (x mod k + 1)" "0 \<le> x mod k + 1" "x mod k + 1 < k"
    using mult_div_mod_eq [of k x] pos_mod_bound [OF assms, of x] pos_mod_sign [OF assms, of x] by linarith+
  from int_div_pos_eq [OF r] int_mod_pos_eq [OF r] r(2) pos_mod_sign [OF assms, of x] show ?thesis by simp
qed

lemma DayFromYear_Suc: "DayFromYear (y + 1) = DayFromYear y + 365 + InLeapYear y"
proof -
  have m: "(y - 1969 + 1) mod 4 = y mod 4" "(y - 1901 + 1) mod 100 = y mod 100" "(y - 1601 + 1) mod 400 = y mod 400"
    using mod_mult_self1 [of y "- 492" 4] mod_mult_self1 [of y "- 19" 100] mod_mult_self1 [of y "- 4" 400] by simp_all
  have e: "y + 1 - 1969 = y - 1969 + 1" "y + 1 - 1901 = y - 1901 + 1" "y + 1 - 1601 = y - 1601 + 1" by simp_all
  define a b c where "a = (y - 1969) div 4" and "b = (y - 1901) div 100" and "c = (y - 1601) div 400"
  have A: "(y + 1 - 1969) div 4 = a + (if y mod 4 = 0 then 1 else 0)"
    unfolding e(1) m(1) [symmetric] a_def by (rule div_plus_one) simp
  have B: "(y + 1 - 1901) div 100 = b + (if y mod 100 = 0 then 1 else 0)"
    unfolding e(2) m(2) [symmetric] b_def by (rule div_plus_one) simp
  have C: "(y + 1 - 1601) div 400 = c + (if y mod 400 = 0 then 1 else 0)"
    unfolding e(3) m(3) [symmetric] c_def by (rule div_plus_one) simp
  have "y mod 400 = 0 \<Longrightarrow> y mod 100 = 0" "y mod 100 = 0 \<Longrightarrow> y mod 4 = 0"
    using mod_mod_cancel [of 100 400 y] mod_mod_cancel [of 4 100 y] by auto
  then have "(if y mod 4 = 0 then 1 else 0) - (if y mod 100 = 0 then 1 else 0) + (if y mod 400 = 0 then 1 else 0)
      = InLeapYear y"
    unfolding InLeapYear_def by (cases "y mod 4 = 0"; cases "y mod 100 = 0"; cases "y mod 400 = 0"; simp only:; simp)
  then show ?thesis
    unfolding DayFromYear_def A B C a_def [symmetric] b_def [symmetric] c_def [symmetric] by (simp add: algebra_simps)
qed

lemma YearFromDay_bounds: "DayFromYear (YearFromDay d) \<le> d \<and> d < DayFromYear (YearFromDay d + 1)"
proof -
  let ?y = "1970 + d * 400 div 146097"
  have f: "4 * ((y - 1969) div 4) \<le> y - 1969" "y - 1969 < 4 * ((y - 1969) div 4) + 4"
    "100 * ((y - 1901) div 100) \<le> y - 1901" "y - 1901 < 100 * ((y - 1901) div 100) + 100"
    "400 * ((y - 1601) div 400) \<le> y - 1601" "y - 1601 < 400 * ((y - 1601) div 400) + 400" for y :: int
    by (rule div_bounds, simp)+
  have lo: "400 * (365 * (y - 1970) + a - b + c) \<le> 146097 * (y - 1970) + 800"
    if "4 * a \<le> y - 1969" "y - 1969 < 4 * a + 4" "100 * b \<le> y - 1901" "y - 1901 < 100 * b + 100"
      "400 * c \<le> y - 1601" "y - 1601 < 400 * c + 400" for a b c y :: int
    using that by (simp add: algebra_simps)
  have hi: "146097 * (y - 1970) - 800 \<le> 400 * (365 * (y - 1970) + a - b + c)"
    if "4 * a \<le> y - 1969" "y - 1969 < 4 * a + 4" "100 * b \<le> y - 1901" "y - 1901 < 100 * b + 100"
      "400 * c \<le> y - 1601" "y - 1601 < 400 * c + 400" for a b c y :: int
    using that by (simp add: algebra_simps)
  note lo = lo [OF f, folded DayFromYear_def] and hi = hi [OF f, folded DayFromYear_def]
  have q: "146097 * (?y - 1970) \<le> d * 400" "d * 400 < 146097 * (?y - 1970) + 146097"
    using div_bounds [of 146097 "d * 400"] by simp_all
  have "DayFromYear (?y - 1) \<le> d" using lo [of "?y - 1"] q by (simp add: algebra_simps)
  moreover have "d < DayFromYear (?y + 1 + 1)" using hi [of "?y + 1 + 1"] q by (simp add: algebra_simps)
  ultimately show ?thesis unfolding YearFromDay_def Let_def by auto
qed

definition month_starts :: "int \<Rightarrow> int list" where
  "month_starts l = [0, 31, 59 + l, 90 + l, 120 + l, 151 + l, 181 + l, 212 + l, 243 + l, 273 + l, 304 + l, 334 + l]"

definition MonthFromYearDay :: "int \<Rightarrow> int \<Rightarrow> nat" where
  "MonthFromYearDay l yd = length (filter (\<lambda>s. s \<le> yd) (tl (month_starts l)))"

lemma month_bounds:
  assumes "l = 0 \<or> l = 1" and "0 \<le> yd" and "yd < 365 + l"
  shows "MonthFromYearDay l yd \<le> 11"
    and "month_starts l ! MonthFromYearDay l yd \<le> yd" and "yd - month_starts l ! MonthFromYearDay l yd < 31"
  using assms by (auto simp: MonthFromYearDay_def month_starts_def)

fun pad :: "nat \<Rightarrow> nat \<Rightarrow> jsstr" where
  "pad 0 n = []"
| "pad (Suc w) n = pad w (n div 10) @ [digit (n mod 10)]"

definition year_text :: "int \<Rightarrow> jsstr" where
  "year_text y = (if 0 \<le> y \<and> y \<le> 9999 then pad 4 (nat y) else (if y < 0 then 45 else 43) # pad 6 (nat \<bar>y\<bar>))"

definition toISOString :: "int \<Rightarrow> jsstr" where
  "toISOString t =
     (let d = t div msPerDay; ms = t mod msPerDay; y = YearFromDay d; l = InLeapYear y; yd = d - DayFromYear y;
          m = MonthFromYearDay l yd; date = yd - month_starts l ! m + 1
      in year_text y @ [45] @ pad 2 (m + 1) @ [45] @ pad 2 (nat date)
         @ [84] @ pad 2 (nat (ms div 3600000)) @ [58] @ pad 2 (nat (ms div 60000 mod 60))
         @ [58] @ pad 2 (nat (ms div 1000 mod 60)) @ [46] @ pad 3 (nat (ms mod 1000)) @ [90])"

text \<open>The date-time string format, in the full form that \<^verbatim>\<open>toISOString\<close> prints.\<close>

fun take_dec :: "nat \<Rightarrow> nat \<Rightarrow> jsstr \<Rightarrow> (nat \<times> jsstr) option" where
  "take_dec 0 acc s = Some (acc, s)"
| "take_dec (Suc w) acc [] = None"
| "take_dec (Suc w) acc (c # s) = (if is_digit c then take_dec w (10 * acc + digit_val c) s else None)"

fun expect :: "16 word \<Rightarrow> jsstr \<Rightarrow> jsstr option" where
  "expect c [] = None"
| "expect c (x # s) = (if x = c then Some s else None)"

definition take_year :: "jsstr \<Rightarrow> (int \<times> jsstr) option" where
  "take_year s =
     (case s of
        [] \<Rightarrow> None
      | c # cs \<Rightarrow>
          (if c = 43 then map_option (map_prod int id) (take_dec 6 0 cs)
           else if c = 45 then
             (case take_dec 6 0 cs of Some (n, r) \<Rightarrow> if n = 0 then None else Some (- int n, r) | None \<Rightarrow> None)
           else map_option (map_prod int id) (take_dec 4 0 s)))"

definition iso_parse :: "jsstr \<Rightarrow> int option" where
  "iso_parse s = do {
     (y, s) \<leftarrow> take_year s; s \<leftarrow> expect 45 s;
     (m, s) \<leftarrow> take_dec 2 0 s; s \<leftarrow> expect 45 s;
     (date, s) \<leftarrow> take_dec 2 0 s; s \<leftarrow> expect 84 s;
     (hh, s) \<leftarrow> take_dec 2 0 s; s \<leftarrow> expect 58 s;
     (mm, s) \<leftarrow> take_dec 2 0 s; s \<leftarrow> expect 58 s;
     (ss, s) \<leftarrow> take_dec 2 0 s; s \<leftarrow> expect 46 s;
     (milli, s) \<leftarrow> take_dec 3 0 s; s \<leftarrow> expect 90 s;
     if s = [] \<and> 1 \<le> m \<and> m \<le> 12 \<and> 1 \<le> date \<and> date \<le> 31 \<and> hh \<le> 23 \<and> mm \<le> 59 \<and> ss \<le> 59
     then Some ((DayFromYear y + month_starts (InLeapYear y) ! (m - 1) + int date - 1) * msPerDay
                + int hh * 3600000 + int mm * 60000 + int ss * 1000 + int milli)
     else None }"

text \<open>The time values a valid \<^verbatim>\<open>Date\<close> can hold.\<close>

definition time_value :: "int \<Rightarrow> bool" where
  "time_value t \<longleftrightarrow> \<bar>t\<bar> \<le> 8640000000000000"

lemma length_pad [simp]: "length (pad w n) = w"
  by (induction w arbitrary: n) auto

lemma take_dec_pad: "n < 10 ^ w \<Longrightarrow> take_dec (w + k) acc (pad w n @ s) = take_dec k (acc * 10 ^ w + n) s"
proof (induction w arbitrary: n k s)
  case (Suc w)
  have "n div 10 < 10 ^ w" using Suc.prems by (simp add: less_mult_imp_div_less mult.commute)
  from Suc.IH [OF this, of "Suc k" "[digit (n mod 10)] @ s"] show ?case
    by (simp add: algebra_simps)
qed simp

lemma take_dec_pad' [simp]: "n < 10 ^ w \<Longrightarrow> take_dec w 0 (pad w n @ s) = Some (n, s)"
  using take_dec_pad [of n w 0 0 s] by simp

lemma take_year_text:
  assumes "\<bar>y\<bar> < 1000000"
  shows "take_year (year_text y @ s) = Some (y, s)"
proof (cases "0 \<le> y \<and> y \<le> 9999")
  case True
  have "nat y < 10 ^ 4" using True by (simp add: nat_less_iff)
  then have td: "take_dec 4 0 (pad 4 (nat y) @ s) = Some (nat y, s)" by (rule take_dec_pad')
  obtain c cs where c: "pad 4 (nat y) @ s = c # cs" by (cases "pad 4 (nat y)") (auto dest: arg_cong [where f = length])
  have "take_dec (Suc 3) 0 (c # cs) = Some (nat y, s)" using td unfolding c by simp
  then have "is_digit c" by (simp only: take_dec.simps option.distinct split: if_splits)
  then have "c \<noteq> 43" "c \<noteq> 45" by (auto simp: is_digit_def)
  then show ?thesis using True td c by (simp add: take_year_def year_text_def)
next
  case False
  have "nat \<bar>y\<bar> < 10 ^ 6" using assms by simp
  from take_dec_pad' [OF this, of s] show ?thesis using False by (auto simp: take_year_def year_text_def)
qed

lemma year_bound:
  assumes "time_value t"
  shows "\<bar>YearFromDay (t div msPerDay)\<bar> < 1000000"
proof -
  have "\<bar>t div msPerDay\<bar> \<le> 100000000"
    using assms div_bounds [of 86400000 t] by (simp add: time_value_def msPerDay_def)
  then have "\<bar>(t div msPerDay) * 400 div 146097\<bar> \<le> 300000"
    using div_bounds [of 146097 "(t div msPerDay) * 400"] by simp
  then show ?thesis by (auto simp: YearFromDay_def Let_def abs_less_iff abs_le_iff)
qed

lemma InLeapYear_cases: "InLeapYear y = 0 \<or> InLeapYear y = 1"
  by (simp add: InLeapYear_def)

lemma ms_split:
  fixes ms :: int
  shows "ms div 3600000 * 3600000 + ms div 60000 mod 60 * 60000 + ms div 1000 mod 60 * 1000 + ms mod 1000 = ms"
proof -
  have "ms div 60000 = ms div 1000 div 60" "ms div 3600000 = ms div 60000 div 60"
    by (simp_all add: zdiv_zmult2_eq [symmetric])
  then show ?thesis
    using mult_div_mod_eq [of 60 "ms div 60000"] mult_div_mod_eq [of 60 "ms div 1000"] mult_div_mod_eq [of 1000 ms]
    by linarith
qed

lemma iso_parse_toISOString:
  assumes "time_value t"
  shows "iso_parse (toISOString t) = Some t"
proof -
  define d ms where "d = t div msPerDay" and "ms = t mod msPerDay"
  define y where "y = YearFromDay d"
  define l yd where "l = InLeapYear y" and "yd = d - DayFromYear y"
  define m where "m = MonthFromYearDay l yd"
  define date where "date = yd - month_starts l ! m + 1"
  have yd: "0 \<le> yd" "yd < 365 + l"
    using YearFromDay_bounds [of d] DayFromYear_Suc [of y] by (auto simp: yd_def y_def l_def)
  have l: "l = 0 \<or> l = 1" using InLeapYear_cases by (simp add: l_def)
  have m: "m \<le> 11" and date: "1 \<le> date" "date \<le> 31" using month_bounds [OF l yd] by (simp_all add: m_def date_def)
  have ms: "0 \<le> ms" "ms < 86400000" by (simp_all add: ms_def msPerDay_def)
  define hh mm ss milli
    where "hh = ms div 3600000" and "mm = ms div 60000 mod 60" and "ss = ms div 1000 mod 60" and "milli = ms mod 1000"
  have hh: "0 \<le> hh" "hh \<le> 23" using ms div_bounds [of 3600000 ms] by (simp_all add: hh_def)
  have mm: "0 \<le> mm" "mm \<le> 59" "0 \<le> ss" "ss \<le> 59" "0 \<le> milli" "milli < 1000"
    using pos_mod_bound [of 60 "ms div 60000"] pos_mod_bound [of 60 "ms div 1000"] by (simp_all add: mm_def ss_def milli_def)
  have y: "\<bar>y\<bar> < 1000000" using year_bound [OF assms] by (simp add: y_def d_def)
  have iso: "toISOString t = year_text y @ [45] @ pad 2 (Suc m) @ [45] @ pad 2 (nat date)
         @ [84] @ pad 2 (nat hh) @ [58] @ pad 2 (nat mm) @ [58] @ pad 2 (nat ss) @ [46] @ pad 3 (nat milli) @ [90]"
    by (simp only: toISOString_def Let_def d_def ms_def y_def l_def yd_def m_def date_def hh_def mm_def ss_def milli_def Suc_eq_plus1)
  have split: "hh * 3600000 + mm * 60000 + ss * 1000 + milli = ms"
    using ms_split [of ms] by (simp only: hh_def mm_def ss_def milli_def)
  have day: "DayFromYear y + month_starts (InLeapYear y) ! m + date - 1 = d"
    by (simp add: date_def yd_def l_def)
  have t: "d * msPerDay + ms = t" by (simp add: d_def ms_def)
  have f: "Suc m < 10 ^ 2" "nat date < 10 ^ 2" "nat hh < 10 ^ 2" "nat mm < 10 ^ 2" "nat ss < 10 ^ 2" "nat milli < 10 ^ 3"
    using m date hh mm by (simp_all add: nat_less_iff)
  have r: "nat date \<le> 31" "Suc 0 \<le> nat date" "nat hh \<le> 23" "nat mm \<le> 59" "nat ss \<le> 59"
    using date hh mm by linarith+
  have "iso_parse (toISOString t) = Some ((DayFromYear y + month_starts (InLeapYear y) ! m + date - 1) * msPerDay
      + hh * 3600000 + mm * 60000 + ss * 1000 + milli)"
    unfolding iso iso_parse_def
    using m date hh mm r
    by (simp add: take_year_text [OF y] take_dec_pad' [OF f(1)] take_dec_pad' [OF f(2)] take_dec_pad' [OF f(3)]
        take_dec_pad' [OF f(4)] take_dec_pad' [OF f(5)] take_dec_pad' [OF f(6)] del: take_dec_pad')
  then show ?thesis unfolding day using split t by (simp add: algebra_simps)
qed

text \<open>
  \<^verbatim>\<open>new Date(raw).getTime()\<close>: the date-time string format, and whatever the engine makes of
  other strings (\<open>ext\<close>, which the language leaves to the implementation).
\<close>

definition Date_parse :: "(jsstr \<Rightarrow> int option) \<Rightarrow> jsstr \<Rightarrow> int option" where
  "Date_parse ext s =
     (case (case iso_parse s of None \<Rightarrow> ext s | Some t \<Rightarrow> Some t) of
        None \<Rightarrow> None
      | Some t \<Rightarrow> if time_value t then Some t else None)"

lemma Date_parse_toISOString [simp]: "time_value t \<Longrightarrow> Date_parse ext (toISOString t) = Some t"
  by (simp add: Date_parse_def iso_parse_toISOString)

lemma Date_parse_valid: "Date_parse ext s = Some t \<Longrightarrow> time_value t"
  by (auto simp: Date_parse_def split: option.splits if_splits)

end
