(* ===== verification/HistoryCodec.thy ===== *)
theory HistoryCodec
  imports JsFormat Schema
begin

text \<open>
  Transaction-history entries and their stored form (\<^verbatim>\<open>interfaces/transaction-history-storage.ts\<close>
  and the first half of \<^verbatim>\<open>postgres/transaction-history-storage.ts\<close>): the boundary schema, the
  tagged encoding of \<^verbatim>\<open>bigint\<close> and \<^verbatim>\<open>Date\<close> leaves in JSON, and the strict decoder.
  What \<^verbatim>\<open>new Date\<close> makes of strings outside the language's date format is the argument
  \<open>ext\<close>.
\<close>

section \<open>Entries\<close>

definition THS_RESERVED_KEY_PREFIX :: jsstr where
  "THS_RESERVED_KEY_PREFIX = js ''__umbradb_ths_''"

definition SafeObjectKeySchema :: "jsstr \<Rightarrow> bool" where
  "SafeObjectKeySchema k \<longleftrightarrow> \<not> hasPostgresUnsafeText k \<and> \<not> starts_with k THS_RESERVED_KEY_PREFIX"

fun EntryContentSchema :: "jsval \<Rightarrow> bool" where
  "EntryContentSchema (JStr s) = (\<not> hasPostgresUnsafeText s)"
| "EntryContentSchema (JNum _) = True"
| "EntryContentSchema (JBool _) = True"
| "EntryContentSchema JNull = True"
| "EntryContentSchema (JBigint _) = True"
| "EntryContentSchema (JDate (Some t)) = time_value t"
| "EntryContentSchema (JArr xs) = list_all EntryContentSchema xs"
| "EntryContentSchema (JObj kvs) = list_all (\<lambda>(k, v). SafeObjectKeySchema k \<and> EntryContentSchema v) kvs"
| "EntryContentSchema _ = False"

definition MAX_ENTRY_CONTENT_DEPTH :: nat where
  "MAX_ENTRY_CONTENT_DEPTH = MAX_JSON_DEPTH"

definition EntrySectionsSchema :: "(jsstr \<times> jsval) list \<Rightarrow> bool" where
  "EntrySectionsSchema sections \<longleftrightarrow>
     (if exceedsMaxDepth (JObj sections) MAX_ENTRY_CONTENT_DEPTH then False else EntryContentSchema (JObj sections))"

datatype lifecycle = Pending | Finalized | Rejected

datatype tx_status = Success | PartialSuccess | Failure

text \<open>
  An optional property is an option; \<^verbatim>\<open>fees\<close> may be absent, \<^verbatim>\<open>null\<close> or a
  \<^verbatim>\<open>bigint\<close>; an invalid \<^verbatim>\<open>Date\<close> is \<open>Some None\<close>.
\<close>

record tx_entry =
  e_hash :: jsstr
  e_identifiers :: "jsstr list"
  e_protocolVersion :: "rat option"
  e_status :: "tx_status option"
  e_timestamp :: "int option option"
  e_fees :: "int option option"
  e_lifecycle :: lifecycle
  e_sections :: "(jsstr \<times> jsval) list"

definition name_schema :: "jsstr \<Rightarrow> bool" where
  "name_schema s \<longleftrightarrow> 1 \<le> length s \<and> \<not> hasPostgresUnsafeText s"

definition protocol_schema :: "rat \<Rightarrow> bool" where
  "protocol_schema v \<longleftrightarrow> of_int \<lfloor>v\<rfloor> = v \<and> 0 \<le> v \<and> v \<le> 9007199254740991"

definition TransactionHistoryEntrySchema :: "tx_entry \<Rightarrow> bool" where
  "TransactionHistoryEntrySchema e \<longleftrightarrow>
     name_schema (e_hash e)
   \<and> list_all name_schema (e_identifiers e)
   \<and> (case e_protocolVersion e of None \<Rightarrow> True | Some v \<Rightarrow> protocol_schema v)
   \<and> (case e_timestamp e of None \<Rightarrow> True | Some None \<Rightarrow> False | Some (Some t) \<Rightarrow> time_value t)
   \<and> EntrySectionsSchema (e_sections e)"

section \<open>Encoding\<close>

definition BIGINT_TAG :: jsstr where
  "BIGINT_TAG = THS_RESERVED_KEY_PREFIX @ js ''bigint''"

definition DATE_TAG :: jsstr where
  "DATE_TAG = THS_RESERVED_KEY_PREFIX @ js ''date''"

text \<open>\<^verbatim>\<open>toISOString\<close> throws a \<^verbatim>\<open>RangeError\<close> on an invalid date.\<close>

fun date_text :: "int option \<Rightarrow> js_error + jsstr" where
  "date_text None = Inl (plain_error ''Invalid time value'')"
| "date_text (Some t) = Inr (toISOString t)"

fun encodeContent :: "jsval \<Rightarrow> js_error + jsval" where
  "encodeContent (JBigint i) = Inr (JObj [(BIGINT_TAG, JStr (bigint_toString i))])"
| "encodeContent (JDate d) = map_sum id (\<lambda>s. JObj [(DATE_TAG, JStr s)]) (date_text d)"
| "encodeContent (JArr xs) = map_sum id JArr (map_throw encodeContent xs)"
| "encodeContent (JObj kvs) = map_sum id JObj (map_throw (\<lambda>(k, v). map_sum id (Pair k) (encodeContent v)) kvs)"
| "encodeContent v = Inr v"

definition encodeSections :: "(jsstr \<times> jsval) list \<Rightarrow> js_error + (jsstr \<times> jsval) list" where
  "encodeSections sections = map_throw (\<lambda>(k, v). map_sum id (Pair k) (encodeContent v)) sections"

fun lifecycle_status :: "lifecycle \<Rightarrow> string" where
  "lifecycle_status Pending = ''pending''"
| "lifecycle_status Finalized = ''finalized''"
| "lifecycle_status Rejected = ''rejected''"

fun status_text :: "tx_status \<Rightarrow> string" where
  "status_text Success = ''success''"
| "status_text PartialSuccess = ''partialSuccess''"
| "status_text Failure = ''failure''"

definition encode_lifecycle :: "lifecycle \<Rightarrow> jsval" where
  "encode_lifecycle l = JObj [(js ''status'', JStr (js (lifecycle_status l)))]"

text \<open>A member that is spread in only when the field is present.\<close>

definition member_opt :: "string \<Rightarrow> jsval option \<Rightarrow> (jsstr \<times> jsval) list" where
  "member_opt k v = (case v of None \<Rightarrow> [] | Some j \<Rightarrow> [(js k, j)])"

definition encodeStoredEntry :: "tx_entry \<Rightarrow> js_error + jsval" where
  "encodeStoredEntry e =
     (case map_throw (map_sum id JStr \<circ> date_text) (case e_timestamp e of None \<Rightarrow> [] | Some d \<Rightarrow> [d]) of
        Inl err \<Rightarrow> Inl err
      | Inr ts \<Rightarrow>
          (case encodeSections (e_sections e) of
             Inl err \<Rightarrow> Inl err
           | Inr secs \<Rightarrow>
               Inr (JObj
                 ([(js ''hash'', JStr (e_hash e)), (js ''identifiers'', JArr (map JStr (e_identifiers e)))]
                  @ member_opt ''protocolVersion'' (map_option JNum (e_protocolVersion e))
                  @ member_opt ''status'' (map_option (JStr \<circ> js \<circ> status_text) (e_status e))
                  @ map (\<lambda>t. (js ''timestamp'', t)) ts
                  @ member_opt ''fees'' (map_option (\<lambda>f. case f of None \<Rightarrow> JNull | Some i \<Rightarrow> JStr (bigint_toString i)) (e_fees e))
                  @ [(js ''lifecycle'', encode_lifecycle (e_lifecycle e)), (js ''sections'', JObj secs)]))))"

section \<open>Decoding\<close>

definition serialization_failed :: "string \<Rightarrow> js_error" where
  "serialization_failed m = StorageErr (SerializationFailedError m)"

text \<open>\<^verbatim>\<open>/^-?(0|[1-9]\d*)$/\<close>\<close>

definition CANONICAL_BIGINT_RE :: "jsstr \<Rightarrow> bool" where
  "CANONICAL_BIGINT_RE s \<longleftrightarrow> canonical_dec (case s of c # cs \<Rightarrow> if c = 45 then cs else s | [] \<Rightarrow> [])"

fun parseStoredBigint :: "jsval \<Rightarrow> js_error + int" where
  "parseStoredBigint (JStr raw) =
     (if CANONICAL_BIGINT_RE raw then Inr (BigInt raw) else Inl (serialization_failed ''bigint''))"
| "parseStoredBigint _ = Inl (serialization_failed ''bigint'')"

fun parseStoredDate :: "(jsstr \<Rightarrow> int option) \<Rightarrow> jsval \<Rightarrow> js_error + int" where
  "parseStoredDate ext (JStr raw) =
     (case Date_parse ext raw of
        None \<Rightarrow> Inl (serialization_failed ''date'')
      | Some d \<Rightarrow> if toISOString d \<noteq> raw then Inl (serialization_failed ''date'') else Inr d)"
| "parseStoredDate ext _ = Inl (serialization_failed ''date'')"

fun isTagObject :: "(jsstr \<times> jsval) list \<Rightarrow> jsstr \<Rightarrow> bool" where
  "isTagObject [(k, JStr _)] tag = (k = tag)"
| "isTagObject _ _ = False"

fun decodeContent :: "(jsstr \<Rightarrow> int option) \<Rightarrow> jsval \<Rightarrow> js_error + jsval" where
  "decodeContent ext (JArr xs) = map_sum id JArr (map_throw (decodeContent ext) xs)"
| "decodeContent ext (JObj kvs) =
     (if isTagObject kvs BIGINT_TAG then map_sum id JBigint (parseStoredBigint (snd (hd kvs)))
      else if isTagObject kvs DATE_TAG then map_sum id (JDate \<circ> Some) (parseStoredDate ext (snd (hd kvs)))
      else map_sum id JObj (map_throw (\<lambda>(k, v). map_sum id (Pair k) (decodeContent ext v)) kvs))"
| "decodeContent ext v = Inr v"

definition decodeSections :: "(jsstr \<Rightarrow> int option) \<Rightarrow> (jsstr \<times> jsval) list \<Rightarrow> js_error + (jsstr \<times> jsval) list" where
  "decodeSections ext sections = map_throw (\<lambda>(k, v). map_sum id (Pair k) (decodeContent ext v)) sections"

text \<open>
  The stored row back to an entry. The candidate object is validated by the entry schema: an optional
  field that is present must have its type, \<^verbatim>\<open>lifecycle\<close> must carry a known status.
\<close>

definition parse_protocol :: "jsval option \<Rightarrow> rat option option" where
  "parse_protocol v = (case v of None \<Rightarrow> Some None | Some (JNum r) \<Rightarrow> Some (Some r) | _ \<Rightarrow> None)"

definition parse_status :: "jsval option \<Rightarrow> tx_status option option" where
  "parse_status v =
     (case v of
        None \<Rightarrow> Some None
      | Some (JStr s) \<Rightarrow>
          (if s = js ''success'' then Some (Some Success)
           else if s = js ''partialSuccess'' then Some (Some PartialSuccess)
           else if s = js ''failure'' then Some (Some Failure) else None)
      | _ \<Rightarrow> None)"

definition parse_lifecycle :: "jsval option \<Rightarrow> lifecycle option" where
  "parse_lifecycle v =
     (case v of
        Some (JObj kvs) \<Rightarrow>
          (case map_of kvs (js ''status'') of
             Some (JStr s) \<Rightarrow>
               (if s = js ''pending'' then Some Pending
                else if s = js ''finalized'' then Some Finalized
                else if s = js ''rejected'' then Some Rejected else None)
           | _ \<Rightarrow> None)
      | _ \<Rightarrow> None)"

text \<open>\<^verbatim>\<open>stored.x !== undefined ? { x: parse(stored.x) } : {}\<close>\<close>

definition optional :: "('a \<Rightarrow> js_error + 'b) \<Rightarrow> 'a option \<Rightarrow> js_error + 'b option" where
  "optional f v = (case v of None \<Rightarrow> Inr None | Some x \<Rightarrow> map_sum id Some (f x))"

fun parse_fees :: "jsval \<Rightarrow> js_error + int option" where
  "parse_fees JNull = Inr None"
| "parse_fees v = map_sum id Some (parseStoredBigint v)"

definition assertStoredEntryShape :: "jsval \<Rightarrow> js_error + (jsstr \<times> jsval) list \<times> (jsstr \<times> jsval) list" where
  "assertStoredEntryShape entry =
     (case entry of
        JObj kvs \<Rightarrow>
          (case map_of kvs (js ''sections'') of
             Some (JObj secs) \<Rightarrow> Inr (kvs, secs)
           | _ \<Rightarrow> Inl (serialization_failed ''entry.sections is not a JSON object''))
      | _ \<Rightarrow> Inl (serialization_failed ''entry is not a JSON object''))"

definition row_candidate ::
  "jsstr \<Rightarrow> jsstr list \<Rightarrow> (jsstr \<times> jsval) list \<Rightarrow> int option \<Rightarrow> int option option \<Rightarrow> (jsstr \<times> jsval) list \<Rightarrow> tx_entry option" where
  "row_candidate hash identifiers stored ts fees secs =
     (case (parse_protocol (map_of stored (js ''protocolVersion'')), parse_status (map_of stored (js ''status'')),
            parse_lifecycle (map_of stored (js ''lifecycle''))) of
        (Some pv, Some st, Some l) \<Rightarrow>
          (let e = \<lparr>e_hash = hash, e_identifiers = identifiers, e_protocolVersion = pv, e_status = st,
                    e_timestamp = map_option Some ts, e_fees = fees, e_lifecycle = l, e_sections = secs\<rparr>
           in if TransactionHistoryEntrySchema e then Some e else None)
      | _ \<Rightarrow> None)"

definition decodeRow :: "(jsstr \<Rightarrow> int option) \<Rightarrow> jsstr \<Rightarrow> tx_history_row \<Rightarrow> js_error + tx_entry" where
  "decodeRow ext tx_hash row =
     (case assertStoredEntryShape (t_entry row) of
        Inl err \<Rightarrow> Inl err
      | Inr (stored, sections) \<Rightarrow>
          (case optional (parseStoredDate ext) (map_of stored (js ''timestamp'')) of
             Inl err \<Rightarrow> Inl err
           | Inr ts \<Rightarrow>
               (case optional parse_fees (map_of stored (js ''fees'')) of
                  Inl err \<Rightarrow> Inl err
                | Inr fees \<Rightarrow>
                    (case decodeSections ext sections of
                       Inl err \<Rightarrow> Inl err
                     | Inr secs \<Rightarrow>
                         (case row_candidate tx_hash (t_identifiers row) stored ts fees secs of
                            None \<Rightarrow> Inl (validation_error ''PgTransactionHistoryStorage row'')
                          | Some e \<Rightarrow> Inr e)))))"

definition rowToEntry :: "(jsstr \<Rightarrow> int option) \<Rightarrow> jsstr \<Rightarrow> tx_history_row \<Rightarrow> js_error + tx_entry" where
  "rowToEntry ext tx_hash row =
     (case decodeRow ext tx_hash row of
        Inl (StorageErr e) \<Rightarrow> Inl (StorageErr e)
      | Inl _ \<Rightarrow> Inl (serialization_failed ''row is corrupted'')
      | Inr e \<Rightarrow> Inr e)"

section \<open>Strict scalars\<close>

lemma CANONICAL_toString [simp]: "CANONICAL_BIGINT_RE (bigint_toString i)"
proof (cases "i < 0")
  case False
  obtain c cs where "dec (nat i) = c # cs" by (cases "dec (nat i)") auto
  with False dec_hd_not_minus [OF this] canonical_dec_dec [of "nat i"] show ?thesis
    by (simp add: CANONICAL_BIGINT_RE_def bigint_toString_def del: canonical_dec.simps)
qed (simp add: CANONICAL_BIGINT_RE_def bigint_toString_def canonical_dec_dec)

lemma CANONICAL_BigInt:
  assumes "CANONICAL_BIGINT_RE raw"
  shows "raw = bigint_toString (BigInt raw) \<or> raw = [45, 48] \<and> BigInt raw = 0"
proof (cases raw)
  case (Cons c cs)
  show ?thesis
  proof (cases "c = 45")
    case True
    then have cd: "canonical_dec cs" using assms Cons by (simp add: CANONICAL_BIGINT_RE_def)
    show ?thesis
    proof (cases "undec cs = 0")
      case True
      with undec_zero [OF cd] Cons \<open>c = 45\<close> show ?thesis by (auto simp: BigInt_def)
    next
      case False
      then show ?thesis using Cons \<open>c = 45\<close> dec_undec [OF cd] by (auto simp: BigInt_def bigint_toString_def)
    qed
  next
    case False
    then show ?thesis using assms Cons dec_undec [of raw]
      by (auto simp: CANONICAL_BIGINT_RE_def BigInt_def bigint_toString_def simp del: canonical_dec.simps)
  qed
qed (use assms in \<open>simp add: CANONICAL_BIGINT_RE_def\<close>)

lemma parseStoredBigint_toString [simp]: "parseStoredBigint (JStr (bigint_toString i)) = Inr i"
  by simp

lemma parseStoredDate_toISOString [simp]: "time_value t \<Longrightarrow> parseStoredDate ext (JStr (toISOString t)) = Inr t"
  by simp

lemma parseStoredDate_exact:
  "parseStoredDate ext v = Inr t \<longleftrightarrow> time_value t \<and> v = JStr (toISOString t)"
  by (cases v) (auto split: option.splits if_splits dest: Date_parse_valid)

section \<open>Round trip\<close>

text \<open>Every text the encoder itself produces is plain ASCII, which the server stores as it is.\<close>

definition plain_ascii :: "jsstr \<Rightarrow> bool" where
  "plain_ascii s \<longleftrightarrow> (\<forall>c \<in> set s. 0 < unat c \<and> unat c < 128)"

lemma plain_ascii_safe: "plain_ascii s \<Longrightarrow> \<not> hasPostgresUnsafeText s"
proof -
  assume a: "plain_ascii s"
  have "\<not> is_high (s ! i)" "\<not> is_low (s ! i)" if "i < length s" for i
    using nth_mem [OF that] a by (auto simp: plain_ascii_def is_high_def is_low_def word_le_nat_alt)
  then have "\<not> lone_surrogate_at s i" if "i < length s" for i using that by (simp add: lone_surrogate_at_def)
  with a show ?thesis by (auto simp: hasPostgresUnsafeText_def LONE_SURROGATE_iff plain_ascii_def)
qed

lemma plain_ascii_append [simp]: "plain_ascii (s @ t) \<longleftrightarrow> plain_ascii s \<and> plain_ascii t"
  and plain_ascii_Cons [simp]: "plain_ascii (c # t) \<longleftrightarrow> 0 < unat c \<and> unat c < 128 \<and> plain_ascii t"
  and plain_ascii_Nil [simp]: "plain_ascii []"
  by (auto simp: plain_ascii_def)

lemma plain_ascii_digits: "(\<And>c. c \<in> set s \<Longrightarrow> is_digit c) \<Longrightarrow> plain_ascii s"
  by (fastforce simp: plain_ascii_def is_digit_iff)

lemma plain_ascii_dec [simp]: "plain_ascii (dec n)"
  by (rule plain_ascii_digits) (rule dec_digits)

lemma plain_ascii_pad [simp]: "plain_ascii (pad w n)"
  by (induction w arbitrary: n) (auto simp: unat_digit)

lemma plain_ascii_bigint: "plain_ascii (bigint_toString i)"
  by (simp add: bigint_toString_def)

lemma plain_ascii_iso: "plain_ascii (toISOString t)"
  by (simp add: toISOString_def Let_def year_text_def)

lemma plain_ascii_tags: "plain_ascii BIGINT_TAG" "plain_ascii DATE_TAG"
  by code_simp+

lemmas encoder_text_safe = plain_ascii_bigint [THEN plain_ascii_safe] plain_ascii_iso [THEN plain_ascii_safe]
  plain_ascii_tags [THEN plain_ascii_safe]

lemma tags_reserved: "\<not> SafeObjectKeySchema BIGINT_TAG" "\<not> SafeObjectKeySchema DATE_TAG"
  by (simp_all add: SafeObjectKeySchema_def BIGINT_TAG_def DATE_TAG_def starts_with_def)

lemma tags_distinct: "BIGINT_TAG \<noteq> DATE_TAG"
  by code_simp

lemma isTagObject_safe:
  assumes "list_all (\<lambda>(k, v). SafeObjectKeySchema k \<and> P v) kvs" and "map fst kvs' = map fst kvs"
  shows "\<not> isTagObject kvs' BIGINT_TAG" and "\<not> isTagObject kvs' DATE_TAG"
  using assms tags_reserved
  by (cases "(kvs', BIGINT_TAG)" rule: isTagObject.cases; auto simp: Cons_eq_map_conv map_eq_Cons_conv)+

text \<open>The encoded value, where encoding succeeds.\<close>

definition encoded :: "jsval \<Rightarrow> jsval" where
  "encoded v = projr (encodeContent v)"

lemma content_roundtrip:
  assumes "EntryContentSchema v"
  shows "encodeContent v = Inr (encoded v)" and "decodeContent ext (encoded v) = Inr v"
    and "z_json (encoded v)" and "\<not> jsonValueHasUnsafeText (encoded v)"
proof -
  have "encodeContent v = Inr (encoded v) \<and> decodeContent ext (encoded v) = Inr v
      \<and> z_json (encoded v) \<and> \<not> jsonValueHasUnsafeText (encoded v)"
    using assms
  proof (induction v rule: EntryContentSchema.induct)
    case (7 xs)
    then have x: "\<And>x. x \<in> set xs \<Longrightarrow> encodeContent x = Inr (encoded x) \<and> decodeContent ext (encoded x) = Inr x
        \<and> z_json (encoded x) \<and> \<not> jsonValueHasUnsafeText (encoded x)" by (simp add: list_all_iff)
    then have e: "encodeContent (JArr xs) = Inr (JArr (map encoded xs))" using map_throw_Inr [of xs encodeContent encoded] by simp
    then have "encoded (JArr xs) = JArr (map encoded xs)" by (simp add: encoded_def)
    moreover have "map_throw (decodeContent ext) (map encoded xs) = Inr xs"
      using x by (simp add: map_throw_eq_Inr list_all2_conv_all_nth)
    ultimately show ?case using e x by (auto simp: list_all_iff list_ex_iff)
  next
    case (8 kvs)
    let ?enc = "\<lambda>(k, v). (k, encoded v)"
    have x: "SafeObjectKeySchema k \<and> encodeContent v = Inr (encoded v) \<and> decodeContent ext (encoded v) = Inr v
        \<and> z_json (encoded v) \<and> \<not> jsonValueHasUnsafeText (encoded v)" if "(k, v) \<in> set kvs" for k v
      using 8 that by (fastforce simp: list_all_iff)
    have "map_throw (\<lambda>(k, v). map_sum id (Pair k) (encodeContent v)) kvs = Inr (map ?enc kvs)"
      by (rule map_throw_Inr) (use x in auto)
    then have e: "encodeContent (JObj kvs) = Inr (JObj (map ?enc kvs))" by simp
    then have v: "encoded (JObj kvs) = JObj (map ?enc kvs)" by (simp add: encoded_def)
    have nt: "\<not> isTagObject (map ?enc kvs) BIGINT_TAG" "\<not> isTagObject (map ?enc kvs) DATE_TAG"
      by (rule isTagObject_safe [of EntryContentSchema kvs]; use 8(2) in \<open>simp add: comp_def case_prod_unfold\<close>)+
    have "map_throw (\<lambda>(k, v). map_sum id (Pair k) (decodeContent ext v)) (map ?enc kvs) = Inr kvs"
    proof -
      have "decodeContent ext (encoded (snd p)) = Inr (snd p)" if "p \<in> set kvs" for p using x [of "fst p" "snd p"] that by simp
      then show ?thesis by (simp add: map_throw_eq_Inr list_all2_conv_all_nth case_prod_unfold)
    qed
    with nt have "decodeContent ext (encoded (JObj kvs)) = Inr (JObj kvs)" unfolding v by simp
    moreover have "z_json (encoded (JObj kvs))" "\<not> jsonValueHasUnsafeText (encoded (JObj kvs))"
      unfolding v using x by (auto simp: list_all_iff list_ex_iff SafeObjectKeySchema_def)
    ultimately show ?case using e v by simp
  qed (auto simp: encoded_def encoder_text_safe tags_distinct [symmetric])
  then show "encodeContent v = Inr (encoded v)" "decodeContent ext (encoded v) = Inr v"
    "z_json (encoded v)" "\<not> jsonValueHasUnsafeText (encoded v)" by simp_all
qed

lemma map_sum_Inr: "map_sum id f m = Inr y \<longleftrightarrow> (\<exists>x. m = Inr x \<and> y = f x)"
  by (cases m) auto

lemma sections_roundtrip:
  assumes "EntrySectionsSchema secs"
  obtains s where "encodeSections secs = Inr s" and "decodeSections ext s = Inr secs"
    and "z_json (JObj s)" and "\<not> jsonValueHasUnsafeText (JObj s)"
proof -
  have ok: "EntryContentSchema (JObj secs)" using assms by (simp add: EntrySectionsSchema_def split: if_splits)
  note rt = content_roundtrip [OF ok]
  from rt(1) obtain s where s: "encodeSections secs = Inr s" "encoded (JObj secs) = JObj s"
    by (cases "encodeSections secs") (auto simp: encodeSections_def encoded_def)
  have nt: "\<not> isTagObject s BIGINT_TAG" "\<not> isTagObject s DATE_TAG"
  proof -
    have "map fst s = map fst secs"
      using s(1) unfolding encodeSections_def map_throw_eq_Inr
      by (induction rule: list_all2_induct) (auto simp: case_prod_unfold map_sum_Inr)
    then show "\<not> isTagObject s BIGINT_TAG" "\<not> isTagObject s DATE_TAG"
      using ok isTagObject_safe [of EntryContentSchema secs s] by simp_all
  qed
  have "decodeSections ext s = Inr secs"
    using rt(2) [of ext] nt unfolding s(2) by (cases "decodeSections ext s") (simp_all add: decodeSections_def)
  with s rt(3,4) that show ?thesis by simp
qed

lemma parse_status_text: "parse_status (map_option (JStr \<circ> js \<circ> status_text) st) = Some st"
proof (cases st)
  case (Some x)
  then show ?thesis by (cases x) (auto simp: parse_status_def)
qed (simp add: parse_status_def)

lemma parse_lifecycle_encode: "parse_lifecycle (Some (encode_lifecycle l)) = Some l"
  by (cases l) (auto simp: parse_lifecycle_def encode_lifecycle_def)

lemma parse_protocol_encode: "parse_protocol (map_option JNum pv) = Some pv"
  by (cases pv) (simp_all add: parse_protocol_def)

lemma parse_fees_encode:
  "optional parse_fees (map_option (\<lambda>f. case f of None \<Rightarrow> JNull | Some i \<Rightarrow> JStr (bigint_toString i)) fees) = Inr fees"
  by (auto simp: optional_def split: option.splits)

lemma member_texts_safe: "list_all (\<lambda>k. \<not> hasPostgresUnsafeText (js k))
    [''hash'', ''identifiers'', ''protocolVersion'', ''status'', ''timestamp'', ''fees'', ''lifecycle'', ''sections'']"
  by code_simp

lemma enum_texts_safe: "list_all (\<lambda>k. \<not> hasPostgresUnsafeText (js k))
    [''success'', ''partialSuccess'', ''failure'', ''pending'', ''finalized'', ''rejected'']"
  by code_simp

lemma status_text_safe: "\<not> hasPostgresUnsafeText (js (status_text st))"
  using enum_texts_safe by (cases st) (simp_all only: status_text.simps list.pred_inject not_False_eq_True)

lemma lifecycle_text_safe: "\<not> hasPostgresUnsafeText (js (lifecycle_status l))"
  using enum_texts_safe by (cases l) (simp_all only: lifecycle_status.simps list.pred_inject not_False_eq_True)

text \<open>A value the server can store as \<^verbatim>\<open>jsonb\<close>.\<close>

definition storable :: "jsval \<Rightarrow> bool" where
  "storable v \<longleftrightarrow> z_json v \<and> \<not> jsonValueHasUnsafeText v"

text \<open>What a write stores for an entry.\<close>

definition stored_row :: "tx_entry \<Rightarrow> jsval \<Rightarrow> int \<Rightarrow> tx_history_row" where
  "stored_row e j now = \<lparr>t_entry = j, t_identifiers = e_identifiers e, t_lifecycle = lifecycle_status (e_lifecycle e), t_updated_at = now\<rparr>"

lemma lookup_member_opt:
  "map_of (member_opt k v @ xs) (js k) = (case v of None \<Rightarrow> map_of xs (js k) | Some j \<Rightarrow> Some j)"
  "k \<noteq> k' \<Longrightarrow> map_of (member_opt k v @ xs) (js k') = map_of xs (js k')"
  by (simp_all add: member_opt_def split: option.splits)

lemma entry_roundtrip:
  assumes ok: "TransactionHistoryEntrySchema e"
  obtains j where "encodeStoredEntry e = Inr j" and "rowToEntry ext (e_hash e) (stored_row e j now) = Inr e"
    and "z_json j" and "\<not> jsonValueHasUnsafeText j"
proof -
  obtain s where s: "encodeSections (e_sections e) = Inr s" "decodeSections ext s = Inr (e_sections e)"
    "z_json (JObj s)" "\<not> jsonValueHasUnsafeText (JObj s)"
    using ok sections_roundtrip unfolding TransactionHistoryEntrySchema_def by blast
  define ts where "ts = (case e_timestamp e of Some (Some t) \<Rightarrow> [JStr (toISOString t)] | _ \<Rightarrow> [])"
  have mt: "map_throw (map_sum id JStr \<circ> date_text) (case e_timestamp e of None \<Rightarrow> [] | Some d \<Rightarrow> [d]) = Inr ts"
    using ok by (auto simp: ts_def TransactionHistoryEntrySchema_def split: option.splits)
  define kvs where "kvs = [(js ''hash'', JStr (e_hash e)), (js ''identifiers'', JArr (map JStr (e_identifiers e)))]
      @ member_opt ''protocolVersion'' (map_option JNum (e_protocolVersion e))
      @ member_opt ''status'' (map_option (JStr \<circ> js \<circ> status_text) (e_status e))
      @ map (\<lambda>t. (js ''timestamp'', t)) ts
      @ member_opt ''fees'' (map_option (\<lambda>f. case f of None \<Rightarrow> JNull | Some i \<Rightarrow> JStr (bigint_toString i)) (e_fees e))
      @ [(js ''lifecycle'', encode_lifecycle (e_lifecycle e)), (js ''sections'', JObj s)]"
  have enc: "encodeStoredEntry e = Inr (JObj kvs)" using mt s(1) by (simp add: encodeStoredEntry_def kvs_def)
  have tsl: "map_of (map (Pair (js ''timestamp'')) ts @ xs) (js k)
      = (if k = ''timestamp'' \<and> ts \<noteq> [] then Some (hd ts) else map_of xs (js k))" for k xs
    by (auto simp: ts_def split: option.splits)
  note look = lookup_member_opt tsl
  have l: "map_of kvs (js ''sections'') = Some (JObj s)"
    "map_of kvs (js ''protocolVersion'') = map_option JNum (e_protocolVersion e)"
    "map_of kvs (js ''status'') = map_option (JStr \<circ> js \<circ> status_text) (e_status e)"
    "map_of kvs (js ''timestamp'') = (if ts = [] then None else Some (hd ts))"
    "map_of kvs (js ''fees'') = map_option (\<lambda>f. case f of None \<Rightarrow> JNull | Some i \<Rightarrow> JStr (bigint_toString i)) (e_fees e)"
    "map_of kvs (js ''lifecycle'') = Some (encode_lifecycle (e_lifecycle e))"
    unfolding kvs_def by (simp_all add: look del: map_of_append split: option.splits)
  have t: "optional (parseStoredDate ext) (map_of kvs (js ''timestamp''))
      = Inr (case e_timestamp e of Some (Some t) \<Rightarrow> Some t | _ \<Rightarrow> None)"
    using ok by (auto simp: l ts_def optional_def TransactionHistoryEntrySchema_def split: option.splits)
  have te: "map_option Some (case e_timestamp e of Some (Some t) \<Rightarrow> Some t | _ \<Rightarrow> None) = e_timestamp e"
    using ok by (auto simp: TransactionHistoryEntrySchema_def split: option.splits)
  have "row_candidate (e_hash e) (e_identifiers e) kvs (case e_timestamp e of Some (Some t) \<Rightarrow> Some t | _ \<Rightarrow> None)
      (e_fees e) (e_sections e) = Some e"
    unfolding row_candidate_def l(2,3,6) parse_status_text parse_lifecycle_encode parse_protocol_encode te
    using ok by (cases e) (simp add: Let_def)
  then have dec: "rowToEntry ext (e_hash e) (stored_row e (JObj kvs) now) = Inr e"
    using t parse_fees_encode [of "e_fees e"] s(2)
    by (simp add: rowToEntry_def decodeRow_def assertStoredEntryShape_def stored_row_def l(1) l(5))
  have "list_all (\<lambda>(k, v). \<not> hasPostgresUnsafeText k \<and> storable v) kvs"
    using ok s(3,4) unfolding kvs_def
    by (auto simp: member_opt_def ts_def storable_def encode_lifecycle_def list_ex_iff list_all_iff member_texts_safe [simplified]
        status_text_safe lifecycle_text_safe encoder_text_safe TransactionHistoryEntrySchema_def name_schema_def split: option.splits)
  then have "z_json (JObj kvs)" "\<not> jsonValueHasUnsafeText (JObj kvs)"
    by (auto simp: storable_def list_all_iff list_ex_iff)
  with enc dec that show ?thesis by blast
qed

section \<open>Properties\<close>

definition demo_entry :: tx_entry where
  "demo_entry = \<lparr>e_hash = [97], e_identifiers = [[105]], e_protocolVersion = Some 2, e_status = Some Success,
     e_timestamp = Some (Some 1709164800123), e_fees = Some (Some (-12)), e_lifecycle = Finalized,
     e_sections = [([115], JArr [JBigint 7, JDate (Some 5), JObj []])]\<rparr>"

lemma demo_entry_ok: "TransactionHistoryEntrySchema demo_entry"
  by code_simp

lemma parseStored_errors:
  "parseStoredBigint v = Inl err \<Longrightarrow> err = serialization_failed ''bigint''"
  "parseStoredDate ext v = Inl err \<Longrightarrow> err = serialization_failed ''date''"
  by (cases v; auto split: if_splits option.splits)+

lemma parse_fees_error: "parse_fees v = Inl err \<Longrightarrow> err = serialization_failed ''bigint''"
  by (cases v) (auto split: if_splits)

lemma map_sum_Inl: "map_sum id f m = Inl e \<longleftrightarrow> m = Inl e"
  by (cases m) auto

lemma decodeContent_error: "decodeContent ext v = Inl err \<Longrightarrow> \<exists>m. err = serialization_failed m"
proof (induction ext v arbitrary: err rule: decodeContent.induct)
  case (1 ext xs)
  from 1(2) have "map_throw (decodeContent ext) xs = Inl err" by (simp add: map_sum_Inl)
  from map_throw_Inl [OF this] show ?case using 1(1) by blast
next
  case (2 ext kvs)
  show ?case
  proof (cases "isTagObject kvs BIGINT_TAG \<or> isTagObject kvs DATE_TAG")
    case True
    with 2(2) show ?thesis by (auto simp: map_sum_Inl dest!: parseStored_errors split: if_splits)
  next
    case False
    with 2(2) have "map_throw (\<lambda>(k, v). map_sum id (Pair k) (decodeContent ext v)) kvs = Inl err"
      by (simp add: map_sum_Inl)
    from map_throw_Inl [OF this] obtain k v where "(k, v) \<in> set kvs" "decodeContent ext v = Inl err"
      by (auto simp: map_sum_Inl)
    with 2(1) False show ?thesis by blast
  qed
qed auto

lemma decodeRow_error: "decodeRow ext h row = Inl err \<Longrightarrow> \<exists>e. err = StorageErr e"
  by (auto simp: decodeRow_def assertStoredEntryShape_def serialization_failed_def optional_def map_sum_Inl decodeSections_def
      dest!: parseStored_errors parse_fees_error map_throw_Inl decodeContent_error
      split: sum.splits option.splits jsval.splits)

lemma minus_zero: "CANONICAL_BIGINT_RE [45, 48]" "BigInt [45, 48] = 0"
  by code_simp+

text \<open>
  Strict decoding of stored rows, whatever they hold: reading a row yields an entry that passes
  the boundary schema, or a typed storage error, never a raw error. A stored date is accepted only in
  the exact form the encoder writes; a stored \<^verbatim>\<open>bigint\<close> only in the exact form the encoder
  writes or as \<^verbatim>\<open>"-0"\<close>, a literal the encoder never writes and that is read as zero.
\<close>

lemma history_decode_strict:
  "(case rowToEntry ext h row of
      Inl err \<Rightarrow> \<exists>e. err = StorageErr e
    | Inr e \<Rightarrow> TransactionHistoryEntrySchema e \<and> e_hash e = h \<and> e_identifiers e = t_identifiers row)
   \<and> (parseStoredDate ext v = Inr t \<longleftrightarrow> time_value t \<and> v = JStr (toISOString t))
   \<and> (parseStoredBigint v = Inr i \<longleftrightarrow> v = JStr (bigint_toString i) \<or> v = JStr (js ''-0'') \<and> i = 0)"
proof -
  have "case rowToEntry ext h row of Inl err \<Rightarrow> \<exists>e. err = StorageErr e
    | Inr e \<Rightarrow> TransactionHistoryEntrySchema e \<and> e_hash e = h \<and> e_identifiers e = t_identifiers row"
  proof (cases "decodeRow ext h row")
    case (Inr e)
    then show ?thesis
      by (auto simp: rowToEntry_def decodeRow_def row_candidate_def Let_def split: sum.splits option.splits if_splits)
  next
    case (Inl err)
    from decodeRow_error [OF this] show ?thesis using Inl by (auto simp: rowToEntry_def)
  qed
  moreover have "js ''-0'' = [45, 48]" by code_simp
  then have "parseStoredBigint v = Inr i \<longleftrightarrow> v = JStr (bigint_toString i) \<or> v = JStr (js ''-0'') \<and> i = 0"
    using minus_zero by (cases v) (auto dest: CANONICAL_BigInt)
  ultimately show ?thesis by (simp add: parseStoredDate_exact)
qed

end
