(* ===== verification/TxHistory.thy ===== *)
theory TxHistory
  imports HistoryCodec TransactionLease
begin

text \<open>
  The transaction-history store (\<^verbatim>\<open>src/src/postgres/transaction-history-storage.ts\<close>, the class):
  reads, the lock-merge-upsert write path, and the pending-clear. The merge function is the caller's
  and therefore an argument, as is the collation by which the server orders hashes. An instance is
  given by its wallet id; the text of the wallet id is bound as it is, since the constructor checks
  only that it is not empty.
\<close>

section \<open>Model\<close>

type_synonym merge_fn = "tx_entry \<Rightarrow> tx_entry \<Rightarrow> js_error + tx_entry"

record th_opts =
  th_tx :: "nat option"
  th_signal :: signal

definition plain_th :: th_opts where
  "plain_th = \<lparr>th_tx = None, th_signal = NoSignal\<rparr>"

definition PgTransactionHistoryStorage :: "jsstr \<Rightarrow> js_error + jsstr" where
  "PgTransactionHistoryStorage walletId =
     (if walletId = [] then Inl (validation_error ''PgTransactionHistoryStorage: walletId must be a non-empty string'')
      else Inr walletId)"

subsection \<open>Reads\<close>

definition wallet_rows :: "jsstr \<Rightarrow> db \<Rightarrow> (jsstr \<times> tx_history_row) list" where
  "wallet_rows w d = map (\<lambda>((_, h), r). (h, r)) (filter (\<lambda>((w', _), _). w' = w) (transaction_history d))"

definition getAllImpl ::
  "(jsstr \<Rightarrow> 'o::linorder) \<Rightarrow> (jsstr \<Rightarrow> int option) \<Rightarrow> pg_env \<Rightarrow> jsstr \<Rightarrow> tx_entry list dbrun" where
  "getAllImpl coll ext env walletId =
     emap_error (\<lambda>err. translatePostgresError err None)
       (ebind (stmt env 0 (\<lambda>d. (map_sum id (\<lambda>w. sort_key (coll \<circ> fst) (wallet_rows w d)) (bind_text walletId), d)))
         (\<lambda>rows. elift (map_throw (\<lambda>(h, r). rowToEntry ext h r) rows)))"

definition getAll ::
  "(jsstr \<Rightarrow> 'o::linorder) \<Rightarrow> (jsstr \<Rightarrow> int option) \<Rightarrow> pg_env \<Rightarrow> jsstr \<Rightarrow> th_opts \<Rightarrow> tx_entry list run" where
  "getAll coll ext env walletId opts =
     ebind (sql_of (th_tx opts)) (\<lambda>_. withAbort (on_db (getAllImpl coll ext env walletId)) (th_signal opts))"

definition select_row :: "jsstr \<Rightarrow> jsstr \<Rightarrow> tx_history_row option dbrun" where
  "select_row walletId hash d = (map_sum id (\<lambda>w. map_of (transaction_history d) (w, hash)) (bind_text walletId), d)"

text \<open>\<^verbatim>\<open>rows.length > 0 ? rowToEntry(rows[0]) : undefined\<close>\<close>

definition row_entry :: "(jsstr \<Rightarrow> int option) \<Rightarrow> jsstr \<Rightarrow> tx_history_row option \<Rightarrow> js_error + tx_entry option" where
  "row_entry ext hash r = optional (rowToEntry ext hash) r"

definition getImpl_th :: "(jsstr \<Rightarrow> int option) \<Rightarrow> pg_env \<Rightarrow> jsstr \<Rightarrow> jsstr \<Rightarrow> tx_entry option dbrun" where
  "getImpl_th ext env walletId hash =
     emap_error (\<lambda>err. translatePostgresError err None)
       (ebind (stmt env 0 (select_row walletId hash)) (\<lambda>r. elift (row_entry ext hash r)))"

definition get_th :: "(jsstr \<Rightarrow> int option) \<Rightarrow> pg_env \<Rightarrow> jsstr \<Rightarrow> jsstr \<Rightarrow> th_opts \<Rightarrow> tx_entry option run" where
  "get_th ext env walletId hash opts =
     ebind (sql_of (th_tx opts)) (\<lambda>_.
     ebind (if hasPostgresUnsafeText hash then ethrow (validation_error ''PgTransactionHistoryStorage.get hash'') else eret ()) (\<lambda>_.
       withAbort (on_db (getImpl_th ext env walletId hash)) (th_signal opts)))"

subsection \<open>Writes\<close>

text \<open>What the merge step decides to store.\<close>

definition merge_result :: "merge_fn \<Rightarrow> tx_entry option \<Rightarrow> tx_entry \<Rightarrow> js_error + tx_entry" where
  "merge_result mergeFn existing entry =
     (case existing of
        None \<Rightarrow> Inr entry
      | Some old \<Rightarrow>
          (case mergeFn old entry of
             Inl err \<Rightarrow> Inl err
           | Inr merged \<Rightarrow>
               (if e_hash merged \<noteq> e_hash entry
                then Inl (validation_error ''PgTransactionHistoryStorage: merge function must not change the entry hash'')
                else if \<not> TransactionHistoryEntrySchema merged
                then Inl (validation_error ''PgTransactionHistoryStorage merge function result'')
                else Inr merged)))"

text \<open>INSERT ... ON CONFLICT (wallet_id, tx_hash) DO UPDATE.\<close>

definition upsert_row :: "pg_env \<Rightarrow> jsstr \<Rightarrow> tx_entry \<Rightarrow> jsval \<Rightarrow> unit dbrun" where
  "upsert_row env w e j d =
     (Inr (), d\<lparr>transaction_history := AList.update (w, e_hash e) (stored_row e j (env_now env)) (transaction_history d)\<rparr>)"

text \<open>
  The DELETE of superseded pending rows: another hash of the wallet, pending, with identifiers, all
  of them among those of the result.
\<close>

definition clears :: "jsstr \<Rightarrow> tx_entry \<Rightarrow> (jsstr \<times> jsstr) \<times> tx_history_row \<Rightarrow> bool" where
  "clears w e kr \<longleftrightarrow>
     (case kr of ((w', h), r) \<Rightarrow>
        w' = w \<and> h \<noteq> e_hash e \<and> t_lifecycle r = ''pending'' \<and> 0 < length (t_identifiers r)
        \<and> list_all (List.member (e_identifiers e)) (t_identifiers r))"

definition clear_pending :: "jsstr \<Rightarrow> tx_entry \<Rightarrow> unit dbrun" where
  "clear_pending w e d =
     (Inr (), d\<lparr>transaction_history := filter (\<lambda>kr. \<not> clears w e kr) (transaction_history d)\<rparr>)"

definition clears_pending :: "tx_entry \<Rightarrow> bool" where
  "clears_pending e \<longleftrightarrow> (e_lifecycle e = Finalized \<or> e_lifecycle e = Rejected) \<and> 0 < length (e_identifiers e)"

text \<open>
  Statement 0 takes the transaction-scoped advisory lock, statement 1 reads the row, 2 writes it and
  3 clears. The wallet id is bound by each of them; the first one already refuses a NUL in it.
\<close>

definition writeRows :: "(jsstr \<Rightarrow> int option) \<Rightarrow> merge_fn \<Rightarrow> pg_env \<Rightarrow> jsstr \<Rightarrow> tx_entry \<Rightarrow> unit dbrun" where
  "writeRows ext mergeFn env walletId entry =
     emap_error (\<lambda>err. translatePostgresError err None)
       (ebind (stmt env 0 (elift (bind_text walletId))) (\<lambda>w.
        ebind (stmt env 1 (select_row walletId (e_hash entry))) (\<lambda>r.
        ebind (elift (row_entry ext (e_hash entry) r)) (\<lambda>existing.
        ebind (elift (merge_result mergeFn existing entry)) (\<lambda>result.
        ebind (elift (encodeStoredEntry result)) (\<lambda>j.
        ebind (stmt env 2 (upsert_row env w result j)) (\<lambda>_.
          if clears_pending result then stmt env 3 (clear_pending w result) else eret ())))))))"

text \<open>\<^verbatim>\<open>this.sql.begin\<close>, directly: the transaction has no handle.\<close>

definition writeOwnTransaction ::
  "(jsstr \<Rightarrow> int option) \<Rightarrow> merge_fn \<Rightarrow> pg_env \<Rightarrow> tx_faults \<Rightarrow> jsstr \<Rightarrow> tx_entry \<Rightarrow> unit dbrun" where
  "writeOwnTransaction ext mergeFn env fl walletId entry =
     emap_error (\<lambda>err. translatePostgresError err None)
       (sql_begin (f_begin fl) (f_commit fl) (writeRows ext mergeFn env walletId entry))"

definition write_th ::
  "(jsstr \<Rightarrow> int option) \<Rightarrow> merge_fn \<Rightarrow> pg_env \<Rightarrow> tx_faults \<Rightarrow> jsstr \<Rightarrow> tx_entry \<Rightarrow> th_opts \<Rightarrow> unit run" where
  "write_th ext mergeFn env fl walletId entry opts =
     ebind (sql_of (th_tx opts)) (\<lambda>_.
     ebind (if TransactionHistoryEntrySchema entry then eret ()
            else ethrow (validation_error ''PgTransactionHistoryStorage.got'')) (\<lambda>_.
       withAbort
         (on_db (case th_tx opts of
                   Some _ \<Rightarrow> writeRows ext mergeFn env walletId entry
                 | None \<Rightarrow> writeOwnTransaction ext mergeFn env fl walletId entry))
         (th_signal opts)))"

definition gotPending ::
  "(jsstr \<Rightarrow> int option) \<Rightarrow> merge_fn \<Rightarrow> pg_env \<Rightarrow> tx_faults \<Rightarrow> jsstr \<Rightarrow> tx_entry \<Rightarrow> th_opts \<Rightarrow> unit run" where
  "gotPending ext mergeFn env fl walletId entry opts =
     write_th ext mergeFn env fl walletId (entry\<lparr>e_lifecycle := Pending\<rparr>) opts"

definition gotFinalized ::
  "(jsstr \<Rightarrow> int option) \<Rightarrow> merge_fn \<Rightarrow> pg_env \<Rightarrow> tx_faults \<Rightarrow> jsstr \<Rightarrow> tx_entry \<Rightarrow> th_opts \<Rightarrow> unit run" where
  "gotFinalized ext mergeFn env fl walletId entry opts =
     write_th ext mergeFn env fl walletId (entry\<lparr>e_lifecycle := Finalized\<rparr>) opts"

definition gotRejected ::
  "(jsstr \<Rightarrow> int option) \<Rightarrow> merge_fn \<Rightarrow> pg_env \<Rightarrow> tx_faults \<Rightarrow> jsstr \<Rightarrow> tx_entry \<Rightarrow> th_opts \<Rightarrow> unit run" where
  "gotRejected ext mergeFn env fl walletId entry opts =
     write_th ext mergeFn env fl walletId (entry\<lparr>e_lifecycle := Rejected\<rparr>) opts"

section \<open>The invariant and the abstract history\<close>

definition row_of :: "jsstr \<Rightarrow> tx_history_row \<Rightarrow> tx_entry \<Rightarrow> bool" where
  "row_of h r e \<longleftrightarrow>
     TransactionHistoryEntrySchema e \<and> e_hash e = h
     \<and> (\<exists>j. encodeStoredEntry e = Inr j \<and> r = stored_row e j (t_updated_at r))"

definition history_ok :: "db \<Rightarrow> bool" where
  "history_ok d \<longleftrightarrow>
     distinct (map fst (transaction_history d))
     \<and> (\<forall>w h r. map_of (transaction_history d) (w, h) = Some r \<longrightarrow> (\<exists>e. row_of h r e))"

text \<open>The entries of a wallet, by hash.\<close>

definition entries :: "(jsstr \<Rightarrow> int option) \<Rightarrow> db \<Rightarrow> jsstr \<Rightarrow> jsstr \<Rightarrow> tx_entry option" where
  "entries ext d w h =
     (case map_of (transaction_history d) (w, h) of
        None \<Rightarrow> None
      | Some r \<Rightarrow> (case rowToEntry ext h r of Inl _ \<Rightarrow> None | Inr e \<Rightarrow> Some e))"

lemma row_of_decodes: "row_of h r e \<Longrightarrow> rowToEntry ext h r = Inr e"
  unfolding row_of_def by (metis entry_roundtrip Inr_inject)

lemma row_of_columns:
  "row_of h r e \<Longrightarrow> t_identifiers r = e_identifiers e \<and> t_lifecycle r = lifecycle_status (e_lifecycle e)"
  unfolding row_of_def stored_row_def by (metis tx_history_row.select_convs)

lemma row_of_stored_row:
  "TransactionHistoryEntrySchema e \<Longrightarrow> encodeStoredEntry e = Inr j \<Longrightarrow> row_of (e_hash e) (stored_row e j now) e"
  by (simp add: row_of_def stored_row_def)

lemma history_ok_lookup:
  assumes "history_ok d" and "map_of (transaction_history d) (w, h) = Some r"
  obtains e where "row_of h r e" and "rowToEntry ext h r = Inr e" and "entries ext d w h = Some e"
proof -
  from assms obtain e where "row_of h r e" unfolding history_ok_def by blast
  with that [OF this row_of_decodes] assms(2) show ?thesis by (simp add: entries_def row_of_decodes)
qed

lemma row_entry_lookup:
  "history_ok d \<Longrightarrow> row_entry ext h (map_of (transaction_history d) (w, h)) = Inr (entries ext d w h)"
  by (cases "map_of (transaction_history d) (w, h)")
     (auto simp: row_entry_def optional_def entries_def elim: history_ok_lookup [where ext = ext])

lemma entries_schema:
  assumes "history_ok d" and "entries ext d w h = Some e"
  shows "TransactionHistoryEntrySchema e \<and> e_hash e = h"
proof (cases "map_of (transaction_history d) (w, h)")
  case None
  then show ?thesis using assms(2) by (simp add: entries_def)
next
  case (Some r)
  then show ?thesis by (rule history_ok_lookup [OF assms(1), where ext = ext]) (use assms(2) in \<open>simp add: row_of_def\<close>)
qed

lemma history_ok_empty [simp]: "history_ok empty_db"
  by (simp add: history_ok_def)

lemma history_ok_upsert:
  assumes "history_ok d" and "TransactionHistoryEntrySchema e" and "encodeStoredEntry e = Inr j"
  shows "history_ok (snd (upsert_row env w e j d))"
  using assms(1) row_of_stored_row [OF assms(2,3)] by (auto simp: history_ok_def upsert_row_def)

lemma history_ok_clear: "history_ok d \<Longrightarrow> history_ok (snd (clear_pending w e d))"
  by (auto simp: history_ok_def clear_pending_def map_of_filter_distinct split: option.splits if_splits)

section \<open>The write path\<close>

text \<open>What one accepted write does to the entries of its wallet.\<close>

definition superseded_by :: "tx_entry \<Rightarrow> tx_entry \<Rightarrow> bool" where
  "superseded_by res e \<longleftrightarrow>
     e_hash e \<noteq> e_hash res \<and> e_lifecycle e = Pending \<and> e_identifiers e \<noteq> [] \<and> set (e_identifiers e) \<subseteq> set (e_identifiers res)"

definition after_write :: "tx_entry \<Rightarrow> (jsstr \<Rightarrow> tx_entry option) \<Rightarrow> jsstr \<Rightarrow> tx_entry option" where
  "after_write res es h =
     (case (es(e_hash res \<mapsto> res)) h of
        None \<Rightarrow> None
      | Some e \<Rightarrow> if e_lifecycle res \<noteq> Pending \<and> superseded_by res e then None else Some e)"

lemma clears_iff:
  assumes "row_of h r e"
  shows "clears w res ((w', h), r) \<longleftrightarrow> w' = w \<and> superseded_by res e"
proof -
  have "lifecycle_status (e_lifecycle e) = ''pending'' \<longleftrightarrow> e_lifecycle e = Pending" by (cases "e_lifecycle e") simp_all
  then show ?thesis
    using assms row_of_columns [OF assms] by (auto simp: clears_def superseded_by_def row_of_def list_all_iff)
qed

lemma entries_upsert:
  assumes "TransactionHistoryEntrySchema e" and "encodeStoredEntry e = Inr j"
  shows "entries ext (snd (upsert_row env w e j d)) = (entries ext d)(w := (entries ext d w)(e_hash e \<mapsto> e))"
  using row_of_decodes [OF row_of_stored_row [OF assms]] by (auto simp: entries_def upsert_row_def intro!: ext)

lemma entries_clear:
  assumes "history_ok d"
  shows "entries ext (snd (clear_pending w res d)) w' h =
    (case entries ext d w' h of None \<Rightarrow> None | Some e \<Rightarrow> if w' = w \<and> superseded_by res e then None else Some e)"
proof (cases "map_of (transaction_history d) (w', h)")
  case None
  then show ?thesis using assms by (simp add: entries_def clear_pending_def map_of_filter_distinct history_ok_def)
next
  case (Some r)
  obtain e where e: "row_of h r e" "rowToEntry ext h r = Inr e" "entries ext d w' h = Some e"
    by (rule history_ok_lookup [OF assms Some, where ext = ext])
  have "map_of (transaction_history (snd (clear_pending w res d))) (w', h) = (if clears w res ((w', h), r) then None else Some r)"
    using assms Some by (simp add: clear_pending_def map_of_filter_distinct history_ok_def)
  then show ?thesis using e clears_iff [OF e(1), of w res w'] by (simp add: entries_def)
qed

lemma translate_idem: "translatePostgresError (translatePostgresError err ctx) ctx' = translatePostgresError err ctx"
  by (cases err) (auto simp: plain_error_def)

lemma merge_result_schema:
  assumes "merge_result mergeFn existing entry = Inr res" and "TransactionHistoryEntrySchema entry"
  shows "TransactionHistoryEntrySchema res \<and> e_hash res = e_hash entry"
  using assms by (auto simp: merge_result_def split: option.splits sum.splits if_splits)

definition other_tables :: "db \<Rightarrow> db \<Rightarrow> bool" where
  "other_tables d d' \<longleftrightarrow> d'\<lparr>transaction_history := transaction_history d\<rparr> = d"

lemma writeRows_refines:
  assumes ok: "history_ok d" and schema: "TransactionHistoryEntrySchema entry"
    and quiet: "env_faults env = (\<lambda>_. None)" and safe: "\<not> hasPostgresUnsafeText wid"
  shows "case merge_result mergeFn (entries ext d wid (e_hash entry)) entry of
      Inl err \<Rightarrow> writeRows ext mergeFn env wid entry d = (Inl (translatePostgresError err None), d)
    | Inr res \<Rightarrow> \<exists>d'. writeRows ext mergeFn env wid entry d = (Inr (), d') \<and> history_ok d' \<and> other_tables d d'
        \<and> entries ext d' = (entries ext d)(wid := after_write res (entries ext d wid))"
proof (cases "merge_result mergeFn (entries ext d wid (e_hash entry)) entry")
  case (Inl err)
  then show ?thesis using ok quiet safe
    by (simp add: writeRows_def emap_error_def ebind_def elift_def select_row_def row_entry_lookup)
next
  case (Inr res)
  have res: "TransactionHistoryEntrySchema res" using merge_result_schema [OF Inr schema] by simp
  obtain j where j: "encodeStoredEntry res = Inr j" by (rule entry_roundtrip [OF res])
  define d1 where "d1 = snd (upsert_row env wid res j d)"
  define d2 where "d2 = (if clears_pending res then snd (clear_pending wid res d1) else d1)"
  have ok1: "history_ok d1" unfolding d1_def by (rule history_ok_upsert [OF ok res j])
  then have ok2: "history_ok d2" by (simp add: d2_def history_ok_clear)
  have e1: "entries ext d1 = (entries ext d)(wid := (entries ext d wid)(e_hash res \<mapsto> res))"
    unfolding d1_def by (rule entries_upsert [OF res j])
  have "entries ext d2 = (entries ext d)(wid := after_write res (entries ext d wid))"
  proof (intro ext)
    fix w h
    have none: "\<not> clears_pending res \<Longrightarrow> e_lifecycle res \<noteq> Pending \<Longrightarrow> \<not> superseded_by res e" for e
      by (cases "e_lifecycle res") (auto simp: clears_pending_def superseded_by_def)
    show "entries ext d2 w h = ((entries ext d)(wid := after_write res (entries ext d wid))) w h"
      using none by (cases "clears_pending res")
        (auto simp: d2_def entries_clear [OF ok1] e1 after_write_def clears_pending_def split: option.splits)
  qed
  moreover have "other_tables d d2" by (simp add: other_tables_def d2_def d1_def upsert_row_def clear_pending_def)
  moreover have "writeRows ext mergeFn env wid entry d = (Inr (), d2)"
    using ok quiet safe Inr j
    by (simp add: writeRows_def emap_error_def ebind_def elift_def select_row_def row_entry_lookup d2_def d1_def
        upsert_row_def clear_pending_def eret_def)
  ultimately show ?thesis using ok2 Inr by auto
qed

lemma keeps_ebind_elift: "(\<And>a. r = Inr a \<Longrightarrow> keeps P (f a)) \<Longrightarrow> keeps P (ebind (elift r) f)"
  by (cases r) (simp_all add: keeps_def ebind_def elift_def)

lemma keeps_upsert_row:
  "TransactionHistoryEntrySchema e \<Longrightarrow> encodeStoredEntry e = Inr j \<Longrightarrow> keeps history_ok (upsert_row env w e j)"
  by (rule keepsI) (rule history_ok_upsert)

lemma keeps_writeRows:
  assumes "TransactionHistoryEntrySchema entry"
  shows "keeps history_ok (writeRows ext mergeFn env wid entry)"
proof -
  have sel: "keeps history_ok (select_row wid h)" and clr: "keeps history_ok (clear_pending w e)" for h w e
    by (auto simp: keeps_def select_row_def history_ok_clear)
  have upd: "keeps history_ok (upsert_row env w res j)"
    if "merge_result mergeFn existing entry = Inr res" "encodeStoredEntry res = Inr j" for w existing res j
    by (rule keeps_upsert_row [OF conjunct1 [OF merge_result_schema [OF that(1) assms]] that(2)])
  show ?thesis
    unfolding writeRows_def
    by (rule keeps_emap_error, rule keeps_ebind [OF keeps_stmt [OF keeps_elift]],
        rule keeps_ebind [OF keeps_stmt [OF sel]], (rule keeps_ebind_elift)+,
        rule keeps_ebind [OF keeps_stmt [OF upd]]) (auto intro: clr)
qed

lemma keeps_write_th: "keeps (\<lambda>w. history_ok (w_db w)) (write_th ext mergeFn env fl wid entry opts)"
proof (cases "TransactionHistoryEntrySchema entry")
  case True
  have "keeps history_ok (case th_tx opts of Some _ \<Rightarrow> writeRows ext mergeFn env wid entry
      | None \<Rightarrow> writeOwnTransaction ext mergeFn env fl wid entry)"
    using keeps_writeRows [OF True] by (auto simp: writeOwnTransaction_def intro!: keeps_emap_error keeps_sql_begin split: option.splits)
  then show ?thesis
    unfolding write_th_def by (intro keeps_ebind keeps_sql_of keeps_withAbort keeps_on_db) auto
next
  case False
  then show ?thesis
    unfolding write_th_def by (intro keeps_ebind [OF keeps_sql_of]) (simp add: keeps_def ebind_def ethrow_def)
qed

section \<open>Properties\<close>

text \<open>The three writers by the lifecycle they attach.\<close>

fun got :: "lifecycle \<Rightarrow> (jsstr \<Rightarrow> int option) \<Rightarrow> merge_fn \<Rightarrow> pg_env \<Rightarrow> tx_faults \<Rightarrow> jsstr \<Rightarrow> tx_entry \<Rightarrow> th_opts \<Rightarrow> unit run" where
  "got Pending = gotPending"
| "got Finalized = gotFinalized"
| "got Rejected = gotRejected"

lemma got_write: "got l ext mergeFn env fl wid entry opts = write_th ext mergeFn env fl wid (entry\<lparr>e_lifecycle := l\<rparr>) opts"
  by (cases l) (simp_all add: gotPending_def gotFinalized_def gotRejected_def)

lemma schema_lifecycle [simp]: "TransactionHistoryEntrySchema (e\<lparr>e_lifecycle := l\<rparr>) = TransactionHistoryEntrySchema e"
  by (simp add: TransactionHistoryEntrySchema_def)

text \<open>
  C17. Refinement of the history writers: on a well-formed store with a responsive server, a valid
  entry with its lifecycle attached is merged with the stored entry of the same hash, or taken
  verbatim when there is none (the merge function is then not called). A merge that throws, changes
  the hash or returns an invalid entry rejects and leaves the store as it was; otherwise exactly the
  result is stored, and when it is final and carries identifiers exactly the pending entries of the
  wallet whose identifiers are a non-empty subset of its own disappear. No other wallet and no other
  table changes.
\<close>

theorem history_write_refines:
  assumes "history_ok (w_db w)" and "TransactionHistoryEntrySchema entry"
    and "env_faults env = (\<lambda>_. None)" and "f_begin fl = None" and "f_commit fl = None"
    and "usable (th_tx opts) w" and "\<not> aborted (th_signal opts)" and "\<not> hasPostgresUnsafeText wid"
    and "incoming = entry\<lparr>e_lifecycle := l\<rparr>" and "existing = entries ext (w_db w) wid (e_hash entry)"
  shows "(existing = None \<longrightarrow> merge_result mergeFn existing incoming = Inr incoming)
    \<and> (case merge_result mergeFn existing incoming of
         Inl err \<Rightarrow> got l ext mergeFn env fl wid entry opts w = (Inl (translatePostgresError err None), w)
       | Inr res \<Rightarrow> \<exists>d'. got l ext mergeFn env fl wid entry opts w = (Inr (), w\<lparr>w_db := d'\<rparr>)
           \<and> history_ok d' \<and> other_tables (w_db w) d'
           \<and> entries ext d' = (entries ext (w_db w))(wid := after_write res (entries ext (w_db w) wid)))"
proof -
  let ?d = "w_db w"
  have schema: "TransactionHistoryEntrySchema incoming" using assms(2,9) by simp
  have ex: "existing = entries ext ?d wid (e_hash incoming)" using assms(9,10) by simp
  note wr = writeRows_refines [OF assms(1) schema assms(3,8), of ext mergeFn, folded ex]
  have run: "got l ext mergeFn env fl wid entry opts w
      = on_db (case th_tx opts of Some _ \<Rightarrow> writeRows ext mergeFn env wid incoming
          | None \<Rightarrow> writeOwnTransaction ext mergeFn env fl wid incoming) w"
    using schema assms(6,7) unfolding assms(9) by (simp add: got_write write_th_def ebind_def eret_def)
  have own: "writeOwnTransaction ext mergeFn env fl wid incoming ?d = writeRows ext mergeFn env wid incoming ?d"
  proof (cases "merge_result mergeFn existing incoming")
    case (Inl err)
    then show ?thesis using wr assms(4) by (simp add: writeOwnTransaction_def emap_error_def sql_begin_def translate_idem)
  next
    case (Inr res)
    then show ?thesis using wr assms(4,5) by (auto simp: writeOwnTransaction_def emap_error_def sql_begin_def)
  qed
  have "got l ext mergeFn env fl wid entry opts w = on_db (writeRows ext mergeFn env wid incoming) w"
    unfolding run by (cases "th_tx opts") (simp_all add: on_db_def own)
  then show ?thesis
    using wr by (cases "merge_result mergeFn existing incoming") (auto simp: on_db_def merge_result_def)
qed

type_synonym th_call =
  "nat list \<times> lifecycle \<times> (jsstr \<Rightarrow> int option) \<times> merge_fn \<times> pg_env \<times> tx_faults \<times> jsstr \<times> tx_entry \<times> th_opts"

text \<open>A call of a writer, with the transactions that are live when it is made.\<close>

fun th_call :: "th_call \<Rightarrow> unit run" where
  "th_call (live, l, ext, mergeFn, env, fl, wid, entry, opts) w =
     got l ext mergeFn env fl wid entry opts (w\<lparr>active_transactions := live\<rparr>)"

lemma th_call_ok: "history_ok (w_db w) \<Longrightarrow> history_ok (w_db (snd (th_call c w)))"
  by (cases c) (use keepsD [OF keeps_write_th, of "w\<lparr>active_transactions := _\<rparr>"] in \<open>auto simp: got_write\<close>)

lemma getAll_rows:
  assumes ok: "history_ok d"
  shows "map_throw (\<lambda>(h, r). rowToEntry ext h r) (sort_key (coll \<circ> fst) (wallet_rows wid d))
    = Inr (map (\<lambda>(h, r). the (entries ext d wid h)) (sort_key (coll \<circ> fst) (wallet_rows wid d)))"
proof (rule map_throw_Inr)
  fix x :: "jsstr \<times> tx_history_row"
  assume "x \<in> set (sort_key (coll \<circ> fst) (wallet_rows wid d))"
  then have "((wid, fst x), snd x) \<in> set (transaction_history d)" by (auto simp: wallet_rows_def)
  then have "map_of (transaction_history d) (wid, fst x) = Some (snd x)"
    using ok by (simp add: history_ok_def)
  then have "rowToEntry ext (fst x) (snd x) = Inr (the (entries ext d wid (fst x)))"
    by (rule history_ok_lookup [OF ok, where ext = ext]) simp
  then show "(case x of (h, r) \<Rightarrow> rowToEntry ext h r) = Inr (case x of (h, r) \<Rightarrow> the (entries ext d wid h))"
    by (simp add: case_prod_unfold)
qed


section \<open>Witnesses\<close>

definition keep_new :: merge_fn where
  "keep_new old new = Inr new"

lemma safe_a: "\<not> hasPostgresUnsafeText [97]"
  by code_simp

theorem history_write_refines_witness:
  "\<exists>d'. got Finalized (\<lambda>_. None) keep_new (quiet 5 1) no_faults [97] demo_entry plain_th initial_world
      = (Inr (), initial_world\<lparr>w_db := d'\<rparr>)
    \<and> entries (\<lambda>_. None) d' [97] [97] = Some demo_entry"
proof -
  have e: "entries (\<lambda>_. None) (w_db initial_world) [97] (e_hash demo_entry) = None" by (simp add: entries_def)
  have i: "demo_entry\<lparr>e_lifecycle := Finalized\<rparr> = demo_entry" by (simp add: demo_entry_def)
  have f: "f_begin no_faults = None" "f_commit no_faults = None" by (simp_all add: no_faults_def)
  have o: "usable (th_tx plain_th) initial_world" "\<not> aborted (th_signal plain_th)" by (simp_all add: plain_th_def)
  from history_write_refines [where w = initial_world and mergeFn = keep_new and ext = "\<lambda>_. None" and l = Finalized
      and env = "quiet 5 1" and fl = no_faults and opts = plain_th and wid = "[97]",
      OF _ demo_entry_ok _ f o safe_a i [symmetric] e [symmetric]]
  obtain d' where "got Finalized (\<lambda>_. None) keep_new (quiet 5 1) no_faults [97] demo_entry plain_th initial_world
      = (Inr (), initial_world\<lparr>w_db := d'\<rparr>)"
    "entries (\<lambda>_. None) d' [97] = after_write demo_entry (entries (\<lambda>_. None) empty_db [97])"
    by (auto simp: merge_result_def)
  moreover have "after_write demo_entry es [97] = Some demo_entry" for es
    by (simp add: after_write_def superseded_by_def demo_entry_def)
  ultimately show ?thesis by auto
qed


end
