(* ===== verification/JsonCodec.thy ===== *)
theory JsonCodec
  imports JsFormat
begin

text \<open>
  JSON as the program uses it: what \<^verbatim>\<open>JSON.stringify\<close> makes of a value, and what the driver and
  the server accept as a \<^verbatim>\<open>jsonb\<close> parameter (\<^verbatim>\<open>sql.json\<close>).
\<close>

section \<open>From values to JSON\<close>

text \<open>
  The value a \<^verbatim>\<open>JSON.stringify\<close> call prints: \<open>None\<close> for \<^verbatim>\<open>undefined\<close>, which an
  object member is dropped for and an array element becomes \<^verbatim>\<open>null\<close> for; NaN, the infinities and
  an invalid date are \<^verbatim>\<open>null\<close>, a date is its ISO text, a bigint is a \<^verbatim>\<open>TypeError\<close>.
\<close>

fun to_json :: "jsval \<Rightarrow> js_error + jsval option" where
  "to_json JUndefined = Inr None"
| "to_json JNonFinite = Inr (Some JNull)"
| "to_json (JBigint _) = Inl (plain_error ''Do not know how to serialize a BigInt'')"
| "to_json (JDate None) = Inr (Some JNull)"
| "to_json (JDate (Some t)) = Inr (Some (JStr (toISOString t)))"
| "to_json (JArr xs) =
     (case map_throw to_json xs of
        Inl e \<Rightarrow> Inl e
      | Inr ys \<Rightarrow> Inr (Some (JArr (map (case_option JNull id) ys))))"
| "to_json (JObj kvs) =
     (case map_throw (\<lambda>(k, v). case to_json v of Inl e \<Rightarrow> Inl e | Inr w \<Rightarrow> Inr (map_option (Pair k) w)) kvs of
        Inl e \<Rightarrow> Inl e
      | Inr ws \<Rightarrow> Inr (Some (JObj (List.map_filter id ws))))"
| "to_json v = Inr (Some v)"

lemma to_json_z_json: "z_json v \<Longrightarrow> to_json v = Inr (Some v)"
proof (induction v)
  case (JArr xs)
  then have "map_throw to_json xs = Inr (map Some xs)" by (intro map_throw_Inr) (simp add: list_all_iff)
  then show ?case by (simp add: comp_def)
next
  case (JObj kvs)
  have "map_throw (\<lambda>(k, v). case to_json v of Inl e \<Rightarrow> Inl e | Inr w \<Rightarrow> Inr (map_option (Pair k) w)) kvs = Inr (map Some kvs)"
  proof (rule map_throw_Inr)
    fix kv assume kv: "kv \<in> set kvs"
    with JObj.prems have "z_json (snd kv)" by (auto simp: list_all_iff)
    with JObj.IH [OF kv, of "snd kv"] have "to_json (snd kv) = Inr (Some (snd kv))" by (cases kv) simp
    then show "(case kv of (k, v) \<Rightarrow> case to_json v of Inl e \<Rightarrow> Inl e | Inr w \<Rightarrow> Inr (map_option (Pair k) w)) = Inr (Some kv)"
      by (cases kv) simp
  qed
  then show ?case by (simp add: map_filter_def comp_def)
qed simp_all

text \<open>
  \<^verbatim>\<open>sql.json(value)\<close> as a \<^verbatim>\<open>jsonb NOT NULL\<close> parameter: the driver refuses
  \<^verbatim>\<open>undefined\<close> and sends a top-level \<^verbatim>\<open>null\<close> as SQL NULL; the server refuses a NUL or an
  unpaired surrogate in any string of the document.
\<close>

definition undefined_value :: js_error where
  "undefined_value =
     PlainErr \<lparr>ef_message = ''Undefined values are not allowed'', ef_code = Some ''UNDEFINED_VALUE'',
       ef_severity = None, ef_constraint_name = None\<rparr>"

definition bind_jsonb :: "jsval \<Rightarrow> js_error + jsval" where
  "bind_jsonb v =
     (if v = JUndefined then Inl undefined_value
      else if v = JNull then Inl (pg_error ''23502'' None)
      else case to_json v of
        Inl e \<Rightarrow> Inl e
      | Inr None \<Rightarrow> Inl undefined_value
      | Inr (Some j) \<Rightarrow> if jsonValueHasUnsafeText j then Inl (pg_error ''22P05'' None) else Inr j)"

lemma bind_jsonb_ok: "z_json v \<Longrightarrow> v \<noteq> JNull \<Longrightarrow> \<not> jsonValueHasUnsafeText v \<Longrightarrow> bind_jsonb v = Inr v"
  by (cases "v = JUndefined") (simp_all add: bind_jsonb_def to_json_z_json)

section \<open>JSON text\<close>

text \<open>
  The text \<^verbatim>\<open>JSON.stringify\<close> prints. A number that is an integer below $10^{21}$ is its decimal
  digits; the form of any other finite number (\<open>num\<close>, the shortest decimal that reads back as the same
  double) is an argument.
\<close>

definition number_text :: "(rat \<Rightarrow> jsstr) \<Rightarrow> rat \<Rightarrow> jsstr" where
  "number_text num x = (if x = of_int \<lfloor>x\<rfloor> \<and> \<bar>x\<bar> < 10 ^ 21 then bigint_toString \<lfloor>x\<rfloor> else num x)"

definition hex_digit :: "nat \<Rightarrow> 16 word" where
  "hex_digit d = (if d < 10 then of_nat (48 + d) else of_nat (87 + d))"

definition unicode_escape :: "16 word \<Rightarrow> jsstr" where
  "unicode_escape u =
     [0x5C, 0x75, hex_digit (unat u div 4096), hex_digit (unat u div 256 mod 16), hex_digit (unat u div 16 mod 16),
      hex_digit (unat u mod 16)]"

definition escape_unit :: "16 word \<Rightarrow> jsstr" where
  "escape_unit u =
     (if u = 0x22 \<or> u = 0x5C then [0x5C, u]
      else if u = 0x08 then [0x5C, 0x62] else if u = 0x0C then [0x5C, 0x66] else if u = 0x0A then [0x5C, 0x6E]
      else if u = 0x0D then [0x5C, 0x72] else if u = 0x09 then [0x5C, 0x74]
      else if u < 0x20 then unicode_escape u else [u])"

text \<open>\<^verbatim>\<open>QuoteJSONString\<close>: a surrogate pair is copied, an unpaired surrogate escaped.\<close>

fun quote_units :: "jsstr \<Rightarrow> jsstr" where
  "quote_units [] = []"
| "quote_units (u # us) =
     (if is_high u then
        (case us of
           v # vs \<Rightarrow> if is_low v then u # v # quote_units vs else unicode_escape u @ quote_units us
         | [] \<Rightarrow> unicode_escape u)
      else if is_low u then unicode_escape u @ quote_units us
      else escape_unit u @ quote_units us)"

definition JSON_quote :: "jsstr \<Rightarrow> jsstr" where
  "JSON_quote s = 0x22 # quote_units s @ [0x22]"

fun join :: "jsstr list \<Rightarrow> jsstr" where
  "join [] = []"
| "join [x] = x"
| "join (x # xs) = x @ 0x2C # join xs"

fun JSON_text :: "(rat \<Rightarrow> jsstr) \<Rightarrow> jsval \<Rightarrow> jsstr" where
  "JSON_text num (JBool b) = js (if b then ''true'' else ''false'')"
| "JSON_text num (JNum x) = number_text num x"
| "JSON_text num (JStr s) = JSON_quote s"
| "JSON_text num (JArr xs) = 0x5B # join (map (JSON_text num) xs) @ [0x5D]"
| "JSON_text num (JObj kvs) = 0x7B # join (map (\<lambda>(k, v). JSON_quote k @ 0x3A # JSON_text num v) kvs) @ [0x7D]"
| "JSON_text num _ = js ''null''"

text \<open>\<^verbatim>\<open>new TextEncoder().encode\<close>: UTF-8, an unpaired surrogate as U+FFFD.\<close>

definition utf8_point :: "nat \<Rightarrow> bytes" where
  "utf8_point c =
     (if c < 0x80 then [of_nat c]
      else if c < 0x800 then [of_nat (0xC0 + c div 64), of_nat (0x80 + c mod 64)]
      else if c < 0x10000 then [of_nat (0xE0 + c div 4096), of_nat (0x80 + c div 64 mod 64), of_nat (0x80 + c mod 64)]
      else [of_nat (0xF0 + c div 262144), of_nat (0x80 + c div 4096 mod 64), of_nat (0x80 + c div 64 mod 64),
            of_nat (0x80 + c mod 64)])"

fun TextEncoder_encode :: "jsstr \<Rightarrow> bytes" where
  "TextEncoder_encode [] = []"
| "TextEncoder_encode (u # us) =
     (if is_high u then
        (case us of
           v # vs \<Rightarrow>
             if is_low v then utf8_point (0x10000 + (unat u - 0xD800) * 1024 + (unat v - 0xDC00)) @ TextEncoder_encode vs
             else utf8_point 0xFFFD @ TextEncoder_encode us
         | [] \<Rightarrow> utf8_point 0xFFFD)
      else if is_low u then utf8_point 0xFFFD @ TextEncoder_encode us
      else utf8_point (unat u) @ TextEncoder_encode us)"

end
