(* ===== verification/JsonParse.thy ===== *)
theory JsonParse
  imports JsonCodec "HOL-Library.Log_Nat"
begin

text \<open>
  Reading JSON back: \<^verbatim>\<open>JSON.parse\<close> on UTF-16 code units and the fatal UTF-8
  \<^verbatim>\<open>TextDecoder\<close>, the inverses of the printers in \<open>JsonCodec\<close>. The recursive reader takes fuel;
  \<open>JSON_parse\<close> gives it enough for every text, which is proved.
\<close>

section \<open>Numbers\<close>

text \<open>
  The double nearest to a rational, ties to even, gradual underflow included; none above the largest.
  \<open>log2_floor\<close> is the binary exponent of a positive rational.
\<close>

definition log2_floor :: "rat \<Rightarrow> int" where
  "log2_floor x =
     (let (n, d) = quotient_of x; k = int (floorlog 2 (nat n)) - int (floorlog 2 (nat d)) in
      if (2 :: rat) powi k \<le> x then k else k - 1)"

definition round_even :: "rat \<Rightarrow> int" where
  "round_even x =
     (let f = \<lfloor>x\<rfloor>; r = x - of_int f in
      if r < 1 / 2 then f else if 1 / 2 < r then f + 1 else if even f then f else f + 1)"

definition to_double :: "rat \<Rightarrow> rat option" where
  "to_double x =
     (if x = 0 then Some 0
      else
        let e = max (-1074) (log2_floor \<bar>x\<bar> - 52);
            y = of_int (round_even (\<bar>x\<bar> * 2 powi (- e))) * 2 powi e in
        if 2 ^ 1024 \<le> y then None else Some (if x < 0 then - y else y))"

definition digits_of :: "jsstr \<Rightarrow> jsstr \<times> jsstr" where
  "digits_of s = (takeWhile is_digit s, dropWhile is_digit s)"

text \<open>The three parts of a number literal: \<open>None\<close> where the grammar asks for a digit and there is none.\<close>

definition int_part :: "jsstr \<Rightarrow> (jsstr \<times> jsstr) option" where
  "int_part s =
     (case s of
        [] \<Rightarrow> None
      | c # cs \<Rightarrow> if c = 48 then Some ([c], cs) else if is_digit c then Some (digits_of s) else None)"

definition frac_part :: "jsstr \<Rightarrow> (jsstr \<times> jsstr) option" where
  "frac_part s =
     (case s of
        [] \<Rightarrow> Some ([], s)
      | c # cs \<Rightarrow> if c = 46 then (if fst (digits_of cs) = [] then None else Some (digits_of cs)) else Some ([], s))"

definition exp_part :: "jsstr \<Rightarrow> (int \<times> jsstr) option" where
  "exp_part s =
     (case s of
        [] \<Rightarrow> Some (0, s)
      | c # cs \<Rightarrow>
          if c = 101 \<or> c = 69 then
            (let (sg, ds) = (case cs of [] \<Rightarrow> (1, cs) | d # r \<Rightarrow> if d = 45 then (-1, r) else if d = 43 then (1, r) else (1, cs)) in
             if fst (digits_of ds) = [] then None else Some (sg * int (undec (fst (digits_of ds))), snd (digits_of ds)))
          else Some (0, s))"

definition number_value :: "bool \<Rightarrow> jsstr \<Rightarrow> jsstr \<Rightarrow> int \<Rightarrow> jsval" where
  "number_value neg i f e =
     (let x = of_nat (undec (i @ f)) * 10 powi (e - int (length f)) in
      case to_double (if neg then - x else x) of None \<Rightarrow> JNonFinite | Some y \<Rightarrow> JNum y)"

definition parse_number :: "jsstr \<Rightarrow> (jsval \<times> jsstr) option" where
  "parse_number s =
     (let (neg, s1) = (case s of [] \<Rightarrow> (False, s) | c # cs \<Rightarrow> if c = 45 then (True, cs) else (False, s)) in
      case int_part s1 of None \<Rightarrow> None | Some (i, s2) \<Rightarrow>
      (case frac_part s2 of None \<Rightarrow> None | Some (f, s3) \<Rightarrow>
      (case exp_part s3 of None \<Rightarrow> None | Some (e, s4) \<Rightarrow> Some (number_value neg i f e, s4))))"

section \<open>Strings\<close>

definition hex_value :: "16 word \<Rightarrow> nat option" where
  "hex_value u =
     (if is_digit u then Some (unat u - 48)
      else if 97 \<le> u \<and> u \<le> 102 then Some (unat u - 87)
      else if 65 \<le> u \<and> u \<le> 70 then Some (unat u - 55)
      else None)"

definition hex_unit :: "16 word \<Rightarrow> 16 word \<Rightarrow> 16 word \<Rightarrow> 16 word \<Rightarrow> 16 word option" where
  "hex_unit a b c d =
     (case (hex_value a, hex_value b, hex_value c, hex_value d) of
        (Some i, Some j, Some k, Some l) \<Rightarrow> Some (of_nat (((i * 16 + j) * 16 + k) * 16 + l))
      | _ \<Rightarrow> None)"

definition simple_escape :: "16 word \<Rightarrow> 16 word option" where
  "simple_escape e =
     (if e = 0x22 \<or> e = 0x5C \<or> e = 0x2F then Some e
      else if e = 0x62 then Some 0x08 else if e = 0x66 then Some 0x0C else if e = 0x6E then Some 0x0A
      else if e = 0x72 then Some 0x0D else if e = 0x74 then Some 0x09 else None)"

text \<open>After the opening quote: the characters up to the closing one, and what follows it.\<close>

fun parse_string :: "jsstr \<Rightarrow> (jsstr \<times> jsstr) option" where
  "parse_string [] = None"
| "parse_string (c # cs) =
     (if c = 0x22 then Some ([], cs)
      else if c = 0x5C then
        (case cs of
           [] \<Rightarrow> None
         | e # r \<Rightarrow>
             if e = 0x75 then
               (case r of
                  i # j # k # l # r' \<Rightarrow>
                    (case hex_unit i j k l of None \<Rightarrow> None | Some u \<Rightarrow> map_option (apfst ((#) u)) (parse_string r'))
                | _ \<Rightarrow> None)
             else (case simple_escape e of None \<Rightarrow> None | Some u \<Rightarrow> map_option (apfst ((#) u)) (parse_string r)))
      else if c < 0x20 then None
      else map_option (apfst ((#) c)) (parse_string cs))"

section \<open>Values\<close>

definition is_ws :: "16 word \<Rightarrow> bool" where
  "is_ws c \<longleftrightarrow> c = 0x20 \<or> c = 0x09 \<or> c = 0x0A \<or> c = 0x0D"

definition skip_ws :: "jsstr \<Rightarrow> jsstr" where
  "skip_ws s = dropWhile is_ws s"

text \<open>
  The entries of an object created by assigning the members in order: a repeated name keeps its place and
  takes the last value; names that are array indices come first, in numeric order.
\<close>

definition is_index :: "jsstr \<Rightarrow> bool" where
  "is_index k \<longleftrightarrow> canonical_dec k \<and> undec k < 2 ^ 32 - 1"

fun assign :: "'v \<Rightarrow> jsstr \<Rightarrow> (jsstr \<times> 'v) list \<Rightarrow> (jsstr \<times> 'v) list" where
  "assign v k [] = [(k, v)]"
| "assign v k ((k', v') # kvs) = (if k = k' then (k, v) # kvs else (k', v') # assign v k kvs)"

definition object_of :: "(jsstr \<times> 'v) list \<Rightarrow> (jsstr \<times> 'v) list" where
  "object_of ms =
     (let kvs = fold (\<lambda>(k, v). assign v k) ms [] in
      sort_key (undec \<circ> fst) (filter (is_index \<circ> fst) kvs) @ filter (\<lambda>kv. \<not> is_index (fst kv)) kvs)"

datatype 'a parsed = Out_of_fuel | Syntax_error | Parsed 'a jsstr

definition literal :: "string \<Rightarrow> jsval \<Rightarrow> jsstr \<Rightarrow> jsval parsed option" where
  "literal w v s = (if take (length w) s = js w then Some (Parsed v (drop (length w) s)) else None)"

definition parse_leaf :: "jsstr \<Rightarrow> jsval parsed" where
  "parse_leaf s =
     (case literal ''true'' (JBool True) s of Some p \<Rightarrow> p | None \<Rightarrow>
     (case literal ''false'' (JBool False) s of Some p \<Rightarrow> p | None \<Rightarrow>
     (case literal ''null'' JNull s of Some p \<Rightarrow> p | None \<Rightarrow>
     (case parse_number s of None \<Rightarrow> Syntax_error | Some (v, r) \<Rightarrow> Parsed v r))))"

fun parse_value :: "nat \<Rightarrow> jsstr \<Rightarrow> jsval parsed"
  and parse_elements :: "nat \<Rightarrow> jsstr \<Rightarrow> jsval list parsed"
  and parse_members :: "nat \<Rightarrow> jsstr \<Rightarrow> (jsstr \<times> jsval) list parsed" where
  "parse_value 0 s = Out_of_fuel"
| "parse_value (Suc n) s =
     (case skip_ws s of
        [] \<Rightarrow> Syntax_error
      | c # cs \<Rightarrow>
          if c = 0x22 then (case parse_string cs of None \<Rightarrow> Syntax_error | Some (t, r) \<Rightarrow> Parsed (JStr t) r)
          else if c = 0x5B then
            (case skip_ws cs of
               d # r \<Rightarrow>
                 if d = 0x5D then Parsed (JArr []) r
                 else (case parse_elements n cs of Parsed vs r \<Rightarrow> Parsed (JArr vs) r | Syntax_error \<Rightarrow> Syntax_error | Out_of_fuel \<Rightarrow> Out_of_fuel)
             | [] \<Rightarrow> Syntax_error)
          else if c = 0x7B then
            (case skip_ws cs of
               d # r \<Rightarrow>
                 if d = 0x7D then Parsed (JObj []) r
                 else (case parse_members n cs of Parsed ms r \<Rightarrow> Parsed (JObj (object_of ms)) r | Syntax_error \<Rightarrow> Syntax_error | Out_of_fuel \<Rightarrow> Out_of_fuel)
             | [] \<Rightarrow> Syntax_error)
          else parse_leaf (c # cs))"
| "parse_elements 0 s = Out_of_fuel"
| "parse_elements (Suc n) s =
     (case parse_value n s of
        Parsed v r \<Rightarrow>
          (case skip_ws r of
             d # r' \<Rightarrow>
               if d = 0x5D then Parsed [v] r'
               else if d = 0x2C then
                 (case parse_elements n r' of Parsed vs r'' \<Rightarrow> Parsed (v # vs) r'' | Syntax_error \<Rightarrow> Syntax_error | Out_of_fuel \<Rightarrow> Out_of_fuel)
               else Syntax_error
           | [] \<Rightarrow> Syntax_error)
      | Syntax_error \<Rightarrow> Syntax_error | Out_of_fuel \<Rightarrow> Out_of_fuel)"
| "parse_members 0 s = Out_of_fuel"
| "parse_members (Suc n) s =
     (case skip_ws s of
        c # cs \<Rightarrow>
          if c \<noteq> 0x22 then Syntax_error
          else (case parse_string cs of None \<Rightarrow> Syntax_error | Some (k, r) \<Rightarrow>
            (case skip_ws r of
               d # r' \<Rightarrow>
                 if d \<noteq> 0x3A then Syntax_error
                 else (case parse_value n r' of
                     Parsed v r \<Rightarrow>
                       (case skip_ws r of
                          d # r' \<Rightarrow>
                            if d = 0x7D then Parsed [(k, v)] r'
                            else if d = 0x2C then
                              (case parse_members n r' of Parsed ms r'' \<Rightarrow> Parsed ((k, v) # ms) r'' | Syntax_error \<Rightarrow> Syntax_error | Out_of_fuel \<Rightarrow> Out_of_fuel)
                            else Syntax_error
                        | [] \<Rightarrow> Syntax_error)
                   | Syntax_error \<Rightarrow> Syntax_error | Out_of_fuel \<Rightarrow> Out_of_fuel)
             | [] \<Rightarrow> Syntax_error))
      | [] \<Rightarrow> Syntax_error)"

text \<open>A whole text: one value and nothing but white space after it. \<open>None\<close> is a \<^verbatim>\<open>SyntaxError\<close>.\<close>

definition JSON_parse_fuel :: "nat \<Rightarrow> jsstr \<Rightarrow> jsval option parsed" where
  "JSON_parse_fuel n s =
     (case parse_value n s of
        Out_of_fuel \<Rightarrow> Out_of_fuel
      | Syntax_error \<Rightarrow> Parsed None []
      | Parsed v r \<Rightarrow> Parsed (if skip_ws r = [] then Some v else None) [])"

definition JSON_parse :: "jsstr \<Rightarrow> jsval option" where
  "JSON_parse s = (case JSON_parse_fuel (Suc (2 * length s)) s of Parsed v _ \<Rightarrow> v | _ \<Rightarrow> None)"

section \<open>UTF-8\<close>

definition is_cont :: "8 word \<Rightarrow> bool" where
  "is_cont b \<longleftrightarrow> 0x80 \<le> b \<and> b \<le> 0xBF"

definition utf16_point :: "nat \<Rightarrow> jsstr" where
  "utf16_point c =
     (if c < 0x10000 then [of_nat c] else [of_nat (0xD800 + (c - 0x10000) div 1024), of_nat (0xDC00 + (c - 0x10000) mod 1024)])"

text \<open>Shortest forms only, no surrogates, nothing above U+10FFFF.\<close>

definition scalar :: "nat \<Rightarrow> nat \<Rightarrow> nat option" where
  "scalar low c = (if low \<le> c \<and> c \<le> 0x10FFFF \<and> \<not> (0xD800 \<le> c \<and> c \<le> 0xDFFF) then Some c else None)"

fun utf8_units :: "bytes \<Rightarrow> jsstr option" where
  "utf8_units [] = Some []"
| "utf8_units (a # bs) =
     (if a < 0x80 then map_option ((@) (utf16_point (unat a))) (utf8_units bs)
      else if 0xC0 \<le> a \<and> a < 0xE0 then
        (case bs of
           b # bs' \<Rightarrow>
             if is_cont b then
               (case scalar 0x80 ((unat a - 0xC0) * 64 + (unat b - 0x80)) of
                  Some c \<Rightarrow> map_option ((@) (utf16_point c)) (utf8_units bs') | None \<Rightarrow> None)
             else None
         | [] \<Rightarrow> None)
      else if 0xE0 \<le> a \<and> a < 0xF0 then
        (case bs of
           b # b' # bs' \<Rightarrow>
             if is_cont b \<and> is_cont b' then
               (case scalar 0x800 ((unat a - 0xE0) * 4096 + (unat b - 0x80) * 64 + (unat b' - 0x80)) of
                  Some c \<Rightarrow> map_option ((@) (utf16_point c)) (utf8_units bs') | None \<Rightarrow> None)
             else None
         | _ \<Rightarrow> None)
      else if 0xF0 \<le> a \<and> a < 0xF8 then
        (case bs of
           b # b' # b'' # bs' \<Rightarrow>
             if is_cont b \<and> is_cont b' \<and> is_cont b'' then
               (case scalar 0x10000 ((unat a - 0xF0) * 262144 + (unat b - 0x80) * 4096 + (unat b' - 0x80) * 64 + (unat b'' - 0x80)) of
                  Some c \<Rightarrow> map_option ((@) (utf16_point c)) (utf8_units bs') | None \<Rightarrow> None)
             else None
         | _ \<Rightarrow> None)
      else None)"

text \<open>\<^verbatim>\<open>new TextDecoder("utf-8", { fatal: true }).decode\<close>, which drops a byte order mark.\<close>

definition TextDecoder_decode :: "bytes \<Rightarrow> jsstr option" where
  "TextDecoder_decode bs = utf8_units (if take 3 bs = [0xEF, 0xBB, 0xBF] then drop 3 bs else bs)"

section \<open>The reader consumes its input\<close>

lemma skip_ws_length: "length (skip_ws s) \<le> length s"
  unfolding skip_ws_def by (rule length_dropWhile_le)

lemma skip_ws_simps [simp]: "skip_ws [] = []" "skip_ws (c # s) = (if is_ws c then skip_ws s else c # s)"
  by (simp_all add: skip_ws_def)

lemma skip_ws_Cons: "skip_ws s = c # cs \<Longrightarrow> length cs < length s"
  using skip_ws_length [of s] by simp

lemma parse_string_shorter: "parse_string s = Some (t, r) \<Longrightarrow> length r < length s"
  by (induction s arbitrary: t r rule: parse_string.induct)
    (auto split: if_splits list.splits option.splits simp: apfst_def map_prod_def, fastforce+)

lemma digits_shorter: "digits_of s = (d, r) \<Longrightarrow> length r \<le> length s"
  by (auto simp: digits_of_def length_dropWhile_le)

lemma digits_shorter': "digits_of s = (d, r) \<Longrightarrow> d \<noteq> [] \<Longrightarrow> length r < length s"
  by (cases s) (auto simp: digits_of_def length_dropWhile_le less_Suc_eq_le split: if_splits)

lemma parse_number_shorter:
  assumes "parse_number s = Some (v, r)"
  shows "length r < length s"
proof -
  obtain neg s1 where s1: "(case s of [] \<Rightarrow> (False, s) | c # cs \<Rightarrow> if c = 45 then (True, cs) else (False, s)) = (neg, s1)" by force
  then have l1: "length s1 \<le> length s" by (auto split: list.splits if_splits)
  from assms s1 obtain i s2 f s3 e where p: "int_part s1 = Some (i, s2)" "frac_part s2 = Some (f, s3)" "exp_part s3 = Some (e, r)"
    by (auto simp: parse_number_def split: option.splits)
  have "length s2 < length s1"
    using p(1) by (auto simp: int_part_def digits_of_def length_dropWhile_le less_Suc_eq_le split: list.splits if_splits)
  moreover have "length s3 \<le> length s2"
    using p(2) by (auto simp: frac_part_def digits_of_def split: list.splits if_splits) (metis le_SucI length_dropWhile_le)
  moreover have "length r \<le> length s3"
    using p(3) by (auto simp: exp_part_def digits_of_def Let_def split: list.splits if_splits prod.splits)
      (metis le_SucI length_dropWhile_le)+
  ultimately show ?thesis using l1 by linarith
qed

lemma literal_shorter: "literal w v s = Some (Parsed u r) \<Longrightarrow> w \<noteq> [] \<Longrightarrow> length r < length s"
  by (cases s) (auto simp: literal_def js_def split: if_splits)

lemma literal_parsed: "literal w v s = Some p \<Longrightarrow> \<exists>r. p = Parsed v r"
  by (auto simp: literal_def split: if_splits)

lemma parse_leaf_shorter: "parse_leaf s = Parsed v r \<Longrightarrow> length r < length s"
  unfolding parse_leaf_def by (auto split: option.splits dest: literal_shorter parse_number_shorter)

lemma parse_leaf_returns [simp]: "parse_leaf s \<noteq> Out_of_fuel"
  unfolding parse_leaf_def by (auto split: option.splits dest: literal_parsed)

lemma parse_shorter:
  "parse_value n s = Parsed v r \<Longrightarrow> length r < length s"
  "parse_elements n s = Parsed vs r \<Longrightarrow> length r < length s"
  "parse_members n s = Parsed ms r \<Longrightarrow> length r < length s"
proof (induction n s and n s and n s arbitrary: v r and vs r and ms r rule: parse_value_parse_elements_parse_members.induct)
  case (2 n s)
  obtain c cs where c: "skip_ws s = c # cs" using "2.prems" by (auto split: list.splits)
  note len = skip_ws_length [of s, unfolded c] 
  consider "c = 0x22" | "c = 0x5B" | "c = 0x7B" | "c \<notin> {0x22, 0x5B, 0x7B}" by blast
  then show ?case
  proof cases
    case 1
    with "2.prems" c len show ?thesis by (auto split: option.splits dest: parse_string_shorter)
  next
    case 2
    with "2.prems" c len "2.IH"(1) [OF c] show ?thesis
      by (auto split: list.splits parsed.splits if_splits dest!: skip_ws_Cons) fastforce
  next
    case 3
    with "2.prems" c len "2.IH"(2) [OF c] show ?thesis
      by (auto split: list.splits parsed.splits if_splits dest!: skip_ws_Cons) fastforce
  next
    case 4
    with "2.prems" c have "length r < length (c # cs)" by (auto dest: parse_leaf_shorter)
    with len show ?thesis by simp
  qed
next
  case (4 n s)
  then show ?case
    by (auto split: list.splits parsed.splits if_splits dest!: skip_ws_Cons) fastforce+
next
  case (6 n s)
  then show ?case
    by (auto split: list.splits parsed.splits if_splits option.splits dest!: skip_ws_Cons parse_string_shorter) fastforce+
qed auto

section \<open>Enough fuel\<close>

lemma parse_enough:
  "2 * length s < n \<Longrightarrow> parse_value n s \<noteq> Out_of_fuel"
  "Suc (2 * length s) < n \<Longrightarrow> parse_elements n s \<noteq> Out_of_fuel"
  "Suc (2 * length s) < n \<Longrightarrow> parse_members n s \<noteq> Out_of_fuel"
proof (induction n s and n s and n s rule: parse_value_parse_elements_parse_members.induct)
  case (2 n s)
  show ?case
  proof (cases "skip_ws s")
    case (Cons c cs)
    then have "Suc (2 * length cs) < n" using "2.prems" skip_ws_length [of s] by simp
    with "2.IH" [OF Cons] Cons show ?thesis
      by (cases "c = 0x22"; cases "c = 0x5B"; cases "c = 0x7B") (auto split: list.splits parsed.splits option.splits)
  qed simp
next
  case (4 n s)
  have "parse_value n s \<noteq> Out_of_fuel" using "4.IH"(1) "4.prems" by simp
  moreover have "parse_elements n r' \<noteq> Out_of_fuel" if "parse_value n s = Parsed v r" "skip_ws r = 0x2C # r'" for v r r'
    using "4.IH"(2) [OF that _ refl] "4.prems" parse_shorter(1) [OF that(1)] skip_ws_Cons [OF that(2)] by simp
  ultimately show ?case
    by (auto split: list.splits parsed.splits)
next
  case (6 n s)
  have v: "parse_value n r' \<noteq> Out_of_fuel"
    if "skip_ws s = 0x22 # cs" "parse_string cs = Some (k, r)" "skip_ws r = 0x3A # r'" for cs k r r'
    using "6.IH"(1) [OF that(1) _ that(2) refl that(3)] "6.prems" parse_string_shorter [OF that(2)] skip_ws_Cons [OF that(1)] skip_ws_Cons [OF that(3)] by simp
  have m: "parse_members n q' \<noteq> Out_of_fuel"
    if "skip_ws s = 0x22 # cs" "parse_string cs = Some (k, r)" "skip_ws r = 0x3A # r'" "parse_value n r' = Parsed v q" "skip_ws q = 0x2C # q'" for cs k r r' v q q'
    using "6.IH"(2) [OF that(1) _ that(2) refl that(3) _ that(4,5)] "6.prems" parse_string_shorter [OF that(2)] skip_ws_Cons [OF that(1)] skip_ws_Cons [OF that(3)]
      skip_ws_Cons [OF that(5)] parse_shorter(1) [OF that(4)] by simp
  show ?case
    by (auto split: list.splits parsed.splits option.splits dest: v m)
qed auto

lemma parse_more:
  "parse_value n s \<noteq> Out_of_fuel \<Longrightarrow> parse_value (n + k) s = parse_value n s"
  "parse_elements n s \<noteq> Out_of_fuel \<Longrightarrow> parse_elements (n + k) s = parse_elements n s"
  "parse_members n s \<noteq> Out_of_fuel \<Longrightarrow> parse_members (n + k) s = parse_members n s"
proof (induction n s and n s and n s rule: parse_value_parse_elements_parse_members.induct)
  case (2 n s)
  show ?case
  proof (cases "skip_ws s")
    case (Cons c cs)
    with "2.IH" [OF Cons] "2.prems" show ?thesis
      by (cases "c = 0x22"; cases "c = 0x5B"; cases "c = 0x7B") (auto split: list.splits parsed.splits if_splits)
  qed simp
next
  case (4 n s)
  then show ?case by (auto split: list.splits parsed.splits)
next
  case (6 n s)
  then show ?case by (auto split: list.splits parsed.splits option.splits)
qed auto

section \<open>Strings read back\<close>

lemma unat_unit: "n < 65536 \<Longrightarrow> unat (of_nat n :: 16 word) = n"
  by (simp only: unat_of_nat) (simp add: take_bit_eq_mod)

lemma hex_value_digit: "d < 16 \<Longrightarrow> hex_value (hex_digit d) = Some d"
proof -
  assume "d < 16"
  then have "unat (hex_digit d) = (if d < 10 then 48 + d else 87 + d)"
    by (simp add: hex_digit_def unat_unit del: of_nat_add)
  with \<open>d < 16\<close> show ?thesis by (auto simp: hex_value_def is_digit_iff word_le_nat_alt)
qed

lemma hex_unit_digits:
  "hex_unit (hex_digit (unat u div 4096)) (hex_digit (unat u div 256 mod 16)) (hex_digit (unat u div 16 mod 16)) (hex_digit (unat u mod 16)) = Some u"
proof -
  have u: "unat u < 65536" using unsigned_less [of u] by simp
  have e: "unat u div 256 = unat u div 16 div 16" "unat u div 4096 = unat u div 16 div 16 div 16"
    using div_mult2_eq [of "unat u" 16 16] div_mult2_eq [of "unat u" 16 256] div_mult2_eq [of "unat u div 16" 16 16] by simp_all
  have "((unat u div 4096 * 16 + unat u div 256 mod 16) * 16 + unat u div 16 mod 16) * 16 + unat u mod 16 = unat u"
    unfolding e by (simp only: div_mult_mod_eq)
  moreover have "unat u div 4096 < 16" using u by (simp add: less_mult_imp_div_less)
  ultimately show ?thesis by (simp add: hex_unit_def hex_value_digit)
qed

lemma parse_unicode_escape: "parse_string (unicode_escape u @ r) = map_option (apfst ((#) u)) (parse_string r)"
  by (simp add: unicode_escape_def hex_unit_digits)

lemma parse_plain: "u \<noteq> 0x22 \<Longrightarrow> u \<noteq> 0x5C \<Longrightarrow> \<not> u < 0x20 \<Longrightarrow> parse_string (u # r) = map_option (apfst ((#) u)) (parse_string r)"
  by simp

lemma parse_escape_unit: "parse_string (escape_unit u @ r) = map_option (apfst ((#) u)) (parse_string r)"
proof (cases "u \<in> {0x22, 0x5C, 0x08, 0x0C, 0x0A, 0x0D, 0x09}")
  case True
  then show ?thesis by (auto simp: escape_unit_def simple_escape_def)
next
  case False
  then show ?thesis
    by (cases "u < 0x20") (simp_all add: escape_unit_def parse_unicode_escape parse_plain del: parse_string.simps)
qed

lemma surrogate_plain: "is_high u \<or> is_low u \<Longrightarrow> u \<noteq> 0x22 \<and> u \<noteq> 0x5C \<and> \<not> u < 0x20"
  by (auto simp: is_high_def is_low_def word_le_nat_alt word_less_nat_alt)

lemma parse_surrogate: "is_high u \<or> is_low u \<Longrightarrow> parse_string (u # r) = map_option (apfst ((#) u)) (parse_string r)"
  using surrogate_plain by (intro parse_plain) auto

lemma parse_quoted: "parse_string (quote_units s @ 0x22 # r) = Some (s, r)"
proof (induction s rule: quote_units.induct)
  case (2 u us)
  then show ?case
    by (auto simp: parse_unicode_escape parse_escape_unit parse_surrogate simp del: parse_string.simps(2) split: list.splits)
      (simp add: parse_string.simps)
qed simp

section \<open>UTF-8 reads back\<close>

lemma unat_octet: "n < 256 \<Longrightarrow> unat (of_nat n :: 8 word) = n"
  by (simp only: unat_of_nat) (simp add: take_bit_eq_mod)

lemma utf8_point_reads:
  assumes "c \<le> 0x10FFFF" and "\<not> (0xD800 \<le> c \<and> c \<le> 0xDFFF)"
  shows "utf8_units (utf8_point c @ bs) = map_option ((@) (utf16_point c)) (utf8_units bs)"
proof -
  have e: "c div 4096 = c div 64 div 64" "c div 262144 = c div 64 div 64 div 64"
    using div_mult2_eq [of c 64 64] div_mult2_eq [of c 64 4096] div_mult2_eq [of "c div 64" 64 64] by simp_all
  have d: "c div 64 * 64 + c mod 64 = c" "c div 4096 * 4096 + c div 64 mod 64 * 64 + c mod 64 = c"
    "c div 262144 * 262144 + c div 4096 mod 64 * 4096 + c div 64 mod 64 * 64 + c mod 64 = c"
    using div_mult_mod_eq [of c 64] div_mult_mod_eq [of "c div 64" 64] div_mult_mod_eq [of "c div 64 div 64" 64] unfolding e by linarith+
  have m: "n mod 64 \<le> 63" for n :: nat using pos_mod_bound [of 64 "int n"] by (simp add: less_Suc_eq_le [symmetric])
  consider "c < 0x80" | "0x80 \<le> c" "c < 0x800" | "0x800 \<le> c" "c < 0x10000" | "0x10000 \<le> c" by linarith
  then show ?thesis
  proof cases
    case 1
    then show ?thesis by (simp add: utf8_point_def word_less_nat_alt unat_octet del: of_nat_add)
  next
    case 2
    then have "c div 64 < 32" by (simp add: less_mult_imp_div_less)
    with 2 d(1) show ?thesis
      by (simp add: utf8_point_def word_less_nat_alt word_le_nat_alt unat_octet is_cont_def scalar_def m del: of_nat_add)
  next
    case 3
    then have "c div 4096 < 16" by (simp add: less_mult_imp_div_less)
    with 3 d(2) assms show ?thesis
      by (simp add: utf8_point_def word_less_nat_alt word_le_nat_alt unat_octet is_cont_def scalar_def m del: of_nat_add)
  next
    case 4
    then have "c div 262144 < 8" using assms by (simp add: less_mult_imp_div_less)
    with 4 d(3) assms show ?thesis
      by (simp add: utf8_point_def word_less_nat_alt word_le_nat_alt unat_octet is_cont_def scalar_def m del: of_nat_add)
  qed
qed

lemma utf16_pair:
  assumes "is_high u" and "is_low v"
  shows "utf16_point (0x10000 + (unat u - 0xD800) * 1024 + (unat v - 0xDC00)) = [u, v]"
    and "0x10000 + (unat u - 0xD800) * 1024 + (unat v - 0xDC00) \<le> 0x10FFFF"
proof -
  have u: "0xD800 \<le> unat u" "unat u \<le> 0xDBFF" and v: "0xDC00 \<le> unat v" "unat v \<le> 0xDFFF"
    using assms by (simp_all add: is_high_def is_low_def word_le_nat_alt)
  from v have "unat v - 0xDC00 < 1024" by simp
  then have "((unat u - 0xD800) * 1024 + (unat v - 0xDC00)) div 1024 = unat u - 0xD800" "((unat u - 0xD800) * 1024 + (unat v - 0xDC00)) mod 1024 = unat v - 0xDC00"
    by simp_all
  then show "utf16_point (0x10000 + (unat u - 0xD800) * 1024 + (unat v - 0xDC00)) = [u, v]"
    using u v by (simp add: utf16_point_def add.assoc)
  show "0x10000 + (unat u - 0xD800) * 1024 + (unat v - 0xDC00) \<le> 0x10FFFF" using u v by simp
qed

lemma utf8_reads: "wf_utf16 s \<Longrightarrow> utf8_units (TextEncoder_encode s) = Some s"
proof (induction s rule: wf_utf16.induct)
  case (2 u us)
  show ?case
  proof (cases "is_high u")
    case True
    with "2.prems" obtain v vs where vs: "us = v # vs" "is_low v" "wf_utf16 vs" by (auto split: list.splits)
    with True "2.IH"(1) [OF True vs(1)] show ?thesis by (simp add: utf8_point_reads utf16_pair)
  next
    case False
    with "2.prems" have "\<not> is_low u" "wf_utf16 us" by auto
    moreover have "unat u < 65536" using unsigned_less [of u] by simp
    moreover have "\<not> (0xD800 \<le> unat u \<and> unat u \<le> 0xDFFF)"
      using False \<open>\<not> is_low u\<close> by (auto simp: is_high_def is_low_def word_le_nat_alt)
    ultimately show ?thesis using False "2.IH"(2) by (simp add: utf8_point_reads utf16_point_def)
  qed
qed simp

section \<open>Values read back\<close>

text \<open>What may follow a value inside a text: the end, a comma or a closing bracket.\<close>

definition ends :: "jsstr \<Rightarrow> bool" where
  "ends r \<longleftrightarrow> (case r of [] \<Rightarrow> True | c # _ \<Rightarrow> c = 0x2C \<or> c = 0x5D \<or> c = 0x7D)"

text \<open>The printed form of a number is ASCII and reads back as the number, which is what \<^verbatim>\<open>Number::toString\<close> promises.\<close>

definition reads_back :: "(rat \<Rightarrow> jsstr) \<Rightarrow> rat \<Rightarrow> bool" where
  "reads_back num x \<longleftrightarrow>
     list_all (\<lambda>c. c < 0x80) (number_text num x)
   \<and> (\<forall>r. ends r \<longrightarrow> parse_number (number_text num x @ r) = Some (JNum x, r))"

text \<open>JSON values whose objects list their entries the way a JavaScript object does.\<close>

fun printable :: "(rat \<Rightarrow> jsstr) \<Rightarrow> jsval \<Rightarrow> bool" where
  "printable num JNull = True"
| "printable num (JBool b) = True"
| "printable num (JNum x) = reads_back num x"
| "printable num (JStr s) = True"
| "printable num (JArr xs) = list_all (printable num) xs"
| "printable num (JObj kvs) = (object_of kvs = kvs \<and> list_all (\<lambda>(k, v). printable num v) kvs)"
| "printable num _ = False"

lemma punctuation [simp]:
  "\<not> is_ws 0x2C" "\<not> is_ws 0x5D" "\<not> is_ws 0x7D" "\<not> is_ws 0x3A" "\<not> is_ws 0x22" "\<not> is_ws 0x5B" "\<not> is_ws 0x7B"
  "(0x2C :: 16 word) \<noteq> 0x5D" "(0x2C :: 16 word) \<noteq> 0x7D"
  by (simp_all add: is_ws_def)

lemma ends_not_ws: "ends (c # r) \<Longrightarrow> \<not> is_ws c"
  by (auto simp: ends_def is_ws_def)

lemma ends_skip: "ends r \<Longrightarrow> skip_ws r = r"
  by (cases r) (auto dest: ends_not_ws)

lemma ends_not_digit: "ends (c # r) \<Longrightarrow> \<not> is_digit c \<and> c \<noteq> 46 \<and> c \<noteq> 101 \<and> c \<noteq> 69"
  by (auto simp: ends_def is_digit_def)

lemma parse_number_head: "parse_number s = Some p \<Longrightarrow> \<exists>c cs. s = c # cs \<and> (c = 45 \<or> is_digit c)"
  by (auto simp: parse_number_def int_part_def is_digit_def split: list.splits if_splits option.splits prod.splits)

lemma digit_head: "c = 45 \<or> is_digit c \<Longrightarrow> \<not> is_ws c \<and> c \<notin> {0x22, 0x5B, 0x7B, 0x74, 0x66, 0x6E}"
  by (auto simp: is_digit_def is_ws_def)

lemma parse_number_value:
  assumes "parse_number s = Some (v, r)"
  shows "parse_value (Suc n) s = Parsed v r"
proof -
  obtain c cs where s: "s = c # cs" "c = 45 \<or> is_digit c" using parse_number_head [OF assms] by blast
  note h = digit_head [OF s(2)]
  have "parse_leaf s = Parsed v r"
    using h assms by (auto simp: parse_leaf_def literal_def js_def s(1))
  with h s(1) show ?thesis by simp
qed

lemma assign_new: "k \<notin> fst ` set kvs \<Longrightarrow> assign v k kvs = kvs @ [(k, v)]"
  by (induction kvs) auto

lemma fold_assign: "distinct (map fst (acc @ ms)) \<Longrightarrow> fold (\<lambda>(k, v). assign v k) ms acc = acc @ ms"
proof (induction ms arbitrary: acc)
  case (Cons m ms)
  obtain k v where m: "m = (k, v)" by force
  with Cons.prems have "k \<notin> fst ` set acc" by auto
  with Cons.IH [of "acc @ [m]"] Cons.prems m show ?case by (simp add: assign_new)
qed simp

lemma object_of_plain: "distinct (map fst ms) \<Longrightarrow> list_all (\<lambda>(k, v). \<not> is_index k) ms \<Longrightarrow> object_of ms = ms"
proof -
  assume "distinct (map fst ms)" and n: "list_all (\<lambda>(k, v). \<not> is_index k) ms"
  with fold_assign [of "[]" ms] have f: "fold (\<lambda>(k, v). assign v k) ms [] = ms" by simp
  from n have "filter (is_index \<circ> fst) ms = []" "filter (\<lambda>kv. \<not> is_index (fst kv)) ms = ms"
    by (auto simp: list_all_iff filter_empty_conv intro!: filter_True)
  then show ?thesis by (simp only: object_of_def f Let_def) simp
qed

lemma parse_elements_join:
  assumes "\<forall>v \<in> set vs. \<forall>r. ends r \<longrightarrow> (\<exists>n. parse_value n (f v @ r) = Parsed v r)" and "vs \<noteq> []"
  shows "\<exists>n. parse_elements n (join (map f vs) @ 0x5D # r) = Parsed vs r"
  using assms
proof (induction vs)
  case (Cons v vs)
  show ?case
  proof (cases vs)
    case Nil
    have "ends (0x5D # r)" by (simp add: ends_def)
    with Cons.prems obtain n where "parse_value n (f v @ 0x5D # r) = Parsed v (0x5D # r)" by auto
    then have "parse_elements (Suc n) (join (map f (v # vs)) @ 0x5D # r) = Parsed (v # vs) r" by (simp add: Nil)
    then show ?thesis by blast
  next
    case (Cons w ws)
    let ?r = "0x2C # join (map f vs) @ 0x5D # r"
    have "ends ?r" by (simp add: ends_def)
    with Cons.prems obtain n where n: "parse_value n (f v @ ?r) = Parsed v ?r" by auto
    from Cons.IH Cons.prems Cons obtain m where m: "parse_elements m (join (map f vs) @ 0x5D # r) = Parsed vs r" by auto
    have "parse_value (n + m) (f v @ ?r) = Parsed v ?r" "parse_elements (n + m) (join (map f vs) @ 0x5D # r) = Parsed vs r"
      using parse_more(1) [of n _ m] parse_more(2) [of m _ n] n m by (simp_all add: add.commute)
    then have "parse_elements (Suc (n + m)) (join (map f (v # vs)) @ 0x5D # r) = Parsed (v # vs) r"
      by (simp add: Cons)
    then show ?thesis by blast
  qed
qed simp

lemma parse_members_join:
  assumes "\<forall>(k, v) \<in> set kvs. \<forall>r. ends r \<longrightarrow> (\<exists>n. parse_value n (f v @ r) = Parsed v r)" and "kvs \<noteq> []"
  shows "\<exists>n. parse_members n (join (map (\<lambda>(k, v). JSON_quote k @ 0x3A # f v) kvs) @ 0x7D # r) = Parsed kvs r"
  using assms
proof (induction kvs)
  case (Cons kv kvs)
  obtain k v where kv: "kv = (k, v)" by force
  let ?g = "\<lambda>(k, v). JSON_quote k @ 0x3A # f v"
  show ?case
  proof (cases kvs)
    case Nil
    have "ends (0x7D # r)" by (simp add: ends_def)
    with Cons.prems kv obtain n where "parse_value n (f v @ 0x7D # r) = Parsed v (0x7D # r)" by auto
    then have "parse_members (Suc n) (join (map ?g (kv # kvs)) @ 0x7D # r) = Parsed (kv # kvs) r"
      by (simp add: Nil kv JSON_quote_def parse_quoted)
    then show ?thesis by blast
  next
    case (Cons w ws)
    let ?r = "0x2C # join (map ?g kvs) @ 0x7D # r"
    have "ends ?r" by (simp add: ends_def)
    with Cons.prems kv obtain n where n: "parse_value n (f v @ ?r) = Parsed v ?r" by auto
    from Cons.IH Cons.prems Cons obtain m where m: "parse_members m (join (map ?g kvs) @ 0x7D # r) = Parsed kvs r" by auto
    have p: "parse_value (n + m) (f v @ ?r) = Parsed v ?r" "parse_members (n + m) (join (map ?g kvs) @ 0x7D # r) = Parsed kvs r"
      using parse_more(1) [of n _ m] parse_more(3) [of m _ n] n m by (simp_all add: add.commute)
    have j: "join (map ?g (kv # kvs)) @ 0x7D # r = 0x22 # quote_units k @ 0x22 # 0x3A # f v @ ?r"
      by (simp add: Cons kv JSON_quote_def)
    have "parse_members (Suc (n + m)) (join (map ?g (kv # kvs)) @ 0x7D # r) = Parsed (kv # kvs) r"
      unfolding j using p by (simp add: kv parse_quoted)
    then show ?thesis by blast
  qed
qed simp

lemma elements_head:
  assumes "parse_elements n s = Parsed vs r"
  obtains c cs where "skip_ws s = c # cs" "c \<noteq> 0x5D"
proof -
  from assms obtain m v q where v: "parse_value m s = Parsed v q"
    by (cases n) (auto split: parsed.splits)
  then obtain c cs where c: "skip_ws s = c # cs" by (cases m) (auto split: list.splits)
  moreover have "c \<noteq> 0x5D"
  proof
    assume "c = 0x5D"
    moreover have "parse_leaf (0x5D # cs) = Syntax_error"
      by (simp add: parse_leaf_def literal_def js_def parse_number_def int_part_def is_digit_def)
    ultimately show False using v c by (cases m) auto
  qed
  ultimately show ?thesis by (rule that)
qed

lemma members_head:
  assumes "parse_members n s = Parsed ms r"
  obtains cs where "skip_ws s = 0x22 # cs"
  using assms by (cases n) (auto split: list.splits if_splits)

lemma parse_text:
  "printable num v \<Longrightarrow> ends r \<Longrightarrow> \<exists>n. parse_value n (JSON_text num v @ r) = Parsed v r"
proof (induction v arbitrary: r)
  case (JArr xs)
  show ?case
  proof (cases "xs = []")
    case True
    then have "parse_value (Suc 0) (JSON_text num (JArr xs) @ r) = Parsed (JArr xs) r" by simp
    then show ?thesis by blast
  next
    case False
    let ?s = "join (map (JSON_text num) xs) @ 0x5D # r"
    from JArr have "\<forall>v \<in> set xs. \<forall>r. ends r \<longrightarrow> (\<exists>n. parse_value n (JSON_text num v @ r) = Parsed v r)" by (auto simp: list_all_iff)
    from parse_elements_join [OF this False] obtain n where n: "parse_elements n ?s = Parsed xs r" by blast
    obtain c cs where c: "skip_ws ?s = c # cs" "c \<noteq> 0x5D" by (rule elements_head [OF n])
    then have "parse_value (Suc n) (JSON_text num (JArr xs) @ r) = Parsed (JArr xs) r" using n by simp
    then show ?thesis by blast
  qed
next
  case (JObj kvs)
  show ?case
  proof (cases "kvs = []")
    case True
    then have "parse_value (Suc 0) (JSON_text num (JObj kvs) @ r) = Parsed (JObj kvs) r" by simp
    then show ?thesis by blast
  next
    case False
    let ?s = "join (map (\<lambda>(k, v). JSON_quote k @ 0x3A # JSON_text num v) kvs) @ 0x7D # r"
    from JObj have "\<forall>(k, v) \<in> set kvs. \<forall>r. ends r \<longrightarrow> (\<exists>n. parse_value n (JSON_text num v @ r) = Parsed v r)"
      by (fastforce simp: list_all_iff)
    from parse_members_join [OF this False] obtain n where n: "parse_members n ?s = Parsed kvs r" by blast
    have kvs: "object_of kvs = kvs" using JObj.prems by simp
    obtain cs where c: "skip_ws ?s = 0x22 # cs" by (rule members_head [OF n])
    then have "parse_value (Suc n) (JSON_text num (JObj kvs) @ r) = Parsed (JObj kvs) r" using n kvs by simp
    then show ?thesis by blast
  qed
next
  case (JNum x)
  then have "parse_number (number_text num x @ r) = Some (JNum x, r)" by (simp add: reads_back_def)
  from parse_number_value [OF this] show ?case unfolding JSON_text.simps by blast
next
  case (JStr s)
  have "parse_value (Suc 0) (JSON_text num (JStr s) @ r) = Parsed (JStr s) r" by (simp add: JSON_quote_def parse_quoted)
  then show ?case by blast
next
  case JNull
  have "parse_value (Suc 0) (JSON_text num JNull @ r) = Parsed JNull r" by (simp add: js_def is_ws_def parse_leaf_def literal_def)
  then show ?case by blast
next
  case (JBool b)
  have "parse_value (Suc 0) (JSON_text num (JBool b) @ r) = Parsed (JBool b) r"
    by (cases b) (simp_all add: js_def is_ws_def parse_leaf_def literal_def)
  then show ?case by blast
qed auto

lemma JSON_parse_reads:
  assumes "parse_value n s = Parsed v r"
  shows "JSON_parse s = (if skip_ws r = [] then Some v else None)"
proof -
  let ?n = "Suc (2 * length s)"
  have "parse_value ?n s \<noteq> Out_of_fuel" by (rule parse_enough) simp
  then have "parse_value (?n + n) s = parse_value ?n s" by (rule parse_more)
  moreover have "parse_value (n + ?n) s = parse_value n s" using assms by (intro parse_more) simp
  ultimately have "parse_value ?n s = Parsed v r" using assms by (simp add: add.commute)
  then show ?thesis by (simp add: JSON_parse_def JSON_parse_fuel_def)
qed

lemma JSON_roundtrip: "printable num v \<Longrightarrow> JSON_parse (JSON_text num v) = Some v"
  using parse_text [of num v "[]"] JSON_parse_reads [of _ "JSON_text num v" v "[]"] by (auto simp: ends_def)

text \<open>More fuel than \<open>JSON_parse\<close> takes never changes the outcome: the reader always comes to an end.\<close>

lemma JSON_parse_terminates:
  assumes "2 * length s < n"
  shows "JSON_parse_fuel n s = Parsed (JSON_parse s) []"
proof -
  have enough: "parse_value (Suc (2 * length s)) s \<noteq> Out_of_fuel" by (rule parse_enough) simp
  have "parse_value n s = parse_value (Suc (2 * length s)) s"
    using parse_more(1) [OF enough, of "n - Suc (2 * length s)"] assms by simp
  with enough show ?thesis by (auto simp: JSON_parse_def JSON_parse_fuel_def split: parsed.splits)
qed

section \<open>Integers read back\<close>

lemma floorlog_bound: "0 < n \<Longrightarrow> n < 2 ^ 53 \<Longrightarrow> floorlog 2 n \<le> 53"
  by (simp add: floorlog_le_iff)

lemma round_even_int: "round_even (of_int i) = i"
  by (simp add: round_even_def)

lemma to_double_nat:
  assumes "0 < n" and "n < 2 ^ 53"
  shows "to_double (of_nat n) = Some (of_nat n)"
proof -
  have q: "quotient_of (of_nat n) = (int n, 1)" by simp
  have "log2_floor (of_nat n) \<le> 52"
    using floorlog_bound [OF assms] by (auto simp: log2_floor_def q Let_def floorlog_def split: if_splits)
  define e where "e = max (-1074) (log2_floor (of_nat n :: rat) - 52)"
  have "e \<le> 0" and "- 1074 \<le> e" using \<open>log2_floor (of_nat n) \<le> 52\<close> by (simp_all add: e_def)
  then obtain k where k: "e = - int k" by (metis nat_0_le neg_0_le_iff_le minus_minus)
  have "(of_nat n :: rat) * 2 powi (- e) = of_int (int (n * 2 ^ k))" by (simp add: k)
  then have "round_even (of_nat n * 2 powi (- e)) = int (n * 2 ^ k)" by (simp only: round_even_int)
  then have "of_int (round_even (of_nat n * 2 powi (- e))) * 2 powi e = (of_nat n :: rat)"
    by (simp add: k power_int_minus field_simps)
  moreover have "(of_nat n :: rat) < 2 ^ 1024"
  proof -
    have "(of_nat n :: rat) < of_nat (2 ^ 53)" using assms(2) by (simp only: of_nat_less_iff)
    also have "\<dots> \<le> 2 ^ 1024" by (simp add: power_increasing)
    finally show ?thesis .
  qed
  ultimately show ?thesis
    using assms(1) by (simp add: to_double_def e_def [symmetric] Let_def)
qed


lemma to_double_minus: "to_double x = Some y \<Longrightarrow> to_double (- x) = Some (- y)"
  by (auto simp: to_double_def Let_def split: if_splits)

lemma to_double_int:
  assumes "\<bar>i\<bar> < 2 ^ 53"
  shows "to_double (of_int i) = Some (of_int i)"
proof (cases "i = 0")
  case False
  define n where "n = nat \<bar>i\<bar>"
  have n: "0 < n" "n < 2 ^ 53" using False assms by (simp_all add: n_def nat_less_iff)
  have "to_double (of_int i) = Some (of_int i) \<or> to_double (of_int i) = Some (- of_int (- i))"
    using to_double_nat [OF n] to_double_minus [OF to_double_nat [OF n]] by (cases "0 < i") (auto simp: n_def)
  then show ?thesis by simp
qed (simp add: to_double_def)

lemma digits_of_dec: "ends r \<Longrightarrow> digits_of (dec n @ r) = (dec n, r)"
  using dec_digits [of _ n] by (cases r) (auto simp: digits_of_def dropWhile_append3 takeWhile_append dest: ends_not_digit)

lemma int_part_dec: "ends r \<Longrightarrow> int_part (dec n @ r) = Some (dec n, r)"
proof -
  assume r: "ends r"
  obtain c cs where c: "dec n = c # cs" by (cases "dec n") auto
  with canonical_dec_dec [of n] have "c = 48 \<and> cs = [] \<or> is_digit c \<and> c \<noteq> 48" by auto
  with digits_of_dec [OF r, of n] c show ?thesis by (auto simp: int_part_def)
qed

lemma rest_parts: "ends r \<Longrightarrow> frac_part r = Some ([], r) \<and> exp_part r = Some (0, r)"
  by (cases r) (auto simp: frac_part_def exp_part_def dest: ends_not_digit)

lemma reads_back_int:
  assumes "\<bar>i\<bar> < 2 ^ 53"
  shows "reads_back num (of_int i)"
proof -
  have "\<bar>i\<bar> < 10 ^ 21" using assms by simp
  then have "\<bar>of_int i :: rat\<bar> < 10 ^ 21" by (metis of_int_abs of_int_less_iff of_int_numeral of_int_power)
  then have t: "number_text num (of_int i) = bigint_toString i" by (simp add: number_text_def)
  have value_of: "number_value neg (dec n) [] 0 = JNum (of_int i)" if "i = (if neg then - int n else int n)" for neg n
    using to_double_int [OF assms] that by (auto simp: number_value_def)
  have parse: "parse_number (bigint_toString i @ r) = Some (JNum (of_int i), r)" if r: "ends r" for r
  proof (cases "i < 0")
    case True
    then show ?thesis
      using value_of [of True "nat (- i)"] int_part_dec [OF r] rest_parts [OF r] by (simp add: bigint_toString_def parse_number_def)
  next
    case False
    obtain c cs where c: "dec (nat i) = c # cs" by (cases "dec (nat i)") auto
    then have "c \<noteq> 45" by (rule dec_hd_not_minus)
    with False c show ?thesis
      using value_of [of False "nat i"] int_part_dec [OF r, of "nat i"] rest_parts [OF r] by (simp add: bigint_toString_def parse_number_def)
  qed
  have "c < 0x80" if "c \<in> set (bigint_toString i)" for c
    using that dec_digits [of c "nat (- i)"] dec_digits [of c "nat i"] by (auto simp: bigint_toString_def is_digit_iff word_less_nat_alt split: if_splits)
  with parse show ?thesis by (simp add: reads_back_def t list_all_iff)
qed

section \<open>Printed text is well-formed UTF-16\<close>

lemma wf_utf16_append: "wf_utf16 s \<Longrightarrow> wf_utf16 (s @ t) = wf_utf16 t"
proof (induction s rule: wf_utf16.induct)
  case (2 u us)
  show ?case
  proof (cases "is_high u")
    case True
    with "2.prems" obtain v vs where "us = v # vs" "is_low v" "wf_utf16 vs" by (auto split: list.splits)
    with True "2.IH"(1) [OF True] show ?thesis by simp
  qed (use 2 in auto)
qed simp

lemma wf_utf16_ascii: "list_all (\<lambda>c. c < 0x80) s \<Longrightarrow> wf_utf16 s"
  by (induction s) (auto simp: is_high_def is_low_def word_le_nat_alt word_less_nat_alt)

lemma escape_ascii: "list_all (\<lambda>c. c < 0x80) (unicode_escape u)"
proof -
  have "hex_digit d < 0x80" if "d < 16" for d
    using that by (simp add: hex_digit_def word_less_nat_alt unat_unit del: of_nat_add)
  moreover have "unat u < 65536" using unsigned_less [of u] by simp
  then have "unat u div 4096 < 16" by (simp add: less_mult_imp_div_less)
  ultimately show ?thesis by (simp add: unicode_escape_def)
qed

lemma wf_escape_unit: "\<not> is_high u \<Longrightarrow> \<not> is_low u \<Longrightarrow> wf_utf16 (escape_unit u)"
  using wf_utf16_ascii [OF escape_ascii [of u]]
  by (auto simp: escape_unit_def is_high_def is_low_def word_le_nat_alt)

lemma wf_quote_units: "wf_utf16 (quote_units s)"
proof (induction s rule: quote_units.induct)
  case (2 u us)
  then show ?case
    using wf_utf16_ascii [OF escape_ascii [of u]] wf_escape_unit [of u]
    by (auto simp: wf_utf16_append split: list.splits)
qed simp

lemma wf_JSON_quote: "wf_utf16 (JSON_quote s)"
  using wf_quote_units [of s] by (simp add: JSON_quote_def wf_utf16_append is_high_def is_low_def)

lemma wf_join: "\<forall>x \<in> set xs. wf_utf16 x \<Longrightarrow> wf_utf16 (join xs)"
  by (induction xs rule: join.induct) (auto simp: wf_utf16_append is_high_def is_low_def)

lemma wf_JSON_text: "printable num v \<Longrightarrow> wf_utf16 (JSON_text num v)"
proof (induction v)
  case (JArr xs)
  then have "wf_utf16 (join (map (JSON_text num) xs))" by (intro wf_join) (auto simp: list_all_iff)
  then show ?case by (simp add: wf_utf16_append is_high_def is_low_def)
next
  case (JObj kvs)
  have "wf_utf16 (join (map (\<lambda>(k, v). JSON_quote k @ 0x3A # JSON_text num v) kvs))"
    using JObj by (intro wf_join) (fastforce simp: list_all_iff wf_utf16_append wf_JSON_quote is_high_def is_low_def)
  then show ?case by (simp add: wf_utf16_append is_high_def is_low_def)
qed (auto simp: wf_JSON_quote js_def is_high_def is_low_def reads_back_def intro: wf_utf16_ascii)

text \<open>The bytes of a printed object decode and parse back to it.\<close>

lemma JSON_bytes_roundtrip:
  assumes "printable num (JObj kvs)"
  shows "TextDecoder_decode (TextEncoder_encode (JSON_text num (JObj kvs))) = Some (JSON_text num (JObj kvs))"
    and "JSON_parse (JSON_text num (JObj kvs)) = Some (JObj kvs)"
proof -
  have "take 3 (TextEncoder_encode (JSON_text num (JObj kvs))) \<noteq> [0xEF, 0xBB, 0xBF]"
    by (simp add: is_high_def is_low_def utf8_point_def)
  then show "TextDecoder_decode (TextEncoder_encode (JSON_text num (JObj kvs))) = Some (JSON_text num (JObj kvs))"
    using utf8_reads [OF wf_JSON_text [OF assms]] by (simp only: TextDecoder_decode_def if_False)
  show "JSON_parse (JSON_text num (JObj kvs)) = Some (JObj kvs)" by (rule JSON_roundtrip [OF assms])
qed

end
