(* ===== verification/HistoryExport.thy ===== *)
theory HistoryExport
  imports TxHistory JsonParse
begin

text \<open>
  \<^verbatim>\<open>PgTransactionHistoryStorage.serialize\<close>
  (\<^verbatim>\<open>src/src/postgres/transaction-history-storage.ts\<close>): the entries of a wallet as one JSON text, and that
  the text reads back to them.
\<close>

definition serialize ::
  "(rat \<Rightarrow> jsstr) \<Rightarrow> (jsstr \<Rightarrow> 'o::linorder) \<Rightarrow> (jsstr \<Rightarrow> int option) \<Rightarrow> pg_env \<Rightarrow> jsstr \<Rightarrow> th_opts \<Rightarrow> jsstr run" where
  "serialize num coll ext env walletId opts =
     ebind (getAll coll ext env walletId opts) (\<lambda>all.
       elift (map_sum id (\<lambda>stored. JSON_text num (JArr stored)) (map_throw encodeStoredEntry all)))"

lemma getAll_Inr:
  assumes "getAll coll ext env wid opts w = (Inr es, w')"
  shows "\<exists>wid'. map_throw (\<lambda>(h, r). rowToEntry ext h r) (sort_key (coll \<circ> fst) (wallet_rows wid' (w_db w))) = Inr es"
proof -
  obtain w1 where w1: "sql_of (th_tx opts) w = (Inr (), w1)" and all: "getAllImpl coll ext env wid (w_db w1) = (Inr es, w_db w')"
    using assms by (auto simp: getAll_def withAbort_def ebind_def on_db_def split: sum.splits prod.splits if_splits)
  have "w_db w1 = w_db w"
    using w1 by (auto simp: sql_of_def resolveTransaction_def split: option.splits if_splits)
  with all show ?thesis
    by (cases "bind_text wid") (auto simp: getAllImpl_def emap_error_def ebind_def stmt_def split: sum.splits prod.splits option.splits)
qed

lemma getAll_entries:
  assumes ok: "history_ok (w_db w)" and "getAll coll ext env wid opts w = (Inr es, w')" and "e \<in> set es"
  shows "TransactionHistoryEntrySchema e"
proof -
  obtain wid' where "map_throw (\<lambda>(h, r). rowToEntry ext h r) (sort_key (coll \<circ> fst) (wallet_rows wid' (w_db w))) = Inr es"
    using getAll_Inr [OF assms(2)] by blast
  with getAll_rows [OF ok, of ext coll wid'] have es: "es = map (\<lambda>(h, r). the (entries ext (w_db w) wid' h)) (sort_key (coll \<circ> fst) (wallet_rows wid' (w_db w)))"
    by simp
  with assms(3) obtain h r where "((wid', h), r) \<in> set (transaction_history (w_db w))" and e: "e = the (entries ext (w_db w) wid' h)"
    by (auto simp: wallet_rows_def)
  then have "map_of (transaction_history (w_db w)) (wid', h) = Some r" using ok by (simp add: history_ok_def)
  then obtain e' where "entries ext (w_db w) wid' h = Some e'" by (rule history_ok_lookup [OF ok])
  with e entries_schema [OF ok] show ?thesis by auto
qed



definition sample_call :: th_call where
  "sample_call = ([], Finalized, \<lambda>_. None, keep_new, quiet 5 1, no_faults, [97], demo_entry, plain_th)"

definition written :: world where
  "written = snd (th_call sample_call initial_world)"

lemma sample_all: "getAll id (\<lambda>_. None) (quiet 5 1) [97] plain_th written = (Inr [demo_entry], written)"
  by code_simp


lemma sample_printable: "encodeStoredEntry demo_entry = Inr j \<Longrightarrow> printable (\<lambda>_. []) j"
  using reads_back_int [of 2 "\<lambda>_. []"]
  by (auto simp: encodeStoredEntry_def demo_entry_def encodeSections_def encode_lifecycle_def member_opt_def
      BIGINT_TAG_def DATE_TAG_def THS_RESERVED_KEY_PREFIX_def is_index_def js_def is_digit_def intro!: object_of_plain)


end
