(* ===== verification/CheckpointStore.thy ===== *)
theory CheckpointStore
  imports TransactionLease "HOL-Library.Multiset"
begin

text \<open>
  Content-addressed checkpoints: \<^verbatim>\<open>src/src/postgres/checkpoint-store.ts\<close> with the schemas of
  \<^verbatim>\<open>src/src/interfaces/checkpoint-store.ts\<close>, over the tables of
  \<^verbatim>\<open>migrations/002_checkpoint_store.ts\<close> and \<^verbatim>\<open>006_ckpt_chunks_size_bytes.ts\<close>.
  The hash is an argument \<open>sha\<close> of the model: SHA-256 is not code of the repository. What a
  theorem needs of it (no collision among the inputs at hand, a fixed output length) is a hypothesis.
\<close>

section \<open>Constants, options, summaries\<close>

definition DEFAULT_CHUNK_SIZE :: nat where
  "DEFAULT_CHUNK_SIZE = 4 * 1024 * 1024"

definition CHUNK_INSERT_MAX_ROWS :: nat where
  "CHUNK_INSERT_MAX_ROWS = 30000"

definition JUNCTION_INSERT_MAX_ROWS :: nat where
  "JUNCTION_INSERT_MAX_ROWS = 20000"

definition MAX_SAFE_INTEGER :: int where
  "MAX_SAFE_INTEGER = 2 ^ 53 - 1"

definition coerceToSafeNumber :: "int \<Rightarrow> js_error + int" where
  "coerceToSafeNumber v =
     (if MAX_SAFE_INTEGER < v \<or> v < - MAX_SAFE_INTEGER
      then Inl (plain_error ''outside the safe integer range'') else Inr v)"

definition MAX_CHECKPOINT_ID_LENGTH :: nat where
  "MAX_CHECKPOINT_ID_LENGTH = 512"

definition CheckpointIdSchema :: "jsstr \<Rightarrow> bool" where
  "CheckpointIdSchema s \<longleftrightarrow>
     1 \<le> length s \<and> length s \<le> MAX_CHECKPOINT_ID_LENGTH \<and> \<not> hasPostgresUnsafeText s"

definition assertValidCheckpointIds :: "jsstr \<Rightarrow> jsstr \<Rightarrow> js_error + unit" where
  "assertValidCheckpointIds walletId networkId =
     (if \<not> CheckpointIdSchema walletId then Inl (validation_error ''PgCheckpointStore walletId'')
      else if \<not> CheckpointIdSchema networkId then Inl (validation_error ''PgCheckpointStore networkId'')
      else Inr ())"

record save_opts =
  so_chunkSize :: "rat option"
  so_label :: "jsstr option"
  so_signal :: signal
  so_tx :: "nat option"

definition no_save_opts :: save_opts where
  "no_save_opts = \<lparr>so_chunkSize = None, so_label = None, so_signal = NoSignal, so_tx = None\<rparr>"

definition SaveCheckpointOptionsSchema :: "save_opts \<Rightarrow> bool" where
  "SaveCheckpointOptionsSchema opts \<longleftrightarrow>
     (case so_chunkSize opts of None \<Rightarrow> True | Some n \<Rightarrow> n \<in> \<int> \<and> 0 < n \<and> n \<le> 16 * 1024 * 1024)
   \<and> (case so_label opts of None \<Rightarrow> True | Some l \<Rightarrow> length l \<le> 200)"

definition validateSaveOptions :: "save_opts \<Rightarrow> js_error + save_opts" where
  "validateSaveOptions opts =
     (if SaveCheckpointOptionsSchema opts then Inr opts
      else Inl (validation_error ''PgCheckpointStore.save opts''))"

record history_opts =
  ho_limit :: "rat option"
  ho_before :: "rat option"
  ho_signal :: signal

definition no_history_opts :: history_opts where
  "no_history_opts = \<lparr>ho_limit = None, ho_before = None, ho_signal = NoSignal\<rparr>"

definition HistoryOptionsSchema :: "history_opts \<Rightarrow> bool" where
  "HistoryOptionsSchema opts \<longleftrightarrow>
     (case ho_limit opts of None \<Rightarrow> True | Some n \<Rightarrow> n \<in> \<int> \<and> 0 < n \<and> n \<le> 1000)
   \<and> (case ho_before opts of None \<Rightarrow> True | Some n \<Rightarrow> n \<in> \<int> \<and> 0 < n)"

text \<open>The parsed options: the default limit filled in.\<close>

definition validateHistoryOptions :: "history_opts \<Rightarrow> js_error + nat \<times> int option" where
  "validateHistoryOptions opts =
     (if HistoryOptionsSchema opts
      then Inr (case ho_limit opts of None \<Rightarrow> 50 | Some n \<Rightarrow> nat \<lfloor>n\<rfloor>, map_option floor (ho_before opts))
      else Inl (validation_error ''PgCheckpointStore.history opts''))"

text \<open>
  Hashes are kept as bytes; \<^verbatim>\<open>toHex\<close> only changes their notation.
\<close>

record checkpoint_summary =
  cs_sequence :: int
  cs_manifestHash :: bytes
  cs_byteLength :: int
  cs_chunkCount :: int
  cs_label :: "jsstr option"
  cs_createdAt :: int

record checkpoint_record = checkpoint_summary +
  cr_data :: bytes

record prune_result =
  pr_prunedSequences :: "int list"
  pr_reclaimedChunks :: nat
  pr_reclaimedBytes :: int

definition toSummary :: "manifest_row \<Rightarrow> int \<Rightarrow> int \<Rightarrow> js_error + checkpoint_summary" where
  "toSummary row byteLength chunkCount =
     (case coerceToSafeNumber (m_seq row) of
        Inl e \<Rightarrow> Inl e
      | Inr s \<Rightarrow> Inr \<lparr>cs_sequence = s, cs_manifestHash = m_manifest_hash row, cs_byteLength = byteLength,
                      cs_chunkCount = chunkCount, cs_label = m_label row, cs_createdAt = to_Date (m_created_at row)\<rparr>)"

section \<open>save\<close>

definition splitChunks :: "bytes \<Rightarrow> nat \<Rightarrow> bytes list" where
  "splitChunks data chunkSize = slices chunkSize 0 data"

text \<open>\<^verbatim>\<open>seenChunkHashes\<close>: the first chunk of every hash, in order.\<close>

fun dedupe_chunks :: "bytes list \<Rightarrow> (bytes \<times> bytes) list \<Rightarrow> (bytes \<times> bytes) list" where
  "dedupe_chunks seen [] = []"
| "dedupe_chunks seen ((h, c) # rest) =
     (if List.member seen h then dedupe_chunks seen rest
      else (h, c) # dedupe_chunks (h # seen) rest)"

text \<open>One row of the upsert: \<^verbatim>\<open>ON CONFLICT (hash) DO UPDATE SET created_at = now()\<close>.\<close>

definition upsert_chunk :: "pg_env \<Rightarrow> bytes \<times> bytes \<Rightarrow> unit dbrun" where
  "upsert_chunk env hc d =
     (case hc of (h, c) \<Rightarrow>
       (Inr (), d\<lparr>ckpt_chunks := AList.update h
          (case map_of (ckpt_chunks d) h of
             None \<Rightarrow> \<lparr>ch_data = c, ch_created_at = env_now env\<rparr>
           | Some r \<Rightarrow> r\<lparr>ch_created_at := env_now env\<rparr>) (ckpt_chunks d)\<rparr>))"

text \<open>
  The multi-row statement: two parameters per row, and the server refuses to touch one conflict
  target twice (SQLSTATE 21000).
\<close>

definition upsert_chunks :: "pg_env \<Rightarrow> (bytes \<times> bytes) list \<Rightarrow> unit dbrun" where
  "upsert_chunks env batch =
     bind_params (2 * length batch)
       (if distinct (map fst batch) then eforeach (upsert_chunk env) batch
        else ethrow (pg_error ''21000'' None))"

definition claim_sequence :: "jsstr \<Rightarrow> jsstr \<Rightarrow> int dbrun" where
  "claim_sequence w net d =
     (case map_of (ckpt_sequence_counters d) (w, net) of
        None \<Rightarrow> (Inr (2 - 1), d\<lparr>ckpt_sequence_counters := AList.update (w, net) 2 (ckpt_sequence_counters d)\<rparr>)
      | Some next_seq \<Rightarrow>
          (if next_seq = POSTGRES_BIGINT_MAX then (Inl (pg_error ''22003'' None), d)
           else (Inr (next_seq + 1 - 1),
                 d\<lparr>ckpt_sequence_counters := AList.update (w, net) (next_seq + 1) (ckpt_sequence_counters d)\<rparr>)))"

definition insert_manifest ::
  "pg_env \<Rightarrow> jsstr \<Rightarrow> jsstr \<Rightarrow> int \<Rightarrow> bytes \<Rightarrow> jsstr option \<Rightarrow> manifest_row dbrun" where
  "insert_manifest env w net seq hash label d =
     (case (case label of None \<Rightarrow> Inr None | Some l \<Rightarrow> map_sum id Some (bind_text l)) of
        Inl e \<Rightarrow> (Inl e, d)
      | Inr lab \<Rightarrow>
          (let m = \<lparr>m_id = ckpt_next_id d, m_w = w, m_net = net, m_seq = seq, m_complete = True,
                    m_manifest_hash = hash, m_label = lab, m_created_at = env_now env\<rparr>
           in (Inr m, d\<lparr>ckpt_manifests := ckpt_manifests d @ [m], ckpt_next_id := ckpt_next_id d + 1\<rparr>)))"

text \<open>
  Junction rows: \<^verbatim>\<open>position\<close> is a 32-bit integer, (manifest, position) is the primary key,
  both references are foreign keys. A failing statement inserts none of its rows.
\<close>

definition insert_junction_row :: "manifest_chunk_row \<Rightarrow> unit dbrun" where
  "insert_junction_row r d =
     (if 2 ^ 31 \<le> mc_position r then (Inl (pg_error ''22003'' None), d)
      else if list_ex (\<lambda>x. mc_manifest_id x = mc_manifest_id r \<and> mc_position x = mc_position r) (ckpt_manifest_chunks d)
      then (Inl (pg_error ''23505'' None), d)
      else if \<not> list_ex (\<lambda>m. m_id m = mc_manifest_id r) (ckpt_manifests d)
           \<or> map_of (ckpt_chunks d) (mc_chunk_hash r) = None
      then (Inl (pg_error ''23503'' None), d)
      else (Inr (), d\<lparr>ckpt_manifest_chunks := ckpt_manifest_chunks d @ [r]\<rparr>))"

definition insert_junctions :: "manifest_chunk_row list \<Rightarrow> unit dbrun" where
  "insert_junctions batch = bind_params (3 * length batch) (eforeach insert_junction_row batch)"

definition junction_rows :: "int \<Rightarrow> bytes list \<Rightarrow> manifest_chunk_row list" where
  "junction_rows mid hashes =
     map (\<lambda>i. \<lparr>mc_manifest_id = mid, mc_position = i, mc_chunk_hash = hashes ! i\<rparr>) [0..<length hashes]"

text \<open>The write path on a given connection; statements are numbered in the order they are issued.\<close>

definition runOnTx ::
  "(bytes \<Rightarrow> bytes) \<Rightarrow> pg_env \<Rightarrow> jsstr \<Rightarrow> jsstr \<Rightarrow> bytes \<Rightarrow> save_opts \<Rightarrow> checkpoint_summary dbrun" where
  "runOnTx sha env w net data opts =
     (let chunkSize = (case so_chunkSize opts of None \<Rightarrow> DEFAULT_CHUNK_SIZE | Some n \<Rightarrow> nat \<lfloor>n\<rfloor>);
          chunks = splitChunks data chunkSize;
          chunkHashes = map sha chunks;
          manifestHash = sha (concat chunkHashes);
          chunkRows = dedupe_chunks [] (zip chunkHashes chunks);
          cb = slices CHUNK_INSERT_MAX_ROWS 0 chunkRows
      in ebind (stmts env 0 (upsert_chunks env) cb) (\<lambda>_.
         ebind (stmt env (length cb) (claim_sequence w net)) (\<lambda>seq.
         ebind (stmt env (length cb + 1) (insert_manifest env w net seq manifestHash (so_label opts))) (\<lambda>manifest.
         ebind (stmts env (length cb + 2) insert_junctions
                  (slices JUNCTION_INSERT_MAX_ROWS 0 (junction_rows (m_id manifest) chunkHashes))) (\<lambda>_.
           elift (toSummary manifest (int (length data)) (int (length chunks))))))))"

definition saveImpl ::
  "(bytes \<Rightarrow> bytes) \<Rightarrow> pg_env \<Rightarrow> tx_faults \<Rightarrow> jsstr \<Rightarrow> jsstr \<Rightarrow> bytes \<Rightarrow> save_opts \<Rightarrow> checkpoint_summary run" where
  "saveImpl sha env fl w net data opts =
     (case so_tx opts of
        Some h \<Rightarrow>
          ebind (resolveTransaction h) (\<lambda>_.
            emap_error (\<lambda>err. translatePostgresError err None) (on_db (runOnTx sha env w net data opts)))
      | None \<Rightarrow>
          emap_error (\<lambda>err. translatePostgresError err None)
            (withTransaction (\<lambda>tx. ebind (resolveTransaction tx) (\<lambda>_. on_db (runOnTx sha env w net data opts)))
               no_tx_options fl))"

definition save ::
  "(bytes \<Rightarrow> bytes) \<Rightarrow> pg_env \<Rightarrow> tx_faults \<Rightarrow> jsstr \<Rightarrow> jsstr \<Rightarrow> bytes \<Rightarrow> save_opts \<Rightarrow> checkpoint_summary run" where
  "save sha env fl w net data opts =
     ebind (elift (assertValidCheckpointIds w net)) (\<lambda>_.
     ebind (elift (validateSaveOptions opts)) (\<lambda>validated.
       withAbort (saveImpl sha env fl w net data validated) (so_signal validated)))"

section \<open>load\<close>

text \<open>\<^verbatim>\<open>... AND complete AND (sequence IS NULL OR seq = sequence) ORDER BY seq DESC LIMIT 1\<close>\<close>

definition complete_manifests :: "jsstr \<Rightarrow> jsstr \<Rightarrow> db \<Rightarrow> manifest_row list" where
  "complete_manifests w net d = filter (\<lambda>m. m_w m = w \<and> m_net m = net \<and> m_complete m) (ckpt_manifests d)"

definition by_seq_desc :: "manifest_row list \<Rightarrow> manifest_row list" where
  "by_seq_desc ms = sort_key (\<lambda>m. - m_seq m) ms"

definition select_manifest :: "jsstr \<Rightarrow> jsstr \<Rightarrow> int option \<Rightarrow> db \<Rightarrow> manifest_row option" where
  "select_manifest w net sequence d =
     limit1 (by_seq_desc (filter (\<lambda>m. sequence = None \<or> Some (m_seq m) = sequence) (complete_manifests w net d)))"

text \<open>The LEFT JOIN of the junction rows of one manifest with the chunks, by position.\<close>

definition junction_of :: "int \<Rightarrow> db \<Rightarrow> manifest_chunk_row list" where
  "junction_of mid d = filter (\<lambda>r. mc_manifest_id r = mid) (ckpt_manifest_chunks d)"

definition select_chunk_rows :: "int \<Rightarrow> db \<Rightarrow> (nat \<times> bytes \<times> bytes option) list" where
  "select_chunk_rows mid d =
     map (\<lambda>r. (mc_position r, mc_chunk_hash r, map_option ch_data (map_of (ckpt_chunks d) (mc_chunk_hash r))))
       (sort_key mc_position (junction_of mid d))"

text \<open>The verification loop: dense positions, present chunks, matching hashes.\<close>

fun verify_chunks ::
  "(bytes \<Rightarrow> bytes) \<Rightarrow> bytes \<Rightarrow> nat \<Rightarrow> (nat \<times> bytes \<times> bytes option) list \<Rightarrow> js_error + bytes list \<times> bytes list" where
  "verify_chunks sha mh i [] = Inr ([], [])"
| "verify_chunks sha mh i ((position, chunk_hash, data) # rows) =
     (if position \<noteq> i then Inl (StorageErr (ManifestCorruptError mh ''position gap''))
      else case data of
        None \<Rightarrow> Inl (StorageErr (ChunkMissingError chunk_hash))
      | Some c \<Rightarrow>
          (if sha c \<noteq> chunk_hash then Inl (StorageErr (ChunkIntegrityError (sha c) chunk_hash))
           else case verify_chunks sha mh (Suc i) rows of
             Inl e \<Rightarrow> Inl e
           | Inr (parts, hashes) \<Rightarrow> Inr (c # parts, chunk_hash # hashes)))"

definition verify_manifest ::
  "(bytes \<Rightarrow> bytes) \<Rightarrow> manifest_row \<Rightarrow> (nat \<times> bytes \<times> bytes option) list \<Rightarrow> js_error + checkpoint_record" where
  "verify_manifest sha manifest rows =
     (case verify_chunks sha (m_manifest_hash manifest) 0 rows of
        Inl e \<Rightarrow> Inl e
      | Inr (parts, hashes) \<Rightarrow>
          (if sha (concat hashes) \<noteq> m_manifest_hash manifest
           then Inl (StorageErr (ManifestCorruptError (m_manifest_hash manifest) ''manifest hash''))
           else case toSummary manifest (int (length (concat parts))) (int (length rows)) of
             Inl e \<Rightarrow> Inl e
           | Inr s \<Rightarrow> Inr (checkpoint_summary.extend s (checkpoint_record.fields (concat parts)))))"

definition loadOnTx ::
  "(bytes \<Rightarrow> bytes) \<Rightarrow> pg_env \<Rightarrow> jsstr \<Rightarrow> jsstr \<Rightarrow> int option \<Rightarrow> checkpoint_record dbrun" where
  "loadOnTx sha env w net sequence =
     ebind (stmt env 0 (\<lambda>d. (Inr (select_manifest w net sequence d), d))) (\<lambda>m.
       case m of
         None \<Rightarrow> ethrow (StorageErr (CheckpointNotFoundError w net sequence))
       | Some manifest \<Rightarrow>
           ebind (stmt env 1 (\<lambda>d. (Inr (select_chunk_rows (m_id manifest) d), d))) (\<lambda>rows.
             elift (verify_manifest sha manifest rows)))"

definition load ::
  "(bytes \<Rightarrow> bytes) \<Rightarrow> pg_env \<Rightarrow> tx_faults \<Rightarrow> jsstr \<Rightarrow> jsstr \<Rightarrow> int option \<Rightarrow> signal \<Rightarrow> checkpoint_record run" where
  "load sha env fl w net sequence signal =
     ebind (elift (assertValidCheckpointIds w net)) (\<lambda>_.
       withAbort
         (emap_error (\<lambda>err. translatePostgresError err None)
           (withTransaction (\<lambda>tx. ebind (resolveTransaction tx) (\<lambda>_. on_db (loadOnTx sha env w net sequence)))
              repeatable_read fl))
         signal)"

section \<open>history\<close>

text \<open>The grouped aggregate over the inner join: the sizes of the present chunks of one manifest.\<close>

definition joined_sizes :: "int \<Rightarrow> db \<Rightarrow> int list" where
  "joined_sizes mid d =
     concat (map (\<lambda>r. case map_of (ckpt_chunks d) (mc_chunk_hash r) of None \<Rightarrow> [] | Some c \<Rightarrow> [size_bytes c])
       (junction_of mid d))"

definition aggById :: "int list \<Rightarrow> db \<Rightarrow> int \<Rightarrow> (int \<times> int) option" where
  "aggById ids d mid =
     (if \<not> List.member ids mid \<or> joined_sizes mid d = [] then None
      else Some (int (length (joined_sizes mid d)), sum_list (joined_sizes mid d)))"

definition summary_of :: "manifest_row \<Rightarrow> (int \<times> int) option \<Rightarrow> js_error + checkpoint_summary" where
  "summary_of manifest agg =
     (let (chunk_count, byte_length) = (case agg of None \<Rightarrow> (0, 0) | Some a \<Rightarrow> a) in
      case coerceToSafeNumber byte_length of
        Inl e \<Rightarrow> Inl e
      | Inr b \<Rightarrow> (case coerceToSafeNumber chunk_count of Inl e \<Rightarrow> Inl e | Inr c \<Rightarrow> toSummary manifest b c))"

definition historyOnTx :: "pg_env \<Rightarrow> jsstr \<Rightarrow> jsstr \<Rightarrow> nat \<Rightarrow> int option \<Rightarrow> checkpoint_summary list dbrun" where
  "historyOnTx env w net limit before =
     ebind (stmt env 0 (\<lambda>d. (Inr (take limit (by_seq_desc
              (filter (\<lambda>m. case before of None \<Rightarrow> True | Some b \<Rightarrow> m_seq m < b) (complete_manifests w net d)))), d)))
       (\<lambda>manifests.
       ebind (if manifests = [] then eret (\<lambda>_. None)
              else stmt env 1 (\<lambda>d. (Inr (aggById (map m_id manifests) d), d)))
         (\<lambda>agg. elift (map_throw (\<lambda>m. summary_of m (agg (m_id m))) manifests)))"

definition history ::
  "pg_env \<Rightarrow> tx_faults \<Rightarrow> jsstr \<Rightarrow> jsstr \<Rightarrow> history_opts \<Rightarrow> checkpoint_summary list run" where
  "history env fl w net opts =
     ebind (elift (assertValidCheckpointIds w net)) (\<lambda>_.
     ebind (elift (validateHistoryOptions opts)) (\<lambda>(limit, before).
       withAbort
         (emap_error (\<lambda>err. translatePostgresError err None)
           (withTransaction (\<lambda>tx. ebind (resolveTransaction tx) (\<lambda>_. on_db (historyOnTx env w net limit before)))
              repeatable_read fl))
         (ho_signal opts)))"

section \<open>prune\<close>

text \<open>Fifteen minutes, in microseconds.\<close>

definition GRACE_WINDOW :: int where
  "GRACE_WINDOW = 15 * 60 * 1000000"

text \<open>
  Step 1: \<^verbatim>\<open>... m.seq < (SELECT seq ... ORDER BY seq DESC OFFSET retainCount - 1 LIMIT 1)\<close>; with
  fewer rows the subquery is NULL and nothing is deleted. The junction rows go with their manifest.
\<close>

definition prune_threshold :: "jsstr \<Rightarrow> jsstr \<Rightarrow> nat \<Rightarrow> db \<Rightarrow> int option" where
  "prune_threshold w net retainCount d =
     limit1 (drop (retainCount - 1) (map m_seq (by_seq_desc (complete_manifests w net d))))"

definition superseded :: "jsstr \<Rightarrow> jsstr \<Rightarrow> nat \<Rightarrow> db \<Rightarrow> manifest_row \<Rightarrow> bool" where
  "superseded w net retainCount d m \<longleftrightarrow>
     m_w m = w \<and> m_net m = net \<and> m_complete m
     \<and> (case prune_threshold w net retainCount d of None \<Rightarrow> False | Some t \<Rightarrow> m_seq m < t)"

definition delete_manifests :: "jsstr \<Rightarrow> jsstr \<Rightarrow> nat \<Rightarrow> int list dbrun" where
  "delete_manifests w net retainCount d =
     (let gone = filter (superseded w net retainCount d) (ckpt_manifests d); ids = map m_id gone in
      (Inr (map m_seq gone),
       d\<lparr>ckpt_manifests := filter (\<lambda>m. \<not> superseded w net retainCount d m) (ckpt_manifests d),
         ckpt_manifest_chunks := filter (\<lambda>r. \<not> List.member ids (mc_manifest_id r)) (ckpt_manifest_chunks d)\<rparr>))"

text \<open>Step 2: chunks past the grace window that no junction row references.\<close>

definition reclaimable :: "pg_env \<Rightarrow> db \<Rightarrow> bytes \<times> chunk_row \<Rightarrow> bool" where
  "reclaimable env d hc \<longleftrightarrow>
     ch_created_at (snd hc) < env_now env - GRACE_WINDOW
     \<and> \<not> list_ex (\<lambda>r. mc_chunk_hash r = fst hc) (ckpt_manifest_chunks d)"

definition delete_chunks :: "pg_env \<Rightarrow> int list dbrun" where
  "delete_chunks env d =
     (Inr (map (\<lambda>hc. int (length (ch_data (snd hc)))) (filter (reclaimable env d) (ckpt_chunks d))),
      d\<lparr>ckpt_chunks := filter (\<lambda>hc. \<not> reclaimable env d hc) (ckpt_chunks d)\<rparr>)"

definition pruneOnTx :: "pg_env \<Rightarrow> jsstr \<Rightarrow> jsstr \<Rightarrow> nat \<Rightarrow> prune_result dbrun" where
  "pruneOnTx env w net retainCount =
     ebind (stmt env 0 (delete_manifests w net retainCount)) (\<lambda>prunedRows.
     ebind (stmt env 1 (delete_chunks env)) (\<lambda>reclaimedRows.
     ebind (elift (map_throw coerceToSafeNumber prunedRows)) (\<lambda>seqs.
       eret \<lparr>pr_prunedSequences = seqs, pr_reclaimedChunks = length reclaimedRows,
             pr_reclaimedBytes = sum_list reclaimedRows\<rparr>)))"

definition prune ::
  "pg_env \<Rightarrow> tx_faults \<Rightarrow> jsstr \<Rightarrow> jsstr \<Rightarrow> rat \<Rightarrow> signal \<Rightarrow> prune_result run" where
  "prune env fl w net retainCount signal =
     ebind (elift (assertValidCheckpointIds w net)) (\<lambda>_.
     ebind (if \<not> (retainCount \<in> \<int> \<and> \<bar>retainCount\<bar> \<le> of_int MAX_SAFE_INTEGER) \<or> retainCount < 1
            then ethrow (validation_error ''prune retainCount must be a safe integer >= 1'')
            else eret ()) (\<lambda>_.
       withAbort
         (emap_error (\<lambda>err. translatePostgresError err None)
           (withTransaction (\<lambda>tx. ebind (resolveTransaction tx) (\<lambda>_. on_db (pruneOnTx env w net (nat \<lfloor>retainCount\<rfloor>))))
              no_tx_options fl))
         signal))"

section \<open>Well-formed stores and what they mean\<close>

definition chunks_ok :: "(bytes \<Rightarrow> bytes) \<Rightarrow> (bytes \<times> chunk_row) list \<Rightarrow> bool" where
  "chunks_ok sha cs \<longleftrightarrow> distinct (map fst cs) \<and> (\<forall>(h, r) \<in> set cs. sha (ch_data r) = h)"

definition manifest_ok :: "(bytes \<Rightarrow> bytes) \<Rightarrow> db \<Rightarrow> manifest_row \<Rightarrow> bool" where
  "manifest_ok sha d m \<longleftrightarrow>
     m_complete m \<and> m_id m < ckpt_next_id d
     \<and> map mc_position (junction_of (m_id m) d) = [0..<length (junction_of (m_id m) d)]
     \<and> m_manifest_hash m = sha (concat (map mc_chunk_hash (junction_of (m_id m) d)))"

definition seqs_ok :: "db \<Rightarrow> bool" where
  "seqs_ok d \<longleftrightarrow>
     (\<forall>w net. sorted_wrt (<) (map m_seq (complete_manifests w net d)))
   \<and> (\<forall>w net n. map_of (ckpt_sequence_counters d) (w, net) = Some n \<longrightarrow> 2 \<le> n)
   \<and> (\<forall>m \<in> set (ckpt_manifests d). 1 \<le> m_seq m \<and>
        (\<exists>n. map_of (ckpt_sequence_counters d) (m_w m, m_net m) = Some n \<and> m_seq m < n))"

definition refs_ok :: "db \<Rightarrow> bool" where
  "refs_ok d \<longleftrightarrow>
     (\<forall>r \<in> set (ckpt_manifest_chunks d).
        mc_manifest_id r \<in> m_id ` set (ckpt_manifests d) \<and> map_of (ckpt_chunks d) (mc_chunk_hash r) \<noteq> None)"

definition ckpt_inv :: "(bytes \<Rightarrow> bytes) \<Rightarrow> db \<Rightarrow> bool" where
  "ckpt_inv sha d \<longleftrightarrow>
     chunks_ok sha (ckpt_chunks d) \<and> distinct (map m_id (ckpt_manifests d))
   \<and> (\<forall>m \<in> set (ckpt_manifests d). manifest_ok sha d m) \<and> seqs_ok d \<and> refs_ok d"

text \<open>The abstract store: per wallet and network the list of checkpoints, oldest first.\<close>

record ckpt =
  k_seq :: int
  k_data :: bytes
  k_label :: "jsstr option"
  k_createdAt :: int
  k_chunkCount :: nat
  k_hash :: bytes

definition chunk_data :: "db \<Rightarrow> bytes \<Rightarrow> bytes" where
  "chunk_data d h = (case map_of (ckpt_chunks d) h of None \<Rightarrow> [] | Some r \<Rightarrow> ch_data r)"

definition payload :: "db \<Rightarrow> int \<Rightarrow> bytes" where
  "payload d mid = concat (map (\<lambda>r. chunk_data d (mc_chunk_hash r)) (junction_of mid d))"

definition abs_ckpt :: "db \<Rightarrow> manifest_row \<Rightarrow> ckpt" where
  "abs_ckpt d m = \<lparr>k_seq = m_seq m, k_data = payload d (m_id m), k_label = m_label m,
     k_createdAt = m_created_at m, k_chunkCount = length (junction_of (m_id m) d), k_hash = m_manifest_hash m\<rparr>"

definition ckpts :: "db \<Rightarrow> jsstr \<Rightarrow> jsstr \<Rightarrow> ckpt list" where
  "ckpts d w net = map (abs_ckpt d) (complete_manifests w net d)"

definition next_sequence :: "db \<Rightarrow> jsstr \<Rightarrow> jsstr \<Rightarrow> int" where
  "next_sequence d w net = (case map_of (ckpt_sequence_counters d) (w, net) of None \<Rightarrow> 1 | Some n \<Rightarrow> n)"

lemma ckpt_inv_empty [simp]: "ckpt_inv sha empty_db"
  by (simp add: ckpt_inv_def chunks_ok_def seqs_ok_def refs_ok_def complete_manifests_def)

lemma ckpts_empty [simp]: "ckpts empty_db w net = []"
  by (simp add: ckpts_def complete_manifests_def)

text \<open>No two of the given inputs hash alike.\<close>

definition collision_free :: "(bytes \<Rightarrow> bytes) \<Rightarrow> bytes set \<Rightarrow> bool" where
  "collision_free sha X \<longleftrightarrow> inj_on sha X"

definition stored_data :: "db \<Rightarrow> bytes set" where
  "stored_data d = (ch_data \<circ> snd) ` set (ckpt_chunks d)"

section \<open>save, statement by statement\<close>

lemma splitChunks_concat: "0 < n \<Longrightarrow> concat (splitChunks data n) = data"
  by (simp add: splitChunks_def concat_slices)

lemma dedupe_spec:
  "distinct (map fst (dedupe_chunks seen rows))
   \<and> set (dedupe_chunks seen rows) \<subseteq> set rows
   \<and> fst ` set (dedupe_chunks seen rows) = fst ` set rows - set seen"
proof (induction seen rows rule: dedupe_chunks.induct)
  case (1 seen)
  then show ?case by simp
next
  case (2 seen h c rest)
  then show ?case by (cases "h \<in> set seen") auto
qed

text \<open>The chunk table after the upserts.\<close>

definition chunk_step :: "int \<Rightarrow> bytes \<times> bytes \<Rightarrow> (bytes \<times> chunk_row) list \<Rightarrow> (bytes \<times> chunk_row) list" where
  "chunk_step now hc cs = AList.update (fst hc)
     (case map_of cs (fst hc) of
        None \<Rightarrow> \<lparr>ch_data = snd hc, ch_created_at = now\<rparr>
      | Some r \<Rightarrow> r\<lparr>ch_created_at := now\<rparr>) cs"

lemma eforeach_upsert:
  "eforeach (upsert_chunk env) rows d = (Inr (), d\<lparr>ckpt_chunks := fold (chunk_step (env_now env)) rows (ckpt_chunks d)\<rparr>)"
proof (induction rows arbitrary: d)
  case Nil
  then show ?case by simp
next
  case (Cons hc rows)
  obtain h c where hc: "hc = (h, c)" by (cases hc)
  have "upsert_chunk env hc d = (Inr (), d\<lparr>ckpt_chunks := chunk_step (env_now env) hc (ckpt_chunks d)\<rparr>)"
    by (cases "map_of (ckpt_chunks d) h") (simp_all add: hc upsert_chunk_def chunk_step_def)
  with Cons show ?case by (simp add: ebind_def)
qed

lemma eforeach_cong: "(\<And>x. x \<in> set xs \<Longrightarrow> f x = g x) \<Longrightarrow> eforeach f xs = eforeach g xs"
  by (induction xs) auto

lemma distinct_slices:
  assumes "0 < n" and "distinct (map f (drop i xs))" and "b \<in> set (slices n i xs)"
  shows "distinct (map f b)"
proof -
  from assms(1,2) have "distinct (map f (concat (slices n i xs)))" by (simp add: concat_slices)
  with assms(3) show ?thesis by (induction "slices n i xs") (auto simp: map_concat distinct_concat_iff)
qed

lemma upsert_batches:
  assumes "distinct (map fst rows)"
  shows "eforeach (upsert_chunks env) (slices CHUNK_INSERT_MAX_ROWS 0 rows) = eforeach (upsert_chunk env) rows"
proof -
  have "upsert_chunks env b = eforeach (upsert_chunk env) b" if "b \<in> set (slices CHUNK_INSERT_MAX_ROWS 0 rows)" for b
    using distinct_slices [of CHUNK_INSERT_MAX_ROWS fst 0 rows b] slices_bound [OF _ that] assms that
    by (simp add: upsert_chunks_def CHUNK_INSERT_MAX_ROWS_def)
  then have "eforeach (upsert_chunks env) (slices CHUNK_INSERT_MAX_ROWS 0 rows)
      = eforeach (eforeach (upsert_chunk env)) (slices CHUNK_INSERT_MAX_ROWS 0 rows)"
    by (rule eforeach_cong)
  also have "\<dots> = eforeach (upsert_chunk env) rows"
    using eforeach_batches [of CHUNK_INSERT_MAX_ROWS "upsert_chunk env" 0 rows] by (simp add: CHUNK_INSERT_MAX_ROWS_def)
  finally show ?thesis .
qed

lemma chunk_step_map:
  "map_option ch_data (map_of (chunk_step now hc cs) h)
     = (if h = fst hc \<and> map_of cs h = None then Some (snd hc) else map_option ch_data (map_of cs h))"
  by (auto simp: chunk_step_def split: option.splits)

lemma chunk_step_ok:
  assumes "chunks_ok sha cs" and "sha (snd hc) = fst hc"
  shows "chunks_ok sha (chunk_step now hc cs)"
proof -
  have d: "distinct (map fst (chunk_step now hc cs))"
    using assms(1) by (simp add: chunks_ok_def chunk_step_def)
  moreover have "sha (ch_data r) = h" if "(h, r) \<in> set (chunk_step now hc cs)" for h r
  proof -
    have "map_option ch_data (map_of (chunk_step now hc cs) h) = Some (ch_data r)"
      using that d by simp
    then have "ch_data r = snd hc \<and> h = fst hc \<or> (\<exists>r'. map_of cs h = Some r' \<and> ch_data r' = ch_data r)"
      by (auto simp: chunk_step_map split: if_splits)
    with assms show ?thesis by (fastforce simp: chunks_ok_def dest: map_of_SomeD)
  qed
  ultimately show ?thesis by (auto simp: chunks_ok_def)
qed

lemma fold_chunk_ok:
  "chunks_ok sha cs \<Longrightarrow> (\<And>hc. hc \<in> set rows \<Longrightarrow> sha (snd hc) = fst hc) \<Longrightarrow>
   chunks_ok sha (fold (chunk_step now) rows cs)"
  by (induction rows arbitrary: cs) (auto intro: chunk_step_ok)

text \<open>Present chunks keep their bytes; every upserted hash is present afterwards.\<close>

lemma fold_chunk_keeps:
  "map_of cs h = Some r \<Longrightarrow> map_option ch_data (map_of (fold (chunk_step now) rows cs) h) = Some (ch_data r)"
proof (induction rows arbitrary: cs r)
  case Nil
  then show ?case by simp
next
  case (Cons hc rows)
  have "map_option ch_data (map_of (chunk_step now hc cs) h) = Some (ch_data r)"
    using Cons.prems by (simp add: chunk_step_map)
  then obtain r' where "map_of (chunk_step now hc cs) h = Some r'" "ch_data r' = ch_data r" by auto
  with Cons.IH [OF this(1)] show ?case by simp
qed

lemma fold_chunk_present:
  "h \<in> fst ` set rows \<Longrightarrow> map_of (fold (chunk_step now) rows cs) h \<noteq> None"
proof (induction rows arbitrary: cs)
  case Nil
  then show ?case by simp
next
  case (Cons hc rows)
  show ?case
  proof (cases "h = fst hc")
    case True
    then obtain r where "map_of (chunk_step now hc cs) h = Some r" by (auto simp: chunk_step_def)
    from fold_chunk_keeps [OF this, of now rows] show ?thesis by auto
  next
    case False
    with Cons show ?thesis by simp
  qed
qed

lemma fold_chunk_none:
  "map_of (fold (chunk_step now) rows cs) h = None \<longleftrightarrow> map_of cs h = None \<and> h \<notin> fst ` set rows"
  by (induction rows arbitrary: cs) (auto simp: chunk_step_def)

lemma fold_chunk_stored:
  assumes "x \<in> (ch_data \<circ> snd) ` set (fold (chunk_step now) rows cs)" and "distinct (map fst cs)"
  shows "x \<in> (ch_data \<circ> snd) ` set cs \<union> snd ` set rows"
  using assms
proof (induction rows arbitrary: cs)
  case Nil
  then show ?case by simp
next
  case (Cons hc rows)
  have d: "distinct (map fst (chunk_step now hc cs))" using Cons.prems(2) by (simp add: chunk_step_def)
  have "x \<in> (ch_data \<circ> snd) ` set (chunk_step now hc cs) \<union> snd ` set rows"
    using Cons.IH [OF _ d] Cons.prems(1) by simp
  moreover have "y \<in> (ch_data \<circ> snd) ` set cs \<union> {snd hc}" if y: "y \<in> (ch_data \<circ> snd) ` set (chunk_step now hc cs)" for y
  proof -
    from y obtain h r where "(h, r) \<in> set (chunk_step now hc cs)" "y = ch_data r" by auto
    then have "map_option ch_data (map_of (chunk_step now hc cs) h) = Some y" using d by simp
    then consider "y = snd hc" | r' where "map_of cs h = Some r'" "ch_data r' = y"
      by (auto simp: chunk_step_map split: if_splits)
    then show ?thesis
    proof cases
      case 1
      then show ?thesis by simp
    next
      case 2
      from map_of_SomeD [OF 2(1)] 2(2) show ?thesis by force
    qed
  qed
  ultimately show ?case by auto
qed

lemma insert_junction_rows:
  assumes "\<And>r. r \<in> set rs \<Longrightarrow> mc_manifest_id r = mid \<and> mc_position r < 2 ^ 31 \<and> map_of (ckpt_chunks d) (mc_chunk_hash r) \<noteq> None"
    and "mid \<in> m_id ` set (ckpt_manifests d)" and "distinct (map mc_position rs)"
    and "\<And>x. x \<in> set (ckpt_manifest_chunks d) \<Longrightarrow> mc_manifest_id x = mid \<Longrightarrow> mc_position x \<notin> mc_position ` set rs"
  shows "eforeach insert_junction_row rs d = (Inr (), d\<lparr>ckpt_manifest_chunks := ckpt_manifest_chunks d @ rs\<rparr>)"
  using assms
proof (induction rs arbitrary: d)
  case Nil
  then show ?case by simp
next
  case (Cons r rs)
  let ?d = "d\<lparr>ckpt_manifest_chunks := ckpt_manifest_chunks d @ [r]\<rparr>"
  have "mc_position x \<noteq> mc_position r" if "x \<in> set (ckpt_manifest_chunks d)" "mc_manifest_id x = mid" for x
    using Cons.prems(4) [OF that] by auto
  moreover have "\<exists>m \<in> set (ckpt_manifests d). m_id m = mid" using Cons.prems(2) by auto
  ultimately have step: "insert_junction_row r d = (Inr (), ?d)"
    using Cons.prems(1) [of r] by (auto simp: insert_junction_row_def list_ex_iff)
  have "eforeach insert_junction_row rs ?d = (Inr (), ?d\<lparr>ckpt_manifest_chunks := ckpt_manifest_chunks ?d @ rs\<rparr>)"
  proof (rule Cons.IH)
    show "mc_position x \<notin> mc_position ` set rs"
      if "x \<in> set (ckpt_manifest_chunks ?d)" "mc_manifest_id x = mid" for x
      using that Cons.prems(3) Cons.prems(4) [of x] by auto
  qed (use Cons.prems in auto)
  with step show ?case by (simp add: ebind_def)
qed

lemma junction_batches:
  "eforeach insert_junctions (slices JUNCTION_INSERT_MAX_ROWS 0 rs) = eforeach insert_junction_row rs"
proof -
  have "insert_junctions b = eforeach insert_junction_row b" if "b \<in> set (slices JUNCTION_INSERT_MAX_ROWS 0 rs)" for b
    using slices_bound [OF _ that] by (simp add: insert_junctions_def JUNCTION_INSERT_MAX_ROWS_def)
  then have "eforeach insert_junctions (slices JUNCTION_INSERT_MAX_ROWS 0 rs)
      = eforeach (eforeach insert_junction_row) (slices JUNCTION_INSERT_MAX_ROWS 0 rs)"
    by (rule eforeach_cong)
  also have "\<dots> = eforeach insert_junction_row rs"
    using eforeach_batches [of JUNCTION_INSERT_MAX_ROWS insert_junction_row 0 rs] by (simp add: JUNCTION_INSERT_MAX_ROWS_def)
  finally show ?thesis .
qed

lemma junction_rows_simps [simp]:
  "length (junction_rows mid hs) = length hs"
  "map mc_position (junction_rows mid hs) = [0..<length hs]"
  "map mc_chunk_hash (junction_rows mid hs) = hs"
  "r \<in> set (junction_rows mid hs) \<Longrightarrow> mc_manifest_id r = mid"
  "r \<in> set (junction_rows mid hs) \<Longrightarrow> mc_position r < length hs"
  "r \<in> set (junction_rows mid hs) \<Longrightarrow> mc_chunk_hash r \<in> set hs"
  by (auto simp: junction_rows_def comp_def map_nth)

text \<open>The database after a successful save.\<close>

definition new_manifest :: "(bytes \<Rightarrow> bytes) \<Rightarrow> pg_env \<Rightarrow> jsstr \<Rightarrow> jsstr \<Rightarrow> bytes list \<Rightarrow> jsstr option \<Rightarrow> db \<Rightarrow> manifest_row" where
  "new_manifest sha env w net chunks label d =
     \<lparr>m_id = ckpt_next_id d, m_w = w, m_net = net, m_seq = next_sequence d w net, m_complete = True,
      m_manifest_hash = sha (concat (map sha chunks)), m_label = label, m_created_at = env_now env\<rparr>"

definition saved_db :: "(bytes \<Rightarrow> bytes) \<Rightarrow> pg_env \<Rightarrow> jsstr \<Rightarrow> jsstr \<Rightarrow> bytes list \<Rightarrow> jsstr option \<Rightarrow> db \<Rightarrow> db" where
  "saved_db sha env w net chunks label d =
     d\<lparr>ckpt_chunks := fold (chunk_step (env_now env)) (dedupe_chunks [] (zip (map sha chunks) chunks)) (ckpt_chunks d),
       ckpt_sequence_counters := AList.update (w, net) (next_sequence d w net + 1) (ckpt_sequence_counters d),
       ckpt_manifests := ckpt_manifests d @ [new_manifest sha env w net chunks label d],
       ckpt_next_id := ckpt_next_id d + 1,
       ckpt_manifest_chunks := ckpt_manifest_chunks d @ junction_rows (ckpt_next_id d) (map sha chunks)\<rparr>"

definition label_ok :: "jsstr option \<Rightarrow> bool" where
  "label_ok l \<longleftrightarrow> (case l of None \<Rightarrow> True | Some s \<Rightarrow> \<not> hasPostgresUnsafeText s)"

definition chunk_size :: "save_opts \<Rightarrow> nat" where
  "chunk_size opts = (case so_chunkSize opts of None \<Rightarrow> DEFAULT_CHUNK_SIZE | Some n \<Rightarrow> nat \<lfloor>n\<rfloor>)"

lemma chunk_size_pos: "SaveCheckpointOptionsSchema opts \<Longrightarrow> 0 < chunk_size opts"
  by (auto simp: SaveCheckpointOptionsSchema_def chunk_size_def DEFAULT_CHUNK_SIZE_def elim!: Ints_cases split: option.splits)

lemma dedupe_hashes:
  shows "fst ` set (dedupe_chunks [] (zip (map sha chunks) chunks)) = sha ` set chunks"
    and "hc \<in> set (dedupe_chunks [] (zip (map sha chunks) chunks)) \<Longrightarrow> sha (snd hc) = fst hc \<and> snd hc \<in> set chunks"
proof -
  have z: "set (zip (map sha chunks) chunks) = (\<lambda>c. (sha c, c)) ` set chunks" by (induction chunks) auto
  note d = dedupe_spec [of "[]" "zip (map sha chunks) chunks"]
  then show "fst ` set (dedupe_chunks [] (zip (map sha chunks) chunks)) = sha ` set chunks"
    by (simp add: z image_image)
  show "sha (snd hc) = fst hc \<and> snd hc \<in> set chunks" if "hc \<in> set (dedupe_chunks [] (zip (map sha chunks) chunks))"
    using d that z by auto
qed

lemma no_stale_junctions:
  assumes "ckpt_inv sha d" and "x \<in> set (ckpt_manifest_chunks d)"
  shows "mc_manifest_id x \<noteq> ckpt_next_id d"
  using assms by (fastforce simp: ckpt_inv_def refs_ok_def manifest_ok_def)

lemma claim_sequence_run:
  assumes "next_sequence d w net \<le> MAX_SAFE_INTEGER"
  shows "claim_sequence w net d
    = (Inr (next_sequence d w net),
       d\<lparr>ckpt_sequence_counters := AList.update (w, net) (next_sequence d w net + 1) (ckpt_sequence_counters d)\<rparr>)"
  using assms by (auto simp: claim_sequence_def next_sequence_def MAX_SAFE_INTEGER_def POSTGRES_BIGINT_MAX_def split: option.splits)

lemma next_sequence_pos: "ckpt_inv sha d \<Longrightarrow> 1 \<le> next_sequence d w net"
  by (force simp: ckpt_inv_def seqs_ok_def next_sequence_def split: option.splits)

lemma runOnTx_run:
  assumes inv: "ckpt_inv sha d" and faults: "env_faults env = (\<lambda>_. None)" and label: "label_ok (so_label opts)"
    and seq: "next_sequence d w net \<le> MAX_SAFE_INTEGER" and chunks: "chunks = splitChunks data (chunk_size opts)"
    and small: "length chunks \<le> 2 ^ 31"
  shows "runOnTx sha env w net data opts d =
     (Inr \<lparr>cs_sequence = next_sequence d w net, cs_manifestHash = sha (concat (map sha chunks)),
           cs_byteLength = int (length data), cs_chunkCount = int (length chunks), cs_label = so_label opts,
           cs_createdAt = to_Date (env_now env)\<rparr>,
      saved_db sha env w net chunks (so_label opts) d)"
proof -
  let ?rows = "dedupe_chunks [] (zip (map sha chunks) chunks)"
  let ?d1 = "d\<lparr>ckpt_chunks := fold (chunk_step (env_now env)) ?rows (ckpt_chunks d)\<rparr>"
  let ?d2 = "?d1\<lparr>ckpt_sequence_counters := AList.update (w, net) (next_sequence d w net + 1) (ckpt_sequence_counters d)\<rparr>"
  let ?m = "new_manifest sha env w net chunks (so_label opts) d"
  let ?d3 = "?d2\<lparr>ckpt_manifests := ckpt_manifests d @ [?m], ckpt_next_id := ckpt_next_id d + 1\<rparr>"
  let ?js = "junction_rows (ckpt_next_id d) (map sha chunks)"
  have s1: "eforeach (upsert_chunks env) (slices CHUNK_INSERT_MAX_ROWS 0 ?rows) d = (Inr (), ?d1)"
    using dedupe_spec [of "[]" "zip (map sha chunks) chunks"] by (simp add: upsert_batches eforeach_upsert)
  have s2: "claim_sequence w net ?d1 = (Inr (next_sequence d w net), ?d2)"
    using claim_sequence_run [of ?d1 w net] seq by (simp add: next_sequence_def)
  have s3: "insert_manifest env w net (next_sequence d w net) (sha (concat (map sha chunks))) (so_label opts) ?d2
      = (Inr ?m, ?d3)"
    using label by (auto simp: insert_manifest_def label_ok_def new_manifest_def Let_def split: option.splits)
  have s4: "eforeach insert_junctions (slices JUNCTION_INSERT_MAX_ROWS 0 ?js) ?d3
      = (Inr (), ?d3\<lparr>ckpt_manifest_chunks := ckpt_manifest_chunks ?d3 @ ?js\<rparr>)"
    unfolding junction_batches
  proof (rule insert_junction_rows)
    show "mc_manifest_id r = ckpt_next_id d \<and> mc_position r < 2 ^ 31 \<and> map_of (ckpt_chunks ?d3) (mc_chunk_hash r) \<noteq> None"
      if "r \<in> set ?js" for r
      using that small junction_rows_simps(5,6) [OF that] fold_chunk_present [of "mc_chunk_hash r" ?rows] dedupe_hashes(1)
      by auto
    show "mc_position x \<notin> mc_position ` set ?js"
      if "x \<in> set (ckpt_manifest_chunks ?d3)" "mc_manifest_id x = ckpt_next_id d" for x
      using that no_stale_junctions [OF inv] by auto
  qed (auto simp: new_manifest_def)
  have final: "?d3\<lparr>ckpt_manifest_chunks := ckpt_manifest_chunks ?d3 @ ?js\<rparr> = saved_db sha env w net chunks (so_label opts) d"
    by (simp add: saved_db_def)
  have sum: "toSummary ?m (int (length data)) (int (length chunks)) = Inr \<lparr>cs_sequence = next_sequence d w net,
      cs_manifestHash = sha (concat (map sha chunks)), cs_byteLength = int (length data),
      cs_chunkCount = int (length chunks), cs_label = so_label opts, cs_createdAt = to_Date (env_now env)\<rparr>"
    using seq next_sequence_pos [OF inv, of w net]
    by (simp add: toSummary_def coerceToSafeNumber_def new_manifest_def MAX_SAFE_INTEGER_def)
  have mid: "m_id ?m = ckpt_next_id d" by (simp add: new_manifest_def)
  show ?thesis
    unfolding runOnTx_def Let_def chunk_size_def [symmetric] chunks [symmetric]
    using s1 s2 s3 s4 final sum mid faults by (simp add: stmts_ok ebind_def)
qed

subsection \<open>The store after a save\<close>

lemma junction_of_saved:
  assumes "ckpt_inv sha d"
  shows "junction_of mid (saved_db sha env w net chunks label d)
     = (if mid = ckpt_next_id d then junction_rows (ckpt_next_id d) (map sha chunks) else junction_of mid d)"
proof -
  have "filter (\<lambda>r. mc_manifest_id r = mid) (junction_rows (ckpt_next_id d) (map sha chunks))
      = (if mid = ckpt_next_id d then junction_rows (ckpt_next_id d) (map sha chunks) else [])"
    by (auto simp: filter_empty_conv filter_id_conv)
  moreover have "junction_of (ckpt_next_id d) d = []"
    using no_stale_junctions [OF assms] by (auto simp: junction_of_def filter_empty_conv)
  ultimately show ?thesis by (simp add: junction_of_def saved_db_def)
qed

lemma chunk_data_saved:
  assumes "map_of (ckpt_chunks d) h \<noteq> None"
  shows "chunk_data (saved_db sha env w net chunks label d) h = chunk_data d h"
proof -
  from assms obtain r where r: "map_of (ckpt_chunks d) h = Some r" by blast
  from fold_chunk_keeps [OF r, of "env_now env" "dedupe_chunks [] (zip (map sha chunks) chunks)"]
  show ?thesis by (auto simp: chunk_data_def saved_db_def r split: option.splits)
qed

lemma chunk_data_new:
  assumes inv: "ckpt_inv sha d" and free: "collision_free sha (stored_data d \<union> set chunks)" and c: "c \<in> set chunks"
  shows "chunk_data (saved_db sha env w net chunks label d) (sha c) = c"
proof -
  let ?rows = "dedupe_chunks [] (zip (map sha chunks) chunks)"
  let ?cs = "fold (chunk_step (env_now env)) ?rows (ckpt_chunks d)"
  have "map_of ?cs (sha c) \<noteq> None" using c dedupe_hashes(1) [of sha chunks] by (intro fold_chunk_present) auto
  then obtain r where r: "map_of ?cs (sha c) = Some r" by blast
  have ok: "chunks_ok sha (ckpt_chunks d)" using inv by (simp add: ckpt_inv_def)
  have "chunks_ok sha ?cs" by (rule fold_chunk_ok [OF ok]) (use dedupe_hashes(2) in blast)
  with map_of_SomeD [OF r] have "sha (ch_data r) = sha c" by (auto simp: chunks_ok_def)
  moreover have "ch_data r \<in> stored_data d \<union> set chunks"
  proof -
    have "ch_data r \<in> (ch_data \<circ> snd) ` set ?cs" using map_of_SomeD [OF r] by force
    from fold_chunk_stored [OF this] ok dedupe_hashes(2) [of _ sha chunks]
    show ?thesis by (auto simp: chunks_ok_def stored_data_def)
  qed
  ultimately have "ch_data r = c" using free c by (auto simp: collision_free_def dest: inj_onD)
  with r show ?thesis by (simp add: chunk_data_def saved_db_def)
qed

lemma payload_saved:
  assumes "ckpt_inv sha d" and "mid \<noteq> ckpt_next_id d"
  shows "payload (saved_db sha env w net chunks label d) mid = payload d mid"
proof -
  have "chunk_data (saved_db sha env w net chunks label d) (mc_chunk_hash r) = chunk_data d (mc_chunk_hash r)"
    if "r \<in> set (junction_of mid d)" for r
    using assms(1) that by (intro chunk_data_saved) (auto simp: ckpt_inv_def refs_ok_def junction_of_def)
  with assms show ?thesis by (simp add: payload_def junction_of_saved cong: map_cong)
qed

lemma complete_manifests_saved:
  "complete_manifests w' net' (saved_db sha env w net chunks label d)
     = complete_manifests w' net' d @ (if w' = w \<and> net' = net then [new_manifest sha env w net chunks label d] else [])"
  by (simp add: complete_manifests_def saved_db_def new_manifest_def)

lemma ckpts_saved:
  assumes inv: "ckpt_inv sha d" and free: "collision_free sha (stored_data d \<union> set chunks)"
  shows "ckpts (saved_db sha env w net chunks label d) w' net' =
     (if w' = w \<and> net' = net
      then ckpts d w net @ [\<lparr>k_seq = next_sequence d w net, k_data = concat chunks, k_label = label,
             k_createdAt = env_now env, k_chunkCount = length chunks, k_hash = sha (concat (map sha chunks))\<rparr>]
      else ckpts d w' net')"
proof -
  let ?d = "saved_db sha env w net chunks label d"
  have old: "abs_ckpt ?d m = abs_ckpt d m" if "m \<in> set (complete_manifests w' net' d)" for m
  proof -
    have "m_id m < ckpt_next_id d" using inv that by (auto simp: ckpt_inv_def manifest_ok_def complete_manifests_def)
    then show ?thesis using inv by (simp add: abs_ckpt_def payload_saved junction_of_saved)
  qed
  have "payload ?d (ckpt_next_id d) = concat (map (chunk_data ?d) (map mc_chunk_hash (junction_rows (ckpt_next_id d) (map sha chunks))))"
    using inv by (simp only: payload_def junction_of_saved refl if_True map_map comp_def)
  also have "\<dots> = concat chunks"
    using chunk_data_new [OF inv free] by (simp add: comp_def cong: map_cong)
  finally show ?thesis
    using old inv by (simp add: ckpts_def complete_manifests_saved abs_ckpt_def junction_of_saved new_manifest_def)
qed

lemma saved_db_simps [simp]:
  "ckpt_manifests (saved_db sha env w net chunks label d) = ckpt_manifests d @ [new_manifest sha env w net chunks label d]"
  "ckpt_next_id (saved_db sha env w net chunks label d) = ckpt_next_id d + 1"
  "ckpt_sequence_counters (saved_db sha env w net chunks label d)
     = AList.update (w, net) (next_sequence d w net + 1) (ckpt_sequence_counters d)"
  by (simp_all add: saved_db_def)

lemma seqs_ok_saved:
  assumes inv: "ckpt_inv sha d"
  shows "seqs_ok (saved_db sha env w net chunks label d)"
proof -
  let ?d = "saved_db sha env w net chunks label d"
  have s: "seqs_ok d" using inv by (simp add: ckpt_inv_def)
  have below: "m_seq m < next_sequence d w net" if "m \<in> set (complete_manifests w net d)" for m
    using s that by (force simp: seqs_ok_def complete_manifests_def next_sequence_def)
  have "sorted_wrt (<) (map m_seq (complete_manifests w' net' ?d))" for w' net'
    using s below by (auto simp: complete_manifests_saved sorted_wrt_append seqs_ok_def new_manifest_def)
  moreover have "1 \<le> m_seq m \<and> (\<exists>n. map_of (ckpt_sequence_counters ?d) (m_w m, m_net m) = Some n \<and> m_seq m < n)"
    if "m \<in> set (ckpt_manifests ?d)" for m
  proof (cases "m \<in> set (ckpt_manifests d)")
    case True
    then obtain n where n: "1 \<le> m_seq m" "map_of (ckpt_sequence_counters d) (m_w m, m_net m) = Some n" "m_seq m < n"
      using s by (auto simp: seqs_ok_def)
    then show ?thesis by (cases "(m_w m, m_net m) = (w, net)") (auto simp: next_sequence_def)
  next
    case False
    with that have "m = new_manifest sha env w net chunks label d" by simp
    then show ?thesis using next_sequence_pos [OF inv, of w net] by (simp add: new_manifest_def)
  qed
  moreover have "2 \<le> n" if "map_of (ckpt_sequence_counters ?d) (w', net') = Some n" for w' net' n
    using that s next_sequence_pos [OF inv, of w net] by (auto simp: seqs_ok_def split: if_splits)
  ultimately show ?thesis unfolding seqs_ok_def by blast
qed

lemma refs_ok_saved:
  assumes inv: "ckpt_inv sha d"
  shows "refs_ok (saved_db sha env w net chunks label d)"
proof -
  let ?d = "saved_db sha env w net chunks label d"
  have "mc_manifest_id r \<in> m_id ` set (ckpt_manifests ?d) \<and> map_of (ckpt_chunks ?d) (mc_chunk_hash r) \<noteq> None"
    if r: "r \<in> set (ckpt_manifest_chunks ?d)" for r
  proof (cases "r \<in> set (ckpt_manifest_chunks d)")
    case True
    with inv show ?thesis
      by (auto simp: ckpt_inv_def refs_ok_def saved_db_def fold_chunk_none)
  next
    case False
    with r have j: "r \<in> set (junction_rows (ckpt_next_id d) (map sha chunks))" by (simp add: saved_db_def)
    from junction_rows_simps(6) [OF j] have "mc_chunk_hash r \<in> sha ` set chunks" by simp
    with dedupe_hashes(1) [of sha chunks] junction_rows_simps(4) [OF j] show ?thesis
      by (simp add: saved_db_def new_manifest_def fold_chunk_none)
  qed
  then show ?thesis by (simp add: refs_ok_def)
qed

lemma ckpt_inv_saved:
  assumes inv: "ckpt_inv sha d"
  shows "ckpt_inv sha (saved_db sha env w net chunks label d)"
proof -
  let ?d = "saved_db sha env w net chunks label d"
  have ids: "m_id m < ckpt_next_id d" if "m \<in> set (ckpt_manifests d)" for m
    using inv that by (auto simp: ckpt_inv_def manifest_ok_def)
  have ok: "chunks_ok sha (ckpt_chunks d)" using inv by (simp add: ckpt_inv_def)
  have "chunks_ok sha (fold (chunk_step (env_now env)) (dedupe_chunks [] (zip (map sha chunks) chunks)) (ckpt_chunks d))"
    by (rule fold_chunk_ok [OF ok]) (use dedupe_hashes(2) in blast)
  then have "chunks_ok sha (ckpt_chunks ?d)" by (simp add: saved_db_def)
  moreover have "distinct (map m_id (ckpt_manifests ?d))"
    using inv ids by (fastforce simp: ckpt_inv_def new_manifest_def)
  moreover have "manifest_ok sha ?d m" if "m \<in> set (ckpt_manifests ?d)" for m
  proof (cases "m \<in> set (ckpt_manifests d)")
    case True
    with inv ids [OF True] show ?thesis
      by (auto simp: manifest_ok_def junction_of_saved [OF inv] ckpt_inv_def)
  next
    case False
    with that show ?thesis
      by (simp add: manifest_ok_def new_manifest_def junction_of_saved [OF inv])
  qed
  ultimately show ?thesis
    using seqs_ok_saved [OF inv] refs_ok_saved [OF inv] unfolding ckpt_inv_def by blast
qed

section \<open>load\<close>

text \<open>What verification accepts, on any rows at all.\<close>

lemma verify_chunks_Inr:
  assumes "verify_chunks sha mh i rows = Inr (parts, hashes)"
  shows "map fst rows = [i..<i + length rows] \<and> map (\<lambda>(_, h, _). h) rows = hashes
     \<and> map (\<lambda>(_, _, c). c) rows = map Some parts \<and> map sha parts = hashes"
  using assms
proof (induction sha mh i rows arbitrary: parts hashes rule: verify_chunks.induct)
  case (1 sha mh i)
  then show ?case by simp
next
  case (2 sha mh i position chunk_hash data rows)
  then obtain c ps hs where *: "position = i" "data = Some c" "sha c = chunk_hash"
    "verify_chunks sha mh (Suc i) rows = Inr (ps, hs)" "parts = c # ps" "hashes = chunk_hash # hs"
    by (auto split: if_splits option.splits sum.splits)
  then have "map fst rows = [Suc i..<Suc i + length rows] \<and> map (\<lambda>(_, h, _). h) rows = hs
     \<and> map (\<lambda>(_, _, c). c) rows = map Some ps \<and> map sha ps = hs"
    using 2 by simp
  moreover have "[i..<i + length ((position, chunk_hash, data) # rows)] = i # [Suc i..<Suc i + length rows]"
    by (simp add: upt_conv_Cons del: upt_Suc)
  ultimately show ?case using * by simp
qed

lemma verify_chunks_complete:
  "verify_chunks sha mh i (map (\<lambda>j. (i + j, sha (cs ! j), Some (cs ! j))) [0..<length cs]) = Inr (cs, map sha cs)"
proof (induction cs arbitrary: i)
  case Nil
  then show ?case by simp
next
  case (Cons c cs)
  have "map (\<lambda>j. (i + j, sha ((c # cs) ! j), Some ((c # cs) ! j))) [0..<length (c # cs)]
     = (i, sha c, Some c) # map (\<lambda>j. (Suc i + j, sha (cs ! j), Some (cs ! j))) [0..<length cs]"
    by (simp add: upt_conv_Cons map_Suc_upt [symmetric] comp_def del: upt_Suc)
  with Cons [of "Suc i"] show ?case by (simp del: upt_Suc)
qed

lemma by_seq_desc_rev:
  assumes "sorted_wrt (<) (map m_seq ms)"
  shows "by_seq_desc ms = rev ms"
  unfolding by_seq_desc_def
proof (rule sort_key_inj_key_eq)
  show "inj_on (\<lambda>m. - m_seq m) (set ms)"
    using assms by (simp add: strict_sorted_iff distinct_map inj_on_def)
  have "sorted_wrt (\<lambda>a b. - m_seq b \<le> - m_seq a) ms"
    using assms by (auto simp: sorted_wrt_map elim: sorted_wrt_mono_rel [rotated])
  then show "sorted (map (\<lambda>m. - m_seq m) (rev ms))"
    by (simp add: sorted_wrt_map sorted_wrt_rev)
qed simp

lemma complete_sorted: "ckpt_inv sha d \<Longrightarrow> sorted_wrt (<) (map m_seq (complete_manifests w net d))"
  by (simp add: ckpt_inv_def seqs_ok_def)

definition record_of :: "ckpt \<Rightarrow> checkpoint_record" where
  "record_of k = \<lparr>cs_sequence = k_seq k, cs_manifestHash = k_hash k, cs_byteLength = int (length (k_data k)),
     cs_chunkCount = int (k_chunkCount k), cs_label = k_label k, cs_createdAt = to_Date (k_createdAt k),
     cr_data = k_data k\<rparr>"

text \<open>The newest checkpoint, or the newest with the wanted sequence number.\<close>

definition pick :: "int option \<Rightarrow> ckpt list \<Rightarrow> ckpt option" where
  "pick sequence ks = limit1 (rev (filter (\<lambda>k. sequence = None \<or> Some (k_seq k) = sequence) ks))"

lemma select_manifest_spec:
  assumes "ckpt_inv sha d"
  shows "map_option (abs_ckpt d) (select_manifest w net sequence d) = pick sequence (ckpts d w net)"
    and "select_manifest w net sequence d = Some m \<Longrightarrow> m \<in> set (complete_manifests w net d)"
proof -
  let ?ms = "filter (\<lambda>m. sequence = None \<or> Some (m_seq m) = sequence) (complete_manifests w net d)"
  have "sorted_wrt (<) (map m_seq ?ms)"
    using complete_sorted [OF assms, of w net] by (simp add: sorted_wrt_map sorted_wrt_filter)
  then have s: "select_manifest w net sequence d = limit1 (rev ?ms)"
    by (simp add: select_manifest_def by_seq_desc_rev)
  have "ckpts d w net = map (abs_ckpt d) (complete_manifests w net d)" by (simp add: ckpts_def)
  then show "map_option (abs_ckpt d) (select_manifest w net sequence d) = pick sequence (ckpts d w net)"
    by (simp add: s pick_def limit1_map [symmetric] rev_map filter_map comp_def abs_ckpt_def)
  show "m \<in> set (complete_manifests w net d)" if "select_manifest w net sequence d = Some m"
    using that s limit1_set [of "rev ?ms" m] by simp
qed

lemma chunk_rows_spec:
  assumes inv: "ckpt_inv sha d" and m: "m \<in> set (ckpt_manifests d)"
    and cs: "cs = map (\<lambda>r. chunk_data d (mc_chunk_hash r)) (junction_of (m_id m) d)"
  shows "select_chunk_rows (m_id m) d = map (\<lambda>j. (0 + j, sha (cs ! j), Some (cs ! j))) [0..<length cs]"
    and "map sha cs = map mc_chunk_hash (junction_of (m_id m) d)"
proof -
  let ?js = "junction_of (m_id m) d"
  have pos: "map mc_position ?js = [0..<length ?js]" using inv m by (auto simp: ckpt_inv_def manifest_ok_def)
  have row: "map_of (ckpt_chunks d) (mc_chunk_hash r) = Some c \<Longrightarrow> sha (ch_data c) = mc_chunk_hash r" for r c
    using inv by (auto simp: ckpt_inv_def chunks_ok_def dest: map_of_SomeD)
  have present: "\<exists>c. map_of (ckpt_chunks d) (mc_chunk_hash r) = Some c" if "r \<in> set ?js" for r
    using inv that by (auto simp: ckpt_inv_def refs_ok_def junction_of_def)
  then have data: "map_option ch_data (map_of (ckpt_chunks d) (mc_chunk_hash r)) = Some (chunk_data d (mc_chunk_hash r))
      \<and> sha (chunk_data d (mc_chunk_hash r)) = mc_chunk_hash r" if "r \<in> set ?js" for r
    using that row by (fastforce simp: chunk_data_def)
  then show "map sha cs = map mc_chunk_hash ?js" by (simp add: cs)
  have "sort_key mc_position ?js = ?js" by (rule sort_key_id_if_sorted) (simp add: pos)
  moreover have "mc_position (?js ! j) = j" if "j < length ?js" for j
    using pos that by (metis add_0 nth_map nth_upt)
  ultimately show "select_chunk_rows (m_id m) d = map (\<lambda>j. (0 + j, sha (cs ! j), Some (cs ! j))) [0..<length cs]"
    using data by (intro nth_equalityI) (auto simp: select_chunk_rows_def cs)
qed

lemma verify_manifest_spec:
  assumes inv: "ckpt_inv sha d" and m: "m \<in> set (ckpt_manifests d)" and safe: "m_seq m \<le> MAX_SAFE_INTEGER"
  shows "verify_manifest sha m (select_chunk_rows (m_id m) d) = Inr (record_of (abs_ckpt d m))"
proof -
  let ?cs = "map (\<lambda>r. chunk_data d (mc_chunk_hash r)) (junction_of (m_id m) d)"
  have "sha (concat (map sha ?cs)) = m_manifest_hash m"
    unfolding chunk_rows_spec(2) [OF inv m refl] using inv m by (auto simp: ckpt_inv_def manifest_ok_def)
  moreover have "1 \<le> m_seq m" using inv m by (auto simp: ckpt_inv_def seqs_ok_def)
  ultimately show ?thesis
    using verify_chunks_complete [of sha "m_manifest_hash m" 0 ?cs] safe chunk_rows_spec(1) [OF inv m refl]
    by (simp add: verify_manifest_def toSummary_def coerceToSafeNumber_def record_of_def abs_ckpt_def payload_def
        MAX_SAFE_INTEGER_def checkpoint_summary.defs checkpoint_record.defs)
qed

lemma loadOnTx_spec:
  assumes inv: "ckpt_inv sha d" and faults: "env_faults env = (\<lambda>_. None)"
    and safe: "\<forall>k \<in> set (ckpts d w net). k_seq k \<le> MAX_SAFE_INTEGER"
  shows "loadOnTx sha env w net sequence d =
     (case pick sequence (ckpts d w net) of
        None \<Rightarrow> (Inl (StorageErr (CheckpointNotFoundError w net sequence)), d)
      | Some k \<Rightarrow> (Inr (record_of k), d))"
proof (cases "select_manifest w net sequence d")
  case None
  then have "pick sequence (ckpts d w net) = None" using select_manifest_spec(1) [OF inv, of w net sequence] by simp
  with None faults show ?thesis by (simp add: loadOnTx_def ebind_def)
next
  case (Some m)
  then have p: "pick sequence (ckpts d w net) = Some (abs_ckpt d m)"
    using select_manifest_spec(1) [OF inv, of w net sequence] by simp
  have m: "m \<in> set (complete_manifests w net d)" by (rule select_manifest_spec(2) [OF inv Some])
  with safe have "m_seq m \<le> MAX_SAFE_INTEGER" by (auto simp: ckpts_def abs_ckpt_def)
  with verify_manifest_spec [OF inv _ this] m p Some faults show ?thesis
    by (simp add: loadOnTx_def ebind_def complete_manifests_def)
qed

section \<open>history\<close>

definition summary_view :: "ckpt \<Rightarrow> checkpoint_summary" where
  "summary_view k = \<lparr>cs_sequence = k_seq k, cs_manifestHash = k_hash k, cs_byteLength = int (length (k_data k)),
     cs_chunkCount = int (k_chunkCount k), cs_label = k_label k, cs_createdAt = to_Date (k_createdAt k)\<rparr>"

text \<open>Every number of a summary is a safe integer, so that none of the coercions throws.\<close>

definition safe_ckpt :: "ckpt \<Rightarrow> bool" where
  "safe_ckpt k \<longleftrightarrow> k_seq k \<le> MAX_SAFE_INTEGER \<and> int (length (k_data k)) \<le> MAX_SAFE_INTEGER
     \<and> int (k_chunkCount k) \<le> MAX_SAFE_INTEGER"

lemma joined_sizes_spec:
  assumes "ckpt_inv sha d"
  shows "joined_sizes mid d = map (\<lambda>r. int (length (chunk_data d (mc_chunk_hash r)))) (junction_of mid d)"
proof -
  have "(case map_of (ckpt_chunks d) (mc_chunk_hash r) of None \<Rightarrow> [] | Some c \<Rightarrow> [size_bytes c])
      = [int (length (chunk_data d (mc_chunk_hash r)))]" if "r \<in> set (junction_of mid d)" for r
    using assms that by (auto simp: ckpt_inv_def refs_ok_def junction_of_def chunk_data_def size_bytes_def split: option.splits)
  then show ?thesis by (simp add: joined_sizes_def cong: map_cong)
qed

lemma sum_list_lengths: "sum_list (map (\<lambda>x. int (length (f x))) xs) = int (length (concat (map f xs)))"
  by (induction xs) auto

lemma summary_of_spec:
  assumes inv: "ckpt_inv sha d" and m: "m \<in> set (ckpt_manifests d)" "List.member ids (m_id m)"
    and safe: "safe_ckpt (abs_ckpt d m)"
  shows "summary_of m (aggById ids d (m_id m)) = Inr (summary_view (abs_ckpt d m))"
proof -
  have agg: "(case aggById ids d (m_id m) of None \<Rightarrow> (0, 0) | Some a \<Rightarrow> a)
      = (int (length (junction_of (m_id m) d)), int (length (payload d (m_id m))))"
    using m(2) by (simp add: aggById_def joined_sizes_spec [OF inv] sum_list_lengths payload_def)
  have "1 \<le> m_seq m" using inv m by (auto simp: ckpt_inv_def seqs_ok_def)
  with safe show ?thesis
    by (simp add: summary_of_def agg coerceToSafeNumber_def toSummary_def summary_view_def abs_ckpt_def safe_ckpt_def
        MAX_SAFE_INTEGER_def)
qed

definition page :: "nat \<Rightarrow> int option \<Rightarrow> ckpt list \<Rightarrow> ckpt list" where
  "page limit before ks = take limit (rev (filter (\<lambda>k. case before of None \<Rightarrow> True | Some b \<Rightarrow> k_seq k < b) ks))"

lemma historyOnTx_spec:
  assumes inv: "ckpt_inv sha d" and faults: "env_faults env = (\<lambda>_. None)"
    and safe: "\<forall>k \<in> set (ckpts d w net). safe_ckpt k"
  shows "historyOnTx env w net limit before d = (Inr (map summary_view (page limit before (ckpts d w net))), d)"
proof -
  let ?P = "\<lambda>m. case before of None \<Rightarrow> True | Some b \<Rightarrow> m_seq m < b"
  let ?ms = "take limit (rev (filter ?P (complete_manifests w net d)))"
  have "sorted_wrt (<) (map m_seq (filter ?P (complete_manifests w net d)))"
    using complete_sorted [OF inv, of w net] by (simp add: sorted_wrt_map sorted_wrt_filter)
  then have q: "take limit (by_seq_desc (filter ?P (complete_manifests w net d))) = ?ms"
    by (simp add: by_seq_desc_rev)
  have p: "page limit before (ckpts d w net) = map (abs_ckpt d) ?ms"
    by (cases before) (simp_all add: page_def ckpts_def rev_map take_map filter_map comp_def abs_ckpt_def)
  have sub: "set ?ms \<subseteq> set (complete_manifests w net d)"
    using set_take_subset [of limit "rev (filter ?P (complete_manifests w net d))"] by auto
  show ?thesis
  proof (cases "?ms = []")
    case True
    then have "page limit before (ckpts d w net) = []" using p by (simp only: list.map)
    with q faults True show ?thesis unfolding historyOnTx_def by (simp only: ebind_def stmt_ok prod.case sum.case) simp
  next
    case False
    have "map_throw (\<lambda>m. summary_of m (aggById (map m_id ?ms) d (m_id m))) ?ms
        = Inr (map (\<lambda>m. summary_view (abs_ckpt d m)) ?ms)"
    proof (rule map_throw_Inr)
      fix m assume m: "m \<in> set ?ms"
      with sub have "m \<in> set (complete_manifests w net d)" by blast
      with m safe show "summary_of m (aggById (map m_id ?ms) d (m_id m)) = Inr (summary_view (abs_ckpt d m))"
        by (intro summary_of_spec [OF inv]) (auto simp: complete_manifests_def ckpts_def)
    qed
    with False q p faults show ?thesis by (simp add: historyOnTx_def ebind_def comp_def)
  qed
qed

section \<open>prune\<close>

lemma filter_below_nth:
  assumes "sorted_wrt (<) (map f xs)" and "k < length xs"
  shows "filter (\<lambda>x. f x < (f (xs ! k) :: int)) xs = take k xs"
    and "filter (\<lambda>x. \<not> f x < (f (xs ! k) :: int)) xs = drop k xs"
proof -
  have lt: "f (xs ! i) < f (xs ! k)" if "i < k" for i
    using sorted_wrt_nth_less [OF assms(1), of i k] that assms(2) by simp
  have ge: "\<not> f (xs ! i) < f (xs ! k)" if "k \<le> i" "i < length xs" for i
    using sorted_wrt_nth_less [OF assms(1), of k i] that by (cases "k = i") auto
  have t: "\<forall>x \<in> set (take k xs). f x < f (xs ! k)" using lt assms(2) by (auto simp: in_set_conv_nth)
  have d: "\<forall>x \<in> set (drop k xs). \<not> f x < f (xs ! k)" using ge by (auto simp: in_set_conv_nth)
  have "filter P xs = filter P (take k xs) @ filter P (drop k xs)" for P
    by (metis append_take_drop_id filter_append)
  with t d show "filter (\<lambda>x. f x < f (xs ! k)) xs = take k xs" "filter (\<lambda>x. \<not> f x < f (xs ! k)) xs = drop k xs"
    by (simp_all add: filter_id_conv filter_empty_conv)
qed

lemma superseded_split:
  assumes inv: "ckpt_inv sha d" and r: "1 \<le> r"
    and ms_def: "ms = complete_manifests w net d"
  shows "filter (superseded w net r d) ms = take (length ms - r) ms"
    and "filter (\<lambda>m. \<not> superseded w net r d m) ms = drop (length ms - r) ms"
proof -
  have s: "sorted_wrt (<) (map m_seq ms)" using complete_sorted [OF inv] by (simp add: ms_def)
  have sup: "superseded w net r d m \<longleftrightarrow> (case prune_threshold w net r d of None \<Rightarrow> False | Some t \<Rightarrow> m_seq m < t)"
    if "m \<in> set ms" for m using that by (auto simp: superseded_def ms_def complete_manifests_def)
  have t: "prune_threshold w net r d = (if r \<le> length ms then Some (m_seq (ms ! (length ms - r))) else None)"
  proof -
    have "prune_threshold w net r d = limit1 (drop (r - 1) (rev (map m_seq ms)))"
      using by_seq_desc_rev [OF s] by (simp add: prune_threshold_def ms_def rev_map)
    also have "\<dots> = (if r \<le> length ms then Some (rev (map m_seq ms) ! (r - 1)) else None)"
      using r by (auto simp: Cons_nth_drop_Suc [symmetric])
    finally show ?thesis using r by (simp add: rev_nth)
  qed
  show "filter (superseded w net r d) ms = take (length ms - r) ms"
    using filter_below_nth(1) [OF s, of "length ms - r"] t r sup
    by (cases "r \<le> length ms") (auto simp: filter_empty_conv cong: filter_cong)
  show "filter (\<lambda>m. \<not> superseded w net r d m) ms = drop (length ms - r) ms"
    using filter_below_nth(2) [OF s, of "length ms - r"] t r sup
    by (cases "r \<le> length ms") (auto simp: filter_id_conv cong: filter_cong)
qed

text \<open>The two states of a prune: without the superseded manifests, then without the reclaimed chunks.\<close>

definition pruned1 :: "jsstr \<Rightarrow> jsstr \<Rightarrow> nat \<Rightarrow> db \<Rightarrow> db" where
  "pruned1 w net r d = snd (delete_manifests w net r d)"

definition pruned_db :: "pg_env \<Rightarrow> jsstr \<Rightarrow> jsstr \<Rightarrow> nat \<Rightarrow> db \<Rightarrow> db" where
  "pruned_db env w net r d = snd (delete_chunks env (pruned1 w net r d))"

lemma pruned_simps [simp]:
  "ckpt_manifests (pruned_db env w net r d) = filter (\<lambda>m. \<not> superseded w net r d m) (ckpt_manifests d)"
  "ckpt_sequence_counters (pruned_db env w net r d) = ckpt_sequence_counters d"
  "ckpt_next_id (pruned_db env w net r d) = ckpt_next_id d"
  "ckpt_manifest_chunks (pruned_db env w net r d)
     = filter (\<lambda>x. mc_manifest_id x \<notin> m_id ` {m \<in> set (ckpt_manifests d). superseded w net r d m}) (ckpt_manifest_chunks d)"
  by (simp_all add: pruned_db_def pruned1_def delete_chunks_def delete_manifests_def Let_def)

lemma junction_of_pruned:
  assumes "ckpt_inv sha d" and "m \<in> set (ckpt_manifests (pruned_db env w net r d))"
  shows "junction_of (m_id m) (pruned_db env w net r d) = junction_of (m_id m) d"
proof -
  have "m_id m \<notin> m_id ` {m \<in> set (ckpt_manifests d). superseded w net r d m}"
    using assms by (auto simp: ckpt_inv_def distinct_map inj_on_def)
  then have "\<forall>x. mc_manifest_id x = m_id m \<longrightarrow>
      mc_manifest_id x \<notin> m_id ` {m \<in> set (ckpt_manifests d). superseded w net r d m}" by auto
  then show ?thesis unfolding junction_of_def pruned_simps filter_filter by (intro filter_cong) auto
qed

lemma chunks_pruned:
  assumes "chunks_ok sha (ckpt_chunks d)"
  shows "chunks_ok sha (ckpt_chunks (pruned_db env w net r d))"
    and "x \<in> set (ckpt_manifest_chunks (pruned_db env w net r d)) \<Longrightarrow>
      map_of (ckpt_chunks (pruned_db env w net r d)) (mc_chunk_hash x) = map_of (ckpt_chunks d) (mc_chunk_hash x)"
proof -
  have cs: "ckpt_chunks (pruned_db env w net r d) = filter (\<lambda>hc. \<not> reclaimable env (pruned1 w net r d) hc) (ckpt_chunks d)"
    by (simp add: pruned_db_def delete_chunks_def) (simp add: pruned1_def delete_manifests_def Let_def)
  show "chunks_ok sha (ckpt_chunks (pruned_db env w net r d))"
    using assms by (auto simp: cs chunks_ok_def)
  assume "x \<in> set (ckpt_manifest_chunks (pruned_db env w net r d))"
  then have "x \<in> set (ckpt_manifest_chunks (pruned1 w net r d))" by (simp add: pruned_db_def delete_chunks_def)
  then have "\<not> reclaimable env (pruned1 w net r d) (mc_chunk_hash x, c)" for c
    by (auto simp: reclaimable_def list_ex_iff)
  then show "map_of (ckpt_chunks (pruned_db env w net r d)) (mc_chunk_hash x) = map_of (ckpt_chunks d) (mc_chunk_hash x)"
    using assms by (simp add: cs chunks_ok_def map_of_filter_distinct split: option.splits)
qed

lemma payload_pruned:
  assumes inv: "ckpt_inv sha d" and m: "m \<in> set (ckpt_manifests (pruned_db env w net r d))"
  shows "payload (pruned_db env w net r d) (m_id m) = payload d (m_id m)"
proof -
  have "chunk_data (pruned_db env w net r d) (mc_chunk_hash x) = chunk_data d (mc_chunk_hash x)"
    if "x \<in> set (junction_of (m_id m) d)" for x
  proof -
    from that have "x \<in> set (junction_of (m_id m) (pruned_db env w net r d))" using junction_of_pruned [OF inv m] by simp
    then have "x \<in> set (ckpt_manifest_chunks (pruned_db env w net r d))"
      unfolding junction_of_def by (simp del: pruned_simps)
    moreover have "chunks_ok sha (ckpt_chunks d)" using inv by (simp add: ckpt_inv_def)
    ultimately show ?thesis using chunks_pruned(2) by (simp only: chunk_data_def)
  qed
  with junction_of_pruned [OF inv m] show ?thesis by (simp add: payload_def cong: map_cong)
qed

lemma complete_manifests_pruned:
  assumes inv: "ckpt_inv sha d" and r: "1 \<le> r"
  shows "complete_manifests w' net' (pruned_db env w net r d) =
     (if w' = w \<and> net' = net
      then drop (length (complete_manifests w net d) - r) (complete_manifests w net d)
      else complete_manifests w' net' d)"
proof (cases "w' = w \<and> net' = net")
  case True
  have "complete_manifests w net (pruned_db env w net r d)
      = filter (\<lambda>m. \<not> superseded w net r d m) (complete_manifests w net d)"
    by (simp add: complete_manifests_def conj_commute)
  with True superseded_split(2) [OF inv r refl] show ?thesis by simp
next
  case False
  then show ?thesis
    by (auto simp: complete_manifests_def superseded_def filter_id_conv intro!: filter_cong)
qed

lemma ckpts_pruned:
  assumes inv: "ckpt_inv sha d" and r: "1 \<le> r"
  shows "ckpts (pruned_db env w net r d) w' net' =
     (if w' = w \<and> net' = net then drop (length (ckpts d w net) - r) (ckpts d w net) else ckpts d w' net')"
proof -
  let ?d = "pruned_db env w net r d"
  have "abs_ckpt ?d m = abs_ckpt d m" if "m \<in> set (complete_manifests w' net' ?d)" for m
  proof -
    have m: "m \<in> set (ckpt_manifests ?d)" using that by (simp add: complete_manifests_def)
    from payload_pruned [OF inv m] junction_of_pruned [OF inv m] show ?thesis by (simp add: abs_ckpt_def)
  qed
  then have "ckpts ?d w' net' = map (abs_ckpt d) (complete_manifests w' net' ?d)"
    unfolding ckpts_def by (intro map_cong) auto
  also have "\<dots> = (if w' = w \<and> net' = net then drop (length (ckpts d w net) - r) (ckpts d w net) else ckpts d w' net')"
    by (simp add: complete_manifests_pruned [OF inv r] ckpts_def drop_map)
  finally show ?thesis .
qed

lemma ckpt_inv_pruned:
  assumes inv: "ckpt_inv sha d" and r: "1 \<le> r"
  shows "ckpt_inv sha (pruned_db env w net r d)"
proof -
  let ?d = "pruned_db env w net r d"
  have ok: "chunks_ok sha (ckpt_chunks d)" using inv by (simp add: ckpt_inv_def)
  have "distinct (map m_id (ckpt_manifests ?d))"
    using inv by (simp add: ckpt_inv_def distinct_map inj_on_def)
  moreover have "manifest_ok sha ?d m" if "m \<in> set (ckpt_manifests ?d)" for m
    using inv that by (auto simp: manifest_ok_def junction_of_pruned [OF inv that] ckpt_inv_def simp del: pruned_simps(1))
       (auto simp: manifest_ok_def)
  moreover have "seqs_ok ?d"
  proof -
    have "sorted_wrt (<) (map m_seq (complete_manifests w' net' ?d))" for w' net'
      using complete_sorted [OF inv, of w' net'] sorted_wrt_drop
      by (auto simp: complete_manifests_pruned [OF inv r] drop_map [symmetric])
    with inv show ?thesis by (auto simp: ckpt_inv_def seqs_ok_def)
  qed
  moreover have "refs_ok ?d"
  proof -
    have "mc_manifest_id x \<in> m_id ` set (ckpt_manifests ?d) \<and> map_of (ckpt_chunks ?d) (mc_chunk_hash x) \<noteq> None"
      if x: "x \<in> set (ckpt_manifest_chunks ?d)" for x
    proof -
      from x have "x \<in> set (ckpt_manifest_chunks d)" by simp
      with inv obtain m where "m \<in> set (ckpt_manifests d)" "m_id m = mc_manifest_id x"
        "map_of (ckpt_chunks d) (mc_chunk_hash x) \<noteq> None"
        by (auto simp: ckpt_inv_def refs_ok_def)
      with x chunks_pruned(2) [OF ok x] show ?thesis by force
    qed
    then show ?thesis unfolding refs_ok_def by blast
  qed
  ultimately show ?thesis using chunks_pruned(1) [OF ok] unfolding ckpt_inv_def by blast
qed

section \<open>The methods\<close>

text \<open>What a successful write path did, whatever the environment.\<close>

lemma insert_junction_rows_Inr:
  "eforeach insert_junction_row rs d = (Inr u, d') \<Longrightarrow>
   d' = d\<lparr>ckpt_manifest_chunks := ckpt_manifest_chunks d @ rs\<rparr>"
proof (induction rs arbitrary: d)
  case Nil
  then show ?case by simp
next
  case (Cons r rs)
  then obtain d1 where "insert_junction_row r d = (Inr (), d1)" and rest: "eforeach insert_junction_row rs d1 = (Inr u, d')"
    by (auto elim!: ebind_InrE)
  from this(1) have "d1 = d\<lparr>ckpt_manifest_chunks := ckpt_manifest_chunks d @ [r]\<rparr>"
    by (auto simp: insert_junction_row_def split: if_splits)
  with Cons.IH [OF rest] show ?case by simp
qed

lemma runOnTx_Inr:
  assumes "runOnTx sha env w net data opts d = (Inr s, d')"
  shows "\<exists>label. d' = saved_db sha env w net (splitChunks data (chunk_size opts)) label d
     \<and> cs_sequence s = next_sequence d w net"
proof -
  let ?chunks = "splitChunks data (chunk_size opts)"
  let ?rows = "dedupe_chunks [] (zip (map sha ?chunks) ?chunks)"
  let ?d1 = "d\<lparr>ckpt_chunks := fold (chunk_step (env_now env)) ?rows (ckpt_chunks d)\<rparr>"
  obtain d1 u d2 seq d3 m d4 u' where
    s1: "stmts env 0 (upsert_chunks env) (slices CHUNK_INSERT_MAX_ROWS 0 ?rows) d = (Inr u, d1)" and
    s2: "claim_sequence w net d1 = (Inr seq, d2)" and
    s3: "insert_manifest env w net seq (sha (concat (map sha ?chunks))) (so_label opts) d2 = (Inr m, d3)" and
    s4: "stmts env (length (slices CHUNK_INSERT_MAX_ROWS 0 ?rows) + 2) insert_junctions
           (slices JUNCTION_INSERT_MAX_ROWS 0 (junction_rows (m_id m) (map sha ?chunks))) d3 = (Inr u', d4)" and
    s5: "toSummary m (int (length data)) (int (length ?chunks)) = Inr s" "d' = d4"
    using assms unfolding runOnTx_def Let_def chunk_size_def [symmetric]
    by (auto elim!: ebind_InrE simp: stmt_Inr)
  have d1: "d1 = ?d1"
    using stmts_Inr [OF s1] dedupe_spec [of "[]" "zip (map sha ?chunks) ?chunks"]
    by (simp add: upsert_batches eforeach_upsert)
  have seq: "seq = next_sequence d w net"
    and d2: "d2 = ?d1\<lparr>ckpt_sequence_counters := AList.update (w, net) (next_sequence d w net + 1) (ckpt_sequence_counters d)\<rparr>"
    using s2 by (auto simp: d1 claim_sequence_def next_sequence_def split: option.splits if_splits)
  obtain label where m: "m = new_manifest sha env w net ?chunks label d"
    and d3: "d3 = d2\<lparr>ckpt_manifests := ckpt_manifests d @ [m], ckpt_next_id := ckpt_next_id d + 1\<rparr>"
    using s3 by (auto simp: d2 seq insert_manifest_def new_manifest_def Let_def split: option.splits sum.splits)
  have d4: "d4 = d3\<lparr>ckpt_manifest_chunks := ckpt_manifest_chunks d3 @ junction_rows (m_id m) (map sha ?chunks)\<rparr>"
    using stmts_Inr [OF s4] by (intro insert_junction_rows_Inr) (simp add: junction_batches)
  have "d' = saved_db sha env w net ?chunks label d"
    using s5(2) d4 d3 d2 by (simp add: saved_db_def m) (simp add: new_manifest_def)
  moreover have "cs_sequence s = next_sequence d w net"
    using s5(1) m by (auto simp: toSummary_def coerceToSafeNumber_def new_manifest_def split: if_splits)
  ultimately show ?thesis by blast
qed

lemma pruneOnTx_Inr:
  assumes "pruneOnTx env w net r d = (Inr p, d')"
  shows "d' = pruned_db env w net r d"
  using assms
  by (auto simp: pruneOnTx_def ebind_def stmt_def pruned_db_def pruned1_def split: prod.splits sum.splits option.splits)

text \<open>What a save needs to succeed: valid arguments, an honest server, no hash collision, room.\<close>

definition save_ok ::
  "(bytes \<Rightarrow> bytes) \<Rightarrow> pg_env \<Rightarrow> jsstr \<Rightarrow> jsstr \<Rightarrow> bytes \<Rightarrow> save_opts \<Rightarrow> world \<Rightarrow> bool" where
  "save_ok sha env w net data opts world \<longleftrightarrow>
     (let chunks = splitChunks data (chunk_size opts) in
      CheckpointIdSchema w \<and> CheckpointIdSchema net \<and> SaveCheckpointOptionsSchema opts \<and> label_ok (so_label opts)
      \<and> usable (so_tx opts) world \<and> \<not> aborted (so_signal opts) \<and> env_faults env = (\<lambda>_. None)
      \<and> next_sequence (w_db world) w net \<le> MAX_SAFE_INTEGER \<and> length chunks \<le> 2 ^ 31
      \<and> collision_free sha (stored_data (w_db world) \<union> set chunks))"

definition new_ckpt ::
  "(bytes \<Rightarrow> bytes) \<Rightarrow> pg_env \<Rightarrow> jsstr \<Rightarrow> jsstr \<Rightarrow> bytes \<Rightarrow> save_opts \<Rightarrow> db \<Rightarrow> ckpt" where
  "new_ckpt sha env w net data opts d =
     (let chunks = splitChunks data (chunk_size opts) in
      \<lparr>k_seq = next_sequence d w net, k_data = data, k_label = so_label opts, k_createdAt = env_now env,
       k_chunkCount = length chunks, k_hash = sha (concat (map sha chunks))\<rparr>)"

lemma ids_ok: "CheckpointIdSchema w \<Longrightarrow> CheckpointIdSchema net \<Longrightarrow> assertValidCheckpointIds w net = Inr ()"
  by (simp add: assertValidCheckpointIds_def)

lemma save_run:
  assumes inv: "ckpt_inv sha (w_db world)" and ok: "save_ok sha env w net data opts world"
  obtains world' where
    "save sha env no_faults w net data opts world = (Inr (summary_view (new_ckpt sha env w net data opts (w_db world))), world')"
    and "w_db world' = saved_db sha env w net (splitChunks data (chunk_size opts)) (so_label opts) (w_db world)"
    and "so_tx opts \<noteq> None \<Longrightarrow> active_transactions world' = active_transactions world"
proof -
  let ?chunks = "splitChunks data (chunk_size opts)"
  let ?d = "saved_db sha env w net ?chunks (so_label opts) (w_db world)"
  note o = ok [unfolded save_ok_def Let_def]
  have run: "runOnTx sha env w net data opts (w_db world)
      = (Inr (summary_view (new_ckpt sha env w net data opts (w_db world))), ?d)"
    using runOnTx_run [OF inv, of env opts w net ?chunks data] o
    by (simp add: summary_view_def new_ckpt_def Let_def)
  have s: "save sha env no_faults w net data opts world = saveImpl sha env no_faults w net data opts world"
    using o ids_ok by (simp add: save_def validateSaveOptions_def)
  show thesis
  proof (cases "so_tx opts")
    case None
    with run have "saveImpl sha env no_faults w net data opts world
       = (Inr (summary_view (new_ckpt sha env w net data opts (w_db world))), settled world ?d)"
      by (simp add: saveImpl_def own_transaction_run)
    with s None that show thesis by simp
  next
    case (Some h)
    with o have "h \<in> set (active_transactions world)" by (simp add: usable_def)
    with Some run have "saveImpl sha env no_faults w net data opts world
       = (Inr (summary_view (new_ckpt sha env w net data opts (w_db world))), world\<lparr>w_db := ?d\<rparr>)"
      by (simp add: saveImpl_def ebind_def on_db_def)
    with s that show thesis by simp
  qed
qed

lemma save_effect:
  assumes "ckpt_inv sha (w_db world)" and ok: "save_ok sha env w net data opts world"
    and "w_db world' = saved_db sha env w net (splitChunks data (chunk_size opts)) (so_label opts) (w_db world)"
  shows "ckpt_inv sha (w_db world')"
    and "ckpts (w_db world') w' net' = (if w' = w \<and> net' = net
       then ckpts (w_db world) w net @ [new_ckpt sha env w net data opts (w_db world)] else ckpts (w_db world) w' net')"
proof -
  note o = ok [unfolded save_ok_def Let_def]
  show "ckpt_inv sha (w_db world')" by (simp add: assms(3) ckpt_inv_saved [OF assms(1)])
  have "concat (splitChunks data (chunk_size opts)) = data"
    using o chunk_size_pos by (intro splitChunks_concat) blast
  then show "ckpts (w_db world') w' net' = (if w' = w \<and> net' = net
       then ckpts (w_db world) w net @ [new_ckpt sha env w net data opts (w_db world)] else ckpts (w_db world) w' net')"
    using ckpts_saved [OF assms(1), of "splitChunks data (chunk_size opts)" env w net "so_label opts"] o
    by (simp add: assms(3) new_ckpt_def Let_def)
qed

lemma load_run:
  assumes "ckpt_inv sha (w_db world)" and "CheckpointIdSchema w" and "CheckpointIdSchema net"
    and "env_faults env = (\<lambda>_. None)" and "\<not> aborted sig"
    and "\<forall>k \<in> set (ckpts (w_db world) w net). k_seq k \<le> MAX_SAFE_INTEGER"
  shows "load sha env no_faults w net sequence sig world =
     (case pick sequence (ckpts (w_db world) w net) of
        None \<Rightarrow> (Inl (StorageErr (CheckpointNotFoundError w net sequence)), settled world (w_db world))
      | Some k \<Rightarrow> (Inr (record_of k), settled world (w_db world)))"
  using assms loadOnTx_spec [OF assms(1,4,6), of sequence]
  by (simp add: load_def ids_ok own_transaction_run emap_error_def map_tx_error_def split: option.splits)

lemma history_run:
  assumes "ckpt_inv sha (w_db world)" and "CheckpointIdSchema w" and "CheckpointIdSchema net"
    and "env_faults env = (\<lambda>_. None)" and "validateHistoryOptions opts = Inr (limit, before)" and "\<not> aborted (ho_signal opts)"
    and "\<forall>k \<in> set (ckpts (w_db world) w net). safe_ckpt k"
  shows "history env no_faults w net opts world
     = (Inr (map summary_view (page limit before (ckpts (w_db world) w net))), settled world (w_db world))"
  using assms historyOnTx_spec [OF assms(1,4,7), of limit before]
  by (simp add: history_def ids_ok own_transaction_run)

lemma pruneOnTx_run:
  assumes inv: "ckpt_inv sha d" and "env_faults env = (\<lambda>_. None)" and r: "1 \<le> r"
    and safe: "\<forall>k \<in> set (ckpts d w net). k_seq k \<le> MAX_SAFE_INTEGER"
  shows "\<exists>n b. pruneOnTx env w net r d =
     (Inr \<lparr>pr_prunedSequences = map k_seq (take (length (ckpts d w net) - r) (ckpts d w net)),
           pr_reclaimedChunks = n, pr_reclaimedBytes = b\<rparr>, pruned_db env w net r d)"
proof -
  let ?ms = "complete_manifests w net d"
  have gone: "filter (superseded w net r d) (ckpt_manifests d) = take (length ?ms - r) ?ms"
  proof -
    have "filter (superseded w net r d) (ckpt_manifests d) = filter (superseded w net r d) ?ms"
      unfolding complete_manifests_def filter_filter by (rule filter_cong) (auto simp: superseded_def)
    with superseded_split(1) [OF inv r refl] show ?thesis by simp
  qed
  have seqs: "map m_seq (take (length ?ms - r) ?ms) = map k_seq (take (length (ckpts d w net) - r) (ckpts d w net))"
    by (simp add: ckpts_def take_map abs_ckpt_def)
  have "map_throw coerceToSafeNumber (map m_seq (take (length ?ms - r) ?ms)) = Inr (map id (map m_seq (take (length ?ms - r) ?ms)))"
  proof (rule map_throw_Inr)
    fix x assume "x \<in> set (map m_seq (take (length ?ms - r) ?ms))"
    then obtain m where m: "m \<in> set ?ms" "x = m_seq m" by (auto dest: in_set_takeD)
    with safe have "x \<le> MAX_SAFE_INTEGER" by (auto simp: ckpts_def abs_ckpt_def)
    moreover have "1 \<le> x" using inv m by (auto simp: ckpt_inv_def seqs_ok_def complete_manifests_def)
    ultimately show "coerceToSafeNumber x = Inr (id x)" by (simp add: coerceToSafeNumber_def MAX_SAFE_INTEGER_def)
  qed
  with assms(2) gone seqs show ?thesis
    by (simp add: pruneOnTx_def ebind_def delete_manifests_def Let_def delete_chunks_def pruned_db_def pruned1_def)
qed

lemma prune_run:
  assumes "ckpt_inv sha (w_db world)" and "CheckpointIdSchema w" and "CheckpointIdSchema net"
    and "env_faults env = (\<lambda>_. None)" and "\<not> aborted sig"
    and "1 \<le> r" and "int r \<le> MAX_SAFE_INTEGER"
    and "\<forall>k \<in> set (ckpts (w_db world) w net). k_seq k \<le> MAX_SAFE_INTEGER"
  shows "\<exists>n b. prune env no_faults w net (of_nat r) sig world =
     (Inr \<lparr>pr_prunedSequences = map k_seq (take (length (ckpts (w_db world) w net) - r) (ckpts (w_db world) w net)),
           pr_reclaimedChunks = n, pr_reclaimedBytes = b\<rparr>, settled world (pruned_db env w net r (w_db world)))"
proof -
  have "(of_nat r :: rat) \<in> \<int>" by simp
  moreover have "\<bar>of_nat r :: rat\<bar> \<le> of_int MAX_SAFE_INTEGER"
    using assms(7) by (metis abs_of_nat of_int_le_iff of_int_of_nat_eq)
  moreover have "\<not> (of_nat r :: rat) < 1" using assms(6) by simp
  moreover have "nat \<lfloor>of_nat r :: rat\<rfloor> = r" by simp
  ultimately show ?thesis
    using assms pruneOnTx_run [OF assms(1,4,6,8)]
    by (auto simp: prune_def ids_ok own_transaction_run ebind_def)
qed

section \<open>Properties\<close>

text \<open>A hash for concrete inputs: the first 31 bytes, zero-padded, and the length.\<close>

definition pad32 :: "bytes \<Rightarrow> bytes" where
  "pad32 x = map (\<lambda>i. if i < length x then x ! i else 0) [0..<31] @ [of_nat (length x)]"

definition demo_opts :: save_opts where
  "demo_opts = \<lparr>so_chunkSize = Some 2, so_label = None, so_signal = NoSignal, so_tx = None\<rparr>"

lemma demo_save_ok: "save_ok pad32 (quiet 5000000 1) (js ''w'') (js ''n'') [1, 2, 3, 1, 2] demo_opts initial_world"
proof -
  have i: "CheckpointIdSchema (js ''w'')" "CheckpointIdSchema (js ''n'')" by code_simp+
  have c: "chunk_size demo_opts = 2" by (simp add: chunk_size_def demo_opts_def)
  have s: "splitChunks [1, 2, 3, 1, 2 :: byte] 2 = [[1, 2], [3, 1], [2]]"
    by (simp add: splitChunks_def slices.simps)
  have "collision_free pad32 {[1, 2], [3, 1], [2 :: byte]}"
    by (simp add: collision_free_def inj_on_def pad32_def upt_rec)
  then show ?thesis
    using i by (simp add: save_ok_def c s) (simp add: demo_opts_def SaveCheckpointOptionsSchema_def label_ok_def
        next_sequence_def MAX_SAFE_INTEGER_def stored_data_def)
qed

lemma k_data_new_ckpt [simp]: "k_data (new_ckpt sha env w net data opts d) = data"
  by (simp add: new_ckpt_def Let_def)



text \<open>
  Refinement of \<^verbatim>\<open>load\<close>: on a well-formed store it returns the newest checkpoint of the
  wallet, or the one with the wanted sequence number, with exactly the saved bytes, or reports that
  there is none; none of the corruption errors can occur, and the store is not changed.
\<close>

lemma load_refines:
  assumes "ckpt_inv sha (w_db world)" and "CheckpointIdSchema w" and "CheckpointIdSchema net"
    and "env_faults env = (\<lambda>_. None)" and "\<not> aborted sig"
    and "\<forall>k \<in> set (ckpts (w_db world) w net). k_seq k \<le> MAX_SAFE_INTEGER"
  shows "fst (load sha env no_faults w net sequence sig world) =
      (case pick sequence (ckpts (w_db world) w net) of
         None \<Rightarrow> Inl (StorageErr (CheckpointNotFoundError w net sequence))
       | Some k \<Rightarrow> Inr (record_of k))
     \<and> w_db (snd (load sha env no_faults w net sequence sig world)) = w_db world"
  by (simp add: load_run [OF assms] split: option.splits)

lemma save_load_data:
  assumes "ckpt_inv sha (w_db world)" and "save_ok sha env w net data opts world"
    and "\<forall>k \<in> set (ckpts (w_db world) w net). k_seq k \<le> MAX_SAFE_INTEGER"
    and "save sha env no_faults w net data opts world = (Inr s, world')"
    and "env_faults env' = (\<lambda>_. None)" and "sequence = None \<or> sequence = Some (cs_sequence s)"
  shows "\<exists>rec. fst (load sha env' no_faults w net sequence NoSignal world') = Inr rec
     \<and> cr_data rec = data \<and> cs_label rec = so_label opts \<and> checkpoint_summary.truncate rec = s"
proof -
  let ?k = "new_ckpt sha env w net data opts (w_db world)"
  obtain w2 where w2: "save sha env no_faults w net data opts world = (Inr (summary_view ?k), w2)"
    and d2: "w_db w2 = saved_db sha env w net (splitChunks data (chunk_size opts)) (so_label opts) (w_db world)"
    using save_run [OF assms(1,2)] by metis
  with assms(4) have s: "s = summary_view ?k" "world' = w2" by simp_all
  note eff = save_effect [OF assms(1,2), of w2, OF d2]
  have ids: "CheckpointIdSchema w" "CheckpointIdSchema net" and "next_sequence (w_db world) w net \<le> MAX_SAFE_INTEGER"
    using assms(2) by (simp_all add: save_ok_def Let_def)
  then have safe: "\<forall>k \<in> set (ckpts (w_db w2) w net). k_seq k \<le> MAX_SAFE_INTEGER"
    using assms(3) by (auto simp: eff(2) new_ckpt_def Let_def)
  have "pick sequence (ckpts (w_db w2) w net) = Some ?k"
    using assms(6) s(1) by (auto simp: pick_def eff(2) summary_view_def)
  then have "fst (load sha env' no_faults w net sequence NoSignal world') = Inr (record_of ?k)"
    using load_run [OF eff(1) ids assms(5) _ safe, of NoSignal sequence] s(2) by simp
  then show ?thesis
    using s(1) by (simp add: record_of_def summary_view_def checkpoint_summary.defs) (simp add: new_ckpt_def Let_def)
qed



text \<open>
  Refinement of \<^verbatim>\<open>history\<close>: the page is the newest checkpoints first, strictly
  descending, at most \<^verbatim>\<open>limit\<close> of them and all older than \<^verbatim>\<open>before\<close>; byte length
  and chunk count, which the code sums from a generated column, are those of the saved data.
\<close>

lemma history_refines:
  assumes "ckpt_inv sha (w_db world)" and "CheckpointIdSchema w" and "CheckpointIdSchema net"
    and "env_faults env = (\<lambda>_. None)" and "validateHistoryOptions opts = Inr (limit, before)" and "\<not> aborted (ho_signal opts)"
    and "\<forall>k \<in> set (ckpts (w_db world) w net). safe_ckpt k"
  shows "\<exists>ks. fst (history env no_faults w net opts world) = Inr (map summary_view ks)
    \<and> ks = take limit (rev (filter (\<lambda>k. case before of None \<Rightarrow> True | Some b \<Rightarrow> k_seq k < b) (ckpts (w_db world) w net)))
    \<and> sorted_wrt (>) (map k_seq ks) \<and> length ks \<le> limit"
proof -
  let ?P = "\<lambda>k. case before of None \<Rightarrow> True | Some b \<Rightarrow> k_seq k < b"
  have "sorted_wrt (<) (map k_seq (ckpts (w_db world) w net))"
    using complete_sorted [OF assms(1)] by (simp add: ckpts_def comp_def abs_ckpt_def)
  then have "sorted_wrt (>) (map k_seq (rev (filter ?P (ckpts (w_db world) w net))))"
    by (simp add: sorted_wrt_map sorted_wrt_rev sorted_wrt_filter)
  then have "sorted_wrt (>) (map k_seq (take limit (rev (filter ?P (ckpts (w_db world) w net)))))"
    by (simp only: take_map [symmetric] sorted_wrt_take)
  then show ?thesis using history_run [OF assms] by (auto simp: page_def)
qed



lemma concat_fixed_length:
  assumes "\<forall>x \<in> set xs \<union> set ys. length x = n" and "0 < n" and "concat xs = concat ys"
  shows "xs = ys"
  using assms
proof (induction xs arbitrary: ys)
  case Nil
  then show ?case by (cases ys) auto
next
  case (Cons x xs)
  then obtain y ys' where ys: "ys = y # ys'" by (cases ys) auto
  with Cons.prems have "length x = length y" by simp
  with Cons.prems(3) ys have "x = y" "concat xs = concat ys'" by simp_all
  with Cons ys show ?case by simp
qed

lemma stored_data_saved:
  assumes "ckpt_inv sha d"
  shows "stored_data (saved_db sha env w net chunks label d) \<subseteq> stored_data d \<union> set chunks"
proof
  let ?rows = "dedupe_chunks [] (zip (map sha chunks) chunks)"
  fix x assume "x \<in> stored_data (saved_db sha env w net chunks label d)"
  then have "x \<in> (ch_data \<circ> snd) ` set (fold (chunk_step (env_now env)) ?rows (ckpt_chunks d))"
    by (simp add: stored_data_def saved_db_def)
  from fold_chunk_stored [OF this] assms dedupe_hashes(2) [of _ sha chunks]
  show "x \<in> stored_data d \<union> set chunks" by (auto simp: ckpt_inv_def chunks_ok_def stored_data_def)
qed

definition stored_hash_seqs :: "db \<Rightarrow> bytes set" where
  "stored_hash_seqs d =
     (\<lambda>m. concat (map mc_chunk_hash (sort_key mc_position (junction_of (m_id m) d)))) ` set (ckpt_manifests d)"

lemma stored_hash_seqs_first:
  "stored_hash_seqs (saved_db sha env w net chunks label empty_db) = {concat (map sha chunks)}"
  using junction_of_saved [OF ckpt_inv_empty, of "ckpt_next_id empty_db" sha env w net chunks label]
  by (simp add: stored_hash_seqs_def new_manifest_def sort_key_id_if_sorted)

lemma load_verified:
  assumes "load sha env fl w net sequence sig world = (Inr rec, world')"
  obtains parts where "cr_data rec = concat parts" and "set parts \<subseteq> stored_data (w_db world)"
    and "concat (map sha parts) \<in> stored_hash_seqs (w_db world)"
    and "cs_manifestHash rec = sha (concat (map sha parts))"
proof -
  let ?d = "w_db world"
  obtain d where run: "loadOnTx sha env w net sequence ?d = (Inr rec, d)"
    using assms
    by (auto simp: load_def assertValidCheckpointIds_def withAbort_def ebind_def dest!: own_transaction_Inr split: if_splits)
  then obtain m where sel: "select_manifest w net sequence ?d = Some m"
    and m: "verify_manifest sha m (select_chunk_rows (m_id m) ?d) = Inr rec"
    by (auto simp: loadOnTx_def ebind_def stmt_def split: option.splits sum.splits)
  have mem: "m \<in> set (ckpt_manifests ?d)"
    using limit1_set [OF sel [unfolded select_manifest_def]] by (simp add: by_seq_desc_def complete_manifests_def)
  let ?rows = "select_chunk_rows (m_id m) ?d"
  obtain parts hashes where v: "verify_chunks sha (m_manifest_hash m) 0 ?rows = Inr (parts, hashes)"
    and h: "sha (concat hashes) = m_manifest_hash m" and r: "cr_data rec = concat parts" "cs_manifestHash rec = m_manifest_hash m"
    using m by (auto simp: verify_manifest_def toSummary_def checkpoint_summary.defs checkpoint_record.defs
        split: sum.splits if_splits)
  note ok = verify_chunks_Inr [OF v]
  have "map (\<lambda>(_, h, _). h) ?rows = map mc_chunk_hash (sort_key mc_position (junction_of (m_id m) ?d))"
    by (simp add: select_chunk_rows_def comp_def)
  with ok have "map sha parts = map mc_chunk_hash (sort_key mc_position (junction_of (m_id m) ?d))" by metis
  with mem have "concat (map sha parts) \<in> stored_hash_seqs ?d" by (auto simp: stored_hash_seqs_def)
  moreover have "y \<in> stored_data ?d" if "y \<in> set parts" for y
  proof -
    from that have "Some y \<in> set (map (\<lambda>(_, _, c). c) ?rows)" using ok by auto
    then obtain h c where "map_of (ckpt_chunks ?d) h = Some c" "ch_data c = y" by (auto simp: select_chunk_rows_def dest!: sym [of "Some y"])
    from map_of_SomeD [OF this(1)] this(2) show ?thesis by (force simp: stored_data_def)
  qed
  moreover have "cs_manifestHash rec = sha (concat (map sha parts))" using r(2) h ok by simp
  ultimately show thesis using that r(1) by blast
qed

text \<open>
  C8. Tamper evidence, on any database whatever, well-formed or not: if \<^verbatim>\<open>load\<close> returns a
  record whose manifest hash is that of the saved chunks, it returns exactly the saved bytes, provided
  the hash has a fixed length and does not collide between what was saved and what the tables hold
  now. Substituted, reordered, dropped or altered chunks are reported, never returned.
\<close>

theorem load_tamper_evident:
  assumes "load sha env fl w net sequence sig world = (Inr rec, world')"
    and "cs_manifestHash rec = sha (concat (map sha saved))"
    and "\<forall>x. length (sha x) = n" and "0 < n"
    and "collision_free sha (insert (concat (map sha saved)) (stored_hash_seqs (w_db world)))"
    and "collision_free sha (set saved \<union> stored_data (w_db world))"
  shows "cr_data rec = concat saved"
proof -
  obtain parts where p: "cr_data rec = concat parts" "set parts \<subseteq> stored_data (w_db world)"
    "concat (map sha parts) \<in> stored_hash_seqs (w_db world)" "cs_manifestHash rec = sha (concat (map sha parts))"
    using load_verified [OF assms(1)] by metis
  have "concat (map sha parts) = concat (map sha saved)"
    by (rule inj_onD [OF assms(5) [unfolded collision_free_def]]) (use assms(2) p(3,4) in auto)
  then have "map sha parts = map sha saved"
    using assms(3,4) by (intro concat_fixed_length [of _ _ n]) auto
  then have "parts = saved"
    using assms(6) p(2) by (auto simp: collision_free_def intro!: map_inj_on [of sha] elim: inj_on_subset)
  with p(1) show ?thesis by simp
qed

theorem load_tamper_evident_witness:
  "\<exists>rec world'. load pad32 (quiet 0 0) no_faults (js ''w'') (js ''n'') None NoSignal
        (snd (save pad32 (quiet 5000000 1) no_faults (js ''w'') (js ''n'') [1, 2, 3, 1, 2] demo_opts initial_world))
      = (Inr rec, world') \<and> cr_data rec = concat [[1, 2], [3, 1], [2]]"
proof -
  let ?w = "snd (save pad32 (quiet 5000000 1) no_faults (js ''w'') (js ''n'') [1, 2, 3, 1, 2] demo_opts initial_world)"
  let ?saved = "[[1, 2], [3, 1], [2 :: byte]]"
  have inv: "ckpt_inv pad32 (w_db initial_world)" by simp
  have i: "CheckpointIdSchema (js ''w'')" "CheckpointIdSchema (js ''n'')" by code_simp+
  have c: "splitChunks [1, 2, 3, 1, 2 :: byte] (chunk_size demo_opts) = ?saved"
    by (simp add: chunk_size_def demo_opts_def splitChunks_def slices.simps)
  have d: "w_db ?w = saved_db pad32 (quiet 5000000 1) (js ''w'') (js ''n'') ?saved None empty_db"
    by (rule save_run [OF inv demo_save_ok]) (simp add: c, simp add: demo_opts_def)
  have data: "stored_data (w_db ?w) \<subseteq> set ?saved"
    unfolding d using stored_data_saved [of pad32 empty_db "quiet 5000000 1" "js ''w''" "js ''n''" ?saved None]
    by (simp add: stored_data_def [of empty_db])
  have seqs: "stored_hash_seqs (w_db ?w) = {concat (map pad32 ?saved)}"
    unfolding d by (rule stored_hash_seqs_first)
  have inv': "ckpt_inv pad32 (w_db ?w)" unfolding d by (rule ckpt_inv_saved) simp
  have free: "collision_free pad32 (set ?saved)"
    by (simp add: collision_free_def inj_on_def pad32_def upt_rec)
  then have ks: "ckpts (w_db ?w) (js ''w'') (js ''n'') = [\<lparr>k_seq = 1, k_data = concat ?saved, k_label = None,
      k_createdAt = 5000000, k_chunkCount = 3, k_hash = pad32 (concat (map pad32 ?saved))\<rparr>]"
    unfolding d by (subst ckpts_saved) (simp_all add: stored_data_def next_sequence_def)
  then obtain rec world' where l: "load pad32 (quiet 0 0) no_faults (js ''w'') (js ''n'') None NoSignal ?w = (Inr rec, world')"
    and mh: "cs_manifestHash rec = pad32 (concat (map pad32 ?saved))"
    using load_run [OF inv' i, of "quiet 0 0" NoSignal None]
    by (simp add: pick_def MAX_SAFE_INTEGER_def) (simp add: record_of_def)
  have len: "\<forall>x. length (pad32 x) = 32" by (simp add: pad32_def)
  have "collision_free pad32 (insert (concat (map pad32 ?saved)) (stored_hash_seqs (w_db ?w)))"
    unfolding seqs by (simp add: collision_free_def)
  moreover have "collision_free pad32 (set ?saved \<union> stored_data (w_db ?w))"
    using free by (simp only: Un_absorb2 [OF data])
  ultimately have "cr_data rec = concat ?saved"
    using load_tamper_evident [OF l mh len] by simp
  with l show ?thesis by blast
qed

subsection \<open>Sequences of calls\<close>

text \<open>
  Calls that write, each in its own transaction, on any server behaviour: the environment and the
  faults of every call are arbitrary.
\<close>

datatype ckpt_call =
    SaveCall pg_env tx_faults jsstr jsstr bytes save_opts
  | PruneCall pg_env tx_faults jsstr jsstr rat signal

fun ckpt_exec :: "(bytes \<Rightarrow> bytes) \<Rightarrow> ckpt_call \<Rightarrow> int option run" where
  "ckpt_exec sha (SaveCall env fl w net data opts) =
     ebind (save sha env fl w net data (opts\<lparr>so_tx := None\<rparr>)) (\<lambda>s. eret (Some (cs_sequence s)))"
| "ckpt_exec sha (PruneCall env fl w net r sig) = ebind (prune env fl w net r sig) (\<lambda>_. eret None)"

lemma save_own_cases:
  assumes "save sha env fl w net data opts world = (r, world')" and "so_tx opts = None"
  shows "case r of
      Inl e \<Rightarrow> w_db world' = w_db world
    | Inr s \<Rightarrow> \<exists>label. w_db world' = saved_db sha env w net (splitChunks data (chunk_size opts)) label (w_db world)
        \<and> cs_sequence s = next_sequence (w_db world) w net"
proof -
  consider "w_db world' = w_db world" "\<exists>e. r = Inl e"
    | "saveImpl sha env fl w net data opts world = (r, world')"
    using assms(1)
    by (auto simp: save_def assertValidCheckpointIds_def validateSaveOptions_def withAbort_def split: if_splits)
  then show ?thesis
  proof cases
    case 1
    then show ?thesis by auto
  next
    case 2
    then show ?thesis
      using assms(2) runOnTx_Inr [of sha env w net data opts "w_db world"]
      by (cases r) (auto simp: saveImpl_def emap_error_Inl dest: withTransaction_rollback dest!: own_transaction_Inr)
  qed
qed

lemma prune_cases:
  assumes "prune env fl w net r sig world = (res, world')"
  shows "w_db world' = w_db world \<or> 1 \<le> nat \<lfloor>r\<rfloor> \<and> w_db world' = pruned_db env w net (nat \<lfloor>r\<rfloor>) (w_db world)"
proof -
  consider "w_db world' = w_db world"
    | "1 \<le> r" "emap_error (\<lambda>err. translatePostgresError err None)
         (withTransaction (\<lambda>tx. ebind (resolveTransaction tx) (\<lambda>_. on_db (pruneOnTx env w net (nat \<lfloor>r\<rfloor>)))) no_tx_options fl)
         world = (res, world')"
    using assms by (auto simp: prune_def assertValidCheckpointIds_def withAbort_def split: if_splits)
  then show ?thesis
  proof cases
    case 1
    then show ?thesis by blast
  next
    case 2
    then have "1 \<le> nat \<lfloor>r\<rfloor>" by (simp add: le_nat_floor le_floor_iff nat_le_eq_zle [of 1, simplified])
    with 2(2) show ?thesis
      by (cases res) (auto simp: emap_error_Inl dest: withTransaction_rollback dest!: own_transaction_Inr pruneOnTx_Inr)
  qed
qed

lemma ckpt_exec_cases:
  assumes "ckpt_inv sha (w_db world)" and "ckpt_exec sha c world = (r, world')"
  shows "ckpt_inv sha (w_db world')
    \<and> (\<forall>w net. next_sequence (w_db world') w net = next_sequence (w_db world) w net
         + (case (c, r) of (SaveCall _ _ w' net' _ _, Inr _) \<Rightarrow> if w' = w \<and> net' = net then 1 else 0 | _ \<Rightarrow> 0))
    \<and> (\<forall>s. r = Inr (Some s) \<longrightarrow> (\<exists>env fl w net data opts. c = SaveCall env fl w net data opts
         \<and> s = next_sequence (w_db world) w net))"
proof (cases c)
  case (SaveCall env fl w net data opts)
  let ?o = "opts\<lparr>so_tx := None\<rparr>"
  obtain q where s: "save sha env fl w net data ?o world = (q, world')" and r: "r = map_sum id (Some \<circ> cs_sequence) q"
    using assms(2) SaveCall by (auto simp: ebind_def split: prod.splits sum.splits)
  from save_own_cases [OF s] assms(1) show ?thesis
    by (cases q) (auto simp: SaveCall r ckpt_inv_saved next_sequence_def)
next
  case (PruneCall env fl w net n sig)
  obtain q where "prune env fl w net n sig world = (q, world')" and r: "r = map_sum id (\<lambda>_. None) q"
    using assms(2) PruneCall by (auto simp: ebind_def split: prod.splits sum.splits)
  from prune_cases [OF this(1)] assms(1) show ?thesis
    by (cases q) (auto simp: PruneCall r ckpt_inv_pruned next_sequence_def)
qed

text \<open>The sequence numbers handed out for one wallet and network, in order.\<close>

fun handed_out :: "jsstr \<Rightarrow> jsstr \<Rightarrow> ckpt_call list \<Rightarrow> (js_error + int option) list \<Rightarrow> int list" where
  "handed_out w net (SaveCall _ _ w' net' _ _ # cs) (Inr (Some s) # rs) =
     (if w' = w \<and> net' = net then [s] else []) @ handed_out w net cs rs"
| "handed_out w net (c # cs) (r # rs) = handed_out w net cs rs"
| "handed_out w net _ _ = []"

lemma handed_out_step:
  assumes "ckpt_inv sha (w_db world)" and "ckpt_exec sha c world = (r, world1)"
    and "handed_out w net cs rs = [next_sequence (w_db world1) w net .. next_sequence (w_db world') w net - 1]"
    and "next_sequence (w_db world1) w net \<le> next_sequence (w_db world') w net"
  shows "handed_out w net (c # cs) (r # rs) = [next_sequence (w_db world) w net .. next_sequence (w_db world') w net - 1]
     \<and> next_sequence (w_db world) w net \<le> next_sequence (w_db world') w net"
proof (cases c)
  case (SaveCall env fl w' net' data opts)
  note step = ckpt_exec_cases [OF assms(1,2)]
  show ?thesis
  proof (cases r)
    case (Inl e)
    with SaveCall step assms(3,4) show ?thesis by simp
  next
    case (Inr q)
    then obtain s where q: "q = Some s" using assms(2) SaveCall by (auto simp: ebind_def split: prod.splits sum.splits)
    with Inr SaveCall step assms(3,4) show ?thesis
      by (cases "w' = w \<and> net' = net") (auto simp: upto_rec1)
  qed
next
  case (PruneCall env fl w' net' n sig)
  with ckpt_exec_cases [OF assms(1,2)] assms(3,4) show ?thesis by simp
qed

lemma handed_out_run:
  assumes "ckpt_inv sha (w_db world)" and "run_calls (ckpt_exec sha) cs world = (rs, world')"
  shows "handed_out w net cs rs = [next_sequence (w_db world) w net .. next_sequence (w_db world') w net - 1]
     \<and> next_sequence (w_db world) w net \<le> next_sequence (w_db world') w net"
  using assms
proof (induction cs arbitrary: world rs)
  case Nil
  then show ?case by simp
next
  case (Cons c cs)
  obtain r world1 where c: "ckpt_exec sha c world = (r, world1)" by fastforce
  obtain rs1 where rs: "run_calls (ckpt_exec sha) cs world1 = (rs1, world')" "rs = r # rs1"
    using Cons.prems(2) c by (auto split: prod.splits)
  from ckpt_exec_cases [OF Cons.prems(1) c] have "ckpt_inv sha (w_db world1)" by blast
  from handed_out_step [OF Cons.prems(1) c] Cons.IH [OF this rs(1)] rs(2) show ?case by blast
qed

text \<open>
  The invariant holds at all times: whatever saves and prunes are called, in whatever order, with
  whatever arguments, and however the server and the driver fail, the store stays well-formed: chunks
  under their own hash, no dangling reference, dense positions, manifest hashes that match, strictly
  increasing sequence numbers.
\<close>

lemma ckpt_inv_always:
  assumes "run_calls (ckpt_exec sha) calls initial_world = (rs, world)"
  shows "ckpt_inv sha (w_db world)"
  by (rule run_calls_invariant [OF _ _ assms, of "\<lambda>w. ckpt_inv sha (w_db w)"])
     (use ckpt_exec_cases in \<open>metis prod.collapse\<close>, simp)

text \<open>
  Sequence numbers are gapless: for every wallet and network the successful saves return 1, 2, 3
  and so on, without a gap and without a repeat, in any mix of saves and prunes of any wallets,
  whatever fails in between (a failed save gives its number back).
\<close>

lemma sequences_gapless:
  assumes "run_calls (ckpt_exec sha) calls initial_world = (rs, world)"
  shows "\<exists>n. handed_out w net calls rs = [1..n]"
  using handed_out_run [OF _ assms, of w net] by (auto simp: next_sequence_def)

text \<open>
  The chunker: for every valid option set the chunks concatenate to the input, every chunk but
  possibly none is non-empty and at most the chunk size, their number is the quotient rounded up, and
  the sub-batches of the two inserts never reach the driver's parameter limit.
\<close>

lemma splitChunks_partition:
  assumes "SaveCheckpointOptionsSchema opts" and "n = chunk_size opts" and "chunks = splitChunks data n"
  shows "concat chunks = data \<and> (\<forall>c \<in> set chunks. c \<noteq> [] \<and> length c \<le> n)
    \<and> length chunks = (length data + n - 1) div n
    \<and> (\<forall>b \<in> set (slices CHUNK_INSERT_MAX_ROWS 0 (dedupe_chunks [] (zip (map sha chunks) chunks))). 2 * length b < 65534)
    \<and> (\<forall>b \<in> set (slices JUNCTION_INSERT_MAX_ROWS 0 (junction_rows mid (map sha chunks))). 3 * length b < 65534)"
proof -
  have n: "0 < n" using chunk_size_pos [OF assms(1)] assms(2) by simp
  have "concat chunks = data" using splitChunks_concat [OF n] assms(3) by simp
  moreover have "c \<noteq> [] \<and> length c \<le> n" if "c \<in> set chunks" for c
    using slices_bound [OF n, of c 0 data] that assms(3) by (simp add: splitChunks_def)
  moreover have "length chunks = (length data + n - 1) div n"
    using length_slices [OF n, of 0 data] assms(3) by (simp add: splitChunks_def)
  moreover have "2 * length b < 65534"
    if "b \<in> set (slices CHUNK_INSERT_MAX_ROWS 0 (dedupe_chunks [] (zip (map sha chunks) chunks)))" for b
    using slices_bound [OF _ that] by (simp add: CHUNK_INSERT_MAX_ROWS_def)
  moreover have "3 * length b < 65534"
    if "b \<in> set (slices JUNCTION_INSERT_MAX_ROWS 0 (junction_rows mid (map sha chunks)))" for b
    using slices_bound [OF _ that] by (simp add: JUNCTION_INSERT_MAX_ROWS_def)
  ultimately show ?thesis by blast
qed

end
