(* ===== verification/WalletEnvelope.thy ===== *)
theory WalletEnvelope
  imports JsonParse CheckpointStore
begin

text \<open>
  The wallet state envelope: its codec (\<^verbatim>\<open>src/src/interfaces/wallet-state-envelope.ts\<close>) and the store that
  keeps one envelope per checkpoint (\<^verbatim>\<open>src/src/postgres/wallet-state-envelope.ts\<close>). A caller's value is
  any JavaScript value, as the schema checks it at run time; what it accepts is the record \<open>envelope\<close>.
\<close>

section \<open>The envelope and its schema\<close>

record envelope =
  en_envelopeVersion :: int
  en_walletId :: jsstr
  en_networkId :: jsstr
  en_shielded :: "jsstr option"
  en_unshielded :: "jsstr option"
  en_dust :: "jsstr option"

definition ENVELOPE_VERSION :: int where
  "ENVELOPE_VERSION = 1"

definition SubWalletStringSchema :: "jsstr \<Rightarrow> bool" where
  "SubWalletStringSchema s \<longleftrightarrow> \<not> hasPostgresUnsafeText s"

text \<open>The value of one slot: absent (or of another type) is refused, \<^verbatim>\<open>null\<close> is an empty slot.\<close>

definition SubWalletSlotSchema :: "jsval option \<Rightarrow> jsstr option option" where
  "SubWalletSlotSchema v =
     (case v of
        Some (JStr s) \<Rightarrow> if SubWalletStringSchema s then Some (Some s) else None
      | Some JNull \<Rightarrow> Some None
      | _ \<Rightarrow> None)"

definition positive_int :: "jsval option \<Rightarrow> int option" where
  "positive_int v =
     (case v of
        Some (JNum x) \<Rightarrow> if x = of_int \<lfloor>x\<rfloor> \<and> 0 < x \<and> x \<le> of_int MAX_SAFE_INTEGER then Some \<lfloor>x\<rfloor> else None
      | _ \<Rightarrow> None)"

definition id_text :: "jsval option \<Rightarrow> jsstr option" where
  "id_text v =
     (case v of
        Some (JStr s) \<Rightarrow> if s \<noteq> [] \<and> \<not> hasPostgresUnsafeText s then Some s else None
      | _ \<Rightarrow> None)"

definition strict :: "string list \<Rightarrow> (jsstr \<times> jsval) list \<Rightarrow> bool" where
  "strict names kvs = list_all (\<lambda>kv. List.member (map js names) (fst kv)) kvs"

definition sub_wallets :: "jsval option \<Rightarrow> (jsstr option \<times> jsstr option \<times> jsstr option) option" where
  "sub_wallets v =
     (case v of
        Some (JObj kvs) \<Rightarrow>
          if strict [''shielded'', ''unshielded'', ''dust''] kvs then
            (case (SubWalletSlotSchema (map_of kvs (js ''shielded'')), SubWalletSlotSchema (map_of kvs (js ''unshielded'')),
                   SubWalletSlotSchema (map_of kvs (js ''dust''))) of
               (Some a, Some b, Some c) \<Rightarrow> Some (a, b, c)
             | _ \<Rightarrow> None)
          else None
      | _ \<Rightarrow> None)"

definition WalletStateEnvelopeShapeSchema :: "jsval \<Rightarrow> envelope option" where
  "WalletStateEnvelopeShapeSchema v =
     (case v of
        JObj kvs \<Rightarrow>
          if strict [''envelopeVersion'', ''walletId'', ''networkId'', ''subWallets''] kvs then
            (case (positive_int (map_of kvs (js ''envelopeVersion'')), id_text (map_of kvs (js ''walletId'')),
                   id_text (map_of kvs (js ''networkId'')), sub_wallets (map_of kvs (js ''subWallets''))) of
               (Some n, Some w, Some net, Some (a, b, c)) \<Rightarrow>
                 Some \<lparr>en_envelopeVersion = n, en_walletId = w, en_networkId = net, en_shielded = a, en_unshielded = b, en_dust = c\<rparr>
             | _ \<Rightarrow> None)
          else None
      | _ \<Rightarrow> None)"

text \<open>The parsed data as the object \<^verbatim>\<open>JSON.stringify\<close> prints: the keys in the order of the schema.\<close>

definition slot_value :: "jsstr option \<Rightarrow> jsval" where
  "slot_value s = (case s of None \<Rightarrow> JNull | Some t \<Rightarrow> JStr t)"

definition envelope_value :: "envelope \<Rightarrow> jsval" where
  "envelope_value e =
     JObj [(js ''envelopeVersion'', JNum (of_int (en_envelopeVersion e))), (js ''walletId'', JStr (en_walletId e)),
           (js ''networkId'', JStr (en_networkId e)),
           (js ''subWallets'', JObj [(js ''shielded'', slot_value (en_shielded e)), (js ''unshielded'', slot_value (en_unshielded e)),
                                     (js ''dust'', slot_value (en_dust e))])]"

section \<open>The codec\<close>

definition encode :: "(rat \<Rightarrow> jsstr) \<Rightarrow> jsval \<Rightarrow> js_error + bytes" where
  "encode num v =
     (case WalletStateEnvelopeShapeSchema v of
        None \<Rightarrow> Inl (validation_error ''WalletStateEnvelope.encode'')
      | Some e \<Rightarrow>
          if en_envelopeVersion e \<noteq> ENVELOPE_VERSION then Inl (validation_error ''WalletStateEnvelope.encode: envelopeVersion'')
          else Inr (TextEncoder_encode (JSON_text num (envelope_value e))))"

abbreviation corrupt :: "string \<Rightarrow> js_error" where
  "corrupt m \<equiv> StorageErr (EnvelopeCorruptError m)"

definition decode_value :: "jsval \<Rightarrow> js_error + envelope" where
  "decode_value raw =
     (case raw of
        JObj kvs \<Rightarrow>
          (case map_of kvs (js ''envelopeVersion'') of
             Some (JNum x) \<Rightarrow>
               if x \<noteq> of_int \<lfloor>x\<rfloor> \<or> x \<le> 0 then Inl (corrupt ''envelopeVersion is missing or not a positive integer'')
               else if \<lfloor>x\<rfloor> \<noteq> ENVELOPE_VERSION then Inl (StorageErr (EnvelopeVersionUnsupportedError \<lfloor>x\<rfloor>))
               else (case WalletStateEnvelopeShapeSchema raw of
                       None \<Rightarrow> Inl (corrupt ''payload does not satisfy the envelope schema'')
                     | Some e \<Rightarrow> Inr (e\<lparr>en_envelopeVersion := ENVELOPE_VERSION\<rparr>))
           | _ \<Rightarrow> Inl (corrupt ''envelopeVersion is missing or not a positive integer''))
      | _ \<Rightarrow> Inl (corrupt ''payload is not a JSON object''))"

text \<open>\<open>None\<close> when the JSON reader runs out of the given fuel; \<open>decode\<close> gives it twice the length of the text.\<close>

definition decode_fuel :: "nat \<Rightarrow> bytes \<Rightarrow> (js_error + envelope) option" where
  "decode_fuel n bs =
     (case TextDecoder_decode bs of
        None \<Rightarrow> Some (Inl (corrupt ''payload is not valid UTF-8''))
      | Some t \<Rightarrow>
          (case JSON_parse_fuel n t of
             Parsed None _ \<Rightarrow> Some (Inl (corrupt ''payload is not valid JSON''))
           | Parsed (Some raw) _ \<Rightarrow> Some (decode_value raw)
           | _ \<Rightarrow> None))"

definition decode :: "bytes \<Rightarrow> js_error + envelope" where
  "decode bs = (case decode_fuel (Suc (2 * length bs)) bs of Some r \<Rightarrow> r | None \<Rightarrow> Inl (NonError ''no result''))"

section \<open>The store\<close>

definition get_prop :: "jsval \<Rightarrow> string \<Rightarrow> js_error + jsval" where
  "get_prop v k =
     (case v of
        JNull \<Rightarrow> Inl (plain_error ''TypeError'')
      | JUndefined \<Rightarrow> Inl (plain_error ''TypeError'')
      | JObj kvs \<Rightarrow> Inr (case map_of kvs (js k) of Some x \<Rightarrow> x | None \<Rightarrow> JUndefined)
      | _ \<Rightarrow> Inr JUndefined)"

definition save_envelope ::
  "(bytes \<Rightarrow> bytes) \<Rightarrow> (rat \<Rightarrow> jsstr) \<Rightarrow> pg_env \<Rightarrow> tx_faults \<Rightarrow> jsstr \<Rightarrow> jsstr \<Rightarrow> jsval \<Rightarrow> save_opts \<Rightarrow> checkpoint_summary run" where
  "save_envelope sha num env fl walletId networkId v opts =
     ebind (elift (get_prop v ''walletId'')) (\<lambda>w.
     ebind (elift (if w \<noteq> JStr walletId then Inr True else case get_prop v ''networkId'' of Inl e \<Rightarrow> Inl e | Inr n \<Rightarrow> Inr (n \<noteq> JStr networkId))) (\<lambda>differs.
       if differs then ethrow (validation_error ''PgWalletStateEnvelopeStore.save'')
       else ebind (elift (encode num v)) (\<lambda>bs. save sha env fl walletId networkId bs opts)))"

definition load_envelope ::
  "(bytes \<Rightarrow> bytes) \<Rightarrow> pg_env \<Rightarrow> tx_faults \<Rightarrow> jsstr \<Rightarrow> jsstr \<Rightarrow> int option \<Rightarrow> signal \<Rightarrow> envelope run" where
  "load_envelope sha env fl walletId networkId sequence signal =
     ebind (load sha env fl walletId networkId sequence signal) (\<lambda>rec.
     ebind (elift (decode (cr_data rec))) (\<lambda>e.
       if en_walletId e \<noteq> walletId \<or> en_networkId e \<noteq> networkId then ethrow (corrupt ''PgWalletStateEnvelopeStore.load'')
       else eret e))"

section \<open>Decoding terminates\<close>

lemma map_option_length: "map_option (length \<circ> (@) a) x = map_option (\<lambda>s. length a + length s) x"
  by (cases x) simp_all

lemma utf16_point_length: "length (utf16_point c) \<le> 2"
  by (simp add: utf16_point_def)

lemma utf16_point_short: "c < 0x10000 \<Longrightarrow> length (utf16_point c) = 1"
  by (simp add: utf16_point_def)

lemma utf8_units_length: "utf8_units bs = Some s \<Longrightarrow> length s \<le> length bs"
proof (induction bs arbitrary: s rule: utf8_units.induct)
  case (2 a bs)
  note len = utf16_point_length
  consider "a < 0x80" | "\<not> a < 0x80" "0xC0 \<le> a \<and> a < 0xE0" | "\<not> a < 0x80" "\<not> (0xC0 \<le> a \<and> a < 0xE0)" "0xE0 \<le> a \<and> a < 0xF0"
    | "\<not> a < 0x80" "\<not> (0xC0 \<le> a \<and> a < 0xE0)" "\<not> (0xE0 \<le> a \<and> a < 0xF0)" "0xF0 \<le> a \<and> a < 0xF8"
    | "\<not> a < 0x80" "\<not> (0xC0 \<le> a \<and> a < 0xE0)" "\<not> (0xE0 \<le> a \<and> a < 0xF0)" "\<not> (0xF0 \<le> a \<and> a < 0xF8)"
    by blast
  then show ?case
  proof cases
    case 1
    then have "length (utf16_point (unat a)) = 1" by (intro utf16_point_short) (simp add: word_less_nat_alt)
    with 1 "2.prems" "2.IH"(1) [OF 1] show ?thesis by auto
  next
    case 2
    with "2.prems" obtain b bs' c u where b: "bs = b # bs'" "is_cont b" "scalar 0x80 ((unat a - 0xC0) * 64 + (unat b - 0x80)) = Some c"
        "utf8_units bs' = Some u" "s = utf16_point c @ u"
      by (auto split: list.splits if_splits option.splits)
    with "2.IH"(2) [OF 2 b(1-3) b(4)] len [of c] show ?thesis by simp
  next
    case 3
    with "2.prems" obtain b b' bs' c u where b: "bs = b # b' # bs'" "is_cont b \<and> is_cont b'"
        "scalar 0x800 ((unat a - 0xE0) * 4096 + (unat b - 0x80) * 64 + (unat b' - 0x80)) = Some c"
        "utf8_units bs' = Some u" "s = utf16_point c @ u"
      by (auto split: list.splits if_splits option.splits)
    with "2.IH"(3) [OF 3 b(1) refl b(2,3) b(4)] len [of c] show ?thesis by simp
  next
    case 4
    with "2.prems" obtain b b' b'' bs' c u where b: "bs = b # b' # b'' # bs'" "is_cont b \<and> is_cont b' \<and> is_cont b''"
        "scalar 0x10000 ((unat a - 0xF0) * 262144 + (unat b - 0x80) * 4096 + (unat b' - 0x80) * 64 + (unat b'' - 0x80)) = Some c"
        "utf8_units bs' = Some u" "s = utf16_point c @ u"
      by (auto split: list.splits if_splits option.splits)
    with "2.IH"(4) [OF 4 b(1) refl refl b(2,3) b(4)] len [of c] show ?thesis by simp
  next
    case 5
    with "2.prems" show ?thesis by simp
  qed
qed simp


lemma decode_fuel_enough:
  assumes "2 * length bs < n"
  shows "decode_fuel n bs = Some (decode bs)"
proof -
  have "decode_fuel m bs = (case TextDecoder_decode bs of None \<Rightarrow> Some (Inl (corrupt ''payload is not valid UTF-8''))
      | Some t \<Rightarrow> Some (case JSON_parse t of None \<Rightarrow> Inl (corrupt ''payload is not valid JSON'') | Some raw \<Rightarrow> decode_value raw))"
    if "2 * length bs < m" for m
  proof (cases "TextDecoder_decode bs")
    case (Some t)
    then have "length t \<le> length bs"
      using utf8_units_length by (fastforce simp: TextDecoder_decode_def split: if_splits)
    with that have "JSON_parse_fuel m t = Parsed (JSON_parse t) []" by (intro JSON_parse_terminates) simp
    with Some show ?thesis by (simp add: decode_fuel_def split: option.splits)
  qed (simp add: decode_fuel_def)
  from this [of n] this [of "Suc (2 * length bs)"] assms show ?thesis
    by (simp add: decode_def split: option.splits)
qed

lemma decode_eq:
  "decode bs = (case TextDecoder_decode bs of None \<Rightarrow> Inl (corrupt ''payload is not valid UTF-8'')
      | Some t \<Rightarrow> (case JSON_parse t of None \<Rightarrow> Inl (corrupt ''payload is not valid JSON'') | Some raw \<Rightarrow> decode_value raw))"
proof (cases "TextDecoder_decode bs")
  case (Some t)
  then have "length t \<le> length bs"
    using utf8_units_length by (fastforce simp: TextDecoder_decode_def split: if_splits)
  then have "JSON_parse_fuel (Suc (2 * length bs)) t = Parsed (JSON_parse t) []" by (intro JSON_parse_terminates) simp
  with Some show ?thesis by (simp add: decode_def decode_fuel_def split: option.splits)
qed (simp add: decode_def decode_fuel_def)

section \<open>Valid envelopes\<close>

definition envelope_ok :: "envelope \<Rightarrow> bool" where
  "envelope_ok e \<longleftrightarrow>
     en_envelopeVersion e = ENVELOPE_VERSION \<and> en_walletId e \<noteq> [] \<and> en_networkId e \<noteq> []
   \<and> (\<forall>s \<in> {en_walletId e, en_networkId e} \<union> set_option (en_shielded e) \<union> set_option (en_unshielded e) \<union> set_option (en_dust e).
        \<not> hasPostgresUnsafeText s)"

lemma slot_schema_value: "SubWalletSlotSchema (Some (slot_value s)) = (if \<forall>t \<in> set_option s. \<not> hasPostgresUnsafeText t then Some s else None)"
  by (cases s) (simp_all add: SubWalletSlotSchema_def slot_value_def SubWalletStringSchema_def)

lemma slot_schema_safe: "SubWalletSlotSchema v = Some s \<Longrightarrow> t \<in> set_option s \<Longrightarrow> \<not> hasPostgresUnsafeText t"
  by (auto simp: SubWalletSlotSchema_def SubWalletStringSchema_def split: option.splits jsval.splits if_splits)

lemma id_text_safe: "id_text v = Some s \<Longrightarrow> s \<noteq> [] \<and> \<not> hasPostgresUnsafeText s"
  by (auto simp: id_text_def split: option.splits jsval.splits if_splits)

lemma schema_ok':
  assumes "WalletStateEnvelopeShapeSchema v = Some e"
  shows "envelope_ok (e\<lparr>en_envelopeVersion := ENVELOPE_VERSION\<rparr>)"
  using assms
  by (auto simp: WalletStateEnvelopeShapeSchema_def envelope_ok_def sub_wallets_def split: jsval.splits if_splits option.splits
      dest: id_text_safe slot_schema_safe)

lemma schema_ok: "WalletStateEnvelopeShapeSchema v = Some e \<Longrightarrow> en_envelopeVersion e = ENVELOPE_VERSION \<Longrightarrow> envelope_ok e"
  using schema_ok' [of v e] by (cases e) simp

lemma positive_integer: "(x :: rat) = of_int \<lfloor>x\<rfloor> \<Longrightarrow> 0 < x \<Longrightarrow> \<not> x < 1"
  by (metis floor_less_one linorder_not_le of_int_0_less_iff zero_less_one_class.zero_le_one zle_diff1_eq diff_self not_less)

lemma schema_value: "envelope_ok e \<Longrightarrow> WalletStateEnvelopeShapeSchema (envelope_value e) = Some e"
  by (auto simp: envelope_ok_def WalletStateEnvelopeShapeSchema_def envelope_value_def strict_def positive_int_def id_text_def sub_wallets_def
      slot_schema_value ENVELOPE_VERSION_def MAX_SAFE_INTEGER_def)

lemma printable_envelope: "en_envelopeVersion e = ENVELOPE_VERSION \<Longrightarrow> printable num (envelope_value e)"
  using reads_back_int [of 1 num]
  by (auto simp: envelope_value_def ENVELOPE_VERSION_def is_index_def js_def is_digit_def slot_value_def split: option.splits
      intro!: object_of_plain)

lemma decode_value_envelope: "envelope_ok e \<Longrightarrow> decode_value (envelope_value e) = Inr e"
  using schema_value [of e] by (simp add: decode_value_def envelope_value_def envelope_ok_def ENVELOPE_VERSION_def)

lemma decode_encoded:
  assumes "envelope_ok e"
  shows "decode (TextEncoder_encode (JSON_text num (envelope_value e))) = Inr e"
proof -
  have p: "printable num (envelope_value e)" using assms by (intro printable_envelope) (simp add: envelope_ok_def)
  show ?thesis
    using JSON_bytes_roundtrip [OF p [unfolded envelope_value_def], folded envelope_value_def] decode_value_envelope [OF assms]
    by (simp add: decode_eq)
qed

section \<open>What the envelope needs of a payload store\<close>

text \<open>
  A store of opaque bytes: after a successful \<open>put\<close> in a state where \<open>ready\<close> holds, \<open>fetch\<close> with the receipt
  returns the bytes. That is all the envelope store relies on.
\<close>

locale payload_store =
  fixes put :: "bytes \<Rightarrow> 's \<Rightarrow> (js_error + 'r) \<times> 's" and fetch :: "'r \<Rightarrow> 's \<Rightarrow> js_error + bytes" and ready :: "bytes \<Rightarrow> 's \<Rightarrow> bool"
  assumes fetch_put: "ready bs s \<Longrightarrow> put bs s = (Inr r, s') \<Longrightarrow> fetch r s' = Inr bs"
begin

lemma envelope_kept:
  assumes "envelope_ok e" and "ready (TextEncoder_encode (JSON_text num (envelope_value e))) s"
    and "put (TextEncoder_encode (JSON_text num (envelope_value e))) s = (Inr r, s')"
  shows "\<exists>bs. fetch r s' = Inr bs \<and> decode bs = Inr e"
  using fetch_put [OF assms(2,3)] decode_encoded [OF assms(1)] by blast

end

text \<open>The checkpoint store is one, read back by the newest checkpoint or by the sequence number of the receipt.\<close>

interpretation checkpoints: payload_store
  "\<lambda>bs. save sha env no_faults w net bs opts"
  "\<lambda>s world. map_sum id cr_data (fst (load sha env' no_faults w net (if latest then None else Some (cs_sequence s)) NoSignal world))"
  "\<lambda>bs world. ckpt_inv sha (w_db world) \<and> save_ok sha env w net bs opts world
     \<and> (\<forall>k \<in> set (ckpts (w_db world) w net). k_seq k \<le> MAX_SAFE_INTEGER) \<and> env_faults env' = (\<lambda>_. None)"
  for sha env w net opts env' latest
proof unfold_locales
  fix bs world s world'
  assume a: "ckpt_inv sha (w_db world) \<and> save_ok sha env w net bs opts world
     \<and> (\<forall>k \<in> set (ckpts (w_db world) w net). k_seq k \<le> MAX_SAFE_INTEGER) \<and> env_faults env' = (\<lambda>_. None)"
    and run: "save sha env no_faults w net bs opts world = (Inr s, world')"
  then have "\<exists>rec. fst (load sha env' no_faults w net (if latest then None else Some (cs_sequence s)) NoSignal world') = Inr rec \<and> cr_data rec = bs"
    using save_load_data [of sha world env w net bs opts s world' env' "if latest then None else Some (cs_sequence s)"] by auto
  then show "map_sum id cr_data (fst (load sha env' no_faults w net (if latest then None else Some (cs_sequence s)) NoSignal world')) = Inr bs"
    by auto
qed

section \<open>Properties\<close>

lemma schema_ids:
  assumes "WalletStateEnvelopeShapeSchema v = Some e"
  shows "get_prop v ''walletId'' = Inr (JStr (en_walletId e))" "get_prop v ''networkId'' = Inr (JStr (en_networkId e))"
  using assms
  by (auto simp: WalletStateEnvelopeShapeSchema_def id_text_def get_prop_def split: jsval.splits if_splits option.splits)

lemma save_envelope_Inr:
  assumes "save_envelope sha num env fl w net v opts world = (Inr s, world')"
  obtains e where "WalletStateEnvelopeShapeSchema v = Some e" "envelope_ok e" "en_walletId e = w" "en_networkId e = net"
    "save sha env fl w net (TextEncoder_encode (JSON_text num (envelope_value e))) opts world = (Inr s, world')"
proof -
  from assms obtain bs where ids: "get_prop v ''walletId'' = Inr (JStr w)" "get_prop v ''networkId'' = Inr (JStr net)"
    and bs: "encode num v = Inr bs" and run: "save sha env fl w net bs opts world = (Inr s, world')"
    by (auto simp: save_envelope_def ebind_def split: sum.splits if_splits)
  from bs obtain e where e: "WalletStateEnvelopeShapeSchema v = Some e" "en_envelopeVersion e = ENVELOPE_VERSION"
    "bs = TextEncoder_encode (JSON_text num (envelope_value e))"
    by (auto simp: encode_def split: option.splits if_splits)
  from that [OF e(1) schema_ok [OF e(1,2)]] run e(3) ids schema_ids [OF e(1)] show ?thesis by simp
qed

text \<open>
  C27. Round trip through the store: an envelope that \<^verbatim>\<open>save\<close> accepted, whatever value the caller passed,
  comes back from \<^verbatim>\<open>load\<close> exactly as the schema read it, by the newest checkpoint or by the returned
  sequence number. The bytes in between are the UTF-8 JSON text that was printed, split, hashed, stored,
  reassembled, verified, decoded and parsed.
\<close>

theorem envelope_roundtrip:
  assumes "ckpt_inv sha (w_db world)"
    and "\<forall>bs. encode num v = Inr bs \<longrightarrow> save_ok sha env w net bs opts world"
    and "\<forall>k \<in> set (ckpts (w_db world) w net). k_seq k \<le> MAX_SAFE_INTEGER"
    and "save_envelope sha num env no_faults w net v opts world = (Inr s, world')"
    and "env_faults env' = (\<lambda>_. None)" and "sequence = None \<or> sequence = Some (cs_sequence s)"
  shows "\<exists>e. WalletStateEnvelopeShapeSchema v = Some e \<and> en_walletId e = w \<and> en_networkId e = net
     \<and> fst (load_envelope sha env' no_faults w net sequence NoSignal world') = Inr e"
proof -
  obtain e where e: "WalletStateEnvelopeShapeSchema v = Some e" "envelope_ok e" "en_walletId e = w" "en_networkId e = net"
    "save sha env no_faults w net (TextEncoder_encode (JSON_text num (envelope_value e))) opts world = (Inr s, world')"
    by (rule save_envelope_Inr [OF assms(4)])
  then have "encode num v = Inr (TextEncoder_encode (JSON_text num (envelope_value e)))" by (simp add: encode_def envelope_ok_def)
  with assms(2) have ok: "save_ok sha env w net (TextEncoder_encode (JSON_text num (envelope_value e))) opts world" by blast
  have "sequence = (if sequence = None then None else Some (cs_sequence s))" using assms(6) by auto
  with checkpoints.envelope_kept [OF e(2) conjI [OF assms(1) conjI [OF ok conjI [OF assms(3,5)]]] e(5), of "sequence = None"]
  have "\<exists>bs. map_sum id cr_data (fst (load sha env' no_faults w net sequence NoSignal world')) = Inr bs \<and> decode bs = Inr e" by simp
  then obtain rec world'' where "load sha env' no_faults w net sequence NoSignal world' = (Inr rec, world'')" "decode (cr_data rec) = Inr e"
    by (cases "load sha env' no_faults w net sequence NoSignal world'"; cases "fst (load sha env' no_faults w net sequence NoSignal world')") auto
  with e(1,3,4) show ?thesis by (simp add: load_envelope_def ebind_def)
qed

text \<open>
  C29. What \<^verbatim>\<open>decode\<close> makes of arbitrary bytes. It fails only with one of the envelope's two errors, and
  \<^verbatim>\<open>EnvelopeVersionUnsupportedError\<close> names a positive version other than the supported one; a JSON object
  with such a version gets that error whatever the rest of it is. What it returns satisfies the schema with
  safe texts, and encoding it again gives bytes that decode to the same envelope.
\<close>

theorem decode_strict:
  "(\<forall>err. decode bs = Inl err \<longrightarrow>
      (\<exists>m. err = StorageErr (EnvelopeCorruptError m)) \<or> (\<exists>n. err = StorageErr (EnvelopeVersionUnsupportedError n) \<and> 0 < n \<and> n \<noteq> ENVELOPE_VERSION))
   \<and> (\<forall>t kvs n. TextDecoder_decode bs = Some t \<longrightarrow> JSON_parse t = Some (JObj kvs) \<longrightarrow> map_of kvs (js ''envelopeVersion'') = Some (JNum (of_int n))
        \<longrightarrow> 0 < n \<longrightarrow> n \<noteq> ENVELOPE_VERSION \<longrightarrow> decode bs = Inl (StorageErr (EnvelopeVersionUnsupportedError n)))
   \<and> (\<forall>e. decode bs = Inr e \<longrightarrow> envelope_ok e \<and> (\<exists>bs'. encode num (envelope_value e) = Inr bs' \<and> decode bs' = Inr e))"
proof (intro conjI allI impI)
  fix err
  assume "decode bs = Inl err"
  then show "(\<exists>m. err = StorageErr (EnvelopeCorruptError m)) \<or> (\<exists>n. err = StorageErr (EnvelopeVersionUnsupportedError n) \<and> 0 < n \<and> n \<noteq> ENVELOPE_VERSION)"
    by (auto simp: decode_eq decode_value_def not_le split: option.splits jsval.splits if_splits dest: positive_integer)
next
  fix e
  assume "decode bs = Inr e"
  then obtain raw e0 where r: "WalletStateEnvelopeShapeSchema raw = Some e0" "e = e0\<lparr>en_envelopeVersion := ENVELOPE_VERSION\<rparr>"
    by (auto simp: decode_eq decode_value_def split: option.splits jsval.splits if_splits)
  show "envelope_ok e" using schema_ok' [OF r(1)] r(2) by simp
  then show "\<exists>bs'. encode num (envelope_value e) = Inr bs' \<and> decode bs' = Inr e"
    using schema_value [of e] decode_encoded [of e num] by (simp add: encode_def envelope_ok_def)
qed (simp add: decode_eq decode_value_def)



definition sample_envelope :: jsval where
  "sample_envelope = JObj [(js ''walletId'', JStr (js ''w'')), (js ''networkId'', JStr (js ''n'')), (js ''envelopeVersion'', JNum 1),
     (js ''subWallets'', JObj [(js ''shielded'', JNull), (js ''unshielded'', JStr (js ''x'')), (js ''dust'', JNull)])]"

lemma sample_encoded: "encode (\<lambda>_. []) sample_envelope = Inr (TextEncoder_encode (js
    ''{\"envelopeVersion\":1,\"walletId\":\"w\",\"networkId\":\"n\",\"subWallets\":{\"shielded\":null,\"unshielded\":\"x\",\"dust\":null}}''))"
  by code_simp


abbreviation sample_bytes :: bytes where
  "sample_bytes \<equiv> TextEncoder_encode (js
    ''{\"envelopeVersion\":1,\"walletId\":\"w\",\"networkId\":\"n\",\"subWallets\":{\"shielded\":null,\"unshielded\":\"x\",\"dust\":null}}'')"

definition big_chunks :: save_opts where
  "big_chunks = \<lparr>so_chunkSize = Some 1000, so_label = None, so_signal = NoSignal, so_tx = None\<rparr>"

lemma one_chunk: "data \<noteq> [] \<Longrightarrow> length data \<le> n \<Longrightarrow> splitChunks data n = [data]"
  by (cases "n = 0") (simp_all add: splitChunks_def slices.simps)

lemma sample_save_ok: "save_ok pad32 (quiet 5000000 1) (js ''w'') (js ''n'') sample_bytes big_chunks initial_world"
proof -
  have i: "CheckpointIdSchema (js ''w'')" "CheckpointIdSchema (js ''n'')" by code_simp+
  have c: "chunk_size big_chunks = 1000" by (simp add: chunk_size_def big_chunks_def)
  have "sample_bytes \<noteq> []" "length sample_bytes \<le> 1000" by code_simp+
  then have s: "splitChunks sample_bytes 1000 = [sample_bytes]" by (rule one_chunk)
  have "collision_free pad32 {sample_bytes}" by (simp add: collision_free_def)
  then show ?thesis
    using i by (simp only: save_ok_def c s Let_def) (simp add: big_chunks_def SaveCheckpointOptionsSchema_def label_ok_def
        next_sequence_def MAX_SAFE_INTEGER_def stored_data_def)
qed

lemma sample_ids: "get_prop sample_envelope ''walletId'' = Inr (JStr (js ''w''))" "get_prop sample_envelope ''networkId'' = Inr (JStr (js ''n''))"
  by (simp_all add: sample_envelope_def get_prop_def)

lemma sample_schema: "WalletStateEnvelopeShapeSchema sample_envelope
     = Some \<lparr>en_envelopeVersion = 1, en_walletId = js ''w'', en_networkId = js ''n'', en_shielded = None, en_unshielded = Some (js ''x''), en_dust = None\<rparr>"
  by code_simp

lemma sample_decoded: "decode sample_bytes = Inr \<lparr>en_envelopeVersion = 1, en_walletId = js ''w'', en_networkId = js ''n'', en_shielded = None, en_unshielded = Some (js ''x''), en_dust = None\<rparr>"
  using decode_encoded [OF schema_ok [OF sample_schema], of "\<lambda>_. []"] sample_encoded by (simp add: encode_def sample_schema ENVELOPE_VERSION_def)

theorem envelope_roundtrip_witness:
  "\<exists>s world'. save_envelope pad32 (\<lambda>_. []) (quiet 5000000 1) no_faults (js ''w'') (js ''n'') sample_envelope big_chunks initial_world = (Inr s, world')
   \<and> fst (load_envelope pad32 (quiet 0 0) no_faults (js ''w'') (js ''n'') None NoSignal world')
     = Inr \<lparr>en_envelopeVersion = 1, en_walletId = js ''w'', en_networkId = js ''n'', en_shielded = None, en_unshielded = Some (js ''x''), en_dust = None\<rparr>"
proof -
  have inv: "ckpt_inv pad32 (w_db initial_world)" by simp
  obtain s world' where "save pad32 (quiet 5000000 1) no_faults (js ''w'') (js ''n'') sample_bytes big_chunks initial_world = (Inr s, world')"
    by (rule save_run [OF inv sample_save_ok]) blast
  then have run: "save_envelope pad32 (\<lambda>_. []) (quiet 5000000 1) no_faults (js ''w'') (js ''n'') sample_envelope big_chunks initial_world = (Inr s, world')"
    using sample_ids by (simp add: save_envelope_def sample_encoded)
  have "\<forall>bs. encode (\<lambda>_. []) sample_envelope = Inr bs \<longrightarrow> save_ok pad32 (quiet 5000000 1) (js ''w'') (js ''n'') bs big_chunks initial_world"
    using sample_save_ok by (simp add: sample_encoded)
  from envelope_roundtrip [OF inv this _ run, of "quiet 0 0" None] have
    "fst (load_envelope pad32 (quiet 0 0) no_faults (js ''w'') (js ''n'') None NoSignal world') = Inr (the (WalletStateEnvelopeShapeSchema sample_envelope))"
    by auto
  then show ?thesis using run sample_schema by simp
qed

theorem decode_strict_witness:
  "decode sample_bytes = Inr \<lparr>en_envelopeVersion = 1, en_walletId = js ''w'', en_networkId = js ''n'', en_shielded = None, en_unshielded = Some (js ''x''), en_dust = None\<rparr>
   \<and> envelope_ok \<lparr>en_envelopeVersion = 1, en_walletId = js ''w'', en_networkId = js ''n'', en_shielded = None, en_unshielded = Some (js ''x''), en_dust = None\<rparr>
   \<and> decode (TextEncoder_encode (js ''{\"envelopeVersion\":2}'')) = Inl (StorageErr (EnvelopeVersionUnsupportedError 2))"
proof -
  let ?e = "\<lparr>en_envelopeVersion = 1, en_walletId = js ''w'', en_networkId = js ''n'', en_shielded = None, en_unshielded = Some (js ''x''), en_dust = None\<rparr>"
  note e = sample_decoded
  have printed: "JSON_text (\<lambda>_. []) (JObj [(js ''envelopeVersion'', JNum 2)]) = js ''{\"envelopeVersion\":2}''" by code_simp
  have "printable (\<lambda>_. []) (JObj [(js ''envelopeVersion'', JNum 2)])"
    using reads_back_int [of 2 "\<lambda>_. []"] by (simp add: object_of_plain is_index_def js_def is_digit_def)
  note dp = JSON_bytes_roundtrip [OF this, unfolded printed]
  have "decode (TextEncoder_encode (js ''{\"envelopeVersion\":2}'')) = Inl (StorageErr (EnvelopeVersionUnsupportedError 2))"
    using decode_strict [of "TextEncoder_encode (js ''{\"envelopeVersion\":2}'')"] dp by (auto simp: ENVELOPE_VERSION_def)
  with e decode_strict [of sample_bytes] show ?thesis by blast
qed


end
