(* ===== verification/TxReplay.thy ===== *)
theory TxReplay
  imports JsFormat
begin

text \<open>
  The replay decoder of archived transactions (\<^verbatim>\<open>src/chain-archive-sync/tx-replay-decoder.ts\<close>). The ledger
  library that deserialises the bytes is injected into the code and is an argument here: \<open>ledger\<close> holds its
  two entry points, and the records below are the parts of its results that the decoder reads. An absent
  (\<^verbatim>\<open>undefined\<close> or \<^verbatim>\<open>null\<close>) part is \<open>None\<close>.
\<close>

section \<open>What the ledger returns\<close>

record zswap_output =
  zo_commitment :: jsstr
  zo_contractAddress :: "jsstr option"

record zswap_input =
  zi_nullifier :: jsstr
  zi_contractAddress :: "jsstr option"

record zswap_offer =
  of_outputs :: "zswap_output list"
  of_inputs :: "zswap_input list"

record utxo_output =
  uo_owner :: jsstr
  uo_type :: jsstr
  uo_value :: int

record dust_spend =
  ds_vFee :: int
  ds_oldNullifier :: jsstr
  ds_newCommitment :: jsstr

record dust_registration =
  dr_nightKey :: jsstr
  dr_dustAddress :: "jsstr option"
  dr_allowFeePayment :: int

record intent =
  in_intentHash :: "int \<Rightarrow> jsstr"
  in_guaranteedUnshieldedOffer :: "utxo_output list option"
  in_fallibleUnshieldedOffer :: "utxo_output list option"
  in_dustActions :: "(dust_spend list \<times> dust_registration list) option"

record ledger_tx =
  tx_guaranteedOffer :: "zswap_offer option"
  tx_fallibleOffer :: "(int \<times> zswap_offer option) list option"
  tx_intents :: "(int \<times> intent) list option"
  tx_transactionHash :: jsstr

record ledger =
  lg_SystemTransaction :: "bytes \<Rightarrow> js_error + jsstr"
  lg_Transaction :: "bytes \<Rightarrow> js_error + ledger_tx"

section \<open>Decoded transactions\<close>

datatype tx_section = Guaranteed_section | Fallible_section

record DecodedZswapOutput =
  dzo_section :: tx_section
  dzo_segmentId :: "int option"
  dzo_commitment :: jsstr
  dzo_contractAddress :: "jsstr option"

record DecodedZswapInput =
  dzi_section :: tx_section
  dzi_segmentId :: "int option"
  dzi_nullifier :: jsstr
  dzi_contractAddress :: "jsstr option"

record DecodedUnshieldedOutput =
  duo_segmentId :: int
  duo_intentHash :: jsstr
  duo_outputIndex :: nat
  duo_section :: tx_section
  duo_owner :: jsstr
  duo_tokenType :: jsstr
  duo_value :: int

record DecodedDustSpend =
  dds_segmentId :: int
  dds_vFee :: int
  dds_oldNullifier :: jsstr
  dds_newCommitment :: jsstr

record DecodedDustRegistration =
  ddr_segmentId :: int
  ddr_nightKey :: jsstr
  ddr_dustAddress :: "jsstr option"
  ddr_allowFeePayment :: int

datatype replay_kind = System_tx | Standard_tx

record DecodedArchivedTransaction =
  dat_kind :: replay_kind
  dat_transactionHash :: "jsstr option"
  dat_systemDescription :: "jsstr option"
  dat_zswapOutputs :: "DecodedZswapOutput list"
  dat_zswapInputs :: "DecodedZswapInput list"
  dat_unshieldedOutputs :: "DecodedUnshieldedOutput list"
  dat_dustSpends :: "DecodedDustSpend list"
  dat_dustRegistrations :: "DecodedDustRegistration list"

section \<open>Tags\<close>

definition SYSTEM_TX_TAG_PREFIX :: jsstr where
  "SYSTEM_TX_TAG_PREFIX = js ''midnight:system-transaction''"

definition STANDARD_TX_TAG_PREFIX :: jsstr where
  "STANDARD_TX_TAG_PREFIX = js ''midnight:transaction''"

definition startsWith :: "jsstr \<Rightarrow> jsstr \<Rightarrow> bool" where
  "startsWith s p \<longleftrightarrow> take (length p) s = p"

text \<open>\<^verbatim>\<open>latin1\<close>: every byte is the code unit of the same number.\<close>

definition tagOf :: "bytes \<Rightarrow> jsstr" where
  "tagOf rawBytes = map (\<lambda>b. of_nat (unat b)) (take (length STANDARD_TX_TAG_PREFIX + 8) rawBytes)"

definition isSystemTransaction :: "bytes \<Rightarrow> bool" where
  "isSystemTransaction rawBytes \<longleftrightarrow> startsWith (tagOf rawBytes) SYSTEM_TX_TAG_PREFIX"

definition isStandardTransaction :: "bytes \<Rightarrow> bool" where
  "isStandardTransaction rawBytes \<longleftrightarrow>
     (let tag = tagOf rawBytes in startsWith tag STANDARD_TX_TAG_PREFIX \<and> \<not> startsWith tag SYSTEM_TX_TAG_PREFIX)"

section \<open>Decoding\<close>

type_synonym zswap_acc = "DecodedZswapOutput list \<times> DecodedZswapInput list"

definition collectOffer :: "zswap_offer option \<Rightarrow> tx_section \<Rightarrow> int option \<Rightarrow> zswap_acc \<Rightarrow> zswap_acc" where
  "collectOffer offer sec segmentId acc =
     (case (offer, acc) of
        (None, _) \<Rightarrow> acc
      | (Some ofr, (outs, ins)) \<Rightarrow>
          (fold (\<lambda>out os. os @ [\<lparr>dzo_section = sec, dzo_segmentId = segmentId, dzo_commitment = zo_commitment out,
                                 dzo_contractAddress = zo_contractAddress out\<rparr>]) (of_outputs ofr) outs,
           fold (\<lambda>inp is. is @ [\<lparr>dzi_section = sec, dzi_segmentId = segmentId, dzi_nullifier = zi_nullifier inp,
                                 dzi_contractAddress = zi_contractAddress inp\<rparr>]) (of_inputs ofr) ins))"

type_synonym intent_acc = "DecodedUnshieldedOutput list \<times> DecodedDustSpend list \<times> DecodedDustRegistration list"

text \<open>One section of an intent; the counter runs on from the section before.\<close>

definition collect_section ::
  "int \<Rightarrow> jsstr \<Rightarrow> tx_section \<Rightarrow> utxo_output list option \<Rightarrow> nat \<times> DecodedUnshieldedOutput list \<Rightarrow> nat \<times> DecodedUnshieldedOutput list" where
  "collect_section segmentId intentHash sec offer acc =
     (case offer of
        None \<Rightarrow> acc
      | Some outputs \<Rightarrow>
          fold (\<lambda>out (outputIndex, us). (Suc outputIndex, us @
            [\<lparr>duo_segmentId = segmentId, duo_intentHash = intentHash, duo_outputIndex = outputIndex, duo_section = sec,
              duo_owner = uo_owner out, duo_tokenType = uo_type out, duo_value = uo_value out\<rparr>])) outputs acc)"

definition collect_intent :: "int \<times> intent \<Rightarrow> intent_acc \<Rightarrow> intent_acc" where
  "collect_intent si acc =
     (case (si, acc) of ((segmentId, i), (us, spends, regs)) \<Rightarrow>
      let intentHash = in_intentHash i segmentId;
          (_, us') = collect_section segmentId intentHash Fallible_section (in_fallibleUnshieldedOffer i)
                       (collect_section segmentId intentHash Guaranteed_section (in_guaranteedUnshieldedOffer i) (0, us)) in
      case in_dustActions i of
        None \<Rightarrow> (us', spends, regs)
      | Some (ss, rs) \<Rightarrow>
          (us',
           fold (\<lambda>s xs. xs @ [\<lparr>dds_segmentId = segmentId, dds_vFee = ds_vFee s, dds_oldNullifier = ds_oldNullifier s,
                              dds_newCommitment = ds_newCommitment s\<rparr>]) ss spends,
           fold (\<lambda>r xs. xs @ [\<lparr>ddr_segmentId = segmentId, ddr_nightKey = dr_nightKey r, ddr_dustAddress = dr_dustAddress r,
                              ddr_allowFeePayment = dr_allowFeePayment r\<rparr>]) rs regs))"

definition decodeArchivedTransaction :: "ledger \<Rightarrow> bytes \<Rightarrow> js_error + DecodedArchivedTransaction" where
  "decodeArchivedTransaction lg rawBytes =
     (if isSystemTransaction rawBytes then
        (case lg_SystemTransaction lg rawBytes of
           Inl e \<Rightarrow> Inl e
         | Inr description \<Rightarrow>
             Inr \<lparr>dat_kind = System_tx, dat_transactionHash = None, dat_systemDescription = Some description,
               dat_zswapOutputs = [], dat_zswapInputs = [], dat_unshieldedOutputs = [], dat_dustSpends = [], dat_dustRegistrations = []\<rparr>)
      else if \<not> isStandardTransaction rawBytes then Inl (plain_error ''decodeArchivedTransaction: unknown self-tag'')
      else
        (case lg_Transaction lg rawBytes of
           Inl e \<Rightarrow> Inl e
         | Inr tx \<Rightarrow>
             let acc = collectOffer (tx_guaranteedOffer tx) Guaranteed_section None ([], []);
                 (outs, ins) = (case tx_fallibleOffer tx of
                    None \<Rightarrow> acc
                  | Some fs \<Rightarrow> fold (\<lambda>(segmentId, offer). collectOffer offer Fallible_section (Some segmentId)) fs acc);
                 (us, spends, regs) = (case tx_intents tx of None \<Rightarrow> ([], [], []) | Some xs \<Rightarrow> fold collect_intent xs ([], [], [])) in
             Inr \<lparr>dat_kind = Standard_tx, dat_transactionHash = Some (tx_transactionHash tx), dat_systemDescription = None,
               dat_zswapOutputs = outs, dat_zswapInputs = ins, dat_unshieldedOutputs = us, dat_dustSpends = spends,
               dat_dustRegistrations = regs\<rparr>))"

section \<open>The loops in closed form\<close>

lemma fold_push: "fold (\<lambda>x xs. xs @ [f x]) ys acc = acc @ map f ys"
  by (induction ys arbitrary: acc) auto

text \<open>The outputs of an intent, each with its section, the guaranteed ones first.\<close>

definition intent_outputs :: "intent \<Rightarrow> (tx_section \<times> utxo_output) list" where
  "intent_outputs i = map (Pair Guaranteed_section) (case in_guaranteedUnshieldedOffer i of None \<Rightarrow> [] | Some os \<Rightarrow> os)
     @ map (Pair Fallible_section) (case in_fallibleUnshieldedOffer i of None \<Rightarrow> [] | Some os \<Rightarrow> os)"

definition numbered :: "int \<Rightarrow> jsstr \<Rightarrow> nat \<Rightarrow> (tx_section \<times> utxo_output) list \<Rightarrow> DecodedUnshieldedOutput list" where
  "numbered seg h n sos = map (\<lambda>(k, sec, out). \<lparr>duo_segmentId = seg, duo_intentHash = h, duo_outputIndex = k, duo_section = sec,
     duo_owner = uo_owner out, duo_tokenType = uo_type out, duo_value = uo_value out\<rparr>) (enumerate n sos)"

lemma collect_outputs:
  "fold (\<lambda>out (outputIndex, us). (Suc outputIndex, us @
     [\<lparr>duo_segmentId = seg, duo_intentHash = h, duo_outputIndex = outputIndex, duo_section = sec,
       duo_owner = uo_owner out, duo_tokenType = uo_type out, duo_value = uo_value out\<rparr>])) outs (n, us)
   = (n + length outs, us @ numbered seg h n (map (Pair sec) outs))"
  by (induction outs arbitrary: n us) (auto simp: numbered_def)

lemma collect_section_eq:
  "collect_section seg h sec offer (n, us)
   = (n + length (case offer of None \<Rightarrow> [] | Some os \<Rightarrow> os), us @ numbered seg h n (map (Pair sec) (case offer of None \<Rightarrow> [] | Some os \<Rightarrow> os)))"
  by (cases offer) (simp_all add: collect_section_def collect_outputs, simp add: numbered_def)

text \<open>The offers of a transaction in the order they are read, each with its section and segment.\<close>

definition tx_offers :: "ledger_tx \<Rightarrow> (tx_section \<times> int option \<times> zswap_offer) list" where
  "tx_offers tx =
     (case tx_guaranteedOffer tx of None \<Rightarrow> [] | Some ofr \<Rightarrow> [(Guaranteed_section, None, ofr)])
   @ List.map_filter (\<lambda>(seg, ofr). map_option (\<lambda>x. (Fallible_section, Some seg, x)) ofr) (case tx_fallibleOffer tx of None \<Rightarrow> [] | Some fs \<Rightarrow> fs)"

definition offer_outputs :: "tx_section \<times> int option \<times> zswap_offer \<Rightarrow> DecodedZswapOutput list" where
  "offer_outputs = (\<lambda>(sec, seg, ofr). map (\<lambda>out. \<lparr>dzo_section = sec, dzo_segmentId = seg, dzo_commitment = zo_commitment out,
     dzo_contractAddress = zo_contractAddress out\<rparr>) (of_outputs ofr))"

definition offer_inputs :: "tx_section \<times> int option \<times> zswap_offer \<Rightarrow> DecodedZswapInput list" where
  "offer_inputs = (\<lambda>(sec, seg, ofr). map (\<lambda>inp. \<lparr>dzi_section = sec, dzi_segmentId = seg, dzi_nullifier = zi_nullifier inp,
     dzi_contractAddress = zi_contractAddress inp\<rparr>) (of_inputs ofr))"

lemma collectOffer_Some:
  "collectOffer (Some ofr) sec seg (outs, ins) = (outs @ offer_outputs (sec, seg, ofr), ins @ offer_inputs (sec, seg, ofr))"
  by (simp add: collectOffer_def fold_push offer_outputs_def offer_inputs_def)

lemma collectOffer_None: "collectOffer None sec seg acc = acc"
  by (simp add: collectOffer_def)

lemma collect_fallible:
  "fold (\<lambda>(segmentId, offer). collectOffer offer Fallible_section (Some segmentId)) fs (outs, ins)
   = (outs @ concat (map offer_outputs (List.map_filter (\<lambda>(seg, ofr). map_option (\<lambda>x. (Fallible_section, Some seg, x)) ofr) fs)),
      ins @ concat (map offer_inputs (List.map_filter (\<lambda>(seg, ofr). map_option (\<lambda>x. (Fallible_section, Some seg, x)) ofr) fs)))"
proof (induction fs arbitrary: outs ins)
  case (Cons f fs)
  then show ?case
    by (cases f; cases "snd f") (simp_all add: collectOffer_Some collectOffer_None List.map_filter_simps)
qed (simp add: List.map_filter_simps)

lemma zswap_eq:
  "(case tx_fallibleOffer tx of
      None \<Rightarrow> collectOffer (tx_guaranteedOffer tx) Guaranteed_section None ([], [])
    | Some fs \<Rightarrow> fold (\<lambda>(segmentId, offer). collectOffer offer Fallible_section (Some segmentId)) fs
        (collectOffer (tx_guaranteedOffer tx) Guaranteed_section None ([], [])))
   = (concat (map offer_outputs (tx_offers tx)), concat (map offer_inputs (tx_offers tx)))"
  by (cases "tx_guaranteedOffer tx"; cases "tx_fallibleOffer tx")
    (simp_all add: collectOffer_Some collectOffer_None collect_fallible tx_offers_def List.map_filter_simps)

definition intent_spends :: "int \<times> intent \<Rightarrow> DecodedDustSpend list" where
  "intent_spends = (\<lambda>(seg, i). map (\<lambda>s. \<lparr>dds_segmentId = seg, dds_vFee = ds_vFee s, dds_oldNullifier = ds_oldNullifier s,
     dds_newCommitment = ds_newCommitment s\<rparr>) (case in_dustActions i of None \<Rightarrow> [] | Some (ss, _) \<Rightarrow> ss))"

definition intent_registrations :: "int \<times> intent \<Rightarrow> DecodedDustRegistration list" where
  "intent_registrations = (\<lambda>(seg, i). map (\<lambda>r. \<lparr>ddr_segmentId = seg, ddr_nightKey = dr_nightKey r, ddr_dustAddress = dr_dustAddress r,
     ddr_allowFeePayment = dr_allowFeePayment r\<rparr>) (case in_dustActions i of None \<Rightarrow> [] | Some (_, rs) \<Rightarrow> rs))"

lemma collect_intent_eq:
  "collect_intent (seg, i) (us, spends, regs)
   = (us @ numbered seg (in_intentHash i seg) 0 (intent_outputs i), spends @ intent_spends (seg, i), regs @ intent_registrations (seg, i))"
proof -
  have app: "numbered s h n (xs @ ys) = numbered s h n xs @ numbered s h (n + length xs) ys" for s h n xs ys
    by (simp add: numbered_def enumerate_append_eq)
  show ?thesis
    by (cases "in_dustActions i")
      (auto simp: collect_intent_def collect_section_eq fold_push intent_spends_def intent_registrations_def intent_outputs_def app Let_def)
qed

lemma collect_intents:
  "fold collect_intent xs (us, spends, regs)
   = (us @ concat (map (\<lambda>(seg, i). numbered seg (in_intentHash i seg) 0 (intent_outputs i)) xs),
      spends @ concat (map intent_spends xs), regs @ concat (map intent_registrations xs))"
  by (induction xs arbitrary: us spends regs) (auto simp: collect_intent_eq)

lemma numbered_index: "map duo_outputIndex (numbered seg h n sos) = [n..<n + length sos]"
proof -
  have "map duo_outputIndex (numbered seg h n sos) = map fst (enumerate n sos)" by (simp only: numbered_def map_map comp_def case_prod_unfold DecodedUnshieldedOutput.select_convs)
  then show ?thesis by simp
qed

section \<open>Properties\<close>

definition output_fields :: "DecodedUnshieldedOutput \<Rightarrow> tx_section \<times> utxo_output" where
  "output_fields u = (duo_section u, \<lparr>uo_owner = duo_owner u, uo_type = duo_tokenType u, uo_value = duo_value u\<rparr>)"

lemma numbered_fields:
  "map output_fields (numbered seg h n sos) = sos" "\<forall>u \<in> set (numbered seg h n sos). duo_segmentId u = seg \<and> duo_intentHash u = h"
  by (induction sos arbitrary: n) (auto simp: numbered_def output_fields_def)


definition sample_intent :: intent where
  "sample_intent = \<lparr>in_intentHash = (\<lambda>_. js ''h''), in_guaranteedUnshieldedOffer = Some [\<lparr>uo_owner = js ''a'', uo_type = js ''t'', uo_value = 5\<rparr>],
     in_fallibleUnshieldedOffer = Some [\<lparr>uo_owner = js ''b'', uo_type = js ''t'', uo_value = 7\<rparr>], in_dustActions = None\<rparr>"

definition sample_tx :: ledger_tx where
  "sample_tx = \<lparr>tx_guaranteedOffer = None, tx_fallibleOffer = None, tx_intents = Some [(1, sample_intent)], tx_transactionHash = js ''x''\<rparr>"

definition sample_ledger :: ledger where
  "sample_ledger = \<lparr>lg_SystemTransaction = (\<lambda>_. Inr (js ''s'')), lg_Transaction = (\<lambda>_. Inr sample_tx)\<rparr>"

definition sample_raw :: bytes where
  "sample_raw = map of_char ''midnight:transaction[v9](signature[v1],proof)''"


end
