(* ===== verification/Client.thy ===== *)
theory Client
  imports TransactionLease
begin

text \<open>
  The connection factory (\<^verbatim>\<open>src/src/postgres/client.ts\<close>): the schema-name check, the check that a
  connection string does not override a setting, the timeout bounds, and the options given to the driver.
\<close>

section \<open>Schema names\<close>

definition lower_letter :: "16 word \<Rightarrow> bool" where
  "lower_letter c \<longleftrightarrow> 0x61 \<le> c \<and> c \<le> 0x7A"

definition ident_char :: "16 word \<Rightarrow> bool" where
  "ident_char c \<longleftrightarrow> lower_letter c \<or> (0x30 \<le> c \<and> c \<le> 0x39) \<or> c = 0x5F"

definition SCHEMA_NAME_PATTERN :: "jsstr \<Rightarrow> bool" where
  "SCHEMA_NAME_PATTERN s \<longleftrightarrow>
     (case s of [] \<Rightarrow> False | c # cs \<Rightarrow> (lower_letter c \<or> c = 0x5F) \<and> list_all ident_char cs)"

definition POSTGRES_MAX_IDENTIFIER_BYTES :: nat where
  "POSTGRES_MAX_IDENTIFIER_BYTES = 63"

definition assertValidSchemaName :: "jsstr \<Rightarrow> js_error + unit" where
  "assertValidSchemaName schema =
     (if \<not> SCHEMA_NAME_PATTERN schema then Inl (plain_error ''invalid schema name'')
      else if POSTGRES_MAX_IDENTIFIER_BYTES < length schema then Inl (plain_error ''invalid schema name: exceeds the identifier limit'')
      else Inr ())"

section \<open>The connection string\<close>

text \<open>The pattern \<^verbatim>\<open>[?&]param=\<close> with the flag \<^verbatim>\<open>i\<close>, anywhere in the string.\<close>

definition ascii_lower :: "16 word \<Rightarrow> 16 word" where
  "ascii_lower c = (if 0x41 \<le> c \<and> c \<le> 0x5A then c + 0x20 else c)"

definition sets_param :: "jsstr \<Rightarrow> string \<Rightarrow> bool" where
  "sets_param conn param \<longleftrightarrow>
     list_ex (\<lambda>i. conn ! i \<in> {0x3F, 0x26} \<and> starts_with (map ascii_lower (drop (Suc i) conn)) (js param @ [0x3D])) [0..<length conn]"

definition guarded_params :: "string list" where
  "guarded_params = [''search_path'', ''statement_timeout'', ''lock_timeout'', ''idle_in_transaction_session_timeout'']"

definition assertNoConflictingSearchPath :: "jsstr \<Rightarrow> js_error + unit" where
  "assertNoConflictingSearchPath conn =
     (if list_ex (sets_param conn) guarded_params then Inl (plain_error ''connectionString must not set a guarded query parameter'')
      else Inr ())"

section \<open>Options\<close>

definition DEFAULT_SCHEMA :: jsstr where
  "DEFAULT_SCHEMA = js ''umbradb''"

definition DEFAULT_STATEMENT_TIMEOUT_MS :: rat where
  "DEFAULT_STATEMENT_TIMEOUT_MS = 120000"

definition DEFAULT_LOCK_TIMEOUT_MS :: rat where
  "DEFAULT_LOCK_TIMEOUT_MS = 30000"

definition DEFAULT_IDLE_IN_TX_TIMEOUT_MS :: rat where
  "DEFAULT_IDLE_IN_TX_TIMEOUT_MS = 120000"

record connection_options =
  co_connectionString :: "jsstr option"
  co_schema :: "jsstr option"
  co_maxConnections :: "rat option"
  co_connectTimeout :: "rat option"
  co_statementTimeoutMs :: "rat option"
  co_lockTimeoutMs :: "rat option"
  co_idleInTxTimeoutMs :: "rat option"

definition bad_timeout :: "rat option \<Rightarrow> bool" where
  "bad_timeout v \<longleftrightarrow> (case v of None \<Rightarrow> False | Some x \<Rightarrow> x \<noteq> of_int \<lfloor>x\<rfloor> \<or> x \<le> 0 \<or> 2147483647 < x)"

text \<open>
  What the driver is called with: the connection string if there is one, the pool and handshake settings
  that were given (absent ones stay absent), the startup parameters; and the schema the client reports.
\<close>

record client =
  cl_url :: "jsstr option"
  cl_max :: "rat option"
  cl_connect_timeout :: "rat option"
  cl_search_path :: jsstr
  cl_statement_timeout :: rat
  cl_lock_timeout :: rat
  cl_idle_in_tx_timeout :: rat
  cl_umbradbSchema :: jsstr

definition option_default :: "'a option \<Rightarrow> 'a \<Rightarrow> 'a" where
  "option_default v d = (case v of None \<Rightarrow> d | Some x \<Rightarrow> x)"

definition createClient :: "connection_options \<Rightarrow> js_error + client" where
  "createClient opts =
     (let schema = option_default (co_schema opts) DEFAULT_SCHEMA in
      case assertValidSchemaName schema of Inl e \<Rightarrow> Inl e | Inr _ \<Rightarrow>
      case (case co_connectionString opts of None \<Rightarrow> Inr () | Some c \<Rightarrow> assertNoConflictingSearchPath c) of Inl e \<Rightarrow> Inl e | Inr _ \<Rightarrow>
      if bad_timeout (co_statementTimeoutMs opts) then Inl (plain_error ''invalid statementTimeoutMs'')
      else if bad_timeout (co_lockTimeoutMs opts) then Inl (plain_error ''invalid lockTimeoutMs'')
      else if bad_timeout (co_idleInTxTimeoutMs opts) then Inl (plain_error ''invalid idleInTxTimeoutMs'')
      else Inr \<lparr>cl_url = co_connectionString opts, cl_max = co_maxConnections opts, cl_connect_timeout = co_connectTimeout opts,
        cl_search_path = schema,
        cl_statement_timeout = option_default (co_statementTimeoutMs opts) DEFAULT_STATEMENT_TIMEOUT_MS,
        cl_lock_timeout = option_default (co_lockTimeoutMs opts) DEFAULT_LOCK_TIMEOUT_MS,
        cl_idle_in_tx_timeout = option_default (co_idleInTxTimeoutMs opts) DEFAULT_IDLE_IN_TX_TIMEOUT_MS,
        cl_umbradbSchema = schema\<rparr>)"

section \<open>Facts\<close>

text \<open>A valid name is never quoted away, cut off by the server, or refused by it.\<close>

lemma ident_char_safe: "ident_char c \<Longrightarrow> c \<noteq> 0 \<and> c \<noteq> 0x22 \<and> c < 0x80"
proof -
  assume "ident_char c"
  then have "0x30 \<le> c \<and> c \<le> 0x7A" by (auto simp: ident_char_def lower_letter_def word_le_nat_alt)
  then show ?thesis by (auto simp: word_le_nat_alt word_less_nat_alt)
qed

lemma schema_name_chars: "SCHEMA_NAME_PATTERN s \<Longrightarrow> list_all ident_char s"
  by (cases s) (auto simp: SCHEMA_NAME_PATTERN_def ident_char_def)

lemma valid_schema_name:
  assumes "assertValidSchemaName s = Inr ()"
  shows "0 < length s \<and> length s \<le> 63 \<and> (\<forall>c \<in> set s. c \<noteq> 0 \<and> c \<noteq> 0x22 \<and> c < 0x80)"
proof -
  from assms have p: "SCHEMA_NAME_PATTERN s" "length s \<le> 63"
    by (auto simp: assertValidSchemaName_def POSTGRES_MAX_IDENTIFIER_BYTES_def split: if_splits)
  then have "s \<noteq> []" by (auto simp: SCHEMA_NAME_PATTERN_def)
  with p schema_name_chars [OF p(1)] show ?thesis by (auto simp: list_all_iff dest: ident_char_safe)
qed

text \<open>
  The startup parameters the driver sends: the explicit settings, overridden by the query parameters it
  reads from the connection string (given here as a list of name and value).
\<close>

definition startup_parameters :: "client \<Rightarrow> (jsstr \<times> jsstr) list \<Rightarrow> jsstr \<Rightarrow> jsval option" where
  "startup_parameters c query name =
     (case map_of query name of
        Some v \<Rightarrow> Some (JStr v)
      | None \<Rightarrow> map_of [(js ''search_path'', JStr (cl_search_path c)), (js ''statement_timeout'', JNum (cl_statement_timeout c)),
          (js ''lock_timeout'', JNum (cl_lock_timeout c)),
          (js ''idle_in_transaction_session_timeout'', JNum (cl_idle_in_tx_timeout c))] name)"

text \<open>A name written out in the string, after \<^verbatim>\<open>?\<close> or \<^verbatim>\<open>&\<close> and before \<^verbatim>\<open>=\<close>.\<close>

definition written_in :: "jsstr \<Rightarrow> jsstr \<Rightarrow> bool" where
  "written_in conn name \<longleftrightarrow>
     (\<exists>i < length conn. conn ! i \<in> {0x3F, 0x26} \<and> starts_with (drop (Suc i) conn) (name @ [0x3D]))"

lemma starts_with_map: "starts_with s t \<Longrightarrow> starts_with (map f s) (map f t)"
  by (auto simp: starts_with_def take_map)

lemma written_sets_param:
  assumes "written_in conn (js p)" and "map ascii_lower (js p @ [0x3D]) = js p @ [0x3D]"
  shows "sets_param conn p"
  using assms starts_with_map [of _ "js p @ [0x3D]" ascii_lower]
  by (auto simp: written_in_def sets_param_def list_ex_iff)

lemma guarded_lower: "p \<in> set guarded_params \<Longrightarrow> map ascii_lower (js p @ [0x3D]) = js p @ [0x3D]"
proof -
  have "list_all (\<lambda>p. map ascii_lower (js p @ [0x3D]) = js p @ [0x3D]) guarded_params" by code_simp
  then show "p \<in> set guarded_params \<Longrightarrow> ?thesis" by (simp add: list_all_iff)
qed

lemma guarded_not_written:
  assumes "createClient opts = Inr c" and "cl_url c = Some u" and "p \<in> set guarded_params"
  shows "\<not> written_in u (js p)"
  using assms written_sets_param [OF _ guarded_lower [OF assms(3)], of u]
  by (auto simp: createClient_def Let_def assertNoConflictingSearchPath_def list_ex_iff split: sum.splits if_splits option.splits)

lemma timeout_bounds:
  "\<not> bad_timeout v \<Longrightarrow> d \<in> of_int ` {1..2147483647} \<Longrightarrow> option_default v d \<in> of_int ` {1..2147483647}"
proof (cases v)
  case (Some x)
  assume "\<not> bad_timeout v"
  with Some have x: "x = of_int \<lfloor>x\<rfloor>" "0 < x" "x \<le> 2147483647" by (auto simp: bad_timeout_def)
  then have "1 \<le> \<lfloor>x\<rfloor>" "\<lfloor>x\<rfloor> \<le> 2147483647" by linarith+
  with x(1) show ?thesis by (auto simp: option_default_def Some intro!: image_eqI [of _ _ "\<lfloor>x\<rfloor>"])
qed (simp add: option_default_def)

lemma default_timeouts:
  "DEFAULT_STATEMENT_TIMEOUT_MS \<in> of_int ` {1..2147483647}" "DEFAULT_LOCK_TIMEOUT_MS \<in> of_int ` {1..2147483647}"
  "DEFAULT_IDLE_IN_TX_TIMEOUT_MS \<in> of_int ` {1..2147483647}"
  unfolding DEFAULT_STATEMENT_TIMEOUT_MS_def DEFAULT_LOCK_TIMEOUT_MS_def DEFAULT_IDLE_IN_TX_TIMEOUT_MS_def
  by (rule image_eqI [of _ _ 120000] image_eqI [of _ _ 30000]; simp)+



text \<open>The check reads the string as written: a name with one percent-encoded character passes it.\<close>

lemma percent_encoded_name_passes:
  "assertNoConflictingSearchPath (js ''postgres://h/db?search%5Fpath=public'') = Inr ()"
  by code_simp

end
