(* ===== verification/ArchiveSchema.thy ===== *)
theory ArchiveSchema
  imports TransactionLease JsonCodec "HOL-Library.Log_Nat"
begin

text \<open>
  The chain-archive tables (\<^verbatim>\<open>src/src/postgres/migrations/chain_archive/001_chain_archive_core.ts\<close>)
  and the statements the store issues on them, with everything the server enforces: CHECK
  constraints under the names it gives them, the blob-role triggers, the finality trigger, the
  unique indexes and the foreign keys, in the order the server evaluates them (BEFORE triggers, then
  CHECKs by name, then the conflict clause, then the remaining unique indexes, then foreign keys).
  The columns that no code reads (\<^verbatim>\<open>created_at\<close>, \<^verbatim>\<open>synced_at\<close>, the identity
  \<^verbatim>\<open>id\<close> of the verifier keys, the generated \<^verbatim>\<open>size_bytes\<close>) are left out.
\<close>

section \<open>Rows and tables\<close>

record block_row =
  b_net :: jsstr
  b_block_hash :: bytes
  b_height :: int
  b_parent_hash :: bytes
  b_state_root :: bytes
  b_extrinsics_root :: bytes
  b_author :: "bytes option"
  b_header_blob_hash :: bytes
  b_body_blob_hash :: "bytes option"
  b_is_canonical :: bool
  b_status :: jsstr
  b_finalized :: bool

record tx_row =
  x_net :: jsstr
  x_tx_hash :: bytes
  x_block_height :: int
  x_block_hash :: bytes
  x_position :: int
  x_kind :: jsstr
  x_protocol_version :: int
  x_result :: "jsstr option"
  x_raw_blob_hash :: bytes

record bridge_row =
  o_net :: jsstr
  o_block_height :: int
  o_block_hash :: bytes
  o_observation_index :: int
  o_kind :: jsstr
  o_raw_blob_hash :: bytes

record vk_row =
  v_vk_hash :: bytes
  v_net :: jsstr
  v_scope :: jsstr
  v_tag :: jsstr
  v_contract_address :: "bytes option"
  v_first_seen_height :: int

record archive =
  chain_blobs :: "(bytes \<times> bytes) list"
  chain_blob_roles :: "(bytes \<times> jsstr) list"
  blocks :: "block_row list"
  transactions :: "tx_row list"
  bridge_observations :: "bridge_row list"
  verifier_key_observations :: "vk_row list"
  archive_watermarks :: "((jsstr \<times> jsstr) \<times> watermark_row) list"

definition empty_archive :: archive where
  "empty_archive = \<lparr>chain_blobs = [], chain_blob_roles = [], blocks = [], transactions = [],
     bridge_observations = [], verifier_key_observations = [], archive_watermarks = []\<rparr>"

lemma empty_archive_simps [simp]:
  "chain_blobs empty_archive = []" "chain_blob_roles empty_archive = []" "blocks empty_archive = []"
  "transactions empty_archive = []" "bridge_observations empty_archive = []"
  "verifier_key_observations empty_archive = []" "archive_watermarks empty_archive = []"
  by (simp_all add: empty_archive_def)

type_synonym 'a arun = "(js_error, archive, 'a) exec"

text \<open>Primary keys.\<close>

definition block_key :: "block_row \<Rightarrow> jsstr \<times> int \<times> bytes" where
  "block_key r = (b_net r, b_height r, b_block_hash r)"

definition tx_block :: "tx_row \<Rightarrow> jsstr \<times> int \<times> bytes" where
  "tx_block r = (x_net r, x_block_height r, x_block_hash r)"

definition obs_block :: "bridge_row \<Rightarrow> jsstr \<times> int \<times> bytes" where
  "obs_block r = (o_net r, o_block_height r, o_block_hash r)"

definition tx_key :: "tx_row \<Rightarrow> (jsstr \<times> int \<times> bytes) \<times> bytes" where
  "tx_key r = (tx_block r, x_tx_hash r)"

definition tx_slot :: "tx_row \<Rightarrow> (jsstr \<times> int \<times> bytes) \<times> int" where
  "tx_slot r = (tx_block r, x_position r)"

definition obs_key :: "bridge_row \<Rightarrow> (jsstr \<times> int \<times> bytes) \<times> int" where
  "obs_key r = (obs_block r, o_observation_index r)"

text \<open>\<^verbatim>\<open>UNIQUE NULLS NOT DISTINCT (vk_hash, net, scope, contract_address, tag)\<close>: a NULL equals a NULL.\<close>

definition vk_key :: "vk_row \<Rightarrow> bytes \<times> jsstr \<times> jsstr \<times> bytes option \<times> jsstr" where
  "vk_key r = (v_vk_hash r, v_net r, v_scope r, v_contract_address r, v_tag r)"

section \<open>Parameters\<close>

text \<open>
  A JavaScript number bound where the server expects an integer of \<open>n\<close> bits: the driver sends its
  text, and the server refuses a fraction or an exponent (22P02) and an integer out of range (22003).
\<close>

definition bind_int :: "nat \<Rightarrow> rat \<Rightarrow> js_error + int" where
  "bind_int n x =
     (if x \<noteq> of_int \<lfloor>x\<rfloor> \<or> 10 ^ 21 \<le> \<bar>x\<bar> then Inl (pg_error ''22P02'' None)
      else if \<lfloor>x\<rfloor> < - (2 ^ (n - 1)) \<or> 2 ^ (n - 1) \<le> \<lfloor>x\<rfloor> then Inl (pg_error ''22003'' None)
      else Inr \<lfloor>x\<rfloor>)"

text \<open>\<^verbatim>\<open>Number(bigint)\<close>: the nearest double, ties to even (53 significant bits).\<close>

definition double_nat :: "nat \<Rightarrow> nat" where
  "double_nat n =
     (let k = floorlog 2 n - 53; q = n div 2 ^ k; r = n mod 2 ^ k in
      if k = 0 then n
      else if 2 ^ k < 2 * r \<or> (2 * r = 2 ^ k \<and> odd q) then (q + 1) * 2 ^ k else q * 2 ^ k)"

definition Number_bigint :: "int \<Rightarrow> rat" where
  "Number_bigint i = (if i < 0 then - of_nat (double_nat (nat (- i))) else of_nat (double_nat (nat i)))"

section \<open>CHECK constraints\<close>

text \<open>The checks of a row, by constraint name; the server tries them in the order of their names.\<close>

fun run_checks :: "(string \<times> bool) list \<Rightarrow> unit arun" where
  "run_checks [] = eret ()"
| "run_checks ((n, ok) # cs) = (if ok then run_checks cs else ethrow (pg_error ''23514'' (Some n)))"

definition blob_roles :: "jsstr list" where
  "blob_roles = map js [''block_header'', ''block_body'', ''tx_raw'', ''proof'', ''verifier_key'', ''bridge_observation'']"

definition blob_checks :: "bytes \<Rightarrow> (string \<times> bool) list" where
  "blob_checks h = [(''chain_blobs_hash_check'', length h = 32)]"

definition role_checks :: "jsstr \<Rightarrow> (string \<times> bool) list" where
  "role_checks role = [(''chain_blob_roles_role_check'', List.member blob_roles role)]"

definition block_checks :: "block_row \<Rightarrow> (string \<times> bool) list" where
  "block_checks r =
     [(''blocks_block_hash_check'', length (b_block_hash r) = 32),
      (''blocks_check'', (b_status r = js ''canonical'') = b_is_canonical r),
      (''blocks_check1'', \<not> b_finalized r \<or> b_is_canonical r),
      (''blocks_extrinsics_root_check'', length (b_extrinsics_root r) = 32),
      (''blocks_height_check'', 0 \<le> b_height r),
      (''blocks_parent_hash_check'', length (b_parent_hash r) = 32),
      (''blocks_state_root_check'', length (b_state_root r) = 32),
      (''blocks_status_check'',
         List.member (map js [''seen'', ''canonical'', ''orphaned'', ''pruned'']) (b_status r))]"

definition tx_checks :: "tx_row \<Rightarrow> (string \<times> bool) list" where
  "tx_checks r =
     [(''transactions_block_hash_check'', length (x_block_hash r) = 32),
      (''transactions_block_height_check'', 0 \<le> x_block_height r),
      (''transactions_kind_check'', List.member (map js [''regular'', ''system'']) (x_kind r)),
      (''transactions_position_check'', 0 \<le> x_position r),
      (''transactions_protocol_version_check'', 0 \<le> x_protocol_version r),
      (''transactions_result_check'',
         (case x_result r of None \<Rightarrow> True
          | Some s \<Rightarrow> List.member (map js [''success'', ''partial_success'', ''failure'']) s)),
      (''transactions_tx_hash_check'', length (x_tx_hash r) = 32)]"

definition obs_checks :: "bridge_row \<Rightarrow> (string \<times> bool) list" where
  "obs_checks r =
     [(''bridge_observations_block_hash_check'', length (o_block_hash r) = 32),
      (''bridge_observations_block_height_check'', 0 \<le> o_block_height r),
      (''bridge_observations_kind_check'',
         List.member (map js [''cnight_registration'', ''system_parameters_d'', ''spo_registration'', ''other'']) (o_kind r)),
      (''bridge_observations_observation_index_check'', 0 \<le> o_observation_index r)]"

definition vk_checks :: "vk_row \<Rightarrow> (string \<times> bool) list" where
  "vk_checks r =
     [(''verifier_key_observations_check'', (v_scope r = js ''contract'') = (v_contract_address r \<noteq> None)),
      (''verifier_key_observations_first_seen_height_check'', 0 \<le> v_first_seen_height r),
      (''verifier_key_observations_scope_check'', List.member (map js [''protocol'', ''contract'']) (v_scope r))]"

abbreviation checked :: "(string \<times> bool) list \<Rightarrow> bool" where
  "checked cs \<equiv> list_all snd cs"

section \<open>Triggers\<close>

definition has_role :: "archive \<Rightarrow> bytes \<Rightarrow> string \<Rightarrow> bool" where
  "has_role a h role \<longleftrightarrow> List.member (chain_blob_roles a) (h, js role)"

definition has_blob :: "archive \<Rightarrow> bytes \<Rightarrow> bool" where
  "has_blob a h \<longleftrightarrow> List.member (map fst (chain_blobs a)) h"

definition has_block :: "archive \<Rightarrow> jsstr \<times> int \<times> bytes \<Rightarrow> bool" where
  "has_block a k \<longleftrightarrow> List.member (map block_key (blocks a)) k"

definition chain_archive_assert_blob_role :: "bytes option \<Rightarrow> string \<Rightarrow> unit arun" where
  "chain_archive_assert_blob_role h role a =
     (case h of
        None \<Rightarrow> (Inr (), a)
      | Some b \<Rightarrow>
          (if has_role a b role then (Inr (), a)
           else (Inl (pg_error ''23514'' (Some ''chain_blob_roles_completeness'')), a)))"

definition blocks_check_blob_roles :: "block_row \<Rightarrow> unit arun" where
  "blocks_check_blob_roles r =
     ebind (chain_archive_assert_blob_role (Some (b_header_blob_hash r)) ''block_header'') (\<lambda>_.
       chain_archive_assert_blob_role (b_body_blob_hash r) ''block_body'')"

definition transactions_check_blob_roles :: "tx_row \<Rightarrow> unit arun" where
  "transactions_check_blob_roles r = chain_archive_assert_blob_role (Some (x_raw_blob_hash r)) ''tx_raw''"

definition bridge_observations_check_blob_roles :: "bridge_row \<Rightarrow> unit arun" where
  "bridge_observations_check_blob_roles r =
     chain_archive_assert_blob_role (Some (o_raw_blob_hash r)) ''bridge_observation''"

definition verifier_key_observations_check_blob_roles :: "vk_row \<Rightarrow> unit arun" where
  "verifier_key_observations_check_blob_roles r =
     chain_archive_assert_blob_role (Some (v_vk_hash r)) ''verifier_key''"

definition blocks_enforce_finalized_monotonic :: "block_row \<Rightarrow> block_row \<Rightarrow> js_error + unit" where
  "blocks_enforce_finalized_monotonic old new =
     (if b_finalized old \<and> \<not> b_finalized new
      then Inl (pg_error ''23514'' (Some ''blocks_finalized_monotonic'')) else Inr ())"

section \<open>INSERT statements\<close>

text \<open>\<^verbatim>\<open>ON CONFLICT (hash) DO NOTHING\<close>\<close>

definition insert_blob :: "bytes \<Rightarrow> bytes \<Rightarrow> unit arun" where
  "insert_blob h data =
     ebind (run_checks (blob_checks h)) (\<lambda>_ a.
       if has_blob a h then (Inr (), a) else (Inr (), a\<lparr>chain_blobs := chain_blobs a @ [(h, data)]\<rparr>))"

text \<open>\<^verbatim>\<open>ON CONFLICT (blob_hash, role) DO NOTHING\<close>\<close>

definition insert_role :: "bytes \<Rightarrow> jsstr \<Rightarrow> unit arun" where
  "insert_role h role =
     ebind (run_checks (role_checks role)) (\<lambda>_ a.
       if List.member (chain_blob_roles a) (h, role) then (Inr (), a)
       else if \<not> has_blob a h then (Inl (pg_error ''23503'' None), a)
       else (Inr (), a\<lparr>chain_blob_roles := chain_blob_roles a @ [(h, role)]\<rparr>))"

text \<open>
  \<^verbatim>\<open>ON CONFLICT (net, height, block_hash) DO NOTHING\<close>: a conflict on the partial unique index
  \<^verbatim>\<open>blocks_one_canonical_per_height\<close> is not covered by the clause and raises 23505.
\<close>

definition canonical_at :: "archive \<Rightarrow> jsstr \<Rightarrow> int \<Rightarrow> block_row list" where
  "canonical_at a net height = filter (\<lambda>r. b_net r = net \<and> b_height r = height \<and> b_is_canonical r) (blocks a)"

definition insert_block :: "block_row \<Rightarrow> unit arun" where
  "insert_block r =
     ebind (blocks_check_blob_roles r) (\<lambda>_.
     ebind (run_checks (block_checks r)) (\<lambda>_ a.
       if has_block a (block_key r) then (Inr (), a)
       else if b_is_canonical r \<and> canonical_at a (b_net r) (b_height r) \<noteq> []
         then (Inl (pg_error ''23505'' (Some ''blocks_one_canonical_per_height'')), a)
       else if \<not> has_blob a (b_header_blob_hash r) \<or> \<not> (case b_body_blob_hash r of None \<Rightarrow> True | Some h \<Rightarrow> has_blob a h)
         then (Inl (pg_error ''23503'' None), a)
       else (Inr (), a\<lparr>blocks := blocks a @ [r]\<rparr>)))"

text \<open>A bare \<^verbatim>\<open>ON CONFLICT DO NOTHING\<close>: any of the two unique constraints.\<close>

definition insert_transaction :: "tx_row \<Rightarrow> unit arun" where
  "insert_transaction r =
     ebind (transactions_check_blob_roles r) (\<lambda>_.
     ebind (run_checks (tx_checks r)) (\<lambda>_ a.
       if List.member (map tx_key (transactions a)) (tx_key r) \<or> List.member (map tx_slot (transactions a)) (tx_slot r)
         then (Inr (), a)
       else if \<not> has_blob a (x_raw_blob_hash r) \<or> \<not> has_block a (tx_block r)
         then (Inl (pg_error ''23503'' None), a)
       else (Inr (), a\<lparr>transactions := transactions a @ [r]\<rparr>)))"

definition insert_bridge_observation :: "bridge_row \<Rightarrow> unit arun" where
  "insert_bridge_observation r =
     ebind (bridge_observations_check_blob_roles r) (\<lambda>_.
     ebind (run_checks (obs_checks r)) (\<lambda>_ a.
       if List.member (map obs_key (bridge_observations a)) (obs_key r) then (Inr (), a)
       else if \<not> has_blob a (o_raw_blob_hash r) \<or> \<not> has_block a (obs_block r)
         then (Inl (pg_error ''23503'' None), a)
       else (Inr (), a\<lparr>bridge_observations := bridge_observations a @ [r]\<rparr>)))"

text \<open>\<^verbatim>\<open>DO UPDATE SET first_seen_height = LEAST(...)\<close>; the role trigger is not on that column.\<close>

definition upsert_vk :: "vk_row \<Rightarrow> unit arun" where
  "upsert_vk r =
     ebind (verifier_key_observations_check_blob_roles r) (\<lambda>_.
     ebind (run_checks (vk_checks r)) (\<lambda>_ a.
       if List.member (map vk_key (verifier_key_observations a)) (vk_key r) then
         (Inr (), a\<lparr>verifier_key_observations :=
            map (\<lambda>v. if vk_key v = vk_key r
                      then v\<lparr>v_first_seen_height := min (v_first_seen_height v) (v_first_seen_height r)\<rparr> else v)
              (verifier_key_observations a)\<rparr>)
       else if \<not> has_blob a (v_vk_hash r) then (Inl (pg_error ''23503'' None), a)
       else (Inr (), a\<lparr>verifier_key_observations := verifier_key_observations a @ [r]\<rparr>)))"

section \<open>UPDATE statements\<close>

text \<open>
  An UPDATE of \<^verbatim>\<open>blocks\<close> visits the matching rows one after the other: the row trigger where
  the SET list names its column, the CHECKs, then the partial unique index against the rows as they
  stand. It returns the number of rows updated.
\<close>

fun update_blocks ::
  "(block_row \<Rightarrow> bool) \<Rightarrow> (block_row \<Rightarrow> block_row) \<Rightarrow> bool \<Rightarrow> block_row list \<Rightarrow> block_row list \<Rightarrow> js_error + nat \<times> block_row list" where
  "update_blocks sel upd trig done_rows [] = Inr (0, done_rows)"
| "update_blocks sel upd trig done_rows (r # rs) =
     (if \<not> sel r then update_blocks sel upd trig (done_rows @ [r]) rs
      else
        (let new = upd r in
         case (if trig then blocks_enforce_finalized_monotonic r new else Inr ()) of Inl e \<Rightarrow> Inl e
         | Inr _ \<Rightarrow>
         case find (\<lambda>c. \<not> snd c) (block_checks new) of
           Some c \<Rightarrow> Inl (pg_error ''23514'' (Some (fst c)))
         | None \<Rightarrow>
             (if b_is_canonical new
                 \<and> list_ex (\<lambda>q. b_net q = b_net new \<and> b_height q = b_height new \<and> b_is_canonical q) (done_rows @ rs)
              then Inl (pg_error ''23505'' (Some ''blocks_one_canonical_per_height''))
              else case update_blocks sel upd trig (done_rows @ [new]) rs of
                Inl e \<Rightarrow> Inl e
              | Inr (n, rows) \<Rightarrow> Inr (Suc n, rows))))"

definition update_blocks_stmt :: "(block_row \<Rightarrow> bool) \<Rightarrow> (block_row \<Rightarrow> block_row) \<Rightarrow> bool \<Rightarrow> nat arun" where
  "update_blocks_stmt sel upd trig a =
     (case update_blocks sel upd trig [] (blocks a) of
        Inl e \<Rightarrow> (Inl e, a)
      | Inr (n, rows) \<Rightarrow> (Inr n, a\<lparr>blocks := rows\<rparr>))"

section \<open>Removing a role\<close>

definition role_in_use :: "archive \<Rightarrow> bytes \<Rightarrow> jsstr \<Rightarrow> bool" where
  "role_in_use a h role =
     (if role = js ''block_header'' then list_ex (\<lambda>r. b_header_blob_hash r = h) (blocks a)
      else if role = js ''block_body'' then list_ex (\<lambda>r. b_body_blob_hash r = Some h) (blocks a)
      else if role = js ''tx_raw'' then list_ex (\<lambda>r. x_raw_blob_hash r = h) (transactions a)
      else if role = js ''bridge_observation'' then list_ex (\<lambda>r. o_raw_blob_hash r = h) (bridge_observations a)
      else if role = js ''verifier_key'' then list_ex (\<lambda>r. v_vk_hash r = h) (verifier_key_observations a)
      else False)"

definition chain_archive_assert_role_removable :: "bytes \<Rightarrow> jsstr \<Rightarrow> unit arun" where
  "chain_archive_assert_role_removable h role a =
     (if role_in_use a h role then (Inl (pg_error ''23514'' (Some ''chain_blob_roles_removal_guard'')), a)
      else (Inr (), a))"

text \<open>\<^verbatim>\<open>DELETE FROM chain_blob_roles WHERE blob_hash = h AND role = r\<close>, through the guard.\<close>

definition delete_role :: "bytes \<Rightarrow> jsstr \<Rightarrow> unit arun" where
  "delete_role h role a =
     (if List.member (chain_blob_roles a) (h, role) then
        ebind (chain_archive_assert_role_removable h role) (\<lambda>_ a.
          (Inr (), a\<lparr>chain_blob_roles := filter (\<lambda>x. x \<noteq> (h, role)) (chain_blob_roles a)\<rparr>)) a
      else (Inr (), a))"

text \<open>\<^verbatim>\<open>UPDATE chain_blob_roles SET blob_hash = h', role = r' WHERE blob_hash = h AND role = r\<close>\<close>

definition repoint_role :: "bytes \<Rightarrow> jsstr \<Rightarrow> bytes \<Rightarrow> jsstr \<Rightarrow> unit arun" where
  "repoint_role h role h' role' a =
     (if List.member (chain_blob_roles a) (h, role) then
        ebind (if h' \<noteq> h \<or> role' \<noteq> role then chain_archive_assert_role_removable h role else eret ()) (\<lambda>_.
        ebind (run_checks (role_checks role')) (\<lambda>_ a.
          if (h', role') \<noteq> (h, role) \<and> List.member (chain_blob_roles a) (h', role') then (Inl (pg_error ''23505'' None), a)
          else if \<not> has_blob a h' then (Inl (pg_error ''23503'' None), a)
          else (Inr (), a\<lparr>chain_blob_roles := map (\<lambda>x. if x = (h, role) then (h', role') else x) (chain_blob_roles a)\<rparr>))) a
      else (Inr (), a))"

section \<open>The invariant\<close>

definition blobs_ok :: "archive \<Rightarrow> bool" where
  "blobs_ok a \<longleftrightarrow> distinct (map fst (chain_blobs a)) \<and> (\<forall>b \<in> set (chain_blobs a). length (fst b) = 32)"

definition roles_ok :: "archive \<Rightarrow> bool" where
  "roles_ok a \<longleftrightarrow>
     distinct (chain_blob_roles a)
   \<and> (\<forall>x \<in> set (chain_blob_roles a). snd x \<in> set blob_roles \<and> has_blob a (fst x))"

definition block_ok :: "archive \<Rightarrow> block_row \<Rightarrow> bool" where
  "block_ok a r \<longleftrightarrow>
     checked (block_checks r) \<and> has_role a (b_header_blob_hash r) ''block_header''
   \<and> (\<forall>h. b_body_blob_hash r = Some h \<longrightarrow> has_role a h ''block_body'')"

definition one_canonical :: "block_row list \<Rightarrow> bool" where
  "one_canonical rows \<longleftrightarrow>
     (\<forall>r \<in> set rows. \<forall>r' \<in> set rows. b_is_canonical r \<and> b_is_canonical r' \<and> b_net r = b_net r' \<and> b_height r = b_height r'
        \<longrightarrow> r = r')"

definition blocks_ok :: "archive \<Rightarrow> bool" where
  "blocks_ok a \<longleftrightarrow>
     distinct (map block_key (blocks a)) \<and> (\<forall>r \<in> set (blocks a). block_ok a r) \<and> one_canonical (blocks a)"

definition tx_ok :: "archive \<Rightarrow> tx_row \<Rightarrow> bool" where
  "tx_ok a r \<longleftrightarrow> checked (tx_checks r) \<and> has_role a (x_raw_blob_hash r) ''tx_raw'' \<and> has_block a (tx_block r)"

definition txs_ok :: "archive \<Rightarrow> bool" where
  "txs_ok a \<longleftrightarrow>
     distinct (map tx_key (transactions a)) \<and> distinct (map tx_slot (transactions a))
   \<and> (\<forall>r \<in> set (transactions a). tx_ok a r)"

definition obs_ok :: "archive \<Rightarrow> bool" where
  "obs_ok a \<longleftrightarrow>
     distinct (map obs_key (bridge_observations a))
   \<and> (\<forall>r \<in> set (bridge_observations a).
        checked (obs_checks r) \<and> has_role a (o_raw_blob_hash r) ''bridge_observation'' \<and> has_block a (obs_block r))"

definition vks_ok :: "archive \<Rightarrow> bool" where
  "vks_ok a \<longleftrightarrow>
     distinct (map vk_key (verifier_key_observations a))
   \<and> (\<forall>r \<in> set (verifier_key_observations a). checked (vk_checks r) \<and> has_role a (v_vk_hash r) ''verifier_key'')"

text \<open>
  What the constraints and triggers are there for: keys are unique, every row satisfies its CHECKs,
  at most one block per height is canonical, every reference is to an existing blob that carries the
  role of the referencing column, and every transaction and observation belongs to an archived block.
\<close>

definition archive_inv :: "archive \<Rightarrow> bool" where
  "archive_inv a \<longleftrightarrow> blobs_ok a \<and> roles_ok a \<and> blocks_ok a \<and> txs_ok a \<and> obs_ok a \<and> vks_ok a"

lemmas archive_ok_defs = blobs_ok_def roles_ok_def blocks_ok_def block_ok_def txs_ok_def tx_ok_def obs_ok_def vks_ok_def

lemma archive_inv_empty [simp]: "archive_inv empty_archive"
  by (simp add: archive_inv_def archive_ok_defs one_canonical_def)

subsection \<open>Every statement keeps it\<close>

lemma run_checks_eq: "run_checks cs a = (case find (\<lambda>c. \<not> snd c) cs of None \<Rightarrow> (Inr (), a) | Some c \<Rightarrow> (Inl (pg_error ''23514'' (Some (fst c))), a))"
  by (induction cs rule: run_checks.induct) simp_all

lemma find_unchecked: "find (\<lambda>c. \<not> snd c) cs = None \<longleftrightarrow> checked cs"
  unfolding find_None_iff list_all_iff by blast

lemma run_checks_Inr: "run_checks cs a = (Inr u, a') \<longleftrightarrow> checked cs \<and> a' = a"
  by (auto simp: run_checks_eq find_unchecked [symmetric] split: option.splits)

lemma run_checks_ok [simp]: "checked cs \<Longrightarrow> run_checks cs = eret ()"
  by (rule ext) (simp add: run_checks_eq find_unchecked [symmetric])

lemma run_checks_state [simp]: "snd (run_checks cs a) = a"
  by (simp add: run_checks_eq split: option.splits)

lemma assert_blob_role_Inr:
  "chain_archive_assert_blob_role h role a = (Inr u, a') \<longleftrightarrow> (\<forall>b. h = Some b \<longrightarrow> has_role a b role) \<and> a' = a"
  by (auto simp: chain_archive_assert_blob_role_def split: option.splits)

lemma assert_blob_role_state [simp]: "snd (chain_archive_assert_blob_role h role a) = a"
  by (simp add: chain_archive_assert_blob_role_def split: option.splits)

lemma has_block_mono [simp]:
  "has_block (a\<lparr>blocks := blocks a @ rs\<rparr>) k \<longleftrightarrow> has_block a k \<or> k \<in> set (map block_key rs)"
  "has_block (a\<lparr>chain_blobs := x1\<rparr>) k = has_block a k"
  "has_block (a\<lparr>chain_blob_roles := x2\<rparr>) k = has_block a k"
  "has_block (a\<lparr>transactions := x3\<rparr>) k = has_block a k"
  "has_block (a\<lparr>bridge_observations := x4\<rparr>) k = has_block a k"
  "has_block (a\<lparr>verifier_key_observations := x5\<rparr>) k = has_block a k"
  "has_block (a\<lparr>archive_watermarks := x6\<rparr>) k = has_block a k"
  by (auto simp: has_block_def)

lemma has_blob_mono [simp]:
  "has_blob (a\<lparr>chain_blobs := chain_blobs a @ bs\<rparr>) h \<longleftrightarrow> has_blob a h \<or> h \<in> set (map fst bs)"
  "has_blob (a\<lparr>blocks := x1\<rparr>) h = has_blob a h"
  "has_blob (a\<lparr>chain_blob_roles := x2\<rparr>) h = has_blob a h"
  "has_blob (a\<lparr>transactions := x3\<rparr>) h = has_blob a h"
  "has_blob (a\<lparr>bridge_observations := x4\<rparr>) h = has_blob a h"
  "has_blob (a\<lparr>verifier_key_observations := x5\<rparr>) h = has_blob a h"
  "has_blob (a\<lparr>archive_watermarks := x6\<rparr>) h = has_blob a h"
  by (auto simp: has_blob_def)

lemma has_role_mono [simp]:
  "has_role (a\<lparr>chain_blob_roles := chain_blob_roles a @ rs\<rparr>) h r \<longleftrightarrow> has_role a h r \<or> (h, js r) \<in> set rs"
  "has_role (a\<lparr>chain_blobs := x1\<rparr>) h r = has_role a h r"
  "has_role (a\<lparr>blocks := x2\<rparr>) h r = has_role a h r"
  "has_role (a\<lparr>transactions := x3\<rparr>) h r = has_role a h r"
  "has_role (a\<lparr>bridge_observations := x4\<rparr>) h r = has_role a h r"
  "has_role (a\<lparr>verifier_key_observations := x5\<rparr>) h r = has_role a h r"
  "has_role (a\<lparr>archive_watermarks := x6\<rparr>) h r = has_role a h r"
  by (auto simp: has_role_def)

lemma keeps_insert_blob [intro]: "keeps archive_inv (insert_blob h data)"
proof (rule keepsI)
  fix a assume inv: "archive_inv a"
  show "archive_inv (snd (insert_blob h data a))"
  proof (cases "checked (blob_checks h) \<and> \<not> has_blob a h")
    case True
    then have "insert_blob h data a = (Inr (), a\<lparr>chain_blobs := chain_blobs a @ [(h, data)]\<rparr>)"
      by (simp add: insert_blob_def)
    moreover have "archive_inv (a\<lparr>chain_blobs := chain_blobs a @ [(h, data)]\<rparr>)"
      using True inv by (auto simp: archive_inv_def archive_ok_defs blob_checks_def has_blob_def)
    ultimately show ?thesis by simp
  next
    case False
    then have "snd (insert_blob h data a) = a"
      by (auto simp: insert_blob_def ebind_def run_checks_eq find_unchecked split: option.splits)
    with inv show ?thesis by simp
  qed
qed

lemma keeps_insert_role [intro]: "keeps archive_inv (insert_role h role)"
proof (rule keepsI)
  fix a assume inv: "archive_inv a"
  show "archive_inv (snd (insert_role h role a))"
  proof (cases "checked (role_checks role) \<and> (h, role) \<notin> set (chain_blob_roles a) \<and> has_blob a h")
    case True
    then have "insert_role h role a = (Inr (), a\<lparr>chain_blob_roles := chain_blob_roles a @ [(h, role)]\<rparr>)"
      by (simp add: insert_role_def)
    moreover have "archive_inv (a\<lparr>chain_blob_roles := chain_blob_roles a @ [(h, role)]\<rparr>)"
      using True inv by (auto simp: archive_inv_def archive_ok_defs role_checks_def)
    ultimately show ?thesis by simp
  next
    case False
    then have "snd (insert_role h role a) = a"
      by (auto simp: insert_role_def ebind_def run_checks_eq find_unchecked split: option.splits)
    with inv show ?thesis by simp
  qed
qed

text \<open>A failed statement changes nothing; a successful one adds at most its row.\<close>

lemma insert_block_Inr:
  "insert_block r a = (Inr u, a') \<longleftrightarrow>
     block_ok a r
   \<and> (if has_block a (block_key r) then a' = a
      else (b_is_canonical r \<longrightarrow> canonical_at a (b_net r) (b_height r) = [])
         \<and> has_blob a (b_header_blob_hash r) \<and> (\<forall>h. b_body_blob_hash r = Some h \<longrightarrow> has_blob a h)
         \<and> a' = a\<lparr>blocks := blocks a @ [r]\<rparr>)"
  by (auto simp: insert_block_def ebind_def blocks_check_blob_roles_def chain_archive_assert_blob_role_def block_ok_def
      run_checks_eq find_unchecked [symmetric] split: option.splits if_splits)

lemma insert_block_Inl: "insert_block r a = (Inl e, a') \<Longrightarrow> a' = a"
  by (auto simp: insert_block_def ebind_def blocks_check_blob_roles_def chain_archive_assert_blob_role_def
      run_checks_eq split: option.splits if_splits)

lemma insert_transaction_Inr:
  "insert_transaction r a = (Inr u, a') \<longleftrightarrow>
     checked (tx_checks r) \<and> has_role a (x_raw_blob_hash r) ''tx_raw''
   \<and> (if tx_key r \<in> set (map tx_key (transactions a)) \<or> tx_slot r \<in> set (map tx_slot (transactions a)) then a' = a
      else has_blob a (x_raw_blob_hash r) \<and> has_block a (tx_block r) \<and> a' = a\<lparr>transactions := transactions a @ [r]\<rparr>)"
  by (auto simp: insert_transaction_def ebind_def transactions_check_blob_roles_def chain_archive_assert_blob_role_def
      run_checks_eq find_unchecked [symmetric] split: option.splits if_splits)

lemma insert_transaction_Inl: "insert_transaction r a = (Inl e, a') \<Longrightarrow> a' = a"
  by (auto simp: insert_transaction_def ebind_def transactions_check_blob_roles_def chain_archive_assert_blob_role_def
      run_checks_eq split: option.splits if_splits)

lemma insert_bridge_observation_Inr:
  "insert_bridge_observation r a = (Inr u, a') \<longleftrightarrow>
     checked (obs_checks r) \<and> has_role a (o_raw_blob_hash r) ''bridge_observation''
   \<and> (if obs_key r \<in> set (map obs_key (bridge_observations a)) then a' = a
      else has_blob a (o_raw_blob_hash r) \<and> has_block a (obs_block r)
         \<and> a' = a\<lparr>bridge_observations := bridge_observations a @ [r]\<rparr>)"
  by (auto simp: insert_bridge_observation_def ebind_def bridge_observations_check_blob_roles_def
      chain_archive_assert_blob_role_def run_checks_eq find_unchecked [symmetric] split: option.splits if_splits)

lemma insert_bridge_observation_Inl: "insert_bridge_observation r a = (Inl e, a') \<Longrightarrow> a' = a"
  by (auto simp: insert_bridge_observation_def ebind_def bridge_observations_check_blob_roles_def
      chain_archive_assert_blob_role_def run_checks_eq split: option.splits if_splits)

definition merge_vk :: "vk_row \<Rightarrow> vk_row list \<Rightarrow> vk_row list" where
  "merge_vk r rows =
     map (\<lambda>v. if vk_key v = vk_key r
               then v\<lparr>v_first_seen_height := min (v_first_seen_height v) (v_first_seen_height r)\<rparr> else v) rows"

lemma upsert_vk_Inr:
  "upsert_vk r a = (Inr u, a') \<longleftrightarrow>
     checked (vk_checks r) \<and> has_role a (v_vk_hash r) ''verifier_key''
   \<and> (if vk_key r \<in> set (map vk_key (verifier_key_observations a))
      then a' = a\<lparr>verifier_key_observations := merge_vk r (verifier_key_observations a)\<rparr>
      else has_blob a (v_vk_hash r) \<and> a' = a\<lparr>verifier_key_observations := verifier_key_observations a @ [r]\<rparr>)"
  by (auto simp: upsert_vk_def ebind_def verifier_key_observations_check_blob_roles_def merge_vk_def
      chain_archive_assert_blob_role_def run_checks_eq find_unchecked [symmetric] split: option.splits if_splits)

lemma upsert_vk_Inl: "upsert_vk r a = (Inl e, a') \<Longrightarrow> a' = a"
  by (auto simp: upsert_vk_def ebind_def verifier_key_observations_check_blob_roles_def
      chain_archive_assert_blob_role_def run_checks_eq split: option.splits if_splits)

lemma canonical_at_Nil:
  "canonical_at a net height = [] \<longleftrightarrow> (\<forall>r \<in> set (blocks a). b_net r = net \<and> b_height r = height \<longrightarrow> \<not> b_is_canonical r)"
  by (auto simp: canonical_at_def filter_empty_conv)

lemma keeps_success:
  assumes "\<And>s a s'. P s \<Longrightarrow> m s = (Inr a, s') \<Longrightarrow> P s'" and "\<And>s e s'. m s = (Inl e, s') \<Longrightarrow> s' = s"
  shows "keeps P m"
proof (rule keepsI)
  fix s assume "P s"
  with assms(1) [of s] assms(2) [of s] show "P (snd (m s))" by (cases "m s"; cases "fst (m s)") auto
qed

lemma keeps_insert_block [intro]: "keeps archive_inv (insert_block r)"
proof (rule keeps_success)
  fix a u a' assume inv: "archive_inv a" and run: "insert_block r a = (Inr u, a')"
  show "archive_inv a'"
  proof (cases "has_block a (block_key r)")
    case True
    with inv run show ?thesis by (simp add: insert_block_Inr)
  next
    case False
    with run have a': "a' = a\<lparr>blocks := blocks a @ [r]\<rparr>" and ok: "block_ok a r"
      and can: "b_is_canonical r \<longrightarrow> canonical_at a (b_net r) (b_height r) = []"
      by (simp_all add: insert_block_Inr)
    have "one_canonical (blocks a @ [r])"
      using inv can unfolding archive_inv_def blocks_ok_def one_canonical_def canonical_at_Nil by auto
    moreover have "distinct (map block_key (blocks a @ [r]))"
      using inv False by (auto simp: archive_inv_def blocks_ok_def has_block_def)
    ultimately show ?thesis using inv ok unfolding a' by (auto simp: archive_inv_def archive_ok_defs)
  qed
qed (rule insert_block_Inl)

lemma keeps_insert_transaction [intro]: "keeps archive_inv (insert_transaction r)"
  by (rule keeps_success)
    (auto simp: insert_transaction_Inr archive_inv_def archive_ok_defs dest: insert_transaction_Inl split: if_splits)

lemma keeps_insert_bridge_observation [intro]: "keeps archive_inv (insert_bridge_observation r)"
  by (rule keeps_success)
    (auto simp: insert_bridge_observation_Inr archive_inv_def archive_ok_defs dest: insert_bridge_observation_Inl
      split: if_splits)

lemma merge_vk_keys [simp]: "map vk_key (merge_vk r rows) = map vk_key rows"
  by (simp add: merge_vk_def vk_key_def comp_def)

lemma merge_vk_row:
  assumes "v \<in> set (merge_vk r rows)" and "0 \<le> v_first_seen_height r" and "\<forall>w \<in> set rows. checked (vk_checks w) \<and> P (v_vk_hash w)"
  shows "checked (vk_checks v) \<and> P (v_vk_hash v)"
  using assms by (auto simp: merge_vk_def vk_checks_def)

lemma keeps_upsert_vk [intro]: "keeps archive_inv (upsert_vk r)"
proof (rule keeps_success)
  fix a u a' assume inv: "archive_inv a" and run: "upsert_vk r a = (Inr u, a')"
  have chk: "0 \<le> v_first_seen_height r" using run by (simp add: upsert_vk_Inr vk_checks_def)
  have "vks_ok (a\<lparr>verifier_key_observations := merge_vk r (verifier_key_observations a)\<rparr>)"
    using inv merge_vk_row [OF _ chk, of _ _ "\<lambda>h. has_role a h ''verifier_key''"] by (simp add: archive_inv_def vks_ok_def)
  with inv run show "archive_inv a'"
    by (auto simp: upsert_vk_Inr archive_inv_def archive_ok_defs split: if_splits)
qed (rule upsert_vk_Inl)

subsection \<open>Updates of blocks\<close>

text \<open>
  An UPDATE that succeeds has passed every check, touches no key when the assignment does not, and
  leaves the rows it does not select alone.
\<close>

lemma update_blocks_Inr:
  assumes "update_blocks sel upd trig ds rs = Inr (n, rows)"
  shows "rows = ds @ map (\<lambda>r. if sel r then upd r else r) rs \<and> n = length (filter sel rs)
    \<and> (\<forall>r \<in> set rs. sel r \<longrightarrow> checked (block_checks (upd r)) \<and> (trig \<and> b_finalized r \<longrightarrow> b_finalized (upd r)))"
  using assms
proof (induction rs arbitrary: ds n rows)
  case Nil
  then show ?case by simp
next
  case (Cons r rs)
  show ?case
  proof (cases "sel r")
    case False
    with Cons show ?thesis by fastforce
  next
    case True
    with Cons.prems obtain m where
      run: "update_blocks sel upd trig (ds @ [upd r]) rs = Inr (m, rows)" "n = Suc m"
      and "find (\<lambda>c. \<not> snd c) (block_checks (upd r)) = None" and "trig \<and> b_finalized r \<longrightarrow> b_finalized (upd r)"
      by (auto simp: Let_def blocks_enforce_finalized_monotonic_def split: if_splits sum.splits option.splits prod.splits)
    with Cons.IH [OF run(1)] True show ?thesis by (simp add: find_unchecked)
  qed
qed

lemma update_blocks_one_canonical:
  assumes "update_blocks sel upd trig ds rs = Inr (n, rows)" and "one_canonical (ds @ rs)"
  shows "one_canonical rows"
  using assms
proof (induction rs arbitrary: ds n rows)
  case Nil
  then show ?case by simp
next
  case (Cons r rs)
  show ?case
  proof (cases "sel r")
    case False
    with Cons show ?thesis by fastforce
  next
    case True
    with Cons.prems obtain m where
      run: "update_blocks sel upd trig (ds @ [upd r]) rs = Inr (m, rows)"
      and none: "b_is_canonical (upd r) \<longrightarrow> (\<forall>q \<in> set (ds @ rs). b_is_canonical q
             \<longrightarrow> b_net q \<noteq> b_net (upd r) \<or> b_height q \<noteq> b_height (upd r))"
      by (auto simp: Let_def list_ex_iff split: if_splits sum.splits option.splits prod.splits)
    have "one_canonical ((ds @ [upd r]) @ rs)"
      using Cons.prems(2) none by (auto simp: one_canonical_def)
    with Cons.IH [OF run] show ?thesis by simp
  qed
qed

lemma update_blocks_none: "\<forall>r \<in> set rs. \<not> sel r \<Longrightarrow> update_blocks sel upd trig ds rs = Inr (0, ds @ rs)"
  by (induction rs arbitrary: ds) simp_all

text \<open>The statements of the store select at most one row.\<close>

lemma update_blocks_one:
  assumes "\<forall>r \<in> set xs. \<not> sel r" and "sel r" and "\<forall>r \<in> set ys. \<not> sel r"
  shows "update_blocks sel upd trig ds (xs @ r # ys) =
     (case (if trig then blocks_enforce_finalized_monotonic r (upd r) else Inr ()) of Inl e \<Rightarrow> Inl e
      | Inr _ \<Rightarrow>
         (case find (\<lambda>c. \<not> snd c) (block_checks (upd r)) of
            Some c \<Rightarrow> Inl (pg_error ''23514'' (Some (fst c)))
          | None \<Rightarrow>
             (if b_is_canonical (upd r)
                 \<and> list_ex (\<lambda>q. b_net q = b_net (upd r) \<and> b_height q = b_height (upd r) \<and> b_is_canonical q) (ds @ xs @ ys)
              then Inl (pg_error ''23505'' (Some ''blocks_one_canonical_per_height''))
              else Inr (1, ds @ xs @ upd r # ys))))"
  using assms
proof (induction xs arbitrary: ds)
  case Nil
  then show ?case by (auto simp: Let_def update_blocks_none split: option.splits sum.splits)
next
  case (Cons x xs)
  then have "update_blocks sel upd trig ds ((x # xs) @ r # ys) = update_blocks sel upd trig (ds @ [x]) (xs @ r # ys)" by simp
  moreover have "\<forall>r \<in> set xs. \<not> sel r" using Cons.prems(1) by simp
  ultimately show ?case using Cons.IH [OF _ Cons.prems(2,3), of "ds @ [x]"]
    by (simp only: append.assoc append_Cons append_Nil simp_thms)
qed

lemma update_blocks_stmt_Inl: "update_blocks_stmt sel upd trig a = (Inl e, a') \<Longrightarrow> a' = a"
  by (auto simp: update_blocks_stmt_def split: sum.splits prod.splits)

lemma keeps_update_blocks_stmt:
  assumes "\<And>r. block_key (upd r) = block_key r" and "\<And>r. b_header_blob_hash (upd r) = b_header_blob_hash r"
    and "\<And>r. b_body_blob_hash (upd r) = b_body_blob_hash r"
  shows "keeps archive_inv (update_blocks_stmt sel upd trig)"
proof (rule keeps_success)
  fix a n a' assume inv: "archive_inv a" and "update_blocks_stmt sel upd trig a = (Inr n, a')"
  then obtain rows where run: "update_blocks sel upd trig [] (blocks a) = Inr (n, rows)" and a': "a' = a\<lparr>blocks := rows\<rparr>"
    by (auto simp: update_blocks_stmt_def split: sum.splits)
  note rows = update_blocks_Inr [OF run]
  have keys: "map block_key rows = map block_key (blocks a)" using rows assms(1) by (simp add: comp_def)
  have "one_canonical rows" using update_blocks_one_canonical [OF run] inv by (simp add: archive_inv_def blocks_ok_def)
  moreover have "\<forall>r \<in> set rows. block_ok a r"
    using rows inv assms(2,3) by (auto simp: archive_inv_def blocks_ok_def block_ok_def)
  moreover have "has_block a' k = has_block a k" for k
    unfolding has_block_def a' by (simp add: keys del: set_map flip: set_map)
  ultimately show "archive_inv a'"
    using inv keys unfolding a' by (simp add: archive_inv_def archive_ok_defs)
qed (rule update_blocks_stmt_Inl)

subsection \<open>Removing roles\<close>

lemma archive_inv_roles:
  assumes inv: "archive_inv a" and free: "\<not> role_in_use a h role"
    and sub: "set (chain_blob_roles a) \<subseteq> insert (h, role) (set rs)" and ok: "roles_ok (a\<lparr>chain_blob_roles := rs\<rparr>)"
  shows "archive_inv (a\<lparr>chain_blob_roles := rs\<rparr>)"
proof -
  have keep: "has_role (a\<lparr>chain_blob_roles := rs\<rparr>) x r" if "has_role a x r" and "x = h \<Longrightarrow> role \<noteq> js r" for x r
    using that sub by (auto simp: has_role_def)
  have "blocks_ok (a\<lparr>chain_blob_roles := rs\<rparr>)"
    using inv free by (auto simp: archive_inv_def blocks_ok_def block_ok_def role_in_use_def list_ex_iff intro!: keep)
  moreover have "txs_ok (a\<lparr>chain_blob_roles := rs\<rparr>)"
    using inv free by (auto simp: archive_inv_def txs_ok_def tx_ok_def role_in_use_def list_ex_iff intro!: keep)
  moreover have "obs_ok (a\<lparr>chain_blob_roles := rs\<rparr>)"
    using inv free by (auto simp: archive_inv_def obs_ok_def role_in_use_def list_ex_iff intro!: keep)
  moreover have "vks_ok (a\<lparr>chain_blob_roles := rs\<rparr>)"
    using inv free by (auto simp: archive_inv_def vks_ok_def role_in_use_def list_ex_iff intro!: keep)
  ultimately show ?thesis using inv ok by (simp add: archive_inv_def blobs_ok_def)
qed

lemma delete_role_Inr:
  "delete_role h role a = (Inr u, a') \<Longrightarrow>
   a' = a \<or> (\<not> role_in_use a h role \<and> a' = a\<lparr>chain_blob_roles := filter (\<lambda>x. x \<noteq> (h, role)) (chain_blob_roles a)\<rparr>)"
  by (auto simp: delete_role_def ebind_def chain_archive_assert_role_removable_def split: if_splits)

lemma keeps_delete_role [intro]: "keeps archive_inv (delete_role h role)"
proof (rule keeps_success)
  fix a u a' assume inv: "archive_inv a" and run: "delete_role h role a = (Inr u, a')"
  have "roles_ok (a\<lparr>chain_blob_roles := filter (\<lambda>x. x \<noteq> (h, role)) (chain_blob_roles a)\<rparr>)"
    using inv by (simp add: archive_inv_def roles_ok_def)
  then have "\<not> role_in_use a h role \<Longrightarrow> archive_inv (a\<lparr>chain_blob_roles := filter (\<lambda>x. x \<noteq> (h, role)) (chain_blob_roles a)\<rparr>)"
    by (rule archive_inv_roles [OF inv, rotated 2]) auto
  with delete_role_Inr [OF run] inv show "archive_inv a'" by auto
next
  fix a e a' assume "delete_role h role a = (Inl e, a')"
  then show "a' = a" by (auto simp: delete_role_def ebind_def chain_archive_assert_role_removable_def split: if_splits)
qed

lemma repoint_role_Inr:
  assumes "repoint_role h role h' role' a = (Inr u, a')"
  shows "a' = a \<or> (\<not> role_in_use a h role \<and> role' \<in> set blob_roles \<and> has_blob a h' \<and> (h', role') \<notin> set (chain_blob_roles a)
     \<and> a' = a\<lparr>chain_blob_roles := map (\<lambda>x. if x = (h, role) then (h', role') else x) (chain_blob_roles a)\<rparr>)"
proof (cases "(h', role') = (h, role)")
  case True
  then have "map (\<lambda>x. if x = (h, role) then (h', role') else x) (chain_blob_roles a) = chain_blob_roles a"
    by (intro map_idI) simp
  with True assms show ?thesis by (auto simp: repoint_role_def ebind_def run_checks_eq split: if_splits option.splits)
next
  case False
  with assms show ?thesis
    by (auto simp: repoint_role_def ebind_def run_checks_eq role_checks_def chain_archive_assert_role_removable_def
        split: if_splits option.splits)
qed

lemma distinct_replace: "distinct xs \<Longrightarrow> y \<notin> set xs \<Longrightarrow> distinct (map (\<lambda>z. if z = x then y else z) xs)"
  by (induction xs) auto

lemma keeps_repoint_role [intro]: "keeps archive_inv (repoint_role h role h' role')"
proof (rule keeps_success)
  fix a u a' assume inv: "archive_inv a" and run: "repoint_role h role h' role' a = (Inr u, a')"
  let ?rs = "map (\<lambda>x. if x = (h, role) then (h', role') else x) (chain_blob_roles a)"
  show "archive_inv a'"
  proof (cases "a' = a")
    case False
    with repoint_role_Inr [OF run] have free: "\<not> role_in_use a h role" and new: "role' \<in> set blob_roles" "has_blob a h'"
      "(h', role') \<notin> set (chain_blob_roles a)" and a': "a' = a\<lparr>chain_blob_roles := ?rs\<rparr>" by blast+
    have "roles_ok (a\<lparr>chain_blob_roles := ?rs\<rparr>)"
      using inv new distinct_replace [of "chain_blob_roles a" "(h', role')" "(h, role)"]
      by (auto simp: archive_inv_def roles_ok_def)
    then show ?thesis unfolding a' by (rule archive_inv_roles [OF inv free, rotated]) auto
  qed (use inv in simp)
next
  fix a e a' assume "repoint_role h role h' role' a = (Inl e, a')"
  then show "a' = a"
    by (auto simp: repoint_role_def ebind_def chain_archive_assert_role_removable_def run_checks_eq
        split: if_splits option.splits)
qed

end
