(* ===== verification/Rollover.thy ===== *)
theory Rollover
  imports Client ArchiveSchema
begin

text \<open>
  Height-range partitions of the chain archive: their creation
  (\<^verbatim>\<open>createHeightPartitions\<close> in \<^verbatim>\<open>src/src/postgres/migrations/chain_archive/001_chain_archive_core.ts\<close>)
  and the rollover of the DEFAULT partitions (\<^verbatim>\<open>src/src/postgres/chain-archive-rollover.ts\<close>), statement by
  statement with the server's refusals. The state is the catalog of the schema: the partitions attached to
  each of the three partitioned tables, the tables that are detached, and the names of all other relations.
\<close>

section \<open>The catalog\<close>

datatype rollover_table = Blocks | Transactions | BridgeObservations

fun table_name :: "rollover_table \<Rightarrow> jsstr" where
  "table_name Blocks = js ''blocks''"
| "table_name Transactions = js ''transactions''"
| "table_name BridgeObservations = js ''bridge_observations''"

definition ROLLOVER_TABLES :: "rollover_table list" where
  "ROLLOVER_TABLES = [Blocks, Transactions, BridgeObservations]"

text \<open>Both children reference \<^verbatim>\<open>blocks (net, height, block_hash)\<close>.\<close>

fun has_fk :: "rollover_table \<Rightarrow> bool" where
  "has_fk Blocks = False"
| "has_fk _ = True"

definition fk_name :: "rollover_table \<Rightarrow> jsstr" where
  "fk_name t = table_name t @ js ''_net_block_height_block_hash_fkey''"

datatype bound = Range int int | Default

text \<open>A row: its height, the rest of the block reference, everything else.\<close>

record part_row =
  rw_height :: int
  rw_block :: "jsstr \<times> bytes"
  rw_rest :: nat

record part =
  p_name :: jsstr
  p_bound :: bound
  p_rows :: "part_row list"

record detached =
  d_name :: jsstr
  d_rows :: "part_row list"
  d_fk :: "jsstr option"

record catalog =
  ct_parts :: "rollover_table \<Rightarrow> part list"
  ct_detached :: "detached list"
  ct_others :: "jsstr list"

type_synonym 'a crun = "(js_error, catalog, 'a) exec"

definition part_rows :: "catalog \<Rightarrow> rollover_table \<Rightarrow> part_row list" where
  "part_rows c t = concat (map p_rows (ct_parts c t))"

definition relation_names :: "catalog \<Rightarrow> jsstr list" where
  "relation_names c =
     concat (map (\<lambda>t. map p_name (ct_parts c t)) ROLLOVER_TABLES) @ map d_name (ct_detached c) @ ct_others c"

definition same_block :: "part_row \<Rightarrow> part_row \<Rightarrow> bool" where
  "same_block r b \<longleftrightarrow> rw_height r = rw_height b \<and> rw_block r = rw_block b"

definition referenced :: "part_row list \<Rightarrow> part_row \<Rightarrow> bool" where
  "referenced bs r \<longleftrightarrow> list_ex (same_block r) bs"

definition in_bound :: "bound \<Rightarrow> int \<Rightarrow> bool" where
  "in_bound b h \<longleftrightarrow> (case b of Range lo hi \<Rightarrow> lo \<le> h \<and> h < hi | Default \<Rightarrow> False)"

definition overlap :: "bound \<Rightarrow> bound \<Rightarrow> bool" where
  "overlap a b \<longleftrightarrow>
     (case (a, b) of (Range lo hi, Range lo' hi') \<Rightarrow> max lo lo' < min hi hi' | (Default, Default) \<Rightarrow> True | _ \<Rightarrow> False)"

section \<open>DDL statements\<close>

definition find_part :: "catalog \<Rightarrow> rollover_table \<Rightarrow> jsstr \<Rightarrow> part option" where
  "find_part c t n = find (\<lambda>p. p_name p = n) (ct_parts c t)"

definition find_detached :: "catalog \<Rightarrow> jsstr \<Rightarrow> detached option" where
  "find_detached c n = find (\<lambda>d. d_name d = n) (ct_detached c)"

text \<open>
  \<^verbatim>\<open>ALTER TABLE t DETACH PARTITION n\<close>. The detached child keeps its foreign key. A partition of
  \<^verbatim>\<open>blocks\<close> is not given up while a table with the foreign key, attached or not, references one of its rows.
\<close>

definition fk_rows :: "catalog \<Rightarrow> part_row list" where
  "fk_rows c = part_rows c Transactions @ part_rows c BridgeObservations
     @ concat (map d_rows (filter (\<lambda>d. d_fk d \<noteq> None) (ct_detached c)))"

definition detach_partition :: "rollover_table \<Rightarrow> jsstr \<Rightarrow> unit crun" where
  "detach_partition t n c =
     (case find_part c t n of
        None \<Rightarrow> (Inl (pg_error ''42P01'' None), c)
      | Some p \<Rightarrow>
          (if t = Blocks \<and> list_ex (referenced (p_rows p)) (fk_rows c) then (Inl (pg_error ''23503'' None), c)
           else (Inr (), c\<lparr>ct_parts := (ct_parts c)(t := filter (\<lambda>p. p_name p \<noteq> n) (ct_parts c t)),
                  ct_detached := ct_detached c @ [\<lparr>d_name = n, d_rows = p_rows p, d_fk = (if has_fk t then Some (fk_name t) else None)\<rparr>]\<rparr>)))"

definition drop_constraint :: "jsstr \<Rightarrow> jsstr \<Rightarrow> unit crun" where
  "drop_constraint n con c =
     (case find_detached c n of
        None \<Rightarrow> (Inl (pg_error ''42P01'' None), c)
      | Some d \<Rightarrow>
          (if d_fk d \<noteq> Some con then (Inl (pg_error ''42704'' None), c)
           else (Inr (), c\<lparr>ct_detached := map (\<lambda>d. if d_name d = n then d\<lparr>d_fk := None\<rparr> else d) (ct_detached c)\<rparr>)))"

definition rename_table :: "jsstr \<Rightarrow> jsstr \<Rightarrow> unit crun" where
  "rename_table n n' c =
     (if find_detached c n = None then (Inl (pg_error ''42P01'' None), c)
      else if List.member (relation_names c) n' then (Inl (pg_error ''42P07'' None), c)
      else (Inr (), c\<lparr>ct_detached := map (\<lambda>d. if d_name d = n then d\<lparr>d_name := n'\<rparr> else d) (ct_detached c)\<rparr>))"

text \<open>
  \<^verbatim>\<open>ALTER TABLE t ATTACH PARTITION n FOR VALUES FROM (lo) TO (hi)\<close>: the range may not overlap
  another partition's, every row must lie in it, no row of an attached DEFAULT may, and a child's rows
  must all reference a block.
\<close>

definition attach_partition :: "rollover_table \<Rightarrow> jsstr \<Rightarrow> int \<Rightarrow> int \<Rightarrow> unit crun" where
  "attach_partition t n lo hi c =
     (case find_detached c n of
        None \<Rightarrow> (Inl (pg_error ''42P01'' None), c)
      | Some d \<Rightarrow>
          (if hi \<le> lo \<or> list_ex (\<lambda>p. overlap (p_bound p) (Range lo hi)) (ct_parts c t) then (Inl (pg_error ''42P17'' None), c)
           else if list_ex (\<lambda>r. \<not> in_bound (Range lo hi) (rw_height r)) (d_rows d) then (Inl (pg_error ''23514'' None), c)
           else if list_ex (\<lambda>p. p_bound p = Default \<and> list_ex (\<lambda>r. in_bound (Range lo hi) (rw_height r)) (p_rows p)) (ct_parts c t)
             then (Inl (pg_error ''23514'' None), c)
           else if has_fk t \<and> list_ex (\<lambda>r. \<not> referenced (part_rows c Blocks) r) (d_rows d) then (Inl (pg_error ''23503'' None), c)
           else (Inr (), c\<lparr>ct_parts := (ct_parts c)(t := ct_parts c t @ [\<lparr>p_name = n, p_bound = Range lo hi, p_rows = d_rows d\<rparr>]),
                  ct_detached := filter (\<lambda>d. d_name d \<noteq> n) (ct_detached c)\<rparr>)))"

text \<open>\<^verbatim>\<open>CREATE TABLE n PARTITION OF t\<close> with a range or DEFAULT.\<close>

definition create_partition :: "rollover_table \<Rightarrow> jsstr \<Rightarrow> bound \<Rightarrow> unit crun" where
  "create_partition t n b c =
     (if List.member (relation_names c) n then (Inl (pg_error ''42P07'' None), c)
      else if list_ex (\<lambda>p. overlap (p_bound p) b) (ct_parts c t) \<or> (case b of Range lo hi \<Rightarrow> hi \<le> lo | Default \<Rightarrow> False)
        then (Inl (pg_error ''42P17'' None), c)
      else if list_ex (\<lambda>p. p_bound p = Default \<and> list_ex (\<lambda>r. in_bound b (rw_height r)) (p_rows p)) (ct_parts c t)
        then (Inl (pg_error ''23514'' None), c)
      else (Inr (), c\<lparr>ct_parts := (ct_parts c)(t := ct_parts c t @ [\<lparr>p_name = n, p_bound = b, p_rows = []\<rparr>])\<rparr>))"

section \<open>Creation\<close>

definition CHAIN_ARCHIVE_HEIGHT_PARTITION_SIZE :: int where
  "CHAIN_ARCHIVE_HEIGHT_PARTITION_SIZE = 1000000"

definition CHAIN_ARCHIVE_PRECREATED_PARTITIONS :: nat where
  "CHAIN_ARCHIVE_PRECREATED_PARTITIONS = 5"

fun digits :: "nat \<Rightarrow> jsstr" where
  "digits n = (if n < 10 then [0x30 + of_nat n] else digits (n div 10) @ [0x30 + of_nat (n mod 10)])"

declare digits.simps [simp del]

definition createHeightPartitions :: "rollover_table \<Rightarrow> unit crun" where
  "createHeightPartitions t =
     ebind (eforeach (\<lambda>i. create_partition t (table_name t @ js ''_p'' @ digits i)
              (Range (int i * CHAIN_ARCHIVE_HEIGHT_PARTITION_SIZE) (int (i + 1) * CHAIN_ARCHIVE_HEIGHT_PARTITION_SIZE)))
            [0..<CHAIN_ARCHIVE_PRECREATED_PARTITIONS]) (\<lambda>_.
       create_partition t (table_name t @ js ''_default'') Default)"

section \<open>Checks before any statement\<close>

record rollover_bucket =
  rb_lo :: rat
  rb_hi :: rat
  rb_suffix :: jsstr

definition PARTITION_SUFFIX_PATTERN :: "jsstr \<Rightarrow> bool" where
  "PARTITION_SUFFIX_PATTERN s \<longleftrightarrow> (case s of [] \<Rightarrow> False | c # cs \<Rightarrow> lower_letter c \<and> list_all ident_char cs)"

definition LONGEST_TABLE_PREFIX :: nat where
  "LONGEST_TABLE_PREFIX = length (js ''bridge_observations_'')"

definition assertValidPartitionSuffix :: "jsstr \<Rightarrow> js_error + unit" where
  "assertValidPartitionSuffix suffix =
     (if \<not> PARTITION_SUFFIX_PATTERN suffix then Inl (plain_error ''invalid rollover partition suffix'')
      else if POSTGRES_MAX_IDENTIFIER_BYTES < LONGEST_TABLE_PREFIX + length suffix
        then Inl (plain_error ''invalid rollover partition suffix: exceeds the identifier limit'')
      else Inr ())"

definition valid_bound :: "rat \<Rightarrow> bool" where
  "valid_bound x \<longleftrightarrow> x = of_int \<lfloor>x\<rfloor> \<and> \<bar>x\<bar> \<le> 9007199254740991 \<and> 0 \<le> x"

definition assertValidBucketBounds :: "rollover_bucket \<Rightarrow> js_error + unit" where
  "assertValidBucketBounds b =
     (if \<not> valid_bound (rb_lo b) \<or> \<not> valid_bound (rb_hi b) then Inl (plain_error ''invalid rollover bucket bound'')
      else if rb_hi b \<le> rb_lo b then Inl (plain_error ''invalid rollover bucket: lo must be < hi'')
      else Inr ())"

section \<open>The rollover\<close>

definition default_name :: "rollover_table \<Rightarrow> jsstr" where
  "default_name t = table_name t @ js ''_default''"

definition staging_name :: "rollover_table \<Rightarrow> jsstr" where
  "staging_name t = table_name t @ js ''_default_staging''"

definition bucket_name :: "rollover_table \<Rightarrow> rollover_bucket \<Rightarrow> jsstr" where
  "bucket_name t b = table_name t @ js ''_'' @ rb_suffix b"

definition bucket_bound :: "rollover_bucket \<Rightarrow> bound" where
  "bucket_bound b = Range \<lfloor>rb_lo b\<rfloor> \<lfloor>rb_hi b\<rfloor>"

definition attachedPartitionBound :: "rollover_table \<Rightarrow> jsstr \<Rightarrow> bound option crun" where
  "attachedPartitionBound t n c = (Inr (map_option p_bound (find_part c t n)), c)"

text \<open>
  The bound is compared as the text the server prints, \<^verbatim>\<open>FOR VALUES FROM ('lo') TO ('hi')\<close>, which
  determines both numbers.
\<close>

definition rolloverAlreadyApplied :: "pg_env \<Rightarrow> rollover_bucket \<Rightarrow> bool crun" where
  "rolloverAlreadyApplied env b =
     ebind (stmt env 0 (attachedPartitionBound Blocks (bucket_name Blocks b))) (\<lambda>b1.
     ebind (stmt env 1 (attachedPartitionBound Transactions (bucket_name Transactions b))) (\<lambda>b2.
     ebind (stmt env 2 (attachedPartitionBound BridgeObservations (bucket_name BridgeObservations b))) (\<lambda>b3.
       let attached = filter (\<lambda>x. x \<noteq> None) [b1, b2, b3] in
       if attached = [] then eret False
       else if length attached < length ROLLOVER_TABLES then ethrow (plain_error ''rollover suffix is PARTIALLY applied'')
       else if list_ex (\<lambda>x. x \<noteq> Some (bucket_bound b)) attached
         then ethrow (plain_error ''rollover suffix already exists with DIFFERENT bounds'')
       else eret True)))"

definition assertDefaultSpanFitsOneBucket :: "rollover_table \<Rightarrow> rollover_bucket \<Rightarrow> unit crun" where
  "assertDefaultSpanFitsOneBucket t b c =
     (case find_part c t (default_name t) of
        None \<Rightarrow> (Inl (pg_error ''42P01'' None), c)
      | Some p \<Rightarrow>
          (case map rw_height (p_rows p) of
             [] \<Rightarrow> (Inr (), c)
           | h # hs \<Rightarrow>
               (if Number_bigint (fold min hs h) < rb_lo b \<or> rb_hi b \<le> Number_bigint (fold max hs h)
                then (Inl (plain_error ''default partition holds rows outside the target bucket''), c)
                else (Inr (), c))))"

definition getFkConstraintName :: "jsstr \<Rightarrow> jsstr option crun" where
  "getFkConstraintName n c = (Inr (case find_detached c n of None \<Rightarrow> None | Some d \<Rightarrow> d_fk d), c)"

definition drop_fk :: "pg_env \<Rightarrow> nat \<Rightarrow> rollover_table \<Rightarrow> unit crun" where
  "drop_fk env n t =
     ebind (stmt env n (getFkConstraintName (default_name t))) (\<lambda>fk.
       case fk of None \<Rightarrow> eret () | Some con \<Rightarrow> stmt env (Suc n) (drop_constraint (default_name t) con))"

definition reattach :: "pg_env \<Rightarrow> nat \<Rightarrow> rollover_bucket \<Rightarrow> rollover_table \<Rightarrow> unit crun" where
  "reattach env n b t =
     ebind (stmt env n (rename_table (staging_name t) (bucket_name t b))) (\<lambda>_.
       stmt env (Suc n) (attach_partition t (bucket_name t b) \<lfloor>rb_lo b\<rfloor> \<lfloor>rb_hi b\<rfloor>))"

definition rollover_ddl :: "pg_env \<Rightarrow> rollover_bucket \<Rightarrow> unit crun" where
  "rollover_ddl env b =
     ebind (stmt env 7 (detach_partition Transactions (default_name Transactions))) (\<lambda>_.
     ebind (stmt env 8 (detach_partition BridgeObservations (default_name BridgeObservations))) (\<lambda>_.
     ebind (drop_fk env 9 Transactions) (\<lambda>_.
     ebind (drop_fk env 11 BridgeObservations) (\<lambda>_.
     ebind (stmt env 13 (detach_partition Blocks (default_name Blocks))) (\<lambda>_.
     ebind (stmt env 14 (rename_table (default_name Blocks) (staging_name Blocks))) (\<lambda>_.
     ebind (stmt env 15 (rename_table (default_name Transactions) (staging_name Transactions))) (\<lambda>_.
     ebind (stmt env 16 (rename_table (default_name BridgeObservations) (staging_name BridgeObservations))) (\<lambda>_.
     ebind (reattach env 17 b Blocks) (\<lambda>_.
     ebind (reattach env 19 b Transactions) (\<lambda>_.
     ebind (reattach env 21 b BridgeObservations) (\<lambda>_.
     ebind (stmt env 23 (create_partition Blocks (default_name Blocks) Default)) (\<lambda>_.
     ebind (stmt env 24 (create_partition Transactions (default_name Transactions) Default)) (\<lambda>_.
       stmt env 25 (create_partition BridgeObservations (default_name BridgeObservations) Default))))))))))))))"

text \<open>
  \<^verbatim>\<open>BEGIN\<close>, the body, \<^verbatim>\<open>COMMIT\<close>; on any failure the best-effort
  \<^verbatim>\<open>ROLLBACK\<close> (or the end of the connection) restores the catalog and the first error is thrown.
\<close>

definition ddl_transaction :: "pg_env \<Rightarrow> nat \<Rightarrow> unit crun \<Rightarrow> nat \<Rightarrow> unit crun" where
  "ddl_transaction env n body m c =
     (case ebind (stmt env n (eret ())) (\<lambda>_. ebind body (\<lambda>_. stmt env m (eret ()))) c of
        (Inl e, _) \<Rightarrow> (Inl e, c)
      | (Inr _, c') \<Rightarrow> (Inr (), c'))"

text \<open>The first argument says how reserving a connection fails, if it does.\<close>

definition rolloverDefaultPartition :: "js_error option \<Rightarrow> pg_env \<Rightarrow> jsstr \<Rightarrow> rollover_bucket \<Rightarrow> unit crun" where
  "rolloverDefaultPartition reserve env schema b =
     ebind (elift (assertValidSchemaName schema)) (\<lambda>_.
     ebind (elift (assertValidPartitionSuffix (rb_suffix b))) (\<lambda>_.
     ebind (elift (assertValidBucketBounds b)) (\<lambda>_.
     emap_error (\<lambda>err. translatePostgresError err None)
       (ebind (case reserve of Some e \<Rightarrow> ethrow e | None \<Rightarrow> eret ()) (\<lambda>_.
        ebind (rolloverAlreadyApplied env b) (\<lambda>done_before.
          if done_before then eret ()
          else
            ebind (stmt env 3 (assertDefaultSpanFitsOneBucket Blocks b)) (\<lambda>_.
            ebind (stmt env 4 (assertDefaultSpanFitsOneBucket Transactions b)) (\<lambda>_.
            ebind (stmt env 5 (assertDefaultSpanFitsOneBucket BridgeObservations b)) (\<lambda>_.
              ddl_transaction env 6 (rollover_ddl env b) 26)))))))))"

text \<open>\<^verbatim>\<open>quoteIdent\<close>, and what the server reads at a quoted identifier.\<close>

definition quoteIdent :: "jsstr \<Rightarrow> jsstr" where
  "quoteIdent n = 0x22 # concat (map (\<lambda>c. if c = 0x22 then [0x22, 0x22] else [c]) n) @ [0x22]"

fun quoted_body :: "jsstr \<Rightarrow> (jsstr \<times> jsstr) option" where
  "quoted_body [] = None"
| "quoted_body (c # cs) =
     (if c \<noteq> 0x22 then map_option (\<lambda>(n, r). (c # n, r)) (quoted_body cs)
      else case cs of
        d # ds \<Rightarrow> (if d = 0x22 then map_option (\<lambda>(n, r). (0x22 # n, r)) (quoted_body ds) else Some ([], cs))
      | [] \<Rightarrow> Some ([], []))"

lemma quoted_body_exact:
  assumes "rest = [] \<or> hd rest \<noteq> 0x22"
  shows "quoted_body (concat (map (\<lambda>c. if c = 0x22 then [0x22, 0x22] else [c]) n) @ 0x22 # rest) = Some (n, rest)"
  by (induction n) (use assms in \<open>auto split: list.splits\<close>)

text \<open>The identifier the server reads is the one that was quoted, whatever it contains.\<close>

lemma quoteIdent_closed:
  "rest = [] \<or> hd rest \<noteq> 0x22 \<Longrightarrow> \<exists>cs. quoteIdent n @ rest = 0x22 # cs \<and> quoted_body cs = Some (n, rest)"
  using quoted_body_exact [of rest n] by (simp add: quoteIdent_def)

end
