(* ===== verification/RolloverProperties.thy ===== *)
theory RolloverProperties
  imports Rollover "HOL-Library.Multiset"
begin

text \<open>
  What the partitions and their rollover guarantee: where a height is routed, the invariant of the
  catalog, the exact effect of a successful rollover, when it succeeds, and that it loses no row.
\<close>

section \<open>Where a row goes\<close>

definition route :: "catalog \<Rightarrow> rollover_table \<Rightarrow> int \<Rightarrow> jsstr option" where
  "route c t h =
     (case find (\<lambda>p. in_bound (p_bound p) h) (ct_parts c t) of
        Some p \<Rightarrow> Some (p_name p)
      | None \<Rightarrow> map_option p_name (find (\<lambda>p. p_bound p = Default) (ct_parts c t)))"

text \<open>A partition accepts a height: it is in the range, or in no range and the partition is the DEFAULT.\<close>

definition accepts :: "part list \<Rightarrow> part \<Rightarrow> int \<Rightarrow> bool" where
  "accepts ps p h \<longleftrightarrow>
     in_bound (p_bound p) h \<or> (p_bound p = Default \<and> list_all (\<lambda>q. \<not> in_bound (p_bound q) h) ps)"

definition parts_ok :: "rollover_table \<Rightarrow> part list \<Rightarrow> bool" where
  "parts_ok t ps \<longleftrightarrow>
     distinct (map p_name ps)
   \<and> (\<forall>p \<in> set ps. \<forall>q \<in> set ps. overlap (p_bound p) (p_bound q) \<longrightarrow> p = q)
   \<and> (\<exists>p \<in> set ps. p_name p = default_name t \<and> p_bound p = Default)
   \<and> (\<forall>p \<in> set ps. \<forall>lo hi. p_bound p = Range lo hi \<longrightarrow> lo < hi)
   \<and> (\<forall>p \<in> set ps. \<forall>r \<in> set (p_rows p). accepts ps p (rw_height r))"

text \<open>The three tables have the same ranges, all names differ, nothing is detached, every child row has its block.\<close>

definition part_inv :: "catalog \<Rightarrow> bool" where
  "part_inv c \<longleftrightarrow>
     (\<forall>t. parts_ok t (ct_parts c t)) \<and> (\<forall>t. p_bound ` set (ct_parts c t) = p_bound ` set (ct_parts c Blocks))
   \<and> ct_detached c = [] \<and> distinct (relation_names c)
   \<and> (\<forall>t. \<forall>r \<in> set (part_rows c t). referenced (part_rows c Blocks) r)"

lemma ranges_disjoint:
  assumes "parts_ok t ps" and "p \<in> set ps" and "q \<in> set ps" and "in_bound (p_bound p) h" and "in_bound (p_bound q) h"
  shows "p = q"
proof -
  from assms(4,5) have "overlap (p_bound p) (p_bound q)"
    by (auto simp: in_bound_def overlap_def split: bound.splits)
  with assms(1-3) show ?thesis by (simp add: parts_ok_def)
qed

lemma accepts_unique:
  assumes "parts_ok t ps" and "p \<in> set ps" and "q \<in> set ps" and "accepts ps p h" and "accepts ps q h"
  shows "p = q"
proof (cases "in_bound (p_bound p) h \<or> in_bound (p_bound q) h")
  case True
  with assms ranges_disjoint [OF assms(1)] show ?thesis by (auto simp: accepts_def list_all_iff)
next
  case False
  with assms(4,5) have "p_bound p = Default" "p_bound q = Default" by (auto simp: accepts_def)
  with assms(1-3) show ?thesis by (simp add: parts_ok_def overlap_def)
qed

lemma find_SomeD: "find P xs = Some x \<Longrightarrow> x \<in> set xs \<and> P x"
  by (induction xs) (auto split: if_splits)

lemma route_accepts:
  assumes "parts_ok t (ct_parts c t)"
  shows "\<exists>p \<in> set (ct_parts c t). route c t h = Some (p_name p) \<and> accepts (ct_parts c t) p h"
proof (cases "find (\<lambda>p. in_bound (p_bound p) h) (ct_parts c t)")
  case (Some p)
  with find_SomeD [OF Some] show ?thesis by (auto simp: route_def accepts_def)
next
  case None
  then have none: "\<forall>p \<in> set (ct_parts c t). \<not> in_bound (p_bound p) h" by (simp add: find_None_iff)
  obtain d where "find (\<lambda>p. p_bound p = Default) (ct_parts c t) = Some d"
    using assms by (cases "find (\<lambda>p. p_bound p = Default) (ct_parts c t)") (auto simp: parts_ok_def find_None_iff)
  with find_SomeD [OF this] None none show ?thesis by (auto simp: route_def accepts_def list_all_iff)
qed

lemma route_iff:
  assumes "parts_ok t (ct_parts c t)" and "p \<in> set (ct_parts c t)"
  shows "route c t h = Some (p_name p) \<longleftrightarrow> accepts (ct_parts c t) p h"
proof -
  from route_accepts [OF assms(1)] obtain q where q: "q \<in> set (ct_parts c t)" "route c t h = Some (p_name q)"
    "accepts (ct_parts c t) q h" by blast
  have "p_name q = p_name p \<Longrightarrow> q = p" using assms q(1) by (auto simp: parts_ok_def distinct_map dest: inj_onD)
  with q accepts_unique [OF assms(1) q(1) assms(2)] show ?thesis by auto
qed

section \<open>What the rollover does\<close>

lemma names_differ [simp]:
  "default_name t = default_name t' \<longleftrightarrow> t = t'" "staging_name t = staging_name t' \<longleftrightarrow> t = t'"
  "bucket_name t b = bucket_name t' b \<longleftrightarrow> t = t'"
  "default_name t \<noteq> staging_name t'" "staging_name t \<noteq> default_name t'"
  "bucket_name t b = default_name t' \<longleftrightarrow> t = t' \<and> rb_suffix b = js ''default''"
  "bucket_name t b = staging_name t' \<longleftrightarrow> t = t' \<and> rb_suffix b = js ''default_staging''"
  "default_name t' = bucket_name t b \<longleftrightarrow> t = t' \<and> rb_suffix b = js ''default''"
  "staging_name t' = bucket_name t b \<longleftrightarrow> t = t' \<and> rb_suffix b = js ''default_staging''"
  by (cases t; cases t'; auto simp: default_name_def staging_name_def bucket_name_def js_def)+

lemma relation_names_set:
  "set (relation_names c) = (\<Union>t. p_name ` set (ct_parts c t)) \<union> d_name ` set (ct_detached c) \<union> set (ct_others c)"
proof -
  have u: "(UNIV :: rollover_table set) = {Blocks, Transactions, BridgeObservations}" using rollover_table.exhaust by blast
  have "(\<Union>t. p_name ` set (ct_parts c t)) = p_name ` set (ct_parts c Blocks) \<union> p_name ` set (ct_parts c Transactions)
      \<union> p_name ` set (ct_parts c BridgeObservations)" unfolding u by auto
  then show ?thesis by (simp add: relation_names_def ROLLOVER_TABLES_def Un_assoc)
qed

definition default_part :: "catalog \<Rightarrow> rollover_table \<Rightarrow> part" where
  "default_part c t = the (find_part c t (default_name t))"

definition kept :: "catalog \<Rightarrow> rollover_table \<Rightarrow> part list" where
  "kept c t = filter (\<lambda>p. p_name p \<noteq> default_name t) (ct_parts c t)"

lemma find_unique: "distinct (map f xs) \<Longrightarrow> x \<in> set xs \<Longrightarrow> find (\<lambda>y. f y = f x) xs = Some x"
  by (induction xs) auto

lemma default_part_props:
  assumes "parts_ok t (ct_parts c t)"
  shows "find_part c t (default_name t) = Some (default_part c t)" "default_part c t \<in> set (ct_parts c t)"
    "p_name (default_part c t) = default_name t" "p_bound (default_part c t) = Default"
proof -
  from assms obtain p where p: "p \<in> set (ct_parts c t)" "p_name p = default_name t" "p_bound p = Default" "distinct (map p_name (ct_parts c t))"
    by (auto simp: parts_ok_def)
  then have "find_part c t (default_name t) = Some p" using find_unique [of p_name] by (metis find_part_def)
  with p show "find_part c t (default_name t) = Some (default_part c t)" "default_part c t \<in> set (ct_parts c t)"
    "p_name (default_part c t) = default_name t" "p_bound (default_part c t) = Default" by (simp_all add: default_part_def)
qed

lemma kept_ranges:
  assumes "parts_ok t (ct_parts c t)" and "p \<in> set (kept c t)"
  shows "p \<in> set (ct_parts c t)" "\<exists>lo hi. p_bound p = Range lo hi \<and> lo < hi"
proof -
  show p: "p \<in> set (ct_parts c t)" using assms(2) by (simp add: kept_def)
  have "p_bound p \<noteq> Default"
  proof
    assume "p_bound p = Default"
    then have "p = default_part c t" using assms(1) p default_part_props [OF assms(1)] by (auto simp: parts_ok_def overlap_def)
    then show False using assms(2) default_part_props(3) [OF assms(1)] by (simp add: kept_def)
  qed
  then show "\<exists>lo hi. p_bound p = Range lo hi \<and> lo < hi"
    using assms(1) p by (cases "p_bound p") (auto simp: parts_ok_def)
qed

lemma set_parts_kept: "parts_ok t (ct_parts c t) \<Longrightarrow> set (ct_parts c t) = insert (default_part c t) (set (kept c t))"
proof -
  assume ok: "parts_ok t (ct_parts c t)"
  have "p = default_part c t" if "p \<in> set (ct_parts c t)" "p_name p = default_name t" for p
    using inj_onD [of p_name "set (ct_parts c t)" p "default_part c t"] ok that default_part_props(2,3) [OF ok]
    by (simp add: parts_ok_def distinct_map)
  then show ?thesis using default_part_props(2) [OF ok] by (auto simp: kept_def)
qed

text \<open>A child row in a range partition never references a block in the DEFAULT: the ranges are the same.\<close>

lemma kept_not_referencing:
  assumes "part_inv c" and "p \<in> set (kept c t)" and "r \<in> set (p_rows p)"
  shows "\<not> referenced (p_rows (default_part c Blocks)) r"
proof
  assume "referenced (p_rows (default_part c Blocks)) r"
  then obtain b where b: "b \<in> set (p_rows (default_part c Blocks))" "rw_height b = rw_height r"
    by (auto simp: referenced_def list_ex_iff same_block_def)
  have ok: "parts_ok t (ct_parts c t)" "parts_ok Blocks (ct_parts c Blocks)" using assms(1) by (simp_all add: part_inv_def)
  obtain lo hi where p: "p \<in> set (ct_parts c t)" "p_bound p = Range lo hi" using kept_ranges [OF ok(1) assms(2)] by blast
  with ok(1) assms(3) have h: "in_bound (Range lo hi) (rw_height r)" by (auto simp: parts_ok_def accepts_def)
  have "Range lo hi \<in> p_bound ` set (ct_parts c Blocks)" using assms(1) p by (force simp: part_inv_def)
  then obtain q where q: "q \<in> set (ct_parts c Blocks)" "p_bound q = Range lo hi" by auto
  have "accepts (ct_parts c Blocks) (default_part c Blocks) (rw_height b)"
    using ok(2) b(1) default_part_props(2) [OF ok(2)] by (auto simp: parts_ok_def)
  then show False
    using q h b(2) default_part_props(4) [OF ok(2)] by (auto simp: accepts_def list_all_iff in_bound_def)
qed

definition loose :: "catalog \<Rightarrow> (rollover_table \<Rightarrow> jsstr) \<Rightarrow> rollover_table \<Rightarrow> detached" where
  "loose c f t = \<lparr>d_name = f t, d_rows = p_rows (default_part c t), d_fk = None\<rparr>"

lemma detach_all:
  assumes "part_inv c"
  shows "(ebind (detach_partition Transactions (default_name Transactions)) (\<lambda>_.
     ebind (detach_partition BridgeObservations (default_name BridgeObservations)) (\<lambda>_.
     ebind (drop_fk (quiet 0 0) 9 Transactions) (\<lambda>_.
     ebind (drop_fk (quiet 0 0) 11 BridgeObservations) (\<lambda>_.
       detach_partition Blocks (default_name Blocks)))))) c
   = (Inr (), c\<lparr>ct_parts := kept c,
        ct_detached := map (loose c default_name) [Transactions, BridgeObservations, Blocks]\<rparr>)"
proof -
  have ok: "parts_ok t (ct_parts c t)" for t using assms by (simp add: part_inv_def)
  have none: "ct_detached c = []" using assms by (simp add: part_inv_def)
  note [simp] = default_part_props(1) [OF ok]
  let ?c1 = "c\<lparr>ct_parts := (ct_parts c)(Transactions := kept c Transactions),
     ct_detached := [(loose c default_name Transactions)\<lparr>d_fk := Some (fk_name Transactions)\<rparr>]\<rparr>"
  let ?P2 = "(ct_parts c)(Transactions := kept c Transactions, BridgeObservations := kept c BridgeObservations)"
  let ?c2 = "c\<lparr>ct_parts := ?P2, ct_detached := [(loose c default_name Transactions)\<lparr>d_fk := Some (fk_name Transactions)\<rparr>,
     (loose c default_name BridgeObservations)\<lparr>d_fk := Some (fk_name BridgeObservations)\<rparr>]\<rparr>"
  let ?c4 = "c\<lparr>ct_parts := ?P2, ct_detached := [loose c default_name Transactions, loose c default_name BridgeObservations]\<rparr>"
  have 1: "detach_partition Transactions (default_name Transactions) c = (Inr (), ?c1)"
    by (simp add: detach_partition_def kept_def loose_def none)
  have 2: "detach_partition BridgeObservations (default_name BridgeObservations) ?c1 = (Inr (), ?c2)"
    using default_part_props(1) [OF ok, of BridgeObservations] by (simp add: detach_partition_def kept_def loose_def find_part_def)
  have 3: "drop_fk (quiet 0 0) 9 Transactions ?c2 = (Inr (), ?c2\<lparr>ct_detached := [loose c default_name Transactions,
     (loose c default_name BridgeObservations)\<lparr>d_fk := Some (fk_name BridgeObservations)\<rparr>]\<rparr>)"
    by (simp add: drop_fk_def getFkConstraintName_def drop_constraint_def find_detached_def loose_def ebind_def)
  have 4: "drop_fk (quiet 0 0) 11 BridgeObservations (?c2\<lparr>ct_detached := [loose c default_name Transactions,
     (loose c default_name BridgeObservations)\<lparr>d_fk := Some (fk_name BridgeObservations)\<rparr>]\<rparr>) = (Inr (), ?c4)"
    by (simp add: drop_fk_def getFkConstraintName_def drop_constraint_def find_detached_def loose_def ebind_def)
  have nr: "\<not> list_ex (referenced (p_rows (default_part c Blocks))) (fk_rows ?c4)"
    using kept_not_referencing [OF assms] by (auto simp: fk_rows_def part_rows_def loose_def list_ex_iff)
  have parts: "?P2(Blocks := filter (\<lambda>p. p_name p \<noteq> default_name Blocks) (ct_parts c Blocks)) = kept c"
  proof
    show "(?P2(Blocks := filter (\<lambda>p. p_name p \<noteq> default_name Blocks) (ct_parts c Blocks))) t = kept c t" for t
      by (cases t) (simp_all add: kept_def)
  qed
  have "find_part ?c4 Blocks (default_name Blocks) = Some (default_part c Blocks)"
    using default_part_props(1) [OF ok, of Blocks] by (simp add: find_part_def)
  then have 5: "detach_partition Blocks (default_name Blocks) ?c4
     = (Inr (), c\<lparr>ct_parts := kept c, ct_detached := map (loose c default_name) [Transactions, BridgeObservations, Blocks]\<rparr>)"
    using nr parts by (simp add: detach_partition_def loose_def)
  show ?thesis by (simp only: ebind_def 1 2 3 4 5 prod.case sum.case)
qed

lemma ebind_Inr_iff: "ebind m f s = (Inr b, t) \<longleftrightarrow> (\<exists>a s'. m s = (Inr a, s') \<and> f a s' = (Inr b, t))"
  by (auto simp: ebind_def split: prod.splits sum.splits)

lemma rename_Inr:
  "rename_table n n' c = (Inr u, c') \<longleftrightarrow>
     find_detached c n \<noteq> None \<and> n' \<notin> set (relation_names c)
   \<and> c' = c\<lparr>ct_detached := map (\<lambda>d. if d_name d = n then d\<lparr>d_name := n'\<rparr> else d) (ct_detached c)\<rparr>"
  by (auto simp: rename_table_def)

definition taken :: "catalog \<Rightarrow> jsstr set" where
  "taken c = (\<Union>t. p_name ` set (kept c t)) \<union> set (ct_others c)"

definition loosened :: "catalog \<Rightarrow> detached list \<Rightarrow> catalog" where
  "loosened c ds = c\<lparr>ct_parts := kept c, ct_detached := ds\<rparr>"

lemma loosened_simps [simp]:
  "ct_parts (loosened c ds) = kept c" "ct_detached (loosened c ds) = ds"
  "(loosened c ds)\<lparr>ct_detached := ds'\<rparr> = loosened c ds'"
  "set (relation_names (loosened c ds)) = taken c \<union> d_name ` set ds"
  by (auto simp: loosened_def relation_names_set taken_def)

lemma rename_loose:
  "rename_table (default_name Blocks) (staging_name Blocks) (loosened c (map (loose c default_name) [Transactions, BridgeObservations, Blocks])) = (Inr u, c1)
   \<longleftrightarrow> staging_name Blocks \<notin> taken c
     \<and> c1 = loosened c [loose c default_name Transactions, loose c default_name BridgeObservations, loose c staging_name Blocks]"
  "rename_table (default_name Transactions) (staging_name Transactions)
     (loosened c [loose c default_name Transactions, loose c default_name BridgeObservations, loose c staging_name Blocks]) = (Inr u, c2)
   \<longleftrightarrow> staging_name Transactions \<notin> taken c
     \<and> c2 = loosened c [loose c staging_name Transactions, loose c default_name BridgeObservations, loose c staging_name Blocks]"
  "rename_table (default_name BridgeObservations) (staging_name BridgeObservations)
     (loosened c [loose c staging_name Transactions, loose c default_name BridgeObservations, loose c staging_name Blocks]) = (Inr u, c3)
   \<longleftrightarrow> staging_name BridgeObservations \<notin> taken c \<and> c3 = loosened c (map (loose c staging_name) [Transactions, BridgeObservations, Blocks])"
  by (auto simp: rename_Inr find_detached_def loose_def)

lemma attach_Inr:
  "attach_partition t n lo hi c = (Inr u, c') \<longleftrightarrow>
     (\<exists>d. find_detached c n = Some d \<and> lo < hi \<and> \<not> list_ex (\<lambda>p. overlap (p_bound p) (Range lo hi)) (ct_parts c t)
      \<and> (\<forall>r \<in> set (d_rows d). in_bound (Range lo hi) (rw_height r))
      \<and> \<not> list_ex (\<lambda>p. p_bound p = Default \<and> list_ex (\<lambda>r. in_bound (Range lo hi) (rw_height r)) (p_rows p)) (ct_parts c t)
      \<and> (has_fk t \<longrightarrow> (\<forall>r \<in> set (d_rows d). referenced (part_rows c Blocks) r))
      \<and> c' = c\<lparr>ct_parts := (ct_parts c)(t := ct_parts c t @ [\<lparr>p_name = n, p_bound = Range lo hi, p_rows = d_rows d\<rparr>]),
             ct_detached := filter (\<lambda>d. d_name d \<noteq> n) (ct_detached c)\<rparr>)"
  by (auto simp: attach_partition_def list_ex_iff split: option.splits if_splits)

lemma create_Inr:
  "create_partition t n b c = (Inr u, c') \<longleftrightarrow>
     n \<notin> set (relation_names c) \<and> \<not> list_ex (\<lambda>p. overlap (p_bound p) b) (ct_parts c t) \<and> (\<forall>lo hi. b = Range lo hi \<longrightarrow> lo < hi)
   \<and> \<not> list_ex (\<lambda>p. p_bound p = Default \<and> list_ex (\<lambda>r. in_bound b (rw_height r)) (p_rows p)) (ct_parts c t)
   \<and> c' = c\<lparr>ct_parts := (ct_parts c)(t := ct_parts c t @ [\<lparr>p_name = n, p_bound = b, p_rows = []\<rparr>])\<rparr>"
  by (auto simp: create_partition_def split: if_splits bound.splits)

text \<open>The catalog while the tables in \<open>A\<close> are reattached and those in \<open>B\<close> have a new DEFAULT.\<close>

definition bucket_part :: "catalog \<Rightarrow> rollover_bucket \<Rightarrow> rollover_table \<Rightarrow> part" where
  "bucket_part c b t = \<lparr>p_name = bucket_name t b, p_bound = bucket_bound b, p_rows = p_rows (default_part c t)\<rparr>"

definition new_default :: "rollover_table \<Rightarrow> part" where
  "new_default t = \<lparr>p_name = default_name t, p_bound = Default, p_rows = []\<rparr>"

definition halfway :: "catalog \<Rightarrow> rollover_bucket \<Rightarrow> rollover_table set \<Rightarrow> rollover_table set \<Rightarrow> detached list \<Rightarrow> catalog" where
  "halfway c b A B ds = c\<lparr>ct_parts := (\<lambda>t. kept c t @ (if t \<in> A then [bucket_part c b t] else []) @ (if t \<in> B then [new_default t] else [])),
     ct_detached := ds\<rparr>"

lemma halfway_simps [simp]:
  "ct_parts (halfway c b A B ds) t = kept c t @ (if t \<in> A then [bucket_part c b t] else []) @ (if t \<in> B then [new_default t] else [])"
  "ct_detached (halfway c b A B ds) = ds" "(halfway c b A B ds)\<lparr>ct_detached := ds'\<rparr> = halfway c b A B ds'"
  by (simp_all add: halfway_def)

lemma halfway_names [simp]:
  "set (relation_names (halfway c b A B ds)) =
     taken c \<union> (\<lambda>t. bucket_name t b) ` A \<union> default_name ` B \<union> d_name ` set ds"
proof -
  have "p_name ` set (ct_parts (halfway c b A B ds) t) =
      p_name ` set (kept c t) \<union> (if t \<in> A then {bucket_name t b} else {}) \<union> (if t \<in> B then {default_name t} else {})" for t
    by (simp add: bucket_part_def new_default_def image_Un)
  then have "set (relation_names (halfway c b A B ds)) =
      (\<Union>t. p_name ` set (kept c t) \<union> (if t \<in> A then {bucket_name t b} else {}) \<union> (if t \<in> B then {default_name t} else {}))
      \<union> d_name ` set ds \<union> set (ct_others c)"
    unfolding relation_names_set by (simp add: halfway_def)
  also have "\<dots> = taken c \<union> (\<lambda>t. bucket_name t b) ` A \<union> default_name ` B \<union> d_name ` set ds"
    by (auto simp: taken_def split: if_splits)
  finally show ?thesis .
qed

lemma loosened_halfway: "loosened c ds = halfway c b {} {} ds"
  by (simp add: loosened_def halfway_def)

lemma halfway_attach:
  "t \<notin> A \<Longrightarrow> B = {} \<Longrightarrow> (halfway c b A B ds)\<lparr>ct_parts := (ct_parts (halfway c b A B ds))(t := ct_parts (halfway c b A B ds) t @ [bucket_part c b t]), ct_detached := ds'\<rparr>
   = halfway c b (insert t A) B ds'"
  by (auto simp: halfway_def fun_eq_iff)

lemma halfway_create:
  "t \<notin> B \<Longrightarrow> (halfway c b A B ds)\<lparr>ct_parts := (ct_parts (halfway c b A B ds))(t := ct_parts (halfway c b A B ds) t @ [new_default t])\<rparr>
   = halfway c b A (insert t B) ds"
  by (auto simp: halfway_def fun_eq_iff)

definition fits_bucket :: "catalog \<Rightarrow> rollover_bucket \<Rightarrow> rollover_table \<Rightarrow> bool" where
  "fits_bucket c b t \<longleftrightarrow>
     bucket_name t b \<notin> taken c \<and> (\<forall>p \<in> set (kept c t). \<not> overlap (p_bound p) (bucket_bound b))
   \<and> (\<forall>r \<in> set (p_rows (default_part c t)). in_bound (bucket_bound b) (rw_height r))"

lemma blocks_rows_halfway:
  assumes "part_inv c" and "Blocks \<in> A"
  shows "set (part_rows (halfway c b A B ds) Blocks) = set (part_rows c Blocks)"
proof -
  have "parts_ok Blocks (ct_parts c Blocks)" using assms(1) by (simp add: part_inv_def)
  from set_parts_kept [OF this] assms(2) show ?thesis by (auto simp: part_rows_def bucket_part_def new_default_def split: if_splits)
qed

lemma referenced_set: "set xs = set ys \<Longrightarrow> referenced xs r = referenced ys r"
  by (simp add: referenced_def list_ex_iff)

lemma reattach_Inr:
  assumes inv: "part_inv c" and A: "t \<notin> A" "has_fk t \<longrightarrow> Blocks \<in> A" and lh: "\<lfloor>rb_lo b\<rfloor> < \<lfloor>rb_hi b\<rfloor>"
    and ds: "find (\<lambda>d. d_name d = staging_name t) ds = Some (loose c staging_name t)" "distinct (map d_name ds)" "d_name ` set ds \<subseteq> range staging_name"
  shows "reattach (quiet 0 0) n b t (halfway c b A {} ds) = (Inr u, c') \<longleftrightarrow>
     rb_suffix b \<noteq> js ''default_staging'' \<and> fits_bucket c b t
   \<and> c' = halfway c b (insert t A) {} (filter (\<lambda>d. d_name d \<noteq> staging_name t) ds)"
proof -
  have ok: "parts_ok t (ct_parts c t)" using inv by (simp add: part_inv_def)
  have free: "bucket_name t b \<notin> d_name ` set ds" if "rb_suffix b \<noteq> js ''default_staging''"
    using ds(3) that by auto
  have taken: "staging_name t \<in> d_name ` set ds" using find_SomeD [OF ds(1)] by (metis image_eqI)
  show ?thesis
  proof (cases "rb_suffix b = js ''default_staging'' \<or> bucket_name t b \<in> taken c")
    case True
    have "bucket_name t b \<in> d_name ` set ds" if "rb_suffix b = js ''default_staging''"
    proof -
      have "bucket_name t b = staging_name t" using that by simp
      then show ?thesis using taken by (simp only:)
    qed
    with True show ?thesis by (auto simp: reattach_def ebind_Inr_iff rename_Inr fits_bucket_def simp del: names_differ)
  next
    case False
    let ?ds = "map (\<lambda>d. if d_name d = staging_name t then d\<lparr>d_name := bucket_name t b\<rparr> else d) ds"
    have ren: "rename_table (staging_name t) (bucket_name t b) (halfway c b A {} ds) = (Inr (), halfway c b A {} ?ds)"
      using False free ds(1) A(1) by (auto simp: rename_Inr find_detached_def)
    have f: "find_detached (halfway c b A {} ?ds) (bucket_name t b) = Some (loose c (\<lambda>t. bucket_name t b) t)"
      using ds(1) free False unfolding find_detached_def halfway_simps
      by (induction ds) (auto simp: loose_def)
    have fi: "filter (\<lambda>d. d_name d \<noteq> bucket_name t b) ?ds = filter (\<lambda>d. d_name d \<noteq> staging_name t) ds"
      using free False by (induction ds) auto
    have nodef: "\<not> list_ex (\<lambda>p. p_bound p = Default \<and> P p) (kept c t)" for P
      using kept_ranges(2) [OF ok] by (fastforce simp: list_ex_iff)
    have "\<forall>r \<in> set (p_rows (default_part c t)). referenced (part_rows c Blocks) r"
      using inv default_part_props(2) [OF ok] by (auto simp: part_inv_def part_rows_def)
    then have refs: "has_fk t \<longrightarrow> (\<forall>r \<in> set (p_rows (default_part c t)). referenced (part_rows (halfway c b A {} ?ds) Blocks) r)"
      using A(2) referenced_set [OF blocks_rows_halfway [OF inv, of A b "{}" ?ds]] by blast
    have "attach_partition t (bucket_name t b) \<lfloor>rb_lo b\<rfloor> \<lfloor>rb_hi b\<rfloor> (halfway c b A {} ?ds) = (Inr u, c') \<longleftrightarrow>
        fits_bucket c b t \<and> c' = halfway c b (insert t A) {} (filter (\<lambda>d. d_name d \<noteq> staging_name t) ds)"
      unfolding attach_Inr f using A(1) lh nodef refs False halfway_attach [OF A(1) refl, where c = c and b = b and ds = ?ds]
      by (auto simp: fits_bucket_def fi list_ex_iff loose_def bucket_part_def bucket_bound_def)
    with False ren show ?thesis by (auto simp: reattach_def ebind_Inr_iff)
  qed
qed

lemma names_of_table:
  assumes "distinct (relation_names c)"
  shows "p \<in> set (ct_parts c t) \<Longrightarrow> q \<in> set (ct_parts c t') \<Longrightarrow> p_name p = p_name q \<Longrightarrow> t = t'"
    and "p \<in> set (ct_parts c t) \<Longrightarrow> p_name p \<notin> set (ct_others c)"
proof -
  let ?N = "\<lambda>t. p_name ` set (ct_parts c t)"
  have d: "?N Blocks \<inter> ?N Transactions = {}" "?N Blocks \<inter> ?N BridgeObservations = {}" "?N Transactions \<inter> ?N BridgeObservations = {}"
    "\<And>t. ?N t \<inter> set (ct_others c) = {}"
  proof -
    from assms show "?N Blocks \<inter> ?N Transactions = {}" "?N Blocks \<inter> ?N BridgeObservations = {}" "?N Transactions \<inter> ?N BridgeObservations = {}"
      unfolding relation_names_def ROLLOVER_TABLES_def by (simp_all add: Int_Un_distrib)
    from assms show "?N t \<inter> set (ct_others c) = {}" for t
      unfolding relation_names_def ROLLOVER_TABLES_def by (cases t) (simp_all add: Int_Un_distrib Int_Un_distrib2)
  qed
  show "p \<in> set (ct_parts c t) \<Longrightarrow> q \<in> set (ct_parts c t') \<Longrightarrow> p_name p = p_name q \<Longrightarrow> t = t'"
    using d(1-3) by (cases t; cases t') (auto simp: disjoint_iff)
  show "p \<in> set (ct_parts c t) \<Longrightarrow> p_name p \<notin> set (ct_others c)" using d(4) by blast
qed

lemma create_halfway:
  assumes inv: "part_inv c" and "t \<notin> B"
  shows "create_partition t (default_name t) Default (halfway c b UNIV B []) = (Inr u, c') \<longleftrightarrow>
     rb_suffix b \<noteq> js ''default'' \<and> c' = halfway c b UNIV (insert t B) []"
proof -
  have ok: "parts_ok t (ct_parts c t)" for t using inv by (simp add: part_inv_def)
  have d: "distinct (relation_names c)" using inv by (simp add: part_inv_def)
  have "default_name t \<notin> taken c"
  proof
    assume "default_name t \<in> taken c"
    then consider t' p where "p \<in> set (kept c t')" "p_name p = default_name t" | "default_name t \<in> set (ct_others c)"
      by (auto simp: taken_def)
    then show False
    proof cases
      case 1
      then have "t' \<noteq> t" "p \<in> set (ct_parts c t')" by (auto simp: kept_def)
      with names_of_table(1) [OF d, of p t' "default_part c t" t] 1 default_part_props(2,3) [OF ok, of t] show ?thesis by simp
    next
      case 2
      with names_of_table(2) [OF d, of "default_part c t" t] default_part_props(2,3) [OF ok, of t] show ?thesis by simp
    qed
  qed
  moreover have "\<not> overlap (p_bound p) Default" if "p \<in> set (kept c t @ [bucket_part c b t])" for p
    using that kept_ranges(2) [OF ok, of p t] by (auto simp: overlap_def bucket_part_def bucket_bound_def)
  ultimately show ?thesis
    using assms(2) halfway_create [OF assms(2), where c = c and b = b and A = UNIV and ds = "[]"]
    by (auto simp: create_Inr list_ex_iff in_bound_def new_default_def)
qed

definition can_roll :: "catalog \<Rightarrow> rollover_bucket \<Rightarrow> bool" where
  "can_roll c b \<longleftrightarrow>
     rb_suffix b \<noteq> js ''default'' \<and> rb_suffix b \<noteq> js ''default_staging''
   \<and> (\<forall>t. staging_name t \<notin> taken c) \<and> (\<forall>t. fits_bucket c b t)"

definition rolled :: "catalog \<Rightarrow> rollover_bucket \<Rightarrow> catalog" where
  "rolled c b = c\<lparr>ct_parts := (\<lambda>t. kept c t @ [bucket_part c b t, new_default t])\<rparr>"

lemma all_tables: "(\<forall>t. P t) \<longleftrightarrow> P Blocks \<and> P Transactions \<and> P BridgeObservations"
  by (metis rollover_table.exhaust)

lemma rolled_halfway: "part_inv c \<Longrightarrow> halfway c b UNIV UNIV [] = rolled c b"
  by (simp add: halfway_def rolled_def part_inv_def)

lemma rename_all:
  "ebind (rename_table (default_name Blocks) (staging_name Blocks)) (\<lambda>_.
     ebind (rename_table (default_name Transactions) (staging_name Transactions)) (\<lambda>_.
     ebind (rename_table (default_name BridgeObservations) (staging_name BridgeObservations)) (\<lambda>_. f)))
     (loosened c (map (loose c default_name) [Transactions, BridgeObservations, Blocks])) = (Inr u, c')
   \<longleftrightarrow> (\<forall>t. staging_name t \<notin> taken c) \<and> f (loosened c (map (loose c staging_name) [Transactions, BridgeObservations, Blocks])) = (Inr u, c')"
  by (simp add: ebind_Inr_iff [of "rename_table _ _"] rename_loose [simplified] all_tables)

lemma rollover_ddl_Inr:
  assumes inv: "part_inv c" and lh: "\<lfloor>rb_lo b\<rfloor> < \<lfloor>rb_hi b\<rfloor>"
  shows "rollover_ddl (quiet 0 0) b c = (Inr u, c') \<longleftrightarrow> can_roll c b \<and> c' = rolled c b"
proof -
  let ?L = "loose c staging_name"
  let ?rest = "ebind (reattach (quiet 0 0) 17 b Blocks) (\<lambda>_. ebind (reattach (quiet 0 0) 19 b Transactions) (\<lambda>_.
     ebind (reattach (quiet 0 0) 21 b BridgeObservations) (\<lambda>_.
     ebind (create_partition Blocks (default_name Blocks) Default) (\<lambda>_.
     ebind (create_partition Transactions (default_name Transactions) Default) (\<lambda>_.
       create_partition BridgeObservations (default_name BridgeObservations) Default)))))"
  have univ: "insert BridgeObservations (insert Transactions (insert Blocks {})) = UNIV" using rollover_table.exhaust by blast
  have r1: "reattach (quiet 0 0) 17 b Blocks (halfway c b {} {} (map ?L [Transactions, BridgeObservations, Blocks])) = (Inr u, c') \<longleftrightarrow>
      rb_suffix b \<noteq> js ''default_staging'' \<and> fits_bucket c b Blocks \<and> c' = halfway c b {Blocks} {} (map ?L [Transactions, BridgeObservations])" for u c'
    by (subst reattach_Inr [OF inv _ _ lh]) (auto simp: loose_def)
  have r2: "reattach (quiet 0 0) 19 b Transactions (halfway c b {Blocks} {} (map ?L [Transactions, BridgeObservations])) = (Inr u, c') \<longleftrightarrow>
      rb_suffix b \<noteq> js ''default_staging'' \<and> fits_bucket c b Transactions \<and> c' = halfway c b {Transactions, Blocks} {} (map ?L [BridgeObservations])" for u c'
    by (subst reattach_Inr [OF inv _ _ lh]) (auto simp: loose_def)
  have r3: "reattach (quiet 0 0) 21 b BridgeObservations (halfway c b {Transactions, Blocks} {} (map ?L [BridgeObservations])) = (Inr u, c') \<longleftrightarrow>
      rb_suffix b \<noteq> js ''default_staging'' \<and> fits_bucket c b BridgeObservations \<and> c' = halfway c b UNIV {} []" for u c'
    by (subst reattach_Inr [OF inv _ _ lh]) (auto simp: loose_def univ)
  have c1: "create_partition Blocks (default_name Blocks) Default (halfway c b UNIV {} []) = (Inr u, c') \<longleftrightarrow>
      rb_suffix b \<noteq> js ''default'' \<and> c' = halfway c b UNIV {Blocks} []" for u c' by (rule create_halfway [OF inv]) simp
  have c2: "create_partition Transactions (default_name Transactions) Default (halfway c b UNIV {Blocks} []) = (Inr u, c') \<longleftrightarrow>
      rb_suffix b \<noteq> js ''default'' \<and> c' = halfway c b UNIV {Transactions, Blocks} []" for u c' by (rule create_halfway [OF inv]) simp
  have c3: "create_partition BridgeObservations (default_name BridgeObservations) Default (halfway c b UNIV {Transactions, Blocks} []) = (Inr u, c') \<longleftrightarrow>
      rb_suffix b \<noteq> js ''default'' \<and> c' = halfway c b UNIV UNIV []" for u c'
    using create_halfway [OF inv, of BridgeObservations "{Transactions, Blocks}" b u c'] by (simp add: univ)
  let ?ren = "ebind (rename_table (default_name Blocks) (staging_name Blocks)) (\<lambda>_.
      ebind (rename_table (default_name Transactions) (staging_name Transactions)) (\<lambda>_.
      ebind (rename_table (default_name BridgeObservations) (staging_name BridgeObservations)) (\<lambda>_. ?rest)))"
  have split: "rollover_ddl (quiet 0 0) b = ebind (ebind (detach_partition Transactions (default_name Transactions)) (\<lambda>_.
     ebind (detach_partition BridgeObservations (default_name BridgeObservations)) (\<lambda>_.
     ebind (drop_fk (quiet 0 0) 9 Transactions) (\<lambda>_.
     ebind (drop_fk (quiet 0 0) 11 BridgeObservations) (\<lambda>_.
       detach_partition Blocks (default_name Blocks)))))) (\<lambda>_. ?ren)"
    by (simp add: rollover_ddl_def ebind_assoc)
  have e1: "rollover_ddl (quiet 0 0) b c = ?ren (loosened c (map (loose c default_name) [Transactions, BridgeObservations, Blocks]))"
    unfolding split loosened_def by (rule ebind_Inr) (rule detach_all [OF inv])
  have e2: "?ren (loosened c (map (loose c default_name) [Transactions, BridgeObservations, Blocks])) = (Inr u, c') \<longleftrightarrow> (\<forall>t. staging_name t \<notin> taken c) \<and> ?rest (halfway c b {} {} (map ?L [Transactions, BridgeObservations, Blocks])) = (Inr u, c')"
    by (simp only: rename_all) (simp only: loosened_halfway [of c _ b])
  have e3: "?rest (halfway c b {} {} (map ?L [Transactions, BridgeObservations, Blocks])) = (Inr u, c') \<longleftrightarrow>
      rb_suffix b \<noteq> js ''default'' \<and> rb_suffix b \<noteq> js ''default_staging'' \<and> (\<forall>t. fits_bucket c b t) \<and> c' = halfway c b UNIV UNIV []"
    by (simp add: ebind_Inr_iff r1 [simplified] r2 [simplified] r3 [simplified] c1 c2 c3 all_tables) blast
  show ?thesis unfolding e1 e2 e3 can_roll_def rolled_halfway [OF inv] by blast
qed

section \<open>The new catalog\<close>

lemma rolled_parts [simp]: "ct_parts (rolled c b) t = kept c t @ [bucket_part c b t, new_default t]"
  "ct_detached (rolled c b) = ct_detached c" "ct_others (rolled c b) = ct_others c"
  by (simp_all add: rolled_def)

lemma distinct_relation_names:
  assumes "ct_detached c = []"
  shows "distinct (relation_names c) \<longleftrightarrow>
     (\<forall>t. distinct (map p_name (ct_parts c t))) \<and> distinct (ct_others c)
   \<and> (\<forall>t t'. t \<noteq> t' \<longrightarrow> p_name ` set (ct_parts c t) \<inter> p_name ` set (ct_parts c t') = {})
   \<and> (\<forall>t. p_name ` set (ct_parts c t) \<inter> set (ct_others c) = {})"
    (is "_ \<longleftrightarrow> ?D")
proof
  assume d: "distinct (relation_names c)"
  then have "\<forall>t. distinct (map p_name (ct_parts c t))" "distinct (ct_others c)"
    by (simp_all add: relation_names_def ROLLOVER_TABLES_def all_tables)
  then show ?D using names_of_table [OF d] by blast
next
  assume ?D
  then have "\<forall>t. distinct (map p_name (ct_parts c t))" "distinct (ct_others c)"
    "p_name ` set (ct_parts c Blocks) \<inter> p_name ` set (ct_parts c Transactions) = {}"
    "p_name ` set (ct_parts c Blocks) \<inter> p_name ` set (ct_parts c BridgeObservations) = {}"
    "p_name ` set (ct_parts c Transactions) \<inter> p_name ` set (ct_parts c BridgeObservations) = {}"
    "\<forall>t. p_name ` set (ct_parts c t) \<inter> set (ct_others c) = {}" by simp_all
  then show "distinct (relation_names c)"
    using assms by (simp add: relation_names_def ROLLOVER_TABLES_def Int_Un_distrib Int_Un_distrib2)
qed

lemma kept_bounds: "parts_ok t (ct_parts c t) \<Longrightarrow> p_bound ` set (kept c t) = p_bound ` set (ct_parts c t) - {Default}"
  using set_parts_kept [of t c] default_part_props(4) [of t c] kept_ranges(2) [of t c] by fastforce

lemma rows_split:
  "mset (concat (map f xs)) = mset (concat (map f (filter P xs))) + mset (concat (map f (filter (\<lambda>x. \<not> P x) xs)))"
  by (induction xs) simp_all

lemma filter_default:
  assumes "parts_ok t (ct_parts c t)"
  shows "filter (\<lambda>p. p_name p = default_name t) (ct_parts c t) = [default_part c t]"
proof -
  have "filter (\<lambda>p. f p = f x) ps = [x]" if "distinct (map f ps)" "x \<in> set ps" for f :: "part \<Rightarrow> jsstr" and x ps
    using that by (induction ps) (auto simp: filter_empty_conv rev_image_eqI)
  from this [of p_name "ct_parts c t" "default_part c t"] assms default_part_props(2,3) [OF assms]
  show ?thesis by (simp add: parts_ok_def)
qed

lemma rolled_rows:
  assumes "part_inv c"
  shows "mset (part_rows (rolled c b) t) = mset (part_rows c t)"
proof -
  have ok: "parts_ok t (ct_parts c t)" using assms by (simp add: part_inv_def)
  show ?thesis
    using rows_split [of p_rows "ct_parts c t" "\<lambda>p. p_name p = default_name t"] filter_default [OF ok]
    by (simp add: part_rows_def kept_def bucket_part_def new_default_def)
qed

lemma overlap_commute: "overlap a b = overlap b a"
  by (cases a; cases b) (auto simp: overlap_def)

lemma rolled_parts_ok:
  assumes ok: "parts_ok t (ct_parts c t)" and fits: "fits_bucket c b t" and sfx: "rb_suffix b \<noteq> js ''default''"
    and lh: "\<lfloor>rb_lo b\<rfloor> < \<lfloor>rb_hi b\<rfloor>"
  shows "parts_ok t (ct_parts (rolled c b) t)"
proof -
  have k: "p \<in> set (ct_parts c t)" "\<exists>lo hi. p_bound p = Range lo hi \<and> lo < hi" if "p \<in> set (kept c t)" for p
    using kept_ranges [OF ok that] by auto
  have names: "distinct (map p_name (ct_parts (rolled c b) t))"
  proof -
    have "distinct (map p_name (kept c t))" using ok by (simp add: parts_ok_def kept_def distinct_map_filter)
    moreover have "bucket_name t b \<notin> p_name ` set (kept c t)" using fits by (auto simp: fits_bucket_def taken_def)
    moreover have "default_name t \<notin> p_name ` set (kept c t)" by (auto simp: kept_def)
    ultimately show ?thesis using sfx by (simp add: bucket_part_def new_default_def)
  qed
  have nb: "\<not> overlap (p_bound p) (bucket_bound b)" "\<not> overlap (bucket_bound b) (p_bound p)" if "p \<in> set (kept c t)" for p
    using fits that overlap_commute [of "p_bound p" "bucket_bound b"] by (simp_all add: fits_bucket_def)
  have nd: "\<not> overlap (p_bound p) Default" "\<not> overlap Default (p_bound p)" if "p \<in> set (kept c t)" for p
    using k(2) [OF that] by (auto simp: overlap_def)
  have kk: "p = q" if "p \<in> set (kept c t)" "q \<in> set (kept c t)" "overlap (p_bound p) (p_bound q)" for p q
    using ok that k(1) by (auto simp: parts_ok_def)
  have "p = q" if "p \<in> set (ct_parts (rolled c b) t)" "q \<in> set (ct_parts (rolled c b) t)" "overlap (p_bound p) (p_bound q)" for p q
  proof -
    have pb: "p_bound (bucket_part c b t) = bucket_bound b" "p_bound (new_default t) = Default"
      "\<not> overlap (bucket_bound b) Default" "\<not> overlap Default (bucket_bound b)"
      by (simp_all add: bucket_part_def new_default_def bucket_bound_def overlap_def)
    from that have "p \<in> set (kept c t) \<or> p = bucket_part c b t \<or> p = new_default t"
      "q \<in> set (kept c t) \<or> q = bucket_part c b t \<or> q = new_default t" by auto
    then show ?thesis
    proof (elim disjE)
      assume "p \<in> set (kept c t)" "q \<in> set (kept c t)"
      then show ?thesis using kk that(3) by blast
    qed (use that(3) nb nd in \<open>simp_all add: pb\<close>)
  qed
  moreover have "accepts (ct_parts (rolled c b) t) p (rw_height r)" if "p \<in> set (ct_parts (rolled c b) t)" "r \<in> set (p_rows p)" for p r
  proof -
    from that consider "p \<in> set (kept c t)" | "p = bucket_part c b t" by (auto simp: new_default_def)
    then show ?thesis
    proof cases
      case 1
      with ok k [OF 1] that(2) show ?thesis by (auto simp: parts_ok_def accepts_def)
    next
      case 2
      with fits that(2) show ?thesis by (auto simp: fits_bucket_def accepts_def bucket_part_def)
    qed
  qed
  moreover have "\<forall>p \<in> set (ct_parts (rolled c b) t). \<forall>lo hi. p_bound p = Range lo hi \<longrightarrow> lo < hi"
  proof (intro ballI allI impI)
    fix p lo hi assume p: "p \<in> set (ct_parts (rolled c b) t)" "p_bound p = Range lo hi"
    show "lo < hi"
    proof (cases "p \<in> set (kept c t)")
      case True
      from k(2) [OF True] p(2) show ?thesis by auto
    next
      case False
      with p lh show ?thesis by (auto simp: bucket_part_def new_default_def bucket_bound_def)
    qed
  qed
  moreover have "\<exists>p \<in> set (ct_parts (rolled c b) t). p_name p = default_name t \<and> p_bound p = Default"
    by (simp add: new_default_def)
  ultimately show ?thesis using names unfolding parts_ok_def by blast
qed

lemma rolled_inv:
  assumes inv: "part_inv c" and roll: "can_roll c b" and lh: "\<lfloor>rb_lo b\<rfloor> < \<lfloor>rb_hi b\<rfloor>"
  shows "part_inv (rolled c b)"
proof -
  have ok: "parts_ok t (ct_parts c t)" for t using inv by (simp add: part_inv_def)
  have fits: "fits_bucket c b t" and sfx: "rb_suffix b \<noteq> js ''default''" for t using roll by (auto simp: can_roll_def)
  have ok': "parts_ok t (ct_parts (rolled c b) t)" for t by (rule rolled_parts_ok [OF ok fits sfx lh])
  have bounds: "p_bound ` set (ct_parts (rolled c b) t) = insert (bucket_bound b) (insert Default (p_bound ` set (ct_parts c Blocks)))" for t
  proof -
    have "p_bound ` set (ct_parts c t) = p_bound ` set (ct_parts c Blocks)" using inv unfolding part_inv_def by blast
    then show ?thesis by (simp add: image_Un kept_bounds [OF ok] bucket_part_def new_default_def)
  qed
  have rows: "set (part_rows (rolled c b) t) = set (part_rows c t)" for t
    using rolled_rows [OF inv, of b t] by (metis set_mset_mset)
  have old: "(\<forall>t t'. t \<noteq> t' \<longrightarrow> p_name ` set (ct_parts c t) \<inter> p_name ` set (ct_parts c t') = {})"
    "(\<forall>t. p_name ` set (ct_parts c t) \<inter> set (ct_others c) = {})" "distinct (ct_others c)"
    using inv distinct_relation_names [of c] unfolding part_inv_def by blast+
  have N: "p_name ` set (ct_parts (rolled c b) t) = insert (bucket_name t b) (p_name ` set (ct_parts c t))" for t
    using set_parts_kept [OF ok, of t] default_part_props(3) [OF ok, of t] by (auto simp: bucket_part_def new_default_def)
  have fresh: "bucket_name t b \<notin> p_name ` set (ct_parts c t')" "bucket_name t b \<notin> set (ct_others c)" for t t'
    using fits [of t] sfx set_parts_kept [OF ok, of t'] default_part_props(3) [OF ok, of t'] by (auto simp: fits_bucket_def taken_def)
  have "distinct (relation_names (rolled c b))"
  proof (rule distinct_relation_names [THEN iffD2])
    show "ct_detached (rolled c b) = []" using inv by (simp add: part_inv_def)
    have "\<forall>t. distinct (map p_name (ct_parts (rolled c b) t))" using ok' unfolding parts_ok_def by blast
    moreover have "bucket_name t b \<noteq> bucket_name t' b" if "t \<noteq> t'" for t t' using that by simp
    ultimately show "(\<forall>t. distinct (map p_name (ct_parts (rolled c b) t))) \<and> distinct (ct_others (rolled c b))
       \<and> (\<forall>t t'. t \<noteq> t' \<longrightarrow> p_name ` set (ct_parts (rolled c b) t) \<inter> p_name ` set (ct_parts (rolled c b) t') = {})
       \<and> (\<forall>t. p_name ` set (ct_parts (rolled c b) t) \<inter> set (ct_others (rolled c b)) = {})"
      unfolding N rolled_parts(3) using old fresh by (simp add: Int_insert_left Int_insert_right)
  qed
  with ok' bounds inv rows show ?thesis
    unfolding part_inv_def using referenced_set [OF rows] by (simp del: rolled_parts(1))
qed

section \<open>The whole call\<close>

text \<open>\<open>m'\<close> does what \<open>m\<close> does whenever \<open>m\<close> succeeds: the same statements with fewer failures.\<close>

definition quieter :: "('e, 's, 'a) exec \<Rightarrow> ('e, 's, 'a) exec \<Rightarrow> bool" where
  "quieter m m' \<longleftrightarrow> (\<forall>s x s'. m s = (Inr x, s') \<longrightarrow> m' s = (Inr x, s'))"

lemma quieter_intros [intro]:
  "quieter m m" "quieter (stmt env n m) m"
  "quieter m m' \<Longrightarrow> (\<And>x. quieter (f x) (f' x)) \<Longrightarrow> quieter (ebind m f) (ebind m' f')"
  by (auto simp: quieter_def stmt_Inr ebind_Inr_iff)

lemma rollover_ddl_quieter: "quieter (rollover_ddl env b) (rollover_ddl (quiet 0 0) b)"
proof -
  have "quieter (drop_fk env n t) (drop_fk (quiet 0 0) n t)" for n t
    unfolding drop_fk_def by (rule quieter_intros(3)) (auto split: option.splits)
  moreover have "quieter (reattach env n b t) (reattach (quiet 0 0) n b t)" for n t
    unfolding reattach_def by (rule quieter_intros(3)) auto
  ultimately show ?thesis unfolding rollover_ddl_def by (intro quieter_intros(3)) auto
qed

lemma bucket_order:
  assumes "assertValidBucketBounds b = Inr ()"
  shows "\<lfloor>rb_lo b\<rfloor> < \<lfloor>rb_hi b\<rfloor>" and "rb_lo b = of_int \<lfloor>rb_lo b\<rfloor>" and "rb_hi b = of_int \<lfloor>rb_hi b\<rfloor>"
proof -
  from assms have v: "valid_bound (rb_lo b)" "valid_bound (rb_hi b)" "rb_lo b < rb_hi b"
    by (auto simp: assertValidBucketBounds_def split: if_splits)
  then show e: "rb_lo b = of_int \<lfloor>rb_lo b\<rfloor>" "rb_hi b = of_int \<lfloor>rb_hi b\<rfloor>" by (simp_all add: valid_bound_def)
  from v(3) have "of_int \<lfloor>rb_lo b\<rfloor> < (of_int \<lfloor>rb_hi b\<rfloor> :: rat)" using e by simp
  then show "\<lfloor>rb_lo b\<rfloor> < \<lfloor>rb_hi b\<rfloor>" by simp
qed

definition applied :: "catalog \<Rightarrow> rollover_bucket \<Rightarrow> bool" where
  "applied c b \<longleftrightarrow> (\<forall>t. map_option p_bound (find_part c t (bucket_name t b)) = Some (bucket_bound b))"

lemma alreadyApplied_state: "snd (rolloverAlreadyApplied env b c) = c"
  by (auto simp: rolloverAlreadyApplied_def ebind_def stmt_def attachedPartitionBound_def Let_def split: option.splits)

lemma alreadyApplied_True:
  "rolloverAlreadyApplied env b c = (Inr True, c') \<Longrightarrow> applied c b"
  "applied c b \<Longrightarrow> rolloverAlreadyApplied (quiet x y) b c = (Inr True, c)"
  by (auto simp: rolloverAlreadyApplied_def ebind_def stmt_def attachedPartitionBound_def Let_def applied_def all_tables ROLLOVER_TABLES_def
      split: option.splits if_splits)

lemma span_state: "stmt env n (assertDefaultSpanFitsOneBucket t b) c = (r, c') \<Longrightarrow> c' = c"
  by (auto simp: stmt_def assertDefaultSpanFitsOneBucket_def split: option.splits list.splits if_splits)

lemma ddl_rolled_back: "ddl_transaction env n body m c = (Inl e, c') \<Longrightarrow> c' = c"
  by (auto simp: ddl_transaction_def split: prod.splits sum.splits)

lemma rollover_outcome:
  assumes inv: "part_inv c" and run: "rolloverDefaultPartition reserve env schema b c = (r, c')"
  shows "(\<exists>e. r = Inl e \<and> c' = c) \<or> (r = Inr () \<and> assertValidSchemaName schema = Inr () \<and> assertValidPartitionSuffix (rb_suffix b) = Inr ()
      \<and> assertValidBucketBounds b = Inr () \<and> (applied c b \<and> c' = c \<or> can_roll c b \<and> c' = rolled c b))"
proof (cases "r")
  case (Inl e)
  with run alreadyApplied_state [of env b c] show ?thesis
    by (auto simp: rolloverDefaultPartition_def emap_error_def elim!: ebind_InlE dest!: span_state ddl_rolled_back
        split: prod.splits sum.splits option.splits if_splits)
next
  case (Inr u)
  with run obtain done_before c1 where v: "assertValidSchemaName schema = Inr ()" "assertValidPartitionSuffix (rb_suffix b) = Inr ()"
      "assertValidBucketBounds b = Inr ()"
    and a: "rolloverAlreadyApplied env b c = (Inr done_before, c1)"
    and rest: "(if done_before then eret () else
            ebind (stmt env 3 (assertDefaultSpanFitsOneBucket Blocks b)) (\<lambda>_.
            ebind (stmt env 4 (assertDefaultSpanFitsOneBucket Transactions b)) (\<lambda>_.
            ebind (stmt env 5 (assertDefaultSpanFitsOneBucket BridgeObservations b)) (\<lambda>_.
              ddl_transaction env 6 (rollover_ddl env b) 26)))) c1 = (Inr (), c')"
    by (auto simp: rolloverDefaultPartition_def emap_error_def ebind_Inr_iff split: prod.splits sum.splits option.splits)
  have c1: "c1 = c" using a alreadyApplied_state [of env b c] by simp
  show ?thesis
  proof (cases done_before)
    case True
    with rest c1 alreadyApplied_True(1) [of env b c c1] a v Inr show ?thesis by auto
  next
    case False
    with rest c1 have "ddl_transaction env 6 (rollover_ddl env b) 26 c = (Inr (), c')"
      by (auto elim!: ebind_InrE dest!: span_state)
    then have "rollover_ddl env b c = (Inr (), c')"
      by (auto simp: ddl_transaction_def ebind_def stmt_def split: prod.splits sum.splits option.splits)
    then have "rollover_ddl (quiet 0 0) b c = (Inr (), c')" using rollover_ddl_quieter [of env b] by (simp add: quieter_def)
    with rollover_ddl_Inr [OF inv bucket_order(1) [OF v(3)], of "()" c'] v Inr show ?thesis by simp
  qed
qed

lemma kept_taken: "p \<in> set (kept c t) \<Longrightarrow> p_name p \<in> taken c"
  by (auto simp: taken_def)

lemma find_skip: "find P xs = None \<Longrightarrow> find P (xs @ ys) = find P ys"
  by (induction xs) (auto split: if_splits)

lemma find_bucket:
  assumes "can_roll c b"
  shows "find_part (rolled c b) t (bucket_name t b) = Some (bucket_part c b t)"
proof -
  have "bucket_name t b \<notin> taken c" using assms by (simp add: can_roll_def fits_bucket_def)
  then have "\<forall>p \<in> set (kept c t). p_name p \<noteq> bucket_name t b" using kept_taken by metis
  then have "find (\<lambda>p. p_name p = bucket_name t b) (kept c t) = None" by (simp add: find_None_iff)
  then show ?thesis by (simp add: find_part_def find_skip bucket_part_def)
qed

lemma rolled_applied: "can_roll c b \<Longrightarrow> applied (rolled c b) b"
  by (simp add: applied_def find_bucket bucket_part_def)

lemma applied_route:
  assumes "parts_ok t (ct_parts c t)" and "applied c b" and "in_bound (bucket_bound b) h"
  shows "route c t h = Some (bucket_name t b)"
proof -
  from assms(2) obtain p where p: "find_part c t (bucket_name t b) = Some p" "p_bound p = bucket_bound b"
    by (auto simp: applied_def)
  then have "p \<in> set (ct_parts c t)" "p_name p = bucket_name t b" by (auto simp: find_part_def dest: find_SomeD)
  with route_iff [OF assms(1), of p h] p(2) assms(3) show ?thesis by (simp add: accepts_def)
qed

lemma rolled_route_other:
  assumes inv: "part_inv c" and roll: "can_roll c b" and lh: "\<lfloor>rb_lo b\<rfloor> < \<lfloor>rb_hi b\<rfloor>" and out: "\<not> in_bound (bucket_bound b) h"
  shows "route (rolled c b) t h = route c t h"
proof -
  have ok: "parts_ok t (ct_parts c t)" using inv by (simp add: part_inv_def)
  have ok': "parts_ok t (ct_parts (rolled c b) t)" using rolled_inv [OF inv roll lh] unfolding part_inv_def by blast
  from route_accepts [OF ok] obtain p where p: "p \<in> set (ct_parts c t)" "route c t h = Some (p_name p)" "accepts (ct_parts c t) p h" by blast
  show ?thesis
  proof (cases "p \<in> set (kept c t)")
    case True
    with kept_ranges(2) [OF ok True] p(3) have "in_bound (p_bound p) h" by (auto simp: accepts_def)
    with route_iff [OF ok', of p h] True p(2) show ?thesis by (simp add: accepts_def)
  next
    case False
    with p(1) set_parts_kept [OF ok] have d: "p = default_part c t" by simp
    have "p_bound p = Default" using default_part_props(4) [OF ok] d by simp
    with p(3) have none: "list_all (\<lambda>q. \<not> in_bound (p_bound q) h) (ct_parts c t)" by (simp add: accepts_def in_bound_def)
    then have "accepts (ct_parts (rolled c b) t) (new_default t) h"
      using out by (auto simp: accepts_def list_all_iff kept_def new_default_def bucket_part_def in_bound_def)
    with route_iff [OF ok', of "new_default t" h] p(2) d default_part_props(3) [OF ok] show ?thesis by (simp add: new_default_def)
  qed
qed

section \<open>When it succeeds\<close>

lemma double_nat_safe: "n < 2 ^ 53 \<Longrightarrow> double_nat n = n"
  using floorlog_leI [of n 2 53] by (simp add: double_nat_def Let_def)

lemma Number_bigint_safe: "\<bar>i\<bar> < 2 ^ 53 \<Longrightarrow> Number_bigint i = of_int i"
  by (auto simp: Number_bigint_def double_nat_safe)

lemma fold_min_max:
  fixes h :: int
  shows "fold min hs h \<in> set (h # hs)" "fold max hs h \<in> set (h # hs)"
proof (induction hs arbitrary: h)
  case (Cons a hs)
  { case 1 show ?case using Cons.IH(1) [of "min a h"] by (auto simp: min_def split: if_splits) }
  { case 2 show ?case using Cons.IH(2) [of "max a h"] by (auto simp: max_def split: if_splits) }
qed simp_all

lemma span_ok:
  assumes "parts_ok t (ct_parts c t)" and "assertValidBucketBounds b = Inr ()"
    and rows: "\<forall>r \<in> set (p_rows (default_part c t)). in_bound (bucket_bound b) (rw_height r)"
  shows "assertDefaultSpanFitsOneBucket t b c = (Inr (), c)"
proof (cases "map rw_height (p_rows (default_part c t))")
  case Nil
  then show ?thesis using default_part_props(1) [OF assms(1)] by (simp add: assertDefaultSpanFitsOneBucket_def)
next
  case (Cons h hs)
  have v: "\<lfloor>rb_hi b\<rfloor> < 2 ^ 53" "0 \<le> \<lfloor>rb_lo b\<rfloor>"
    using assms(2) by (auto simp: assertValidBucketBounds_def valid_bound_def split: if_splits)
  have in_range: "\<lfloor>rb_lo b\<rfloor> \<le> x \<and> x < \<lfloor>rb_hi b\<rfloor>" if "x \<in> set (h # hs)" for x
    using rows that unfolding Cons [symmetric] by (auto simp: bucket_bound_def in_bound_def)
  have n: "Number_bigint x = of_int x" if "x \<in> set (h # hs)" for x
  proof -
    have "0 \<le> x" "x < 2 ^ 53" using in_range [OF that] v by linarith+
    then show ?thesis by (simp add: Number_bigint_safe)
  qed
  have "\<not> Number_bigint (fold min hs h) < rb_lo b" "\<not> rb_hi b \<le> Number_bigint (fold max hs h)"
    using in_range fold_min_max [where hs = hs and h = h] n bucket_order(2,3) [OF assms(2)] by (metis of_int_less_iff of_int_le_iff not_le not_less)+
  then show ?thesis using default_part_props(1) [OF assms(1)] Cons by (simp add: assertDefaultSpanFitsOneBucket_def)
qed

lemma alreadyApplied_False:
  assumes inv: "part_inv c" and "can_roll c b" and "env_faults env = (\<lambda>_. None)"
  shows "rolloverAlreadyApplied env b c = (Inr False, c)"
proof -
  have "find_part c t (bucket_name t b) = None" for t
  proof -
    have ok: "parts_ok t (ct_parts c t)" using inv by (simp add: part_inv_def)
    have "bucket_name t b \<notin> taken c" "bucket_name t b \<noteq> default_name t" using assms(2) by (simp_all add: can_roll_def fits_bucket_def)
    then have "\<forall>p \<in> set (ct_parts c t). p_name p \<noteq> bucket_name t b"
      unfolding set_parts_kept [OF ok] using kept_taken default_part_props(3) [OF ok] by (metis insert_iff)
    then show ?thesis by (simp add: find_part_def find_None_iff)
  qed
  with assms(3) show ?thesis by (simp add: rolloverAlreadyApplied_def ebind_def attachedPartitionBound_def Let_def)
qed

lemma rollover_ok:
  assumes inv: "part_inv c" and v: "assertValidSchemaName schema = Inr ()" "assertValidPartitionSuffix (rb_suffix b) = Inr ()"
      "assertValidBucketBounds b = Inr ()"
    and q: "env_faults env = (\<lambda>_. None)" and roll: "can_roll c b"
  shows "rolloverDefaultPartition None env schema b c = (Inr (), rolled c b)"
proof -
  have "rollover_ddl env b = rollover_ddl (quiet 0 0) b" by (simp add: rollover_ddl_def drop_fk_def reattach_def q cong: option.case_cong)
  with rollover_ddl_Inr [OF inv bucket_order(1) [OF v(3)], of "()" "rolled c b"] roll
  have "ddl_transaction env 6 (rollover_ddl env b) 26 c = (Inr (), rolled c b)" by (simp add: ddl_transaction_def q ebind_def)
  moreover have "assertDefaultSpanFitsOneBucket t b c = (Inr (), c)" for t
    using inv roll v(3) by (intro span_ok) (simp_all add: part_inv_def can_roll_def fits_bucket_def)
  ultimately show ?thesis
    by (simp add: rolloverDefaultPartition_def v ebind_def emap_error_def q alreadyApplied_False [OF inv roll q])
qed

section \<open>Rows and creation\<close>

text \<open>
  An INSERT into a partitioned table goes to the partition its height routes to; a child row needs its
  block.
\<close>

definition insert_row :: "rollover_table \<Rightarrow> part_row \<Rightarrow> unit crun" where
  "insert_row t r c =
     (if has_fk t \<and> \<not> referenced (part_rows c Blocks) r then (Inl (pg_error ''23503'' None), c)
      else case route c t (rw_height r) of
        None \<Rightarrow> (Inl (pg_error ''23514'' None), c)
      | Some n \<Rightarrow> (Inr (), c\<lparr>ct_parts := (ct_parts c)(t := map (\<lambda>p. if p_name p = n then p\<lparr>p_rows := p_rows p @ [r]\<rparr> else p) (ct_parts c t))\<rparr>))"

lemma accepts_bounds: "p_bound ` set ps = p_bound ` set qs \<Longrightarrow> p_bound p = p_bound q \<Longrightarrow> accepts ps p h = accepts qs q h"
proof -
  assume a: "p_bound ` set ps = p_bound ` set qs" "p_bound p = p_bound q"
  have l: "list_all (\<lambda>q. \<not> in_bound (p_bound q) h) xs \<longleftrightarrow> (\<forall>b \<in> p_bound ` set xs. \<not> in_bound b h)" for xs
    by (auto simp: list_all_iff)
  show ?thesis unfolding accepts_def l by (simp only: a)
qed

lemma insert_row_parts:
  assumes ok: "parts_ok t ps" and f: "f = (\<lambda>p. if p_name p = n then p\<lparr>p_rows := p_rows p @ [r]\<rparr> else p)"
    and "q \<in> set ps" "p_name q = n" "accepts ps q (rw_height r)"
  shows "parts_ok t (map f ps)" "map p_name (map f ps) = map p_name ps" "p_bound ` set (map f ps) = p_bound ` set ps"
    "set (concat (map p_rows (map f ps))) = insert r (set (concat (map p_rows ps)))"
proof -
  have same: "p_name (f p) = p_name p" "p_bound (f p) = p_bound p" for p by (simp_all add: f)
  show names: "map p_name (map f ps) = map p_name ps" by (simp add: same)
  show bounds: "p_bound ` set (map f ps) = p_bound ` set ps" by (auto simp: same image_iff)
  show "set (concat (map p_rows (map f ps))) = insert r (set (concat (map p_rows ps)))"
    using assms(3,4) by (auto simp: f split: if_splits)
  have inj: "p = q" if "p \<in> set ps" "p_name p = n" for p
    using ok that assms(3,4) inj_onD [of p_name "set ps" p q] by (simp add: parts_ok_def distinct_map)
  have "accepts (map f ps) (f p) (rw_height x)" if "p \<in> set ps" "x \<in> set (p_rows (f p))" for p x
  proof -
    have "accepts ps p (rw_height x)"
      using ok that assms(5) inj [OF that(1)] by (auto simp: f parts_ok_def split: if_splits)
    then show ?thesis using accepts_bounds [OF bounds same(2), of p "rw_height x"] by simp
  qed
  moreover have "distinct (map p_name (map f ps))" unfolding names using ok by (simp add: parts_ok_def)
  moreover have "\<forall>p \<in> set ps. \<forall>q \<in> set ps. overlap (p_bound p) (p_bound q) \<longrightarrow> p = q"
    "\<exists>p \<in> set ps. p_name p = default_name t \<and> p_bound p = Default"
    "\<forall>p \<in> set ps. \<forall>lo hi. p_bound p = Range lo hi \<longrightarrow> lo < hi" using ok by (simp_all add: parts_ok_def)
  ultimately show "parts_ok t (map f ps)"
    unfolding parts_ok_def set_map ball_simps bex_simps same by blast
qed

lemma insert_row_inv:
  assumes inv: "part_inv c" and run: "insert_row t r c = (x, c')" and blocks: "t = Blocks \<or> has_fk t"
  shows "part_inv c'"
proof (cases "x")
  case (Inl e)
  with run inv show ?thesis by (auto simp: insert_row_def split: if_splits option.splits)
next
  case (Inr u)
  have ok: "parts_ok t (ct_parts c t)" for t using inv by (simp add: part_inv_def)
  from route_accepts [OF ok] obtain q where q: "q \<in> set (ct_parts c t)" "route c t (rw_height r) = Some (p_name q)"
    "accepts (ct_parts c t) q (rw_height r)" by blast
  let ?f = "\<lambda>p. if p_name p = p_name q then p\<lparr>p_rows := p_rows p @ [r]\<rparr> else p"
  have c': "c' = c\<lparr>ct_parts := (ct_parts c)(t := map ?f (ct_parts c t))\<rparr>" and fk: "has_fk t \<longrightarrow> referenced (part_rows c Blocks) r"
    using run Inr q(2) by (auto simp: insert_row_def split: if_splits)
  note f = insert_row_parts [OF ok refl q(1) refl q(3)]
  have names: "relation_names c' = relation_names c" using f(2) by (cases t) (simp_all add: c' relation_names_def ROLLOVER_TABLES_def)
  have rows: "set (part_rows c' t') = (if t' = t then insert r (set (part_rows c t)) else set (part_rows c t'))" for t'
  proof -
    have "part_rows c' t = concat (map p_rows (map ?f (ct_parts c t)))" by (simp add: c' part_rows_def)
    moreover have "part_rows c' t' = part_rows c t'" if "t' \<noteq> t" using that by (simp add: c' part_rows_def)
    ultimately show ?thesis using f(4) by (simp only: part_rows_def [of c t]) presburger
  qed
  have self: "referenced xs r" if "r \<in> set xs" for xs using that by (auto simp: referenced_def list_ex_iff same_block_def)
  have mono: "referenced ys x" if "set xs \<subseteq> set ys" "referenced xs x" for xs ys x using that by (auto simp: referenced_def list_ex_iff)
  have sub: "set (part_rows c Blocks) \<subseteq> set (part_rows c' Blocks)" using rows [of Blocks] by auto
  have "referenced (part_rows c' Blocks) y" if "y \<in> set (part_rows c' t')" for y t'
  proof (cases "t' = t \<and> y = r")
    case True
    show ?thesis
    proof (cases "has_fk t")
      case True
      with fk mono [OF sub] \<open>t' = t \<and> y = r\<close> show ?thesis by blast
    next
      case False
      with blocks have "t = Blocks" by simp
      with rows [of Blocks] have "r \<in> set (part_rows c' Blocks)" by simp
      with self \<open>t' = t \<and> y = r\<close> show ?thesis by blast
    qed
  next
    case False
    with that rows [of t'] have "y \<in> set (part_rows c t')" by (auto split: if_splits)
    with inv mono [OF sub] show ?thesis unfolding part_inv_def by blast
  qed
  moreover have "parts_ok t' (ct_parts c' t')" for t' using f(1) ok by (simp add: c')
  moreover have "p_bound ` set (ct_parts c' t') = p_bound ` set (ct_parts c t')" for t' using f(3) by (simp add: c')
  moreover have "ct_detached c' = ct_detached c" by (simp add: c')
  ultimately show ?thesis using inv names unfolding part_inv_def by metis
qed

definition empty_catalog :: "jsstr list \<Rightarrow> catalog" where
  "empty_catalog others = \<lparr>ct_parts = (\<lambda>_. []), ct_detached = [], ct_others = others\<rparr>"

text \<open>The three calls, in the order of the migration.\<close>

definition createPartitions :: "unit crun" where
  "createPartitions =
     ebind (createHeightPartitions Blocks) (\<lambda>_.
     ebind (createHeightPartitions Transactions) (\<lambda>_.
       createHeightPartitions BridgeObservations))"

text \<open>Partitions without rows, while some tables may still lack their DEFAULT.\<close>

definition fresh_ok :: "catalog \<Rightarrow> bool" where
  "fresh_ok c \<longleftrightarrow>
     ct_detached c = [] \<and> distinct (relation_names c)
   \<and> (\<forall>t. \<forall>p \<in> set (ct_parts c t). p_rows p = [] \<and> (\<forall>lo hi. p_bound p = Range lo hi \<longrightarrow> lo < hi)
        \<and> (\<forall>q \<in> set (ct_parts c t). overlap (p_bound p) (p_bound q) \<longrightarrow> p = q))"

definition with_parts :: "catalog \<Rightarrow> rollover_table \<Rightarrow> part list \<Rightarrow> catalog" where
  "with_parts c t ps = c\<lparr>ct_parts := (ct_parts c)(t := ct_parts c t @ ps)\<rparr>"

lemma with_parts_append: "with_parts (with_parts c t ps) t qs = with_parts c t (ps @ qs)" "with_parts c t [] = c"
  by (simp_all add: with_parts_def)

lemma create_fresh:
  assumes ok: "fresh_ok c" and run: "create_partition t n b c = (Inr u, c')"
  shows "fresh_ok c'" "c' = with_parts c t [\<lparr>p_name = n, p_bound = b, p_rows = []\<rparr>]"
proof -
  from run show c': "c' = with_parts c t [\<lparr>p_name = n, p_bound = b, p_rows = []\<rparr>]" by (simp add: create_Inr with_parts_def)
  from run have n: "n \<notin> set (relation_names c)" and o: "\<forall>p \<in> set (ct_parts c t). \<not> overlap (p_bound p) b"
    and lh: "\<forall>lo hi. b = Range lo hi \<longrightarrow> lo < hi" by (simp_all add: create_Inr list_ex_iff)
  have dis: "ct_detached c = []" "distinct (relation_names c)" using ok by (simp_all add: fresh_ok_def)
  note old = distinct_relation_names [THEN iffD1, OF dis]
  have n': "n \<notin> p_name ` set (ct_parts c t')" "n \<notin> set (ct_others c)" for t' using n unfolding relation_names_set by blast+
  have N: "p_name ` set (ct_parts c' t') = (if t' = t then insert n (p_name ` set (ct_parts c t)) else p_name ` set (ct_parts c t'))" for t'
    by (simp add: c' with_parts_def)
  have "distinct (relation_names c')"
  proof (rule distinct_relation_names [THEN iffD2])
    show "ct_detached c' = []" using dis by (simp add: c' with_parts_def)
    have "ct_others c' = ct_others c" by (simp add: c' with_parts_def)
    moreover have "distinct (map p_name (ct_parts c' t'))" for t' using old n'(1) [of t] by (simp add: c' with_parts_def)
    ultimately show "(\<forall>t. distinct (map p_name (ct_parts c' t))) \<and> distinct (ct_others c')
       \<and> (\<forall>t t'. t \<noteq> t' \<longrightarrow> p_name ` set (ct_parts c' t) \<inter> p_name ` set (ct_parts c' t') = {})
       \<and> (\<forall>t. p_name ` set (ct_parts c' t) \<inter> set (ct_others c') = {})"
      unfolding N using old n' by (auto simp: Int_insert_left Int_insert_right)
  qed
  moreover have "overlap b (p_bound p) \<Longrightarrow> p \<notin> set (ct_parts c t)" for p using o overlap_commute by blast
  ultimately show "fresh_ok c'" using ok o lh dis by (auto simp: fresh_ok_def c' with_parts_def)
qed

lemma create_each:
  assumes "fresh_ok c" and "eforeach (\<lambda>i. create_partition t (nm i) (bd i)) is c = (Inr u, c')"
  shows "fresh_ok c' \<and> c' = with_parts c t (map (\<lambda>i. \<lparr>p_name = nm i, p_bound = bd i, p_rows = []\<rparr>) is)"
  using assms
proof (induction "is" arbitrary: c)
  case Nil
  then show ?case by (simp add: with_parts_append)
next
  case (Cons i "is")
  then obtain c1 where c1: "create_partition t (nm i) (bd i) c = (Inr (), c1)"
    and rest: "eforeach (\<lambda>i. create_partition t (nm i) (bd i)) is c1 = (Inr u, c')"
    by (auto elim!: ebind_InrE)
  note s = create_fresh [OF Cons.prems(1) c1]
  from Cons.IH [OF s(1) rest] show ?case unfolding s(2) by (auto simp: with_parts_append)
qed

definition height_part :: "rollover_table \<Rightarrow> nat \<Rightarrow> part" where
  "height_part t i = \<lparr>p_name = table_name t @ js ''_p'' @ digits i,
     p_bound = Range (int i * CHAIN_ARCHIVE_HEIGHT_PARTITION_SIZE) (int (i + 1) * CHAIN_ARCHIVE_HEIGHT_PARTITION_SIZE), p_rows = []\<rparr>"

lemma create_table:
  assumes "fresh_ok c" and "createHeightPartitions t c = (Inr u, c')"
  shows "fresh_ok c' \<and> c' = with_parts c t (map (height_part t) [0..<5] @ [new_default t])"
proof -
  from assms(2) obtain c1 where
    1: "eforeach (\<lambda>i. create_partition t (table_name t @ js ''_p'' @ digits i)
          (Range (int i * CHAIN_ARCHIVE_HEIGHT_PARTITION_SIZE) (int (i + 1) * CHAIN_ARCHIVE_HEIGHT_PARTITION_SIZE))) [0..<5] c = (Inr (), c1)"
    and 2: "create_partition t (default_name t) Default c1 = (Inr u, c')"
    by (auto simp: createHeightPartitions_def CHAIN_ARCHIVE_PRECREATED_PARTITIONS_def default_name_def elim!: ebind_InrE)
  from create_each [OF assms(1) 1] have c1: "fresh_ok c1" "c1 = with_parts c t (map (height_part t) [0..<5])"
    unfolding height_part_def [abs_def] by blast+
  from create_fresh [OF c1(1) 2] show ?thesis by (simp add: c1(2) with_parts_append new_default_def del: upt.simps upt_conv_Cons)
qed

lemma created_parts:
  assumes "createPartitions (empty_catalog others) = (Inr u, c)" and "distinct others"
  shows "fresh_ok c \<and> (\<forall>t. ct_parts c t = map (height_part t) [0..<5] @ [new_default t])"
proof -
  have e: "fresh_ok (empty_catalog others)" using assms(2) by (simp add: fresh_ok_def empty_catalog_def relation_names_def ROLLOVER_TABLES_def)
  from assms(1) obtain c1 c2 where
    1: "createHeightPartitions Blocks (empty_catalog others) = (Inr (), c1)" and
    2: "createHeightPartitions Transactions c1 = (Inr (), c2)" and 3: "createHeightPartitions BridgeObservations c2 = (Inr u, c)"
    by (auto simp: createPartitions_def elim!: ebind_InrE)
  note c1 = create_table [OF e 1]
  note c2 = create_table [OF c1 [THEN conjunct1] 2]
  note c3 = create_table [OF c2 [THEN conjunct1] 3]
  have "ct_parts c t = map (height_part t) [0..<5] @ [new_default t]" for t
    unfolding c3 [THEN conjunct2] unfolding c2 [THEN conjunct2] unfolding c1 [THEN conjunct2]
    by (cases t) (simp_all add: with_parts_def empty_catalog_def del: upt.simps upt_conv_Cons)
  with c3 show ?thesis by blast
qed

lemma created_inv:
  assumes "createPartitions (empty_catalog others) = (Inr u, c)" and "distinct others"
  shows "part_inv c"
proof -
  note p = created_parts [OF assms]
  have f: "fresh_ok c" and parts: "\<And>t. ct_parts c t = map (height_part t) [0..<5] @ [new_default t]" using p by auto
  have dis: "ct_detached c = []" "distinct (relation_names c)" using f by (simp_all add: fresh_ok_def)
  have norows: "p_rows p = []" if "p \<in> set (ct_parts c t)" for p t using f that by (auto simp: fresh_ok_def)
  have "parts_ok t (ct_parts c t)" for t
  proof -
    have "new_default t \<in> set (ct_parts c t)" using parts by simp
    then have "\<exists>p \<in> set (ct_parts c t). p_name p = default_name t \<and> p_bound p = Default" by (force simp: new_default_def)
    moreover have "distinct (map p_name (ct_parts c t))" using distinct_relation_names [OF dis(1)] dis(2) by blast
    ultimately show ?thesis using f norows unfolding parts_ok_def fresh_ok_def by simp
  qed
  moreover have "p_bound ` set (ct_parts c t) = p_bound ` set (ct_parts c Blocks)" for t
    unfolding parts by (simp add: height_part_def new_default_def image_image del: upt.simps upt_conv_Cons)
  moreover have "part_rows c t = []" for t using norows [of _ t] by (simp add: part_rows_def)
  ultimately show ?thesis using dis by (simp add: part_inv_def)
qed

lemma created_route:
  assumes "createPartitions (empty_catalog others) = (Inr u, c)" and "distinct others"
  shows "route c t h = Some (if 0 \<le> h \<and> h < 5000000 then table_name t @ js ''_p'' @ digits (nat (h div 1000000)) else default_name t)"
proof -
  note p = created_parts [OF assms]
  have ok: "parts_ok t (ct_parts c t)" using created_inv [OF assms] by (simp add: part_inv_def)
  show ?thesis
  proof (cases "0 \<le> h \<and> h < 5000000")
    case True
    let ?i = "nat (h div 1000000)"
    have i: "int ?i = h div 1000000" using True by (simp add: pos_imp_zdiv_nonneg_iff)
    have "?i < 5" using True by linarith
    then have mem: "height_part t ?i \<in> set (ct_parts c t)" using p by simp
    have "int ?i * 1000000 \<le> h \<and> h < int (?i + 1) * 1000000" unfolding of_nat_add i by auto
    then have "accepts (ct_parts c t) (height_part t ?i) h"
      by (simp add: accepts_def in_bound_def height_part_def CHAIN_ARCHIVE_HEIGHT_PARTITION_SIZE_def)
    with route_iff [OF ok mem] True show ?thesis by (simp add: height_part_def)
  next
    case False
    have "\<not> in_bound (p_bound q) h" if "q \<in> set (ct_parts c t)" for q
    proof -
      from that p consider i where "i < 5" "q = height_part t i" | "q = new_default t" by auto
      then show ?thesis
      proof cases
        case 1
        then have "int i \<le> 4" by simp
        with False 1(2) show ?thesis by (auto simp: height_part_def in_bound_def CHAIN_ARCHIVE_HEIGHT_PARTITION_SIZE_def)
      qed (simp add: new_default_def in_bound_def)
    qed
    then have "accepts (ct_parts c t) (new_default t) h" by (simp add: accepts_def list_all_iff new_default_def)
    moreover have "new_default t \<in> set (ct_parts c t)" using p by simp
    ultimately show ?thesis using route_iff [OF ok, of "new_default t" h] False by (auto simp: new_default_def)
  qed
qed

section \<open>The catalog in use\<close>

text \<open>What happens to the catalog while the archive is in use: rollovers, failing or not, and inserted rows.\<close>

datatype part_call = RollOver "js_error option" pg_env jsstr rollover_bucket | InsertRow rollover_table part_row

fun part_exec :: "part_call \<Rightarrow> unit crun" where
  "part_exec (RollOver res env schema b) = rolloverDefaultPartition res env schema b"
| "part_exec (InsertRow t r) = insert_row t r"

lemma part_exec_inv: "part_inv c \<Longrightarrow> part_inv (snd (part_exec call c))"
proof (cases call)
  case (RollOver res env schema b)
  assume "part_inv c"
  with rollover_outcome [OF this prod.collapse [symmetric], of res env schema b] rolled_inv [of c b] bucket_order(1) [of b]
  show ?thesis unfolding RollOver part_exec.simps by (metis)
next
  case (InsertRow t r)
  assume "part_inv c"
  moreover have "t = Blocks \<or> has_fk t" by (cases t) simp_all
  ultimately show ?thesis using insert_row_inv [OF _ prod.collapse [symmetric]] unfolding InsertRow part_exec.simps by blast
qed

section \<open>Sample data\<close>

definition sample_relations :: "jsstr list" where
  "sample_relations = map js [''chain_blobs'', ''chain_blob_roles'', ''blocks'', ''transactions'', ''bridge_observations'',
     ''verifier_key_observations'', ''_migrations'']"

definition sample_bucket :: rollover_bucket where
  "sample_bucket = \<lparr>rb_lo = 5000000, rb_hi = 6000000, rb_suffix = js ''p5''\<rparr>"

definition sample_part_row :: part_row where
  "sample_part_row = \<lparr>rw_height = 5000123, rw_block = (js ''n'', [1]), rw_rest = 0\<rparr>"

definition sample_catalog :: catalog where
  "sample_catalog = snd (run_calls part_exec [InsertRow Blocks sample_part_row, InsertRow Transactions sample_part_row]
     (snd (createPartitions (empty_catalog sample_relations))))"

lemma sample_created: "fst (createPartitions (empty_catalog sample_relations)) = Inr ()"
  by code_simp

lemma sample_distinct: "distinct sample_relations"
  by code_simp

definition taken_names :: "catalog \<Rightarrow> jsstr list" where
  "taken_names c = concat (map (\<lambda>t. map p_name (kept c t)) ROLLOVER_TABLES) @ ct_others c"

definition fits_code :: "catalog \<Rightarrow> rollover_bucket \<Rightarrow> rollover_table \<Rightarrow> bool" where
  "fits_code c b t \<longleftrightarrow>
     \<not> List.member (taken_names c) (staging_name t) \<and> \<not> List.member (taken_names c) (bucket_name t b)
   \<and> list_all (\<lambda>p. \<not> overlap (p_bound p) (bucket_bound b)) (kept c t)
   \<and> list_all (\<lambda>r. in_bound (bucket_bound b) (rw_height r)) (p_rows (default_part c t))"

lemma taken_names_set: "set (taken_names c) = taken c"
proof -
  have u: "(UNIV :: rollover_table set) = {Blocks, Transactions, BridgeObservations}" using rollover_table.exhaust by blast
  show ?thesis unfolding taken_def u by (auto simp: taken_names_def ROLLOVER_TABLES_def)
qed

lemma can_roll_code:
  "can_roll c b \<longleftrightarrow> rb_suffix b \<noteq> js ''default'' \<and> rb_suffix b \<noteq> js ''default_staging''
     \<and> fits_code c b Blocks \<and> fits_code c b Transactions \<and> fits_code c b BridgeObservations"
  by (auto simp: can_roll_def all_tables fits_code_def fits_bucket_def taken_names_set list_all_iff)

lemma sample_can_roll: "can_roll sample_catalog sample_bucket"
  unfolding can_roll_code by code_simp

lemma sample_arguments:
  "assertValidSchemaName (js ''chain_archive'') = Inr ()" "assertValidPartitionSuffix (rb_suffix sample_bucket) = Inr ()"
  "assertValidBucketBounds sample_bucket = Inr ()"
  by (code_simp, code_simp, code_simp)

lemma sample_catalog_inv: "part_inv sample_catalog"
proof -
  have "createPartitions (empty_catalog sample_relations) = (Inr (), snd (createPartitions (empty_catalog sample_relations)))"
    using sample_created by (metis prod.collapse)
  from created_inv [OF this sample_distinct] show ?thesis
    unfolding sample_catalog_def using part_exec_inv [where call = "InsertRow t r" for t r, simplified] by (simp add: split_def)
qed

lemma sample_rows: "part_rows sample_catalog Transactions = [sample_part_row]"
  by code_simp

section \<open>Properties\<close>



text \<open>
  When a rollover succeeds: with valid arguments and a server that answers, it returns if and only if it
  had been applied before, or the partition names are free, the bucket overlaps no existing range and every
  row of the three DEFAULT partitions lies in it.
\<close>

lemma rollover_succeeds_iff:
  assumes "part_inv c" and "assertValidSchemaName schema = Inr ()" and "assertValidPartitionSuffix (rb_suffix b) = Inr ()"
    and "assertValidBucketBounds b = Inr ()"
  shows "fst (rolloverDefaultPartition None (quiet now xact) schema b c) = Inr () \<longleftrightarrow> applied c b \<or> can_roll c b"
proof
  assume "fst (rolloverDefaultPartition None (quiet now xact) schema b c) = Inr ()"
  with rollover_outcome [OF assms(1) prod.collapse [symmetric]] show "applied c b \<or> can_roll c b" by (metis Inl_Inr_False)
next
  assume "applied c b \<or> can_roll c b"
  then show "fst (rolloverDefaultPartition None (quiet now xact) schema b c) = Inr ()"
  proof
    assume "applied c b"
    from alreadyApplied_True(2) [OF this, of now xact] show ?thesis
      using assms(2-4) by (simp add: rolloverDefaultPartition_def ebind_def emap_error_def)
  next
    assume "can_roll c b"
    with rollover_ok [OF assms, of "quiet now xact"] show ?thesis by simp
  qed
qed

text \<open>
  C37. No height is ever without a place. The migration's partitions send heights 0 to 4999999 to the
  partition of their million and all others to the DEFAULT; and after any sequence of inserts and
  rollovers, exactly one partition of each table accepts any given height, and it is the one that routing
  chooses.
\<close>

theorem partitions_total:
  assumes "createPartitions (empty_catalog others) = (Inr (), c0)" and "distinct others"
    and "run_calls part_exec calls c0 = (rs, c)"
  shows "route c0 t h = Some (if 0 \<le> h \<and> h < 5000000 then table_name t @ js ''_p'' @ digits (nat (h div 1000000)) else default_name t)
    \<and> (\<exists>!p. p \<in> set (ct_parts c t) \<and> accepts (ct_parts c t) p h)
    \<and> (\<forall>p \<in> set (ct_parts c t). accepts (ct_parts c t) p h \<longleftrightarrow> route c t h = Some (p_name p))"
proof -
  have "part_inv c" using run_calls_invariant [OF part_exec_inv created_inv [OF assms(1,2)] assms(3)] .
  then have ok: "parts_ok t (ct_parts c t)" by (simp add: part_inv_def)
  from route_accepts [OF ok] obtain p where "p \<in> set (ct_parts c t)" "accepts (ct_parts c t) p h" by blast
  with accepts_unique [OF ok] have "\<exists>!p. p \<in> set (ct_parts c t) \<and> accepts (ct_parts c t) p h" by blast
  with created_route [OF assms(1,2)] route_iff [OF ok] show ?thesis by blast
qed

theorem partitions_total_witness:
  "\<exists>!p. p \<in> set (ct_parts sample_catalog Transactions) \<and> accepts (ct_parts sample_catalog Transactions) p 5000123"
proof -
  have "createPartitions (empty_catalog sample_relations) = (Inr (), snd (createPartitions (empty_catalog sample_relations)))"
    using sample_created by (metis prod.collapse)
  from partitions_total [OF this sample_distinct prod.collapse [symmetric],
      where t = Transactions and h = 5000123 and calls = "[InsertRow Blocks sample_part_row, InsertRow Transactions sample_part_row]"]
  show ?thesis unfolding sample_catalog_def by blast
qed


end
