(* ===== verification/Migrate.thy ===== *)
theory Migrate
  imports Client JsFormat
begin

text \<open>
  The durability probe (\<^verbatim>\<open>src/src/postgres/durability-probe.ts\<close>) and the migration runner
  (\<^verbatim>\<open>src/src/postgres/migrate.ts\<close>) on a server with session advisory locks, reserved connections and a
  schema that a migration changes. A lineage of migrations is an argument, as it is in the code; what a
  migration does to the schema is its function \<open>mg_up\<close>; \<open>ups\<close> is the DDL of the migrations after
  000, whose text is modelled in \<open>Catalog\<close> and \<open>ArchiveSchema\<close>. PostgreSQL's \<^verbatim>\<open>hashtext\<close> is an argument.
\<close>

section \<open>Server state\<close>

text \<open>
  \<open>ss_migrations\<close> is the \<^verbatim>\<open>_migrations\<close> table, absent before the bootstrap; \<open>ss_content\<close> is
  everything else in the schema. Locks are lock class, key and connection.
\<close>

record 'd schema_state =
  ss_migrations :: "jsstr list option"
  ss_content :: 'd

record 'd server =
  sv_schema :: "'d schema_state"
  sv_locks :: "(int \<times> int \<times> nat) list"
  sv_widened :: "nat list"
  sv_reserved :: "nat list"

record 'd migration =
  mg_name :: jsstr
  mg_up :: "'d schema_state \<Rightarrow> js_error + 'd schema_state"

type_synonym ('d, 'a) mrun = "(js_error, 'd server, 'a) exec"

text \<open>The statements of one call, so that an environment can say which of them fail.\<close>

datatype mig_stmt =
    Setting nat | BackendPid | TryLock | Visible | ProbeUnlock
  | Begin nat | Commit nat | Rollback nat | SetLockTimeout | AdvisoryLock | SetSearchPath | Bootstrapped
  | Applied nat | Up nat | Record nat | ResetSearchPath | AdvisoryUnlock

record mig_env =
  me_probe_reserve :: "js_error + nat"
  me_reserve :: "js_error + nat"
  me_setting :: "string \<Rightarrow> string"
  me_pid :: jsstr
  me_acquired :: bool
  me_visible :: nat
  me_faults :: "mig_stmt \<Rightarrow> (js_error \<times> bool) option"
  me_landed :: "nat \<Rightarrow> bool"

text \<open>A statement on connection \<open>c\<close>; a failure may mean the connection is lost, and with it its session state.\<close>

definition lose :: "bool \<Rightarrow> nat \<Rightarrow> 'd server \<Rightarrow> 'd server" where
  "lose dead c s =
     (if dead then s\<lparr>sv_locks := filter (\<lambda>l. snd (snd l) \<noteq> c) (sv_locks s), sv_widened := filter (\<lambda>x. x \<noteq> c) (sv_widened s)\<rparr> else s)"

definition on_conn :: "mig_env \<Rightarrow> mig_stmt \<Rightarrow> nat \<Rightarrow> ('d, 'a) mrun \<Rightarrow> ('d, 'a) mrun" where
  "on_conn env k c m s = (case me_faults env k of Some (e, dead) \<Rightarrow> (Inl e, lose dead c s) | None \<Rightarrow> m s)"

definition reserve :: "js_error + nat \<Rightarrow> ('d, nat) mrun" where
  "reserve r s = (case r of Inl e \<Rightarrow> (Inl e, s) | Inr c \<Rightarrow> (Inr c, s\<lparr>sv_reserved := c # sv_reserved s\<rparr>))"

definition release :: "nat \<Rightarrow> ('d, unit) mrun" where
  "release c s = (Inr (), s\<lparr>sv_reserved := filter (\<lambda>x. x \<noteq> c) (sv_reserved s)\<rparr>)"

text \<open>\<^verbatim>\<open>try { m } finally { fin }\<close>: an error of the second block replaces the outcome of the first.\<close>

definition efinally :: "('e, 's, 'a) exec \<Rightarrow> ('e, 's, unit) exec \<Rightarrow> ('e, 's, 'a) exec" where
  "efinally m fin s = (case m s of (r, s1) \<Rightarrow> (case fin s1 of (Inl e, s2) \<Rightarrow> (Inl e, s2) | (Inr _, s2) \<Rightarrow> (r, s2)))"

section \<open>The durability probe\<close>

definition classifyFsync :: "string \<Rightarrow> violation option" where
  "classifyFsync v = (if v = ''off'' then Some \<lparr>v_setting = ''fsync'', v_value = v\<rparr> else None)"

definition classifyFullPageWrites :: "string \<Rightarrow> bool \<Rightarrow> violation option" where
  "classifyFullPageWrites v allowOff =
     (if v = ''off'' \<and> \<not> allowOff then Some \<lparr>v_setting = ''full_page_writes'', v_value = v\<rparr> else None)"

definition classifySynchronousCommit :: "string \<Rightarrow> violation option" where
  "classifySynchronousCommit v = (if v = ''off'' then Some \<lparr>v_setting = ''synchronous_commit'', v_value = v\<rparr> else None)"

definition assertNoTransactionPooler :: "bool \<Rightarrow> nat \<Rightarrow> js_error + unit" where
  "assertNoTransactionPooler acquired visibleCount =
     (if \<not> acquired then Inr ()
      else if visibleCount < 1 then Inl (StorageErr TransactionPoolerDetectedError)
      else Inr ())"

definition POOLER_PROBE_LOCK_CLASS :: int where
  "POOLER_PROBE_LOCK_CLASS = 2"

definition take_lock :: "int \<Rightarrow> int \<Rightarrow> nat \<Rightarrow> ('d, unit) mrun" where
  "take_lock cls key c s = (Inr (), s\<lparr>sv_locks := (cls, key, c) # sv_locks s\<rparr>)"

definition drop_lock :: "int \<Rightarrow> int \<Rightarrow> nat \<Rightarrow> ('d, unit) mrun" where
  "drop_lock cls key c s = (Inr (), s\<lparr>sv_locks := remove1 (cls, key, c) (sv_locks s)\<rparr>)"

definition probeAdvisoryLockVisibility :: "(jsstr \<Rightarrow> int) \<Rightarrow> mig_env \<Rightarrow> nat \<Rightarrow> ('d, bool \<times> nat) mrun" where
  "probeAdvisoryLockVisibility hash env c =
     ebind (on_conn env BackendPid c (eret (me_pid env))) (\<lambda>pid.
     let key = hash (js ''umbradb:durability-probe:pooler:'' @ pid) in
     ebind (on_conn env TryLock c
        (if me_acquired env then ebind (take_lock POOLER_PROBE_LOCK_CLASS key c) (\<lambda>_. eret True) else eret False)) (\<lambda>acquired.
     if \<not> acquired then eret (False, 0)
     else efinally (on_conn env Visible c (eret (True, me_visible env)))
        (\<lambda>s. (Inr (), snd (on_conn env ProbeUnlock c (drop_lock POOLER_PROBE_LOCK_CLASS key c) s)))))"

definition probeDurability :: "(jsstr \<Rightarrow> int) \<Rightarrow> mig_env \<Rightarrow> bool \<Rightarrow> ('d, violation list) mrun" where
  "probeDurability hash env allowFullPageWritesOff =
     ebind (reserve (me_probe_reserve env)) (\<lambda>c.
       efinally
         (ebind (on_conn env (Setting 0) c (eret (me_setting env ''fsync''))) (\<lambda>fsync.
          ebind (on_conn env (Setting 1) c (eret (me_setting env ''synchronous_commit''))) (\<lambda>synchronousCommit.
          ebind (on_conn env (Setting 2) c (eret (me_setting env ''full_page_writes''))) (\<lambda>fullPageWrites.
          let violations = List.map_filter id [classifyFsync fsync, classifyFullPageWrites fullPageWrites allowFullPageWritesOff];
              warnings = List.map_filter id [classifySynchronousCommit synchronousCommit] in
          if violations \<noteq> [] then ethrow (StorageErr (DurabilityContractError violations))
          else
            ebind (probeAdvisoryLockVisibility hash env c) (\<lambda>(acquired, visibleCount).
            ebind (elift (assertNoTransactionPooler acquired visibleCount)) (\<lambda>_.
              eret warnings))))))
         (release c))"

section \<open>Running migrations\<close>

definition DEFAULT_MIGRATION_LOCK_TIMEOUT_MS :: rat where
  "DEFAULT_MIGRATION_LOCK_TIMEOUT_MS = 30000"

text \<open>
  \<^verbatim>\<open>BEGIN\<close>, the body, \<^verbatim>\<open>COMMIT\<close>; any failure rolls the schema back, and a failing
  \<^verbatim>\<open>ROLLBACK\<close> replaces the error. Session locks are not part of the transaction. A connection lost
  during \<^verbatim>\<open>COMMIT\<close> leaves open whether the server committed: the environment decides.
\<close>

definition commit_landed :: "mig_env \<Rightarrow> nat \<Rightarrow> js_error + 'a \<Rightarrow> bool" where
  "commit_landed env k r = (case (r, me_faults env (Commit k)) of (Inr _, Some (_, True)) \<Rightarrow> me_landed env k | _ \<Rightarrow> False)"

definition withReservedTransaction :: "mig_env \<Rightarrow> nat \<Rightarrow> nat \<Rightarrow> ('d, 'a) mrun \<Rightarrow> ('d, 'a) mrun" where
  "withReservedTransaction env k c fn s =
     (case on_conn env (Begin k) c (eret ()) s of
        (Inl e, s1) \<Rightarrow> (Inl e, s1)
      | (Inr _, s1) \<Rightarrow>
          (case ebind fn (\<lambda>r. ebind (on_conn env (Commit k) c (eret ())) (\<lambda>_. eret r)) s1 of
             (Inr r, s2) \<Rightarrow> (Inr r, s2)
           | (Inl e, s2) \<Rightarrow>
               (case on_conn env (Rollback k) c (eret ())
                  (if commit_landed env k (fst (fn s1)) then s2 else s2\<lparr>sv_schema := sv_schema s1\<rparr>) of
                  (Inl e2, s3) \<Rightarrow> (Inl e2, s3)
                | (Inr _, s3) \<Rightarrow> (Inl e, s3))))"

definition MIGRATION_LOCK_CLASS :: int where
  "MIGRATION_LOCK_CLASS = 1"

text \<open>Result and the variable \<^verbatim>\<open>lockHeld\<close>: set as soon as the lock statement resolves, kept through a rollback.\<close>

definition acquire_lock :: "mig_env \<Rightarrow> int \<Rightarrow> nat \<Rightarrow> 'd server \<Rightarrow> (js_error + unit) \<times> bool \<times> 'd server" where
  "acquire_lock env key c s =
     (case withReservedTransaction env 0 c
        (ebind (on_conn env SetLockTimeout c (eret ())) (\<lambda>_.
           on_conn env AdvisoryLock c (take_lock MIGRATION_LOCK_CLASS key c))) s of
        (r, s') \<Rightarrow> (r, me_faults env (Begin 0) = None \<and> me_faults env SetLockTimeout = None \<and> me_faults env AdvisoryLock = None, s'))"

definition is_applied :: "mig_env \<Rightarrow> nat \<Rightarrow> nat \<Rightarrow> jsstr \<Rightarrow> ('d, bool) mrun" where
  "is_applied env k c n =
     on_conn env (Applied k) c (\<lambda>s.
       case ss_migrations (sv_schema s) of
         None \<Rightarrow> (Inl (pg_error ''42P01'' None), s)
       | Some ns \<Rightarrow> (Inr (List.member ns n), s))"

definition record_name :: "jsstr \<Rightarrow> 'd schema_state \<Rightarrow> js_error + 'd schema_state" where
  "record_name n x =
     (case ss_migrations x of
        None \<Rightarrow> Inl (pg_error ''42P01'' None)
      | Some ns \<Rightarrow> (if List.member ns n then Inl (pg_error ''23505'' None) else Inr (x\<lparr>ss_migrations := Some (ns @ [n])\<rparr>)))"

definition on_schema :: "('d schema_state \<Rightarrow> js_error + 'd schema_state) \<Rightarrow> ('d, unit) mrun" where
  "on_schema f s = (case f (sv_schema s) of Inl e \<Rightarrow> (Inl e, s) | Inr x \<Rightarrow> (Inr (), s\<lparr>sv_schema := x\<rparr>))"

definition apply_one :: "mig_env \<Rightarrow> nat \<Rightarrow> nat \<Rightarrow> 'd migration \<Rightarrow> ('d, unit) mrun" where
  "apply_one env k c m =
     withReservedTransaction env k c
       (ebind (on_conn env (Up k) c (on_schema (mg_up m))) (\<lambda>_.
          on_conn env (Record k) c (on_schema (record_name (mg_name m)))))"

fun apply_rest :: "mig_env \<Rightarrow> nat \<Rightarrow> nat \<Rightarrow> 'd migration list \<Rightarrow> ('d, unit) mrun" where
  "apply_rest env k c [] = eret ()"
| "apply_rest env k c (m # ms) =
     ebind (is_applied env k c (mg_name m)) (\<lambda>applied.
       ebind (if applied then eret () else apply_one env k c m) (\<lambda>_. apply_rest env (Suc k) c ms))"

definition apply_lineage :: "mig_env \<Rightarrow> nat \<Rightarrow> 'd migration list \<Rightarrow> ('d, unit) mrun" where
  "apply_lineage env c lineage =
     ebind (on_conn env Bootstrapped c (\<lambda>s. (Inr (ss_migrations (sv_schema s) \<noteq> None), s))) (\<lambda>bootstrapped.
     ebind (if bootstrapped then eret ()
            else case lineage of
              [] \<Rightarrow> withReservedTransaction env 1 c (ethrow (plain_error ''TypeError''))
            | m # _ \<Rightarrow> apply_one env 1 c m) (\<lambda>_.
       apply_rest env 2 c (drop 1 lineage)))"

text \<open>Migration 000: the schema if it is missing, and the bookkeeping table, which must be.\<close>

definition schema_up :: "'d schema_state \<Rightarrow> js_error + 'd schema_state" where
  "schema_up x =
     (case ss_migrations x of
        None \<Rightarrow> Inr (x\<lparr>ss_migrations := Some []\<rparr>)
      | Some _ \<Rightarrow> Inl (pg_error ''42P07'' None))"

text \<open>A later migration changes the rest of the schema only; what the n-th one does to it is given by \<open>ups\<close>.\<close>

definition content_up :: "('d \<Rightarrow> js_error + 'd) \<Rightarrow> 'd schema_state \<Rightarrow> js_error + 'd schema_state" where
  "content_up f x = (case f (ss_content x) of Inl e \<Rightarrow> Inl e | Inr d \<Rightarrow> Inr (x\<lparr>ss_content := d\<rparr>))"

definition lineage_of :: "string list \<Rightarrow> (nat \<Rightarrow> 'd \<Rightarrow> js_error + 'd) \<Rightarrow> 'd migration list" where
  "lineage_of names ups =
     \<lparr>mg_name = js ''000_schema'', mg_up = schema_up\<rparr>
     # map (\<lambda>(i, n). \<lparr>mg_name = js n, mg_up = content_up (ups i)\<rparr>) (zip [0..<length names] names)"

definition tier1WalletMigrations :: "(nat \<Rightarrow> 'd \<Rightarrow> js_error + 'd) \<Rightarrow> 'd migration list" where
  "tier1WalletMigrations = lineage_of [''001_temporal_kv'', ''002_checkpoint_store'', ''003_watermarks'', ''004_transaction_history'',
     ''005_kv_current_fillfactor'', ''006_ckpt_chunks_size_bytes'']"

definition chainArchiveMigrations :: "(nat \<Rightarrow> 'd \<Rightarrow> js_error + 'd) \<Rightarrow> 'd migration list" where
  "chainArchiveMigrations = lineage_of [''001_chain_archive_core'']"

record 'd run_options =
  ro_schema :: jsstr
  ro_migrations :: "'d migration list option"
  ro_allowFullPageWritesOff :: bool
  ro_migrationLockTimeoutMs :: "rat option"

definition widen :: "nat \<Rightarrow> ('d, unit) mrun" where
  "widen c s = (Inr (), s\<lparr>sv_widened := c # sv_widened s\<rparr>)"

definition narrow :: "nat \<Rightarrow> ('d, unit) mrun" where
  "narrow c s = (Inr (), s\<lparr>sv_widened := filter (\<lambda>x. x \<noteq> c) (sv_widened s)\<rparr>)"

definition lock_error :: "jsstr \<Rightarrow> rat \<Rightarrow> js_error \<Rightarrow> js_error" where
  "lock_error schema bound err =
     (if isLockTimeout err \<or> isStatementTimeout err then StorageErr (MigrationLockTimeoutError schema \<lfloor>bound\<rfloor>) else err)"

text \<open>The migrations between the acquired lock and the cleanup; \<open>r\<close> is how the acquisition ended.\<close>

definition under_lock :: "mig_env \<Rightarrow> int \<Rightarrow> nat \<Rightarrow> 'd migration list \<Rightarrow> js_error + unit \<Rightarrow> bool \<Rightarrow> ('d, unit) mrun" where
  "under_lock env key c lineage r lockHeld =
     efinally
       (ebind (elift r) (\<lambda>_.
        ebind (on_conn env SetSearchPath c (widen c)) (\<lambda>_.
          efinally (apply_lineage env c lineage) (on_conn env ResetSearchPath c (narrow c)))))
       (efinally (if lockHeld then on_conn env AdvisoryUnlock c (drop_lock MIGRATION_LOCK_CLASS key c) else eret ()) (release c))"

definition lineage_used :: "(nat \<Rightarrow> 'd \<Rightarrow> js_error + 'd) \<Rightarrow> 'd run_options \<Rightarrow> 'd migration list" where
  "lineage_used ups opts = option_default (ro_migrations opts) (tier1WalletMigrations ups)"

definition runMigrationsImpl :: "(jsstr \<Rightarrow> int) \<Rightarrow> (nat \<Rightarrow> 'd \<Rightarrow> js_error + 'd) \<Rightarrow> mig_env \<Rightarrow> 'd run_options \<Rightarrow> ('d, unit) mrun" where
  "runMigrationsImpl hash ups env opts =
     ebind (reserve (me_reserve env)) (\<lambda>c s.
       let bound = option_default (ro_migrationLockTimeoutMs opts) DEFAULT_MIGRATION_LOCK_TIMEOUT_MS;
           key = hash (ro_schema opts) in
       if bad_timeout (Some bound) then efinally (ethrow (validation_error ''migrationLockTimeoutMs'')) (release c) s
       else case acquire_lock env key c s of
         (r, lockHeld, s1) \<Rightarrow>
           under_lock env key c (lineage_used ups opts)
             (case r of Inl e \<Rightarrow> Inl (lock_error (ro_schema opts) bound e) | Inr _ \<Rightarrow> Inr ()) lockHeld s1)"

definition runMigrations :: "(jsstr \<Rightarrow> int) \<Rightarrow> (nat \<Rightarrow> 'd \<Rightarrow> js_error + 'd) \<Rightarrow> mig_env \<Rightarrow> 'd run_options \<Rightarrow> ('d, unit) mrun" where
  "runMigrations hash ups env opts =
     (case assertValidSchemaName (ro_schema opts) of
        Inl _ \<Rightarrow> ethrow (validation_error ''invalid schema name for runMigrations'')
      | Inr _ \<Rightarrow>
          (if bad_timeout (ro_migrationLockTimeoutMs opts) then ethrow (validation_error ''invalid migrationLockTimeoutMs for runMigrations'')
           else emap_error (\<lambda>err. translatePostgresError err None)
             (ebind (probeDurability hash env (ro_allowFullPageWritesOff opts)) (\<lambda>_.
                runMigrationsImpl hash ups env opts))))"


text \<open>
  \<^verbatim>\<open>bootstrapChainArchiveSchema\<close> of \<^verbatim>\<open>src/chain-archive-sync/bootstrap.ts\<close>, the call with which the sync
  service prepares its schema.
\<close>

definition bootstrapChainArchiveSchema ::
  "(jsstr \<Rightarrow> int) \<Rightarrow> (nat \<Rightarrow> 'd \<Rightarrow> js_error + 'd) \<Rightarrow> (nat \<Rightarrow> 'd \<Rightarrow> js_error + 'd) \<Rightarrow> mig_env \<Rightarrow> jsstr option \<Rightarrow> ('d, unit) mrun" where
  "bootstrapChainArchiveSchema hash ups archive_ups env schema =
     runMigrations hash ups env \<lparr>ro_schema = option_default schema (js ''chain_archive''), ro_migrations = Some (chainArchiveMigrations archive_ups),
       ro_allowFullPageWritesOff = False, ro_migrationLockTimeoutMs = None\<rparr>"

section \<open>Each migration exactly once, in order\<close>

definition step :: "'d migration \<Rightarrow> 'd schema_state \<Rightarrow> js_error + 'd schema_state" where
  "step m x = (case mg_up m x of Inl e \<Rightarrow> Inl e | Inr y \<Rightarrow> record_name (mg_name m) y)"

fun applied_in_order :: "'d migration list \<Rightarrow> 'd schema_state \<Rightarrow> js_error + 'd schema_state" where
  "applied_in_order [] x = Inr x"
| "applied_in_order (m # ms) x = (case step m x of Inl e \<Rightarrow> Inl e | Inr y \<Rightarrow> applied_in_order ms y)"

text \<open>The schema is as the first \<open>k\<close> migrations leave it, each applied once.\<close>

definition reached :: "'d migration list \<Rightarrow> 'd schema_state \<Rightarrow> nat \<Rightarrow> 'd schema_state \<Rightarrow> bool" where
  "reached L x0 k x \<longleftrightarrow> k \<le> length L \<and> applied_in_order (take k L) x0 = Inr x"

text \<open>The first migration creates the bookkeeping table, the others leave it to the runner.\<close>

definition lineage_ok :: "'d migration list \<Rightarrow> bool" where
  "lineage_ok L \<longleftrightarrow>
     L \<noteq> [] \<and> distinct (map mg_name L)
   \<and> (\<forall>x y. mg_up (hd L) x = Inr y \<longrightarrow> ss_migrations y = Some [])
   \<and> (\<forall>m \<in> set (tl L). \<forall>x y. mg_up m x = Inr y \<longrightarrow> ss_migrations y = ss_migrations x)"

lemma applied_append:
  "applied_in_order (ms @ [m]) x = (case applied_in_order ms x of Inl e \<Rightarrow> Inl e | Inr y \<Rightarrow> step m y)"
  by (induction ms arbitrary: x) (auto split: sum.splits)

lemma reached_Suc: "reached L x0 k x \<Longrightarrow> k < length L \<Longrightarrow> step (L ! k) x = Inr y \<Longrightarrow> reached L x0 (Suc k) y"
  by (simp add: reached_def take_Suc_conv_app_nth applied_append)

lemma reached_names:
  assumes "lineage_ok L" and "ss_migrations x0 = None" and "reached L x0 k x"
  shows "ss_migrations x = (if k = 0 then None else Some (map mg_name (take k L)))"
  using assms(3)
proof (induction k arbitrary: x)
  case 0
  then show ?case using assms(2) by (simp add: reached_def)
next
  case (Suc k)
  then have k: "k < length L" by (simp add: reached_def)
  from Suc.prems k obtain y where y: "reached L x0 k y" "step (L ! k) y = Inr x"
    by (auto simp: reached_def take_Suc_conv_app_nth applied_append split: sum.splits)
  from y(2) obtain z where z: "mg_up (L ! k) y = Inr z" "record_name (mg_name (L ! k)) z = Inr x"
    by (auto simp: step_def split: sum.splits)
  have "ss_migrations z = Some (map mg_name (take k L))"
  proof (cases k)
    case 0
    with z(1) assms(1) k show ?thesis by (auto simp: lineage_ok_def hd_conv_nth)
  next
    case (Suc j)
    have "L ! k \<in> set (tl L)" using k Suc by (cases L) auto
    with z(1) assms(1) have "ss_migrations z = ss_migrations y" by (auto simp: lineage_ok_def)
    with Suc.IH [OF y(1)] Suc show ?thesis by simp
  qed
  with z(2) k show ?case by (auto simp: record_name_def take_Suc_conv_app_nth split: if_splits)
qed

section \<open>Pre- and postconditions\<close>

text \<open>From \<open>P\<close>, a computation that returns establishes \<open>Q\<close> and one that throws establishes \<open>E\<close>.\<close>

definition outcome :: "('s \<Rightarrow> bool) \<Rightarrow> ('e, 's, 'a) exec \<Rightarrow> ('a \<Rightarrow> 's \<Rightarrow> bool) \<Rightarrow> ('s \<Rightarrow> bool) \<Rightarrow> bool" where
  "outcome P m Q E \<longleftrightarrow> (\<forall>s. P s \<longrightarrow> (case m s of (Inr a, t) \<Rightarrow> Q a t | (Inl _, t) \<Rightarrow> E t))"

lemma outcomeI:
  "(\<And>s a t. P s \<Longrightarrow> m s = (Inr a, t) \<Longrightarrow> Q a t) \<Longrightarrow> (\<And>s e t. P s \<Longrightarrow> m s = (Inl e, t) \<Longrightarrow> E t) \<Longrightarrow> outcome P m Q E"
  by (auto simp: outcome_def split: prod.splits sum.splits)

lemma outcome_Inr: "outcome P m Q E \<Longrightarrow> P s \<Longrightarrow> m s = (Inr a, t) \<Longrightarrow> Q a t"
  by (fastforce simp: outcome_def)

lemma outcome_Inl: "outcome P m Q E \<Longrightarrow> P s \<Longrightarrow> m s = (Inl e, t) \<Longrightarrow> E t"
  by (fastforce simp: outcome_def)

lemma outcome_simple:
  "(\<And>s. P s \<Longrightarrow> Q x s) \<Longrightarrow> outcome P (eret x) Q E"
  "(\<And>s. P s \<Longrightarrow> E s) \<Longrightarrow> outcome P (ethrow e) Q E"
  by (auto simp: outcome_def eret_def)

lemma outcome_weaken:
  "outcome P m Q E \<Longrightarrow> (\<And>s. P' s \<Longrightarrow> P s) \<Longrightarrow> (\<And>a s. Q a s \<Longrightarrow> Q' a s) \<Longrightarrow> (\<And>s. E s \<Longrightarrow> E' s) \<Longrightarrow> outcome P' m Q' E'"
  by (fastforce simp: outcome_def split: prod.splits sum.splits)

lemma outcome_ebind:
  assumes "outcome P m R E" and "\<And>a. outcome (R a) (f a) Q E"
  shows "outcome P (ebind m f) Q E"
proof (rule outcomeI)
  fix s b t
  assume "P s" and "ebind m f s = (Inr b, t)"
  then obtain a u where "m s = (Inr a, u)" "f a u = (Inr b, t)" by (auto simp: ebind_def split: prod.splits sum.splits)
  with \<open>P s\<close> assms show "Q b t" by (meson outcome_Inr)
next
  fix s e t
  assume s: "P s" and "ebind m f s = (Inl e, t)"
  then consider "m s = (Inl e, t)" | a u where "m s = (Inr a, u)" "f a u = (Inl e, t)"
    by (auto simp: ebind_def split: prod.splits sum.splits)
  then show "E t" using s assms by cases (meson outcome_Inl outcome_Inr)+
qed

lemma outcome_on_conn:
  assumes "outcome P m Q E" and "\<And>s e dead. P s \<Longrightarrow> me_faults env k = Some (e, dead) \<Longrightarrow> E (lose dead c s)"
  shows "outcome P (on_conn env k c m) Q E"
  using assms by (auto simp: outcome_def on_conn_def split: option.splits)

lemma outcome_efinally:
  assumes "outcome P m Q' E'" and "\<And>a. outcome (Q' a) fin (\<lambda>_. Q a) E" and "outcome E' fin (\<lambda>_. E) E"
  shows "outcome P (efinally m fin) Q E"
  unfolding outcome_def
proof (intro allI impI)
  fix s
  assume s: "P s"
  obtain r u where m: "m s = (r, u)" by force
  obtain r' v where f: "fin u = (r', v)" by force
  have "case (r, r') of (Inr a, Inr _) \<Rightarrow> Q a v | _ \<Rightarrow> E v"
    using outcome_Inr [OF assms(1) s] outcome_Inl [OF assms(1) s] outcome_Inr [OF assms(2)] outcome_Inl [OF assms(2)]
      outcome_Inr [OF assms(3)] outcome_Inl [OF assms(3)] m f by (cases r; cases r') auto
  then show "case efinally m fin s of (Inl _, t) \<Rightarrow> E t | (Inr a, t) \<Rightarrow> Q a t"
    by (simp add: efinally_def m f split: sum.splits)
qed

lemma lose_schema [simp]: "sv_schema (lose dead c s) = sv_schema s"
  by (simp add: lose_def)

text \<open>What a transaction leaves of the schema: all of its body's work, or none.\<close>

lemma transaction_schema:
  assumes "withReservedTransaction env k c fn s = (r, t)"
  shows "(\<exists>a u. fn s = (Inr a, u) \<and> sv_schema t = sv_schema u) \<or> (isl r \<and> sv_schema t = sv_schema s)"
proof (cases "me_faults env (Begin k)")
  case (Some f)
  with assms show ?thesis by (cases f) (auto simp: withReservedTransaction_def on_conn_def)
next
  case None
  obtain x u where fn: "fn s = (x, u)" by force
  show ?thesis
    using assms None fn
    by (cases x; cases "me_faults env (Commit k)"; cases "me_faults env (Rollback k)")
      (auto simp: withReservedTransaction_def on_conn_def ebind_def eret_def commit_landed_def split: if_splits)
qed

text \<open>A predicate that does not look at the schema is treated as if the transaction were not there.\<close>

lemma outcome_transaction:
  assumes "\<And>s x. P (s\<lparr>sv_schema := x\<rparr>) = P s" and "outcome P fn (\<lambda>_. Q) E"
    and "\<And>s dead. P s \<Longrightarrow> E (lose dead c s)" and "\<And>s dead. E s \<Longrightarrow> E (lose dead c s)" and "\<And>s x. E (s\<lparr>sv_schema := x\<rparr>) = E s"
    and "\<And>s. Q s \<Longrightarrow> E s"
  shows "outcome P (withReservedTransaction env k c fn) (\<lambda>_. Q) E"
proof (rule outcomeI)
  fix s a t
  assume "P s" "withReservedTransaction env k c fn s = (Inr a, t)"
  then have "fn s = (Inr a, t)"
    by (auto simp: withReservedTransaction_def on_conn_def ebind_def eret_def split: option.splits prod.splits sum.splits)
  with \<open>P s\<close> assms(2) show "Q t" by (meson outcome_Inr)
next
  fix s e t
  assume s: "P s" and w: "withReservedTransaction env k c fn s = (Inl e, t)"
  obtain x u where fn: "fn s = (x, u)" by force
  have "E u" using fn s assms(2,6) by (cases x) (meson outcome_Inr outcome_Inl)+
  then show "E t"
    using s w fn assms(3-5)
    by (cases x; cases "me_faults env (Begin k)"; cases "me_faults env (Commit k)"; cases "me_faults env (Rollback k)")
      (auto simp: withReservedTransaction_def on_conn_def ebind_def eret_def split: if_splits)
qed

section \<open>The schema under the runner\<close>

lemma outcome_apply_one:
  assumes "reached L x0 k x" and "k < length L"
  shows "outcome (\<lambda>s. sv_schema s = x) (apply_one env j c (L ! k))
    (\<lambda>_ s. reached L x0 (Suc k) (sv_schema s)) (\<lambda>s. sv_schema s = x \<or> reached L x0 (Suc k) (sv_schema s))"
proof -
  let ?fn = "ebind (on_conn env (Up j) c (on_schema (mg_up (L ! k)))) (\<lambda>_.
          on_conn env (Record j) c (on_schema (record_name (mg_name (L ! k)))))"
  have fn: "reached L x0 (Suc k) (sv_schema u)" if "?fn s = (Inr a, u)" "sv_schema s = x" for s a u
    using that reached_Suc [OF assms]
    by (auto simp: ebind_def on_conn_def on_schema_def step_def split: option.splits sum.splits prod.splits)
  show ?thesis
    unfolding apply_one_def
    by (rule outcomeI; drule transaction_schema) (auto dest: fn)
qed

lemma member_take:
  assumes "distinct (map f L)" and "i < length L" and "k \<le> length L"
  shows "f (L ! i) \<in> set (map f (take k L)) \<longleftrightarrow> i < k"
proof
  assume "f (L ! i) \<in> set (map f (take k L))"
  then obtain j where "j < k" "j < length L" "map f L ! i = map f L ! j"
    using assms(2,3) by (auto simp: in_set_conv_nth)
  with assms show "i < k" by (metis length_map nth_eq_iff_index_eq)
qed (use assms in \<open>auto simp: in_set_conv_nth image_iff intro!: bexI [of _ "L ! i"] exI [of _ i]\<close>)

lemma outcome_apply_rest:
  fixes L :: "'d migration list"
  assumes L: "lineage_ok L" and x0: "ss_migrations x0 = None"
  shows "L = pre @ ms \<Longrightarrow> pre \<noteq> [] \<Longrightarrow>
    outcome (\<lambda>s. \<exists>k \<ge> k0. length pre \<le> k \<and> reached L x0 k (sv_schema s)) (apply_rest env j c ms)
      (\<lambda>_ s. reached L x0 (length L) (sv_schema s)) (\<lambda>s. \<exists>k \<ge> k0. reached L x0 k (sv_schema s))"
proof (induction ms arbitrary: pre j)
  case Nil
  then show ?case by (auto simp: outcome_def reached_def)
next
  case (Cons m ms)
  have m: "m = L ! length pre" and len: "length pre < length L" using Cons.prems(1) by simp_all
  let ?P = "\<lambda>n s. \<exists>k \<ge> k0. n \<le> k \<and> reached L x0 k (sv_schema s)"
  have applied: "outcome (?P (length pre)) (is_applied env j c (mg_name m))
    (\<lambda>a s. if a then ?P (Suc (length pre)) s else k0 \<le> length pre \<and> reached L x0 (length pre) (sv_schema s))
    (\<lambda>s. \<exists>k \<ge> k0. reached L x0 k (sv_schema s))"
    unfolding is_applied_def
  proof (rule outcome_on_conn)
    show "outcome (?P (length pre))
      (\<lambda>s. case ss_migrations (sv_schema s) of None \<Rightarrow> (Inl (pg_error ''42P01'' None), s) | Some ns \<Rightarrow> (Inr (List.member ns (mg_name m)), s))
      (\<lambda>a s. if a then ?P (Suc (length pre)) s else k0 \<le> length pre \<and> reached L x0 (length pre) (sv_schema s))
      (\<lambda>s. \<exists>k \<ge> k0. reached L x0 k (sv_schema s))"
      unfolding outcome_def
    proof (intro allI impI, elim exE conjE)
      fix s k
      assume k: "k0 \<le> k" "length pre \<le> k" and r: "reached L x0 k (sv_schema s)"
      have "k \<noteq> 0" using k(2) Cons.prems(2) by (cases pre) auto
      with reached_names [OF L x0 r] have ns: "ss_migrations (sv_schema s) = Some (map mg_name (take k L))" by simp
      have "mg_name m \<in> set (map mg_name (take k L)) \<longleftrightarrow> length pre < k"
        unfolding m using L r len by (intro member_take) (auto simp: lineage_ok_def reached_def)
      then show "case (case ss_migrations (sv_schema s) of None \<Rightarrow> (Inl (pg_error ''42P01'' None), s)
             | Some ns \<Rightarrow> (Inr (List.member ns (mg_name m)), s)) of
          (Inl _, s) \<Rightarrow> \<exists>k\<ge>k0. reached L x0 k (sv_schema s)
        | (Inr a, s) \<Rightarrow> if a then ?P (Suc (length pre)) s else k0 \<le> length pre \<and> reached L x0 (length pre) (sv_schema s)"
        using k r by (cases "length pre < k") (auto simp: ns)
    qed
  qed auto
  have rest: "outcome (?P (Suc (length pre))) (apply_rest env (Suc j) c ms)
      (\<lambda>_ s. reached L x0 (length L) (sv_schema s)) (\<lambda>s. \<exists>k \<ge> k0. reached L x0 k (sv_schema s))"
    using Cons.IH [of "pre @ [m]" "Suc j"] Cons.prems by simp
  have one: "outcome (\<lambda>s. k0 \<le> length pre \<and> reached L x0 (length pre) (sv_schema s)) (apply_one env j c m)
      (\<lambda>_. ?P (Suc (length pre))) (\<lambda>s. \<exists>k \<ge> k0. reached L x0 k (sv_schema s))"
    unfolding outcome_def
  proof (intro allI impI, elim conjE)
    fix s :: "'d server"
    assume k: "k0 \<le> length pre" and r: "reached L x0 (length pre) (sv_schema s)"
    obtain y t where a: "apply_one env j c m s = (y, t)" by force
    show "case apply_one env j c m s of (Inl _, s) \<Rightarrow> \<exists>k\<ge>k0. reached L x0 k (sv_schema s) | (Inr a, s) \<Rightarrow> ?P (Suc (length pre)) s"
      using outcome_Inr [OF outcome_apply_one [OF r len, of env j c] refl] outcome_Inl [OF outcome_apply_one [OF r len, of env j c] refl] a k r
      unfolding m by (cases y) (fastforce intro: exI [of _ "Suc (length pre)"])+
  qed
  show ?case
    unfolding apply_rest.simps
    by (rule outcome_ebind [OF applied], rule outcome_ebind [where R = "\<lambda>_. ?P (Suc (length pre))"])
      (use one rest in \<open>auto intro: outcome_simple simp del: apply_rest.simps split: if_splits\<close>)
qed


lemma outcome_apply_lineage:
  fixes L :: "'d migration list"
  assumes L: "lineage_ok L" and x0: "ss_migrations x0 = None"
  shows "outcome (\<lambda>s. \<exists>k \<ge> k0. reached L x0 k (sv_schema s)) (apply_lineage env c L)
    (\<lambda>_ s. reached L x0 (length L) (sv_schema s)) (\<lambda>s. \<exists>k \<ge> k0. reached L x0 k (sv_schema s))"
proof -
  obtain m ms where Lm: "L = m # ms" using L by (cases L) (auto simp: lineage_ok_def)
  let ?E = "\<lambda>s. \<exists>k \<ge> k0. reached L x0 k (sv_schema s)"
  let ?P = "\<lambda>s. \<exists>k \<ge> k0. length [m] \<le> k \<and> reached L x0 k (sv_schema s)"
  have probe: "outcome ?E (on_conn env Bootstrapped c (\<lambda>s. (Inr (ss_migrations (sv_schema s) \<noteq> None), s)))
    (\<lambda>b s. if b then ?P s else k0 = 0 \<and> reached L x0 0 (sv_schema s)) ?E"
  proof (rule outcome_on_conn)
    have "if ss_migrations (sv_schema s) \<noteq> None then ?P s else k0 = 0 \<and> reached L x0 0 (sv_schema s)" if "?E s" for s :: "'d server"
      using that reached_names [OF L x0] by (auto split: if_splits)
    then show "outcome ?E (\<lambda>s :: 'd server. (Inr (ss_migrations (sv_schema s) \<noteq> None), s))
      (\<lambda>b s. if b then ?P s else k0 = 0 \<and> reached L x0 0 (sv_schema s)) ?E"
      unfolding outcome_def prod.case sum.case by (intro allI impI)
  qed auto
  have boot: "outcome (\<lambda>s. k0 = 0 \<and> reached L x0 0 (sv_schema s)) (apply_one env 1 c m) (\<lambda>_. ?P) ?E"
    unfolding outcome_def
  proof (intro allI impI, elim conjE)
    fix s :: "'d server"
    assume k: "k0 = 0" and r: "reached L x0 0 (sv_schema s)"
    obtain y t where a: "apply_one env 1 c m s = (y, t)" by force
    have m: "m = L ! 0" and len: "0 < length L" by (simp_all add: Lm)
    show "case apply_one env 1 c m s of (Inl _, s) \<Rightarrow> ?E s | (Inr a, s) \<Rightarrow> ?P s"
      using outcome_Inr [OF outcome_apply_one [OF r len, of env 1 c] refl] outcome_Inl [OF outcome_apply_one [OF r len, of env 1 c] refl] a k r
      unfolding m by (cases y) (auto intro: exI [of _ "Suc 0"])
  qed
  show ?thesis
    unfolding apply_lineage_def Lm list.case
    by (rule outcome_ebind [OF probe [unfolded Lm]], rule outcome_ebind [where R = "\<lambda>_. \<lambda>s. \<exists>k \<ge> k0. length [m] \<le> k \<and> reached (m # ms) x0 k (sv_schema s)"])
      (use boot outcome_apply_rest [OF L x0, of "[m]" ms k0 env 2 c] in \<open>auto intro: outcome_simple simp: Lm simp del: apply_rest.simps list.size split: if_splits\<close>)
qed

text \<open>Everything around the migrations leaves the schema alone.\<close>

definition schema_kept :: "('d, 'a) mrun \<Rightarrow> bool" where
  "schema_kept m \<longleftrightarrow> (\<forall>s. sv_schema (snd (m s)) = sv_schema s)"

lemma schema_kept_steps [intro, simp]:
  "schema_kept (release c)" "schema_kept (reserve z)" "schema_kept (take_lock i j c)" "schema_kept (drop_lock i j c)"
  "schema_kept (widen c)" "schema_kept (narrow c)" "schema_kept (eret x)" "schema_kept (ethrow e)" "schema_kept (elift r)" "schema_kept (Pair r)"
  by (auto simp: schema_kept_def release_def reserve_def take_lock_def drop_lock_def widen_def narrow_def split: sum.splits)

lemma schema_kept_on_conn [intro]: "schema_kept m \<Longrightarrow> schema_kept (on_conn env k c m)"
  by (auto simp: schema_kept_def on_conn_def split: option.splits)

lemma schema_kept_efinally [intro]: "schema_kept m \<Longrightarrow> schema_kept fin \<Longrightarrow> schema_kept (efinally m fin)"
  unfolding schema_kept_def efinally_def by (auto split: prod.splits sum.splits) (metis snd_conv)+

lemma schema_kept_ebind [intro]: "schema_kept m \<Longrightarrow> (\<And>x. schema_kept (f x)) \<Longrightarrow> schema_kept (ebind m f)"
  unfolding schema_kept_def ebind_def by (auto split: prod.splits sum.splits) (metis snd_conv)+

lemma schema_kept_transaction [intro]:
  assumes "schema_kept fn"
  shows "schema_kept (withReservedTransaction env k c fn)"
  unfolding schema_kept_def
proof
  fix s
  obtain r t where w: "withReservedTransaction env k c fn s = (r, t)" by force
  with transaction_schema [OF w] assms show "sv_schema (snd (withReservedTransaction env k c fn s)) = sv_schema s"
    unfolding schema_kept_def by (metis snd_conv)
qed

lemma lock_probe_schema_kept: "schema_kept (probeAdvisoryLockVisibility hash env c)"
proof -
  have unlock: "schema_kept (\<lambda>s. (Inr (), snd (on_conn env ProbeUnlock c (drop_lock i j c) s)))" for i j
    by (auto simp: schema_kept_def drop_lock_def on_conn_def split: option.splits)
  show ?thesis
    unfolding probeAdvisoryLockVisibility_def Let_def
    by (intro schema_kept_ebind schema_kept_on_conn schema_kept_steps) (auto intro!: schema_kept_efinally unlock)
qed

lemma probe_schema_kept: "schema_kept (probeDurability hash env off)"
proof -
  have verdict: "schema_kept (case p of (acquired, visibleCount) \<Rightarrow>
      ebind (elift (assertNoTransactionPooler acquired visibleCount)) (\<lambda>_. eret ws))" for p ws
    by (cases p) auto
  have body: "schema_kept (if vs \<noteq> [] then ethrow e else ebind (probeAdvisoryLockVisibility hash env c) (\<lambda>p. case p of (acquired, visibleCount) \<Rightarrow>
      ebind (elift (assertNoTransactionPooler acquired visibleCount)) (\<lambda>_. eret ws)))" for vs e c ws
    by (cases "vs = []") (simp_all add: schema_kept_ebind lock_probe_schema_kept verdict)
  show ?thesis
    unfolding probeDurability_def Let_def
    by (intro schema_kept_ebind schema_kept_steps schema_kept_efinally schema_kept_on_conn body)
qed

lemma acquire_keeps_schema:
  fixes s :: "'d server"
  shows "sv_schema (snd (snd (acquire_lock env key c s))) = sv_schema s"
proof -
  have "schema_kept (withReservedTransaction env 0 c
        (ebind (on_conn env SetLockTimeout c (eret ())) (\<lambda>_. on_conn env AdvisoryLock c (take_lock MIGRATION_LOCK_CLASS key c))) :: ('d, unit) mrun)"
    by (intro schema_kept_transaction schema_kept_ebind schema_kept_on_conn schema_kept_steps)
  then show ?thesis by (auto simp: acquire_lock_def schema_kept_def split: prod.splits) (metis snd_conv)+
qed

lemma outcome_schema_kept:
  assumes "schema_kept m"
  shows "outcome (\<lambda>s. P (sv_schema s)) m (\<lambda>_ s. P (sv_schema s)) (\<lambda>s. P (sv_schema s))"
  using assms unfolding outcome_def schema_kept_def by (auto split: prod.splits sum.splits) (metis snd_conv)+

lemma outcome_emap_error: "outcome P m Q E \<Longrightarrow> outcome P (emap_error h m) Q E"
  by (fastforce simp: outcome_def emap_error_def split: prod.splits sum.splits)


text \<open>
  So what the lineage does to the schema is what a call does: \<open>E\<close> holds throughout, and \<open>Q\<close> when it returns.
\<close>

lemma outcome_under_lock:
  assumes lin: "outcome (\<lambda>s. E (sv_schema s)) (apply_lineage env c L) (\<lambda>_ s. Q (sv_schema s)) (\<lambda>s. E (sv_schema s))"
    and QE: "\<And>x. Q x \<Longrightarrow> E x"
  shows "outcome (\<lambda>s. E (sv_schema s)) (under_lock env key c L r held) (\<lambda>_ s. Q (sv_schema s)) (\<lambda>s. E (sv_schema s))"
proof -
  let ?E = "\<lambda>s. E (sv_schema s)"
  let ?Q = "\<lambda>s. Q (sv_schema s)"
  note kept = outcome_schema_kept [where P = E] outcome_schema_kept [where P = Q]
  have reset: "outcome ?Q (on_conn env ResetSearchPath c (narrow c)) (\<lambda>_. ?Q) ?E" "outcome ?E (on_conn env ResetSearchPath c (narrow c)) (\<lambda>_. ?E) ?E"
    by (rule outcome_weaken [OF kept(2)] outcome_weaken [OF kept(1)]; blast intro: QE)+
  have unlock: "schema_kept (efinally (if held then on_conn env AdvisoryUnlock c (drop_lock MIGRATION_LOCK_CLASS key c) else eret ()) (release c))"
    by (cases held) (simp_all add: schema_kept_efinally schema_kept_on_conn)
  show ?thesis
    unfolding under_lock_def
  proof (rule outcome_efinally [where Q' = "\<lambda>_. ?Q" and E' = ?E])
    show "outcome ?E (ebind (elift r) (\<lambda>_. ebind (on_conn env SetSearchPath c (widen c)) (\<lambda>_.
          efinally (apply_lineage env c L) (on_conn env ResetSearchPath c (narrow c))))) (\<lambda>_. ?Q) ?E"
      by (rule outcome_ebind [OF kept(1)], blast, rule outcome_ebind [OF kept(1)], blast) (rule outcome_efinally [OF lin reset])
  qed (use kept(1) [OF unlock] kept(2) [OF unlock] QE in \<open>blast intro: outcome_weaken\<close>)+
qed

lemma outcome_call:
  fixes opts :: "'d run_options"
  assumes lin: "\<And>c. outcome (\<lambda>s. E (sv_schema s)) (apply_lineage env c (lineage_used ups opts)) (\<lambda>_ s. Q (sv_schema s)) (\<lambda>s. E (sv_schema s))"
    and QE: "\<And>x. Q x \<Longrightarrow> E x"
  shows "outcome (\<lambda>s. E (sv_schema s)) (runMigrations hash ups env opts) (\<lambda>_ s. Q (sv_schema s)) (\<lambda>s. E (sv_schema s))"
proof -
  let ?L = "lineage_used ups opts"
  let ?E = "\<lambda>s. E (sv_schema s)"
  let ?Q = "\<lambda>s. Q (sv_schema s)"
  define locked where "locked bound key c s =
     (if bad_timeout (Some bound) then efinally (ethrow (validation_error ''migrationLockTimeoutMs'')) (release c) s
       else case acquire_lock env key c s of
         (r, lockHeld, s1) \<Rightarrow>
           under_lock env key c ?L
             (case r of Inl e \<Rightarrow> Inl (lock_error (ro_schema opts) bound e) | Inr _ \<Rightarrow> Inr ()) lockHeld s1)" for bound key c and s :: "'d server"
  have locked: "outcome ?E (locked bound key c) (\<lambda>_. ?Q) ?E" for bound key c
  proof (cases "bad_timeout (Some bound)")
    case True
    then show ?thesis by (auto simp: locked_def outcome_def efinally_def release_def)
  next
    case False
    show ?thesis
      unfolding outcome_def
    proof (intro allI impI)
      fix s :: "'d server"
      assume s: "?E s"
      obtain r held s1 where a: "acquire_lock env key c s = (r, held, s1)" by (metis prod_cases3)
      with acquire_keeps_schema [of env key c s] s have "?E s1" by simp
      with outcome_under_lock [where E = E and Q = Q, OF lin QE, of key c _ held] False a
      show "case locked bound key c s of (Inl _, s) \<Rightarrow> ?E s | (Inr a, s) \<Rightarrow> ?Q s"
        by (auto simp: outcome_def locked_def)
    qed
  qed
  have impl: "outcome ?E (runMigrationsImpl hash ups env opts) (\<lambda>_. ?Q) ?E"
    unfolding runMigrationsImpl_def Let_def locked_def [symmetric]
    by (rule outcome_ebind [OF outcome_schema_kept [where P = E]]) (auto intro: locked)
  show ?thesis
    unfolding runMigrations_def
    using outcome_ebind [OF outcome_schema_kept [OF probe_schema_kept, where P = E] impl]
    by (auto split: sum.splits intro!: outcome_emap_error intro: outcome_simple)
qed

lemma outcome_runMigrations:
  fixes opts :: "'d run_options"
  assumes L: "lineage_ok (lineage_used ups opts)" and x0: "ss_migrations x0 = None"
  shows "outcome (\<lambda>s. \<exists>k \<ge> k0. reached (lineage_used ups opts) x0 k (sv_schema s)) (runMigrations hash ups env opts)
    (\<lambda>_ s. reached (lineage_used ups opts) x0 (length (lineage_used ups opts)) (sv_schema s))
    (\<lambda>s. \<exists>k \<ge> k0. reached (lineage_used ups opts) x0 k (sv_schema s))"
proof -
  let ?L = "lineage_used ups opts"
  let ?E = "\<lambda>x. \<exists>k \<ge> k0. reached ?L x0 k x"
  let ?Q = "\<lambda>x. reached ?L x0 (length ?L) x \<and> ?E x"
  have "outcome (\<lambda>s. ?E (sv_schema s)) (apply_lineage env c ?L) (\<lambda>_ s. ?Q (sv_schema s)) (\<lambda>s. ?E (sv_schema s))" for c
  proof (rule outcomeI)
    fix s a t
    assume s: "?E (sv_schema s)" and a: "apply_lineage env c ?L s = (Inr a, t)"
    from s have "k0 \<le> length ?L" by (auto simp: reached_def)
    with outcome_Inr [OF outcome_apply_lineage [OF L x0] s a] show "?Q (sv_schema t)" by blast
  qed (use outcome_apply_lineage [OF L x0, of k0 env c] in \<open>blast dest: outcome_Inl\<close>)
  from outcome_call [where E = ?E and Q = ?Q, OF this] show ?thesis by (rule outcome_weaken) auto
qed

text \<open>A call that finds every migration of the lineage in the bookkeeping table leaves the schema as it is, however it ends.\<close>

lemma apply_rest_nothing:
  assumes "ss_migrations x = Some ns" and "mg_name ` set ms \<subseteq> set ns"
  shows "outcome (\<lambda>s. sv_schema s = x) (apply_rest env k c ms) (\<lambda>_ s. sv_schema s = x) (\<lambda>s. sv_schema s = x)"
  using assms(2)
proof (induction ms arbitrary: k)
  case Nil
  then show ?case by (simp add: outcome_def)
next
  case (Cons m ms)
  have "outcome (\<lambda>s. sv_schema s = x) (is_applied env k c (mg_name m)) (\<lambda>a s. a \<and> sv_schema s = x) (\<lambda>s. sv_schema s = x)"
    unfolding is_applied_def by (rule outcome_on_conn) (use Cons.prems in \<open>auto simp: outcome_def assms(1)\<close>)
  moreover have "outcome (\<lambda>s. a \<and> sv_schema s = x) (ebind (if a then eret () else apply_one env k c m) (\<lambda>_. apply_rest env (Suc k) c ms))
      (\<lambda>_ s. sv_schema s = x) (\<lambda>s. sv_schema s = x)" for a
    using Cons.IH [of "Suc k"] Cons.prems by (cases a) (auto simp: outcome_def ebind_def eret_def)
  ultimately show ?case unfolding apply_rest.simps by (rule outcome_ebind)
qed

lemma runMigrations_nothing:
  assumes "ss_migrations (sv_schema s) = Some ns" and "mg_name ` set (drop 1 (lineage_used ups opts)) \<subseteq> set ns"
    and "runMigrations hash ups env opts s = (r, t)"
  shows "sv_schema t = sv_schema s"
proof -
  let ?x = "sv_schema s"
  have "outcome (\<lambda>u. sv_schema u = ?x) (apply_lineage env c (lineage_used ups opts)) (\<lambda>_ u. sv_schema u = ?x) (\<lambda>u. sv_schema u = ?x)" for c
  proof -
    have "outcome (\<lambda>u. sv_schema u = ?x) (on_conn env Bootstrapped c (\<lambda>s. (Inr (ss_migrations (sv_schema s) \<noteq> None), s)))
        (\<lambda>b u. b \<and> sv_schema u = ?x) (\<lambda>u. sv_schema u = ?x)"
      by (rule outcome_on_conn) (auto simp: outcome_def assms(1))
    moreover have "outcome (\<lambda>u. b \<and> sv_schema u = ?x) (ebind (if b then eret () else m) (\<lambda>_. apply_rest env 2 c (drop 1 (lineage_used ups opts))))
        (\<lambda>_ u. sv_schema u = ?x) (\<lambda>u. sv_schema u = ?x)" for b m
      using apply_rest_nothing [OF assms(1,2), of env 2 c] by (cases b) (auto simp: outcome_def ebind_def eret_def)
    ultimately show ?thesis unfolding apply_lineage_def by (rule outcome_ebind)
  qed
  from outcome_call [where E = "\<lambda>x. x = ?x" and Q = "\<lambda>x. x = ?x", OF this] assms(3) show ?thesis
    by (cases r) (auto dest: outcome_Inr outcome_Inl)
qed

text \<open>Successive calls, each with its own environment and options; a call that throws may be followed by another.\<close>

fun migration_calls :: "(jsstr \<Rightarrow> int) \<Rightarrow> (nat \<Rightarrow> 'd \<Rightarrow> js_error + 'd) \<Rightarrow> (mig_env \<times> 'd run_options) list \<Rightarrow> 'd server \<Rightarrow> 'd server" where
  "migration_calls hash ups [] s = s"
| "migration_calls hash ups ((env, opts) # calls) s = migration_calls hash ups calls (snd (runMigrations hash ups env opts s))"

lemma runMigrations_reached:
  assumes "lineage_ok (lineage_used ups opts)" and "ss_migrations x0 = None" and "reached (lineage_used ups opts) x0 k (sv_schema s)"
    and "runMigrations hash ups env opts s = (r, t)"
  shows "\<exists>k' \<ge> k. reached (lineage_used ups opts) x0 k' (sv_schema t) \<and> (\<not> isl r \<longrightarrow> k' = length (lineage_used ups opts))"
proof (cases r)
  case (Inl e)
  with assms(3,4) outcome_Inl [OF outcome_runMigrations [OF assms(1,2), of k hash env], of s e t] show ?thesis by fastforce
next
  case (Inr a)
  with assms(3,4) outcome_Inr [OF outcome_runMigrations [OF assms(1,2), of k hash env], of s a t] show ?thesis
    by (fastforce simp: reached_def)
qed

lemma migration_calls_reached:
  assumes "lineage_ok L" and "ss_migrations x0 = None" and "\<forall>(env, opts) \<in> set calls. lineage_used ups opts = L"
  shows "reached L x0 k (sv_schema s) \<Longrightarrow> \<exists>k' \<ge> k. reached L x0 k' (sv_schema (migration_calls hash ups calls s))"
  using assms(3)
proof (induction hash ups calls s arbitrary: k rule: migration_calls.induct)
  case (2 hash ups env opts calls s)
  obtain r t where r: "runMigrations hash ups env opts s = (r, t)" by force
  from "2.prems"(2) have oL: "lineage_used ups opts = L" by simp
  from runMigrations_reached [of ups opts x0 k s hash env r t] "2.prems"(1) assms(1,2) oL r obtain k1 where "k1 \<ge> k" "reached L x0 k1 (sv_schema t)" by auto
  moreover from "2.IH" [of k1] "2.prems"(2) r calculation obtain k2 where "k2 \<ge> k1" "reached L x0 k2 (sv_schema (migration_calls hash ups calls t))" by auto
  ultimately show ?case using r by (auto intro!: exI [of _ k2])
qed auto

section \<open>The session state of the connections\<close>

definition session :: "'d server \<Rightarrow> (int \<times> int \<times> nat) list \<times> nat list \<times> nat list" where
  "session s = (sv_locks s, sv_widened s, sv_reserved s)"

definition clean_conn :: "nat \<Rightarrow> 'd server \<Rightarrow> bool" where
  "clean_conn c s \<longleftrightarrow> c \<notin> set (sv_reserved s) \<and> c \<notin> set (sv_widened s) \<and> c \<notin> (snd \<circ> snd) ` set (sv_locks s)"

text \<open>
  A cleanup statement on a live connection succeeds (unlocking and \<^verbatim>\<open>reset\<close> do not fail on the
  server); it can fail because the connection is gone.
\<close>

definition orderly :: "mig_env \<Rightarrow> bool" where
  "orderly env \<longleftrightarrow> (\<forall>k \<in> {AdvisoryUnlock, ResetSearchPath, ProbeUnlock}. case me_faults env k of Some (_, dead) \<Rightarrow> dead | None \<Rightarrow> True)"

text \<open>
  Apart from connection \<open>c\<close> the session state is that of \<open>b\<close>; \<open>c\<close> holds no lock or the locks \<open>hl\<close>, and
  has a widened search path only if \<open>w\<close>.
\<close>

definition sess :: "nat \<Rightarrow> 'd server \<Rightarrow> (int \<times> int \<times> nat) list \<Rightarrow> bool \<Rightarrow> 'd server \<Rightarrow> bool" where
  "sess c b hl w s \<longleftrightarrow>
     sv_locks b = filter (\<lambda>l. snd (snd l) \<noteq> c) (sv_locks s) \<and> sv_widened b = filter (\<lambda>x. x \<noteq> c) (sv_widened s)
   \<and> sv_reserved b = filter (\<lambda>x. x \<noteq> c) (sv_reserved s)
   \<and> (filter (\<lambda>l. snd (snd l) = c) (sv_locks s) = [] \<or> filter (\<lambda>l. snd (snd l) = c) (sv_locks s) = hl)
   \<and> (c \<in> set (sv_widened s) \<longrightarrow> w)"

lemma sess_weaken: "sess c b [] False s \<Longrightarrow> sess c b hl w s" "sess c b [] w s \<Longrightarrow> sess c b hl w s"
  by (auto simp: sess_def)

lemma sess_schema [simp]: "sess c b hl w (s\<lparr>sv_schema := x\<rparr>) = sess c b hl w s"
  by (simp add: sess_def)

lemma sess_lose: "sess c b hl w s \<Longrightarrow> sess c b hl w (lose dead c s)"
  by (auto simp: sess_def lose_def filter_empty_conv)

lemma sess_lost: "sess c b hl w s \<Longrightarrow> sess c b [] False (lose True c s)"
  by (auto simp: sess_def lose_def filter_empty_conv)

lemma keeps_sess_on_conn [intro]: "keeps (sess c b hl w) m \<Longrightarrow> keeps (sess c b hl w) (on_conn env k c m)"
  by (auto simp: keeps_def on_conn_def sess_lose split: option.splits)

lemma outcome_keeps: "keeps P m \<Longrightarrow> outcome P m (\<lambda>_. P) P"
  unfolding keeps_def outcome_def by (auto split: prod.splits sum.splits)

lemma keeps_outcome: "outcome P m (\<lambda>_. P) P \<Longrightarrow> keeps P m"
  unfolding keeps_def outcome_def by (fastforce split: prod.splits sum.splits)

lemma keeps_look [intro]: "keeps P (\<lambda>s. (f s, s))" "keeps P (\<lambda>s. case f' s of None \<Rightarrow> (g, s) | Some n \<Rightarrow> (h n, s))"
  by (auto simp: keeps_def split: option.splits)

lemma keeps_sess_transaction [intro]:
  "keeps (sess c b hl w) fn \<Longrightarrow> keeps (sess c b hl w) (withReservedTransaction env k c fn)"
  by (rule keeps_outcome, rule outcome_transaction) (auto intro: outcome_keeps sess_lose)

lemma keeps_sess_on_schema [intro]: "keeps (sess c b hl w) (on_schema f)"
  by (auto simp: keeps_def on_schema_def split: sum.splits)

lemma keeps_sess_apply_rest: "keeps (sess c b hl w) (apply_rest env k c ms)"
proof (induction ms arbitrary: k)
  case (Cons m ms)
  have "keeps (sess c b hl w) (apply_one env k c m)"
    unfolding apply_one_def by (intro keeps_sess_transaction keeps_ebind keeps_sess_on_conn keeps_sess_on_schema)
  with Cons.IH show ?case
    unfolding apply_rest.simps is_applied_def by (intro keeps_ebind keeps_sess_on_conn keeps_look) auto
qed auto

lemma keeps_sess_apply_lineage: "keeps (sess c b hl w) (apply_lineage env c L)"
proof -
  have boot: "keeps (sess c b hl w) (case L of [] \<Rightarrow> withReservedTransaction env 1 c (ethrow e) | m # _ \<Rightarrow> apply_one env 1 c m)" for e
    by (cases L) (auto simp: apply_one_def intro!: keeps_sess_transaction keeps_ebind keeps_sess_on_conn keeps_sess_on_schema)
  show ?thesis
    unfolding apply_lineage_def
    by (intro keeps_ebind keeps_sess_on_conn) (auto intro: boot keeps_sess_apply_rest keeps_look(1))
qed

lemma eq_filter_conv: "xs = filter P xs \<longleftrightarrow> (\<forall>x \<in> set xs. P x)"
  by (metis filter_id_conv)

lemma outcome_reserve:
  fixes b :: "'d server"
  assumes "\<And>c. z = Inr c \<Longrightarrow> clean_conn c b"
  shows "outcome (\<lambda>s :: 'd server. session s = session b) (reserve z) (\<lambda>c. sess c b [] False) (\<lambda>s. session s = session b)"
  using assms
  by (cases z) (auto simp: outcome_def reserve_def session_def sess_def clean_conn_def eq_filter_conv filter_empty_conv image_iff)

lemma sess_release: "outcome (sess c b [] False) (release c) (\<lambda>_ s. session s = session b) E"
  by (auto simp: outcome_def release_def sess_def session_def filter_empty_conv eq_filter_conv)

lemma outcome_locks:
  "outcome (sess c b [] w) (take_lock i j c) (\<lambda>_. sess c b [(i, j, c)] w) E"
  "outcome (sess c b [(i, j, c)] w) (drop_lock i j c) (\<lambda>_. sess c b [] w) E"
  "outcome (sess c b hl w) (widen c) (\<lambda>_. sess c b hl True) E"
  "outcome (sess c b hl True) (narrow c) (\<lambda>_. sess c b hl False) E"
  by (auto simp: outcome_def sess_def take_lock_def drop_lock_def widen_def narrow_def filter_remove1 remove1_idem)


lemma outcome_lock_probe:
  assumes "orderly env"
  shows "outcome (sess c b [] False) (probeAdvisoryLockVisibility hash env c) (\<lambda>_. sess c b [] False) (sess c b [] False)"
proof -
  let ?lock = "\<lambda>j. [(POOLER_PROBE_LOCK_CLASS, j, c)]"
  have unlock: "outcome (sess c b (?lock j) False)
      (\<lambda>s. (Inr (), snd (on_conn env ProbeUnlock c (drop_lock POOLER_PROBE_LOCK_CLASS j c) s))) (\<lambda>_. sess c b [] False) (sess c b [] False)" for j
    using assms outcome_locks(2) [of c b POOLER_PROBE_LOCK_CLASS j False "sess c b [] False"]
    by (auto simp: outcome_def on_conn_def orderly_def drop_lock_def sess_lost split: option.splits)
  have look: "outcome (sess c b hl False) (on_conn env Visible c (eret x)) (\<lambda>_. sess c b hl False) (sess c b hl False)" for hl x
    by (rule outcome_keeps) blast
  have try_lock: "outcome (sess c b [] False)
      (on_conn env TryLock c (if me_acquired env then ebind (take_lock POOLER_PROBE_LOCK_CLASS j c) (\<lambda>_. eret True) else eret False))
      (\<lambda>a. sess c b (if a then ?lock j else []) False) (sess c b [] False)" for j
    using outcome_locks(1) [of c b False POOLER_PROBE_LOCK_CLASS j "sess c b [] False"]
    by (intro outcome_on_conn) (auto simp: outcome_def ebind_def take_lock_def intro: sess_lose)
  show ?thesis
    unfolding probeAdvisoryLockVisibility_def Let_def
    by (rule outcome_ebind [where R = "\<lambda>_. sess c b [] False"], rule outcome_keeps, blast, rule outcome_ebind [OF try_lock])
      (auto intro!: outcome_efinally [OF look unlock unlock] simp: outcome_def [of _ "eret _"])
qed

lemma outcome_probe_session:
  fixes b :: "'d server"
  assumes "orderly env" and "\<And>c. me_probe_reserve env = Inr c \<Longrightarrow> clean_conn c b"
  shows "outcome (\<lambda>s :: 'd server. session s = session b) (probeDurability hash env off) (\<lambda>_ s. session s = session b) (\<lambda>s. session s = session b)"
proof -
  let ?B = "\<lambda>s :: 'd server. session s = session b"
  let ?S = "\<lambda>c. sess c b [] False"
  have reserved: "outcome ?B (reserve (me_probe_reserve env)) ?S ?B"
    by (rule outcome_reserve) (rule assms(2))
  have read: "outcome (?S c) (on_conn env k c (eret x)) (\<lambda>_. ?S c) (?S c)" for c k x
    by (rule outcome_keeps) blast
  have verdict: "outcome (?S c) (case p of (acquired, visibleCount) \<Rightarrow>
      ebind (elift (assertNoTransactionPooler acquired visibleCount)) (\<lambda>_. eret ws)) (\<lambda>_. ?S c) (?S c)" for p ws c
    by (rule outcome_keeps) (auto split: prod.splits)
  have body: "outcome (?S c) (if vs \<noteq> [] then ethrow e else ebind (probeAdvisoryLockVisibility hash env c) (\<lambda>p. case p of (acquired, visibleCount) \<Rightarrow>
      ebind (elift (assertNoTransactionPooler acquired visibleCount)) (\<lambda>_. eret ws))) (\<lambda>_. ?S c) (?S c)" for vs e c ws
    using outcome_ebind [OF outcome_lock_probe [OF assms(1)] verdict] by (cases "vs = []") (auto intro: outcome_simple)
  show ?thesis
    unfolding probeDurability_def Let_def
    by (rule outcome_ebind [OF reserved], rule outcome_efinally [where Q' = "\<lambda>_. ?S _"])
      (rule outcome_ebind [OF read] body sess_release)+
qed

lemma outcome_under_lock_session:
  assumes env: "orderly env"
  shows "outcome (sess c b (if held then [(MIGRATION_LOCK_CLASS, key, c)] else []) False) (under_lock env key c L r held)
    (\<lambda>_ s. session s = session b) (\<lambda>s. session s = session b)"
proof -
  let ?hl = "if held then [(MIGRATION_LOCK_CLASS, key, c)] else []"
  have widened: "outcome (sess c b ?hl False) (on_conn env SetSearchPath c (widen c)) (\<lambda>_. sess c b ?hl True) (sess c b ?hl False)"
    by (rule outcome_on_conn [OF outcome_locks(3)]) (rule sess_lose)
  have narrowed: "outcome (sess c b ?hl True) (on_conn env ResetSearchPath c (narrow c)) (\<lambda>_. sess c b ?hl False) (sess c b ?hl False)"
    by (rule outcome_on_conn [OF outcome_locks(4)]) (use env in \<open>auto simp: orderly_def intro: sess_weaken(1) [OF sess_lost]\<close>)
  have body: "outcome (sess c b ?hl False) (ebind (elift r) (\<lambda>_. ebind (on_conn env SetSearchPath c (widen c)) (\<lambda>_.
          efinally (apply_lineage env c L) (on_conn env ResetSearchPath c (narrow c))))) (\<lambda>_. sess c b ?hl False) (sess c b ?hl False)"
    by (rule outcome_ebind [OF outcome_keeps], blast, rule outcome_ebind [OF widened],
        rule outcome_efinally [OF outcome_keeps [OF keeps_sess_apply_lineage] narrowed narrowed])
  have unlocked: "outcome (sess c b ?hl False) (if held then on_conn env AdvisoryUnlock c (drop_lock MIGRATION_LOCK_CLASS key c) else eret ())
      (\<lambda>_. sess c b [] False) (sess c b [] False)"
  proof (cases held)
    case True
    show ?thesis
      unfolding if_P [OF True]
      by (rule outcome_on_conn [OF outcome_locks(2)]) (use env in \<open>auto simp: orderly_def intro: sess_lost\<close>)
  qed (auto intro: outcome_simple)
  show ?thesis
    unfolding under_lock_def
    by (rule outcome_efinally [OF body]) (rule outcome_efinally [OF unlocked sess_release sess_release])+
qed

lemma acquire_session:
  assumes "sess c b [] False s" and "acquire_lock env key c s = (r, held, t)"
  shows "sess c b (if held then [(MIGRATION_LOCK_CLASS, key, c)] else []) False t"
proof -
  let ?fn = "ebind (on_conn env SetLockTimeout c (eret ())) (\<lambda>_. on_conn env AdvisoryLock c (take_lock MIGRATION_LOCK_CLASS key c))"
  let ?hl = "if held then [(MIGRATION_LOCK_CLASS, key, c)] else []"
  have held: "held \<longleftrightarrow> me_faults env (Begin 0) = None \<and> me_faults env SetLockTimeout = None \<and> me_faults env AdvisoryLock = None"
    and w: "\<exists>x. withReservedTransaction env 0 c ?fn s = (x, t)"
    using assms(2) by (auto simp: acquire_lock_def split: prod.splits)
  show ?thesis
  proof (cases "me_faults env (Begin 0)")
    case (Some f)
    with w assms(1) held show ?thesis
      by (cases f) (auto simp: withReservedTransaction_def on_conn_def intro: sess_lose)
  next
    case None
    have "outcome (sess c b [] False) ?fn (\<lambda>_. sess c b ?hl False) (sess c b ?hl False)"
    proof (rule outcome_ebind [where R = "\<lambda>_ s. sess c b [] False s \<and> me_faults env SetLockTimeout = None"])
      show "outcome (sess c b [] False) (on_conn env SetLockTimeout c (eret ()))
        (\<lambda>_ s. sess c b [] False s \<and> me_faults env SetLockTimeout = None) (sess c b ?hl False)"
        by (auto simp: outcome_def on_conn_def held split: option.splits intro: sess_lose)
      show "outcome (\<lambda>s. sess c b [] False s \<and> me_faults env SetLockTimeout = None) (on_conn env AdvisoryLock c (take_lock MIGRATION_LOCK_CLASS key c))
        (\<lambda>_. sess c b ?hl False) (sess c b ?hl False)" for a
        using outcome_locks(1) [of c b False MIGRATION_LOCK_CLASS key "\<lambda>_. False"] None
        by (auto simp: outcome_def on_conn_def held take_lock_def split: option.splits intro: sess_lose)
    qed
    then have "outcome (sess c b [] False) (withReservedTransaction env 0 c ?fn) (\<lambda>_. sess c b ?hl False) (sess c b ?hl False)"
      by (rule outcome_transaction [rotated]) (auto intro: sess_lose sess_weaken)
    with w assms(1) show ?thesis by (fastforce simp: outcome_def split: prod.splits sum.splits)
  qed
qed

lemma outcome_impl_session:
  fixes opts :: "'d run_options" and b :: "'d server"
  assumes env: "orderly env" and clean: "\<And>c. me_reserve env = Inr c \<Longrightarrow> clean_conn c b"
  shows "outcome (\<lambda>s. session s = session b) (runMigrationsImpl hash ups env opts) (\<lambda>_ s. session s = session b) (\<lambda>s. session s = session b)"
proof -
  let ?B = "\<lambda>s :: 'd server. session s = session b"
  define locked where "locked bound key c s =
     (if bad_timeout (Some bound) then efinally (ethrow (validation_error ''migrationLockTimeoutMs'')) (release c) s
       else case acquire_lock env key c s of
         (r, lockHeld, s1) \<Rightarrow>
           under_lock env key c (lineage_used ups opts)
             (case r of Inl e \<Rightarrow> Inl (lock_error (ro_schema opts) bound e) | Inr _ \<Rightarrow> Inr ()) lockHeld s1)" for bound key c and s :: "'d server"
  have reserved: "outcome ?B (reserve (me_reserve env)) (\<lambda>c. sess c b [] False) ?B"
    by (rule outcome_reserve) (rule clean)
  have locked: "outcome (sess c b [] False) (locked bound key c) (\<lambda>_. ?B) ?B" for bound key c
  proof (cases "bad_timeout (Some bound)")
    case True
    then have "locked bound key c = efinally (ethrow (validation_error ''migrationLockTimeoutMs'')) (release c)"
      by (simp add: locked_def fun_eq_iff)
    then show ?thesis
      using outcome_efinally [OF outcome_keeps [OF keeps_ethrow] sess_release sess_release] by simp
  next
    case False
    then show ?thesis
      using outcome_under_lock_session [OF env] acquire_session
      by (fastforce simp: outcome_def locked_def split: prod.splits)
  qed
  show ?thesis
    unfolding runMigrationsImpl_def Let_def locked_def [symmetric] by (rule outcome_ebind [OF reserved]) (rule locked)
qed

lemma runMigrations_session:
  fixes s :: "'d server"
  assumes "orderly env" and "\<And>c. me_probe_reserve env = Inr c \<Longrightarrow> clean_conn c s" and "\<And>c. me_reserve env = Inr c \<Longrightarrow> clean_conn c s"
  shows "session (snd (runMigrations hash ups env opts s)) = session s"
proof -
  let ?B = "\<lambda>t :: 'd server. session t = session s"
  have probe: "outcome ?B (probeDurability hash env off) (\<lambda>_. ?B) ?B" for off
    by (rule outcome_probe_session) (use assms in blast)+
  have impl: "outcome ?B (runMigrationsImpl hash ups env opts) (\<lambda>_. ?B) ?B"
    by (rule outcome_impl_session) (use assms in blast)+
  have "outcome ?B (runMigrations hash ups env opts) (\<lambda>_. ?B) ?B"
    unfolding runMigrations_def
    using outcome_ebind [OF probe impl] by (auto split: sum.splits intro!: outcome_emap_error intro: outcome_simple)
  then show ?thesis
    unfolding outcome_def by (cases "runMigrations hash ups env opts s"; cases "fst (runMigrations hash ups env opts s)") force+
qed


section \<open>Properties\<close>

lemma lineage_of_ok:
  assumes "distinct names" and "''000_schema'' \<notin> set names"
  shows "lineage_ok (lineage_of names ups)"
proof -
  let ?rest = "map (\<lambda>(i, n). \<lparr>mg_name = js n, mg_up = content_up (ups i)\<rparr>) (zip [0..<length names] names)"
  have names: "map mg_name ?rest = map js names"
    by (rule nth_equalityI) auto
  have "distinct (map mg_name (lineage_of names ups))"
    using assms by (auto simp: lineage_of_def names distinct_map inj_on_def simp del: map_map)
  then show ?thesis
    by (auto simp: lineage_ok_def lineage_of_def schema_up_def content_up_def split: option.splits sum.splits)
qed

lemma lineages_ok: "lineage_ok (tier1WalletMigrations ups)" "lineage_ok (chainArchiveMigrations ups)"
  unfolding tier1WalletMigrations_def chainArchiveMigrations_def by (rule lineage_of_ok; simp)+

text \<open>A bootstrap that returns has left a schema with the archive's two migrations.\<close>

lemma bootstrap_complete:
  assumes "ss_migrations (sv_schema s) = None" and "bootstrapChainArchiveSchema hash ups archive_ups env schema s = (Inr (), t)"
  shows "ss_migrations (sv_schema t) = Some [js ''000_schema'', js ''001_chain_archive_core'']"
proof -
  let ?opts = "\<lparr>ro_schema = option_default schema (js ''chain_archive''), ro_migrations = Some (chainArchiveMigrations archive_ups),
       ro_allowFullPageWritesOff = False, ro_migrationLockTimeoutMs = None\<rparr>"
  let ?L = "chainArchiveMigrations archive_ups"
  have used: "lineage_used ups ?opts = ?L" by (simp add: lineage_used_def option_default_def)
  have "reached ?L (sv_schema s) 0 (sv_schema s)" by (simp add: reached_def)
  with runMigrations_reached [of ups ?opts "sv_schema s" 0 s hash env "Inr ()" t] assms lineages_ok(2)
  have "reached ?L (sv_schema s) (length ?L) (sv_schema t)" unfolding used bootstrapChainArchiveSchema_def by auto
  from reached_names [OF lineages_ok(2) assms(1) this] show ?thesis
    by (simp add: chainArchiveMigrations_def lineage_of_def)
qed

text \<open>
  C31. Whatever the statements of any number of successive \<^verbatim>\<open>runMigrations\<close> calls do (failing, losing the
  connection, committing without the caller hearing of it), starting from a schema without a bookkeeping
  table, the schema is at every moment exactly what the first \<open>k\<close> migrations of the lineage, each
  applied once and in order, make of it, and \<^verbatim>\<open>_migrations\<close> lists exactly those; a further call never
  goes back, has applied all of them when it returns, and changes nothing when they already were.
\<close>

theorem migrations_exactly_once:
  assumes "lineage_ok L" and "ss_migrations (sv_schema s0) = None"
    and "\<forall>(env, opts) \<in> set calls. lineage_used ups opts = L"
    and "s = migration_calls hash ups calls s0"
    and "lineage_used ups opts = L" and "runMigrations hash ups env opts s = (r, t)"
  shows "\<exists>k k'. k \<le> k' \<and> k' \<le> length L
    \<and> applied_in_order (take k L) (sv_schema s0) = Inr (sv_schema s) \<and> applied_in_order (take k' L) (sv_schema s0) = Inr (sv_schema t)
    \<and> ss_migrations (sv_schema t) = (if k' = 0 then None else Some (map mg_name (take k' L)))
    \<and> (\<not> isl r \<longrightarrow> k' = length L) \<and> (k = length L \<longrightarrow> sv_schema t = sv_schema s)"
proof -
  have "reached L (sv_schema s0) 0 (sv_schema s0)" by (simp add: reached_def)
  from migration_calls_reached [OF assms(1-3) this] assms(4) obtain k where k: "reached L (sv_schema s0) k (sv_schema s)" by auto
  with runMigrations_reached [of ups opts "sv_schema s0" k s hash env r t] assms obtain k' where
    k': "k \<le> k'" "reached L (sv_schema s0) k' (sv_schema t)" "\<not> isl r \<longrightarrow> k' = length L" by auto
  with k reached_names [OF assms(1,2) k'(2)] show ?thesis
    by (intro exI [of _ k] exI [of _ k']) (auto simp: reached_def)
qed

text \<open>
  C36. A call of \<^verbatim>\<open>runMigrations\<close> returns every connection the way it found it, however it ends: no
  advisory lock is left behind, no widened search path goes back into the pool, and both reserved
  connections are released. The hypotheses say that reserving hands out idle, clean connections and that
  unlocking and \<^verbatim>\<open>reset\<close> can only fail by losing the connection.
\<close>

theorem migrations_clean_up:
  assumes "orderly env" and "\<forall>c. me_probe_reserve env = Inr c \<or> me_reserve env = Inr c \<longrightarrow> clean_conn c s"
    and "runMigrations hash ups env opts s = (r, t)"
  shows "sv_locks t = sv_locks s \<and> sv_widened t = sv_widened s \<and> sv_reserved t = sv_reserved s"
  using runMigrations_session [of env s hash ups opts] assms by (simp add: session_def)

text \<open>
  The durability probe gates the runner: when the server reports \<^verbatim>\<open>fsync = off\<close>, or
  \<^verbatim>\<open>full_page_writes = off\<close> without the caller allowing it, a call with a valid schema name and timeout
  fails with a \<^verbatim>\<open>DurabilityContractError\<close> that names exactly the settings at fault, and neither the
  schema nor any lock is touched.
\<close>

lemma durability_gate:
  assumes "\<not> isl (assertValidSchemaName (ro_schema opts))" and "\<not> bad_timeout (ro_migrationLockTimeoutMs opts)"
    and "me_probe_reserve env = Inr c" and "\<forall>k. me_faults env (Setting k) = None"
    and "me_setting env ''fsync'' = ''off'' \<or> me_setting env ''full_page_writes'' = ''off'' \<and> \<not> ro_allowFullPageWritesOff opts"
  shows "runMigrations hash ups env opts s =
    (Inl (StorageErr (DurabilityContractError
       ((if me_setting env ''fsync'' = ''off'' then [\<lparr>v_setting = ''fsync'', v_value = ''off''\<rparr>] else [])
        @ (if me_setting env ''full_page_writes'' = ''off'' \<and> \<not> ro_allowFullPageWritesOff opts
           then [\<lparr>v_setting = ''full_page_writes'', v_value = ''off''\<rparr>] else [])))),
     s\<lparr>sv_reserved := filter (\<lambda>x. x \<noteq> c) (sv_reserved s)\<rparr>)"
proof -
  obtain u where "assertValidSchemaName (ro_schema opts) = Inr u" using assms(1) by (cases "assertValidSchemaName (ro_schema opts)") auto
  moreover have "probeDurability hash env (ro_allowFullPageWritesOff opts) s =
    (Inl (StorageErr (DurabilityContractError
       ((if me_setting env ''fsync'' = ''off'' then [\<lparr>v_setting = ''fsync'', v_value = ''off''\<rparr>] else [])
        @ (if me_setting env ''full_page_writes'' = ''off'' \<and> \<not> ro_allowFullPageWritesOff opts
           then [\<lparr>v_setting = ''full_page_writes'', v_value = ''off''\<rparr>] else [])))),
     s\<lparr>sv_reserved := filter (\<lambda>x. x \<noteq> c) (sv_reserved s)\<rparr>)"
    using assms(3-5)
    by (auto simp: probeDurability_def ebind_def reserve_def efinally_def on_conn_def release_def classifyFsync_def classifyFullPageWrites_def
        List.map_filter_def)
  ultimately show ?thesis
    using assms(2) by (simp add: runMigrations_def emap_error_def ebind_def)
qed


definition calm :: mig_env where
  "calm = \<lparr>me_probe_reserve = Inr 1, me_reserve = Inr 2, me_setting = (\<lambda>_. ''on''), me_pid = js ''77'', me_acquired = True,
     me_visible = 1, me_faults = (\<lambda>_. None), me_landed = (\<lambda>_. False)\<rparr>"

definition lost_commit :: mig_env where
  "lost_commit = calm\<lparr>me_faults := (\<lambda>k. if k = Commit 1 then Some (plain_error ''CONNECTION_CLOSED'', True) else None), me_landed := (\<lambda>_. True)\<rparr>"

definition chain_opts :: "nat list run_options" where
  "chain_opts = \<lparr>ro_schema = js ''chain_archive'', ro_migrations = Some (chainArchiveMigrations (\<lambda>i d. Inr (d @ [i]))),
     ro_allowFullPageWritesOff = False, ro_migrationLockTimeoutMs = None\<rparr>"

definition fresh_server :: "nat list server" where
  "fresh_server = \<lparr>sv_schema = \<lparr>ss_migrations = None, ss_content = []\<rparr>, sv_locks = [], sv_widened = [], sv_reserved = []\<rparr>"

lemma sample_call:
  "runMigrations (\<lambda>_. 7) (\<lambda>i d. Inr (d @ [i])) calm chain_opts
     (migration_calls (\<lambda>_. 7) (\<lambda>i d. Inr (d @ [i])) [(lost_commit, chain_opts)] fresh_server)
   = (Inr (), \<lparr>sv_schema = \<lparr>ss_migrations = Some [js ''000_schema'', js ''001_chain_archive_core''], ss_content = [0]\<rparr>,
        sv_locks = [], sv_widened = [], sv_reserved = []\<rparr>)"
  by code_simp

theorem migrations_exactly_once_witness:
  "\<exists>k k'. k \<le> k' \<and> k' \<le> 2
    \<and> applied_in_order (take k (chainArchiveMigrations (\<lambda>i d. Inr (d @ [i])))) \<lparr>ss_migrations = None, ss_content = []\<rparr>
        = Inr (sv_schema (migration_calls (\<lambda>_. 7) (\<lambda>i d. Inr (d @ [i])) [(lost_commit, chain_opts)] fresh_server))
    \<and> applied_in_order (take k' (chainArchiveMigrations (\<lambda>i d. Inr (d @ [i])))) \<lparr>ss_migrations = None, ss_content = []\<rparr>
        = Inr \<lparr>ss_migrations = Some [js ''000_schema'', js ''001_chain_archive_core''], ss_content = [0]\<rparr>
    \<and> k' = 2"
proof -
  have used: "lineage_used ups chain_opts = chainArchiveMigrations (\<lambda>i d. Inr (d @ [i]))" for ups
    by (simp add: lineage_used_def chain_opts_def option_default_def)
  have fresh: "ss_migrations (sv_schema fresh_server) = None" by (simp add: fresh_server_def)
  have len: "length (chainArchiveMigrations (\<lambda>i d. Inr (d @ [i :: nat]) :: js_error + nat list)) = 2"
    by (simp add: chainArchiveMigrations_def lineage_of_def)
  have calls: "\<forall>(env, opts) \<in> set [(lost_commit, chain_opts)]. lineage_used (\<lambda>i d. Inr (d @ [i])) opts = chainArchiveMigrations (\<lambda>i d. Inr (d @ [i]))"
    by (simp add: used)
  from migrations_exactly_once [OF lineages_ok(2) fresh calls refl used sample_call] show ?thesis
    by (simp add: len fresh_server_def) blast
qed

theorem migrations_clean_up_witness:
  "sv_locks (snd (runMigrations (\<lambda>_. 7) (\<lambda>i d. Inr (d @ [i])) lost_commit chain_opts fresh_server)) = []
   \<and> isl (fst (runMigrations (\<lambda>_. 7) (\<lambda>i d. Inr (d @ [i])) lost_commit chain_opts fresh_server))"
proof -
  have "orderly lost_commit" by (simp add: orderly_def lost_commit_def calm_def)
  moreover have "\<forall>c. me_probe_reserve lost_commit = Inr c \<or> me_reserve lost_commit = Inr c \<longrightarrow> clean_conn c fresh_server"
    by (simp add: clean_conn_def fresh_server_def)
  ultimately have "sv_locks (snd (runMigrations (\<lambda>_. 7) (\<lambda>i d. Inr (d @ [i])) lost_commit chain_opts fresh_server)) = sv_locks fresh_server"
    using migrations_clean_up [OF _ _ prod.collapse [symmetric]] by blast
  moreover have "isl (fst (runMigrations (\<lambda>_. 7) (\<lambda>i d. Inr (d @ [i])) lost_commit chain_opts fresh_server))" by code_simp
  ultimately show ?thesis by (simp add: fresh_server_def)
qed

end
