(* ===== verification/MigrateRace.thy ===== *)
theory MigrateRace
  imports Migrate
begin

text \<open>
  Any number of callers of \<^verbatim>\<open>runMigrations\<close> on one schema at the same time, each on its own connection. A
  step is one statement of one caller, or one of its transactions, whose effect other sessions see at once or
  not at all; the advisory lock is granted when no session holds it. A caller is waiting for the lock, is about to
  look at migration \<open>n\<close> of the lineage, has seen whether it is applied, or is on its way out.
\<close>

datatype mig_phase = Waiting | Holding nat | Saw nat bool | Leaving

record 'd race =
  ra_server :: "'d server"
  ra_phase :: "nat \<Rightarrow> mig_phase"

definition to_phase :: "'d race \<Rightarrow> nat \<Rightarrow> mig_phase \<Rightarrow> 'd server \<Rightarrow> 'd race" where
  "to_phase f w p s = \<lparr>ra_server = s, ra_phase = (ra_phase f)(w := p)\<rparr>"

definition lock_holders :: "int \<Rightarrow> 'd server \<Rightarrow> nat list" where
  "lock_holders key s = map (snd \<circ> snd) (filter (\<lambda>l. fst l = MIGRATION_LOCK_CLASS \<and> fst (snd l) = key) (sv_locks s))"

text \<open>The query before migration \<open>n\<close>: whether the bookkeeping table exists for the first, the name's row for the others.\<close>

definition look :: "mig_env \<Rightarrow> 'd migration list \<Rightarrow> nat \<Rightarrow> nat \<Rightarrow> ('d, bool) mrun" where
  "look env L n w =
     (if n = 0 then on_conn env Bootstrapped w (\<lambda>s. (Inr (ss_migrations (sv_schema s) \<noteq> None), s))
      else is_applied env n w (mg_name (L ! n)))"

inductive mig_step :: "int \<Rightarrow> 'd migration list \<Rightarrow> 'd race \<Rightarrow> 'd race \<Rightarrow> bool" for key L where
  granted: "ra_phase f w = Waiting \<Longrightarrow> lock_holders key (ra_server f) = [] \<Longrightarrow>
    take_lock MIGRATION_LOCK_CLASS key w (ra_server f) = (r, s) \<Longrightarrow> mig_step key L f (to_phase f w (Holding 0) s)"
| looked: "ra_phase f w = Holding n \<Longrightarrow> n < length L \<Longrightarrow> look env L n w (ra_server f) = (Inr b, s) \<Longrightarrow>
    mig_step key L f (to_phase f w (Saw n b) s)"
| look_failed: "ra_phase f w = Holding n \<Longrightarrow> look env L n w (ra_server f) = (Inl e, s) \<Longrightarrow> mig_step key L f (to_phase f w Leaving s)"
| skipped: "ra_phase f w = Saw n True \<Longrightarrow> mig_step key L f (to_phase f w (Holding (Suc n)) (ra_server f))"
| migrated: "ra_phase f w = Saw n False \<Longrightarrow> apply_one env j w (L ! n) (ra_server f) = (Inr u, s) \<Longrightarrow>
    mig_step key L f (to_phase f w (Holding (Suc n)) s)"
| migration_failed: "ra_phase f w = Saw n False \<Longrightarrow> apply_one env j w (L ! n) (ra_server f) = (Inl e, s) \<Longrightarrow>
    mig_step key L f (to_phase f w Leaving s)"
| finished: "ra_phase f w = Holding (length L) \<Longrightarrow> mig_step key L f (to_phase f w Leaving (ra_server f))"
| unlocked: "ra_phase f w = Leaving \<Longrightarrow> drop_lock MIGRATION_LOCK_CLASS key w (ra_server f) = (r, s) \<Longrightarrow>
    mig_step key L f (to_phase f w Waiting s)"
| lost: "ra_phase f w \<noteq> Waiting \<Longrightarrow> mig_step key L f (to_phase f w Waiting (lose True w (ra_server f)))"

section \<open>The lock\<close>

definition working :: "mig_phase \<Rightarrow> bool" where
  "working p \<longleftrightarrow> (\<exists>n b. p = Holding n \<or> p = Saw n b)"

text \<open>Who works holds the lock, nobody else does unless it is leaving, and there is one lock at most.\<close>

definition exclusive :: "int \<Rightarrow> 'd race \<Rightarrow> bool" where
  "exclusive key f \<longleftrightarrow>
     length (lock_holders key (ra_server f)) \<le> 1
   \<and> (\<forall>w. working (ra_phase f w) \<longrightarrow> w \<in> set (lock_holders key (ra_server f)))
   \<and> (\<forall>w \<in> set (lock_holders key (ra_server f)). ra_phase f w \<noteq> Waiting)"

lemma one_worker: "exclusive key f \<Longrightarrow> working (ra_phase f w) \<Longrightarrow> working (ra_phase f w') \<Longrightarrow> w = w'"
  by (cases "lock_holders key (ra_server f)") (auto simp: exclusive_def)

lemma holders_locks: "sv_locks s = sv_locks s' \<Longrightarrow> lock_holders key s = lock_holders key s'"
  by (simp add: lock_holders_def)

lemma holders_lose: "lock_holders key (lose dead w s) = (if dead then filter (\<lambda>x. x \<noteq> w) (lock_holders key s) else lock_holders key s)"
  by (auto simp: lock_holders_def lose_def filter_map comp_def conj_commute intro: arg_cong [where f = "map _"] filter_cong)

text \<open>A statement or transaction of \<open>w\<close> leaves the holders as they were, or it fails and loses what \<open>w\<close> held.\<close>

lemma outcome_holders_on_conn:
  assumes "outcome (\<lambda>s. lock_holders key s = H) m (\<lambda>_ s. lock_holders key s = H) (\<lambda>s. lock_holders key s \<in> {H, filter (\<lambda>x. x \<noteq> w) H})"
  shows "outcome (\<lambda>s. lock_holders key s = H) (on_conn env k w m)
    (\<lambda>_ s. lock_holders key s = H) (\<lambda>s. lock_holders key s \<in> {H, filter (\<lambda>x. x \<noteq> w) H})"
  by (rule outcome_on_conn [OF assms]) (simp add: holders_lose)

lemma look_holders:
  "outcome (\<lambda>s. lock_holders key s = H) (look env L n w) (\<lambda>_ s. lock_holders key s = H) (\<lambda>s. lock_holders key s \<in> {H, filter (\<lambda>x. x \<noteq> w) H})"
proof -
  have "outcome (\<lambda>s. lock_holders key s = H) (\<lambda>s. (Inr (ss_migrations (sv_schema s) \<noteq> None), s)) (\<lambda>_ s. lock_holders key s = H)
      (\<lambda>s. lock_holders key s \<in> {H, filter (\<lambda>x. x \<noteq> w) H})"
    by (simp add: outcome_def)
  moreover have "outcome (\<lambda>s. lock_holders key s = H)
      (\<lambda>s. case ss_migrations (sv_schema s) of None \<Rightarrow> (Inl (pg_error ''42P01'' None), s) | Some ns \<Rightarrow> (Inr (List.member ns x), s))
      (\<lambda>_ s. lock_holders key s = H) (\<lambda>s. lock_holders key s \<in> {H, filter (\<lambda>x. x \<noteq> w) H})" for x
    by (auto simp: outcome_def split: option.splits)
  ultimately show ?thesis
    unfolding look_def is_applied_def by (auto intro!: outcome_holders_on_conn simp del: insert_iff)
qed

lemma apply_one_holders:
  "outcome (\<lambda>s. lock_holders key s = H) (apply_one env j w m) (\<lambda>_ s. lock_holders key s = H) (\<lambda>s. lock_holders key s \<in> {H, filter (\<lambda>x. x \<noteq> w) H})"
proof -
  have schema: "outcome (\<lambda>s. lock_holders key s = H) (on_schema g) (\<lambda>_ s. lock_holders key s = H)
      (\<lambda>s. lock_holders key s \<in> {H, filter (\<lambda>x. x \<noteq> w) H})" for g
    by (auto simp: outcome_def on_schema_def lock_holders_def split: sum.splits)
  show ?thesis
    unfolding apply_one_def
    by (rule outcome_transaction, simp add: lock_holders_def,
        rule outcome_ebind [OF outcome_holders_on_conn [OF schema] outcome_holders_on_conn [OF schema]])
      (auto simp: holders_lose, simp_all add: lock_holders_def)
qed

lemma ra_to_phase [simp]: "ra_server (to_phase f w p s) = s" "ra_phase (to_phase f w p s) = (ra_phase f)(w := p)"
  by (simp_all add: to_phase_def)

lemma exclusive_move:
  assumes "exclusive key f" and "ra_phase f w \<noteq> Waiting"
    and "lock_holders key s = lock_holders key (ra_server f) \<or> \<not> working p \<and> lock_holders key s = filter (\<lambda>x. x \<noteq> w) (lock_holders key (ra_server f))"
    and "working p \<longrightarrow> working (ra_phase f w)" and "p = Waiting \<longrightarrow> w \<notin> set (lock_holders key s)"
  shows "exclusive key (to_phase f w p s)"
  unfolding exclusive_def
proof (intro conjI allI impI ballI)
  let ?H = "lock_holders key (ra_server f)"
  have H: "length ?H \<le> 1" "\<And>w. working (ra_phase f w) \<Longrightarrow> w \<in> set ?H" "\<And>w. w \<in> set ?H \<Longrightarrow> ra_phase f w \<noteq> Waiting"
    using assms(1) by (auto simp: exclusive_def)
  have S: "length (lock_holders key s) \<le> length ?H" "\<And>x. x \<in> set (lock_holders key s) \<Longrightarrow> x \<in> set ?H"
    "\<And>x. x \<noteq> w \<Longrightarrow> x \<in> set ?H \<Longrightarrow> x \<in> set (lock_holders key s)" "working p \<Longrightarrow> lock_holders key s = ?H"
    using assms(3) by (elim disjE conjE; simp)+
  show "length (lock_holders key (ra_server (to_phase f w p s))) \<le> 1" using S(1) H(1) by simp
  show "w' \<in> set (lock_holders key (ra_server (to_phase f w p s)))" if "working (ra_phase (to_phase f w p s) w')" for w'
  proof (cases "w' = w")
    case True
    with that have "working p" by simp
    then have "w \<in> set ?H" using assms(4) by (intro H(2)) blast
    then show ?thesis unfolding True ra_to_phase S(4) [OF \<open>working p\<close>] .
  next
    case False
    with that have "w' \<in> set ?H" by (intro H(2)) simp
    then show ?thesis unfolding ra_to_phase by (rule S(3) [OF False])
  qed
  show "ra_phase (to_phase f w p s) w' \<noteq> Waiting" if "w' \<in> set (lock_holders key (ra_server (to_phase f w p s)))" for w'
    using that assms(5) H(3) [OF S(2)] by (cases "w' = w") simp_all
qed

lemma holders_drop:
  assumes "length (lock_holders key s) \<le> 1"
  shows "lock_holders key (s\<lparr>sv_locks := remove1 (MIGRATION_LOCK_CLASS, key, w) (sv_locks s)\<rparr>) = filter (\<lambda>x. x \<noteq> w) (lock_holders key s)"
proof -
  let ?P = "\<lambda>l :: int \<times> int \<times> nat. fst l = MIGRATION_LOCK_CLASS \<and> fst (snd l) = key"
  define ls where "ls = filter ?P (sv_locks s)"
  have holders: "lock_holders key s = map (snd \<circ> snd) ls" by (simp add: lock_holders_def ls_def)
  have drop: "lock_holders key (s\<lparr>sv_locks := remove1 (MIGRATION_LOCK_CLASS, key, w) (sv_locks s)\<rparr>)
      = map (snd \<circ> snd) (remove1 (MIGRATION_LOCK_CLASS, key, w) ls)"
    by (simp add: lock_holders_def ls_def filter_remove1)
  show ?thesis
  proof (cases ls)
    case (Cons l ls')
    then have "l \<in> set ls" by simp
    then have "?P l" by (simp add: ls_def)
    moreover have "ls' = []" using assms Cons by (simp add: holders)
    ultimately show ?thesis unfolding drop holders Cons by (cases l) auto
  qed (simp add: drop holders)
qed

lemma step_exclusive:
  assumes "mig_step key L f f'" and ex: "exclusive key f"
  shows "exclusive key f'"
  using assms(1)
proof cases
  case (granted w r s)
  then have "lock_holders key s = [w]" by (auto simp: take_lock_def lock_holders_def)
  moreover have "\<not> working (ra_phase f w')" for w' using ex granted(3) by (simp add: exclusive_def)
  ultimately show ?thesis using granted(1,2) by (auto simp: exclusive_def)
next
  case (looked w n env b s)
  then have "lock_holders key s = lock_holders key (ra_server f)" using outcome_Inr [OF look_holders refl] by blast
  with looked show ?thesis by (auto simp: working_def intro!: exclusive_move [OF ex])
next
  case (look_failed w n env e s)
  then have "lock_holders key s \<in> {lock_holders key (ra_server f), filter (\<lambda>x. x \<noteq> w) (lock_holders key (ra_server f))}"
    using outcome_Inl [OF look_holders refl] by blast
  with look_failed show ?thesis by (auto simp: working_def intro!: exclusive_move [OF ex])
next
  case (skipped w n)
  then show ?thesis by (auto simp: working_def intro!: exclusive_move [OF ex])
next
  case (migrated w n env j u s)
  then have "lock_holders key s = lock_holders key (ra_server f)" using outcome_Inr [OF apply_one_holders refl] by blast
  with migrated show ?thesis by (auto simp: working_def intro!: exclusive_move [OF ex])
next
  case (migration_failed w n env j e s)
  then have "lock_holders key s \<in> {lock_holders key (ra_server f), filter (\<lambda>x. x \<noteq> w) (lock_holders key (ra_server f))}"
    using outcome_Inl [OF apply_one_holders refl] by blast
  with migration_failed show ?thesis by (auto simp: working_def intro!: exclusive_move [OF ex])
next
  case (finished w)
  then show ?thesis by (auto simp: working_def intro!: exclusive_move [OF ex])
next
  case (unlocked w r s)
  then have "lock_holders key s = filter (\<lambda>x. x \<noteq> w) (lock_holders key (ra_server f))"
    using ex holders_drop [of key "ra_server f" w] by (auto simp: drop_lock_def exclusive_def)
  with unlocked show ?thesis by (auto simp: working_def intro!: exclusive_move [OF ex])
next
  case (lost w)
  then show ?thesis by (auto simp: working_def holders_lose intro!: exclusive_move [OF ex])
qed

section \<open>The schema\<close>

definition placed :: "'d migration list \<Rightarrow> 'd schema_state \<Rightarrow> 'd race \<Rightarrow> nat \<Rightarrow> bool" where
  "placed L x0 f k \<longleftrightarrow>
     reached L x0 k (sv_schema (ra_server f))
   \<and> (\<forall>w. case ra_phase f w of Holding n \<Rightarrow> n \<le> k | Saw n b \<Rightarrow> if b then n < k else n = k \<and> n < length L | _ \<Rightarrow> True)"

lemma look_schema: "look env L n w s = (r, t) \<Longrightarrow> sv_schema t = sv_schema s"
  by (auto simp: look_def is_applied_def on_conn_def split: if_splits option.splits)

lemma look_exact:
  assumes L: "lineage_ok L" "ss_migrations x0 = None" and "reached L x0 k (sv_schema s)" and "n \<le> k" and "n < length L"
    and "look env L n w s = (Inr b, t)"
  shows "b \<longleftrightarrow> n < k"
proof (cases "n = 0")
  case True
  with assms(6) reached_names [OF L assms(3)] show ?thesis by (auto simp: look_def on_conn_def split: option.splits if_splits)
next
  case False
  with assms(4) reached_names [OF L assms(3)] have "ss_migrations (sv_schema s) = Some (map mg_name (take k L))" by simp
  with False assms(6) have "b \<longleftrightarrow> mg_name (L ! n) \<in> set (map mg_name (take k L))"
    by (auto simp: look_def is_applied_def on_conn_def split: option.splits)
  also have "\<dots> \<longleftrightarrow> n < k" using L(1) assms(3,5) by (intro member_take) (auto simp: lineage_ok_def reached_def)
  finally show ?thesis .
qed

lemma placed_move:
  assumes "placed L x0 f k" and "sv_schema s = sv_schema (ra_server f)"
    and "case p of Holding n \<Rightarrow> n \<le> k | Saw n b \<Rightarrow> if b then n < k else n = k \<and> n < length L | _ \<Rightarrow> True"
  shows "placed L x0 (to_phase f w p s) k"
  using assms by (simp add: placed_def)

text \<open>The only caller at work may change the schema: nobody else's knowledge of it gets stale.\<close>

lemma placed_worked:
  assumes "exclusive key f" and "working (ra_phase f w)" and "reached L x0 k (sv_schema s)"
    and "case p of Holding n \<Rightarrow> n \<le> k | Saw n b \<Rightarrow> if b then n < k else n = k \<and> n < length L | _ \<Rightarrow> True"
  shows "placed L x0 (to_phase f w p s) k"
  unfolding placed_def
proof (intro conjI allI)
  fix w'
  show "case ra_phase (to_phase f w p s) w' of Holding n \<Rightarrow> n \<le> k | Saw n b \<Rightarrow> if b then n < k else n = k \<and> n < length L | _ \<Rightarrow> True"
  proof (cases "w' = w")
    case False
    then have "\<not> working (ra_phase f w')" using one_worker [OF assms(1,2)] by blast
    with False show ?thesis by (cases "ra_phase f w'") (auto simp: working_def)
  qed (simp add: assms(4))
qed (simp add: assms(3))

lemma placed_Saw: "placed L x0 f k \<Longrightarrow> ra_phase f w = Saw n b \<Longrightarrow> (if b then n < k else n = k \<and> n < length L)"
  unfolding placed_def by (auto dest: spec [of _ w])

lemma placed_Holding: "placed L x0 f k \<Longrightarrow> ra_phase f w = Holding n \<Longrightarrow> n \<le> k"
  unfolding placed_def by (auto dest: spec [of _ w])

lemma step_placed:
  assumes L: "lineage_ok L" "ss_migrations x0 = None" and "mig_step key L f f'" and ex: "exclusive key f" and pl: "placed L x0 f k"
  shows "\<exists>k' \<ge> k. placed L x0 f' k'"
  using assms(3)
proof cases
  case (granted w r s)
  then show ?thesis by (auto simp: take_lock_def intro!: exI [of _ k] placed_move [OF pl])
next
  case (looked w n env b s)
  have "reached L x0 k (sv_schema (ra_server f))" using pl by (simp add: placed_def)
  from look_exact [OF L this placed_Holding [OF pl looked(2)] looked(3,4)] placed_Holding [OF pl looked(2)] looked(3)
  have "if b then n < k else n = k \<and> n < length L" by auto
  with looked(1) look_schema [OF looked(4)] show ?thesis by (auto intro!: exI [of _ k] placed_move [OF pl])
next
  case (look_failed w n env e s)
  with look_schema [OF look_failed(3)] show ?thesis by (auto intro!: exI [of _ k] placed_move [OF pl])
next
  case (skipped w n)
  with placed_Saw [OF pl skipped(2)] show ?thesis by (auto intro!: exI [of _ k] placed_move [OF pl])
next
  case (migrated w n env j u s)
  from placed_Saw [OF pl migrated(2)] have n: "n = k" "n < length L" by simp_all
  have "reached L x0 n (sv_schema (ra_server f))" using pl n(1) by (simp add: placed_def)
  from outcome_Inr [OF outcome_apply_one [OF this n(2)] refl migrated(3)] have "reached L x0 (Suc k) (sv_schema s)" by (simp add: n(1))
  then have "placed L x0 f' (Suc k)"
    unfolding migrated(1) using migrated(2) n by (intro placed_worked [OF ex]) (auto simp: working_def)
  then show ?thesis by (intro exI [of _ "Suc k"]) simp
next
  case (migration_failed w n env j e s)
  from placed_Saw [OF pl migration_failed(2)] have n: "n = k" "n < length L" by simp_all
  have r: "reached L x0 n (sv_schema (ra_server f))" using pl n(1) by (simp add: placed_def)
  from outcome_Inl [OF outcome_apply_one [OF r n(2)] refl migration_failed(3)] r
  have "reached L x0 k (sv_schema s) \<or> reached L x0 (Suc k) (sv_schema s)" by (auto simp: n(1))
  then obtain k' where k': "k' = k \<or> k' = Suc k" "reached L x0 k' (sv_schema s)" by blast
  then have "placed L x0 f' k'"
    unfolding migration_failed(1) using migration_failed(2) by (intro placed_worked [OF ex]) (auto simp: working_def)
  with k'(1) show ?thesis by (intro exI [of _ k']) auto
next
  case (finished w)
  then show ?thesis by (auto intro!: exI [of _ k] placed_move [OF pl])
next
  case (unlocked w r s)
  then show ?thesis by (auto simp: drop_lock_def intro!: exI [of _ k] placed_move [OF pl])
next
  case (lost w)
  then show ?thesis by (auto intro!: exI [of _ k] placed_move [OF pl])
qed

lemma steps_placed:
  assumes L: "lineage_ok L" "ss_migrations x0 = None" and "(mig_step key L)\<^sup>*\<^sup>* f f'" and "exclusive key f" and "placed L x0 f k"
  shows "exclusive key f' \<and> (\<exists>k' \<ge> k. placed L x0 f' k')"
  using assms(3)
proof (induction rule: rtranclp_induct)
  case base
  then show ?case using assms(4,5) by blast
next
  case (step g h)
  then obtain k1 where "exclusive key g" "k \<le> k1" "placed L x0 g k1" by blast
  with step_placed [OF L step(2)] step_exclusive [OF step(2)] show ?case by (meson order_trans)
qed

section \<open>Property\<close>



definition start :: "nat list race" where
  "start = \<lparr>ra_server = fresh_server, ra_phase = (\<lambda>_. Waiting)\<rparr>"

definition lineage :: "nat list migration list" where
  "lineage = chainArchiveMigrations (\<lambda>i d. Inr (d @ [i]))"

lemma sample_race:
  "\<exists>s. (mig_step 7 lineage)\<^sup>*\<^sup>* start \<lparr>ra_server = s, ra_phase = (\<lambda>_. Waiting)(5 := Saw (Suc 0) False)\<rparr>"
proof -
  define s1 where "s1 = snd (take_lock MIGRATION_LOCK_CLASS 7 5 fresh_server)"
  define s2 where "s2 = snd (apply_one calm 2 5 (lineage ! 0) s1)"
  have len: "length lineage = 2" by (simp add: lineage_def chainArchiveMigrations_def lineage_of_def)
  have g: "take_lock MIGRATION_LOCK_CLASS 7 5 fresh_server = (Inr (), s1)" by (simp add: s1_def take_lock_def)
  have l0: "look calm lineage 0 5 s1 = (Inr False, s1)" unfolding s1_def by code_simp
  have "fst (apply_one calm 2 5 (lineage ! 0) s1) = Inr ()" unfolding s1_def by code_simp
  then have a: "apply_one calm 2 5 (lineage ! 0) s1 = (Inr (), s2)" by (simp add: s2_def prod_eq_iff)
  have l1: "look calm lineage (Suc 0) 5 s2 = (Inr False, s2)" unfolding s2_def s1_def by code_simp
  let ?f1 = "to_phase start 5 (Holding 0) s1" and ?f2 = "to_phase (to_phase start 5 (Holding 0) s1) 5 (Saw 0 False) s1"
  let ?f3 = "to_phase ?f2 5 (Holding (Suc 0)) s2"
  have st1: "mig_step 7 lineage start ?f1"
    by (rule mig_step.granted [where r = "Inr ()"]) (simp_all add: start_def lock_holders_def g, simp add: fresh_server_def)
  have st2: "mig_step 7 lineage ?f1 ?f2" by (rule mig_step.looked [where n = 0 and env = calm]) (simp_all add: len l0)
  have st3: "mig_step 7 lineage ?f2 ?f3" by (rule mig_step.migrated [where n = 0 and env = calm and j = 2 and u = "()"]) (simp_all add: a)
  have st4: "mig_step 7 lineage ?f3 (to_phase ?f3 5 (Saw (Suc 0) False) s2)" by (rule mig_step.looked [where n = "Suc 0" and env = calm]) (simp_all add: len l1)
  have go: "(mig_step 7 lineage)\<^sup>*\<^sup>* start (to_phase ?f3 5 (Saw (Suc 0) False) s2)"
    by (rule converse_rtranclp_into_rtranclp, rule st1, rule converse_rtranclp_into_rtranclp, rule st2,
        rule converse_rtranclp_into_rtranclp, rule st3, rule converse_rtranclp_into_rtranclp, rule st4, rule rtranclp.rtrancl_refl)
  have "to_phase ?f3 5 (Saw (Suc 0) False) s2 = \<lparr>ra_server = s2, ra_phase = (\<lambda>_. Waiting)(5 := Saw (Suc 0) False)\<rparr>"
    by (simp add: to_phase_def start_def)
  with go show ?thesis by (simp only:) blast
qed


end
