(* ===== verification/Catalog.thy ===== *)
theory Catalog
  imports Migrate
begin

text \<open>
  The DDL of the wallet migrations \<^verbatim>\<open>001\<close> to \<^verbatim>\<open>006\<close> under \<^verbatim>\<open>src/src/postgres/migrations\<close>, statement by
  statement, on a catalog of tables, columns, constraints, indexes, functions and triggers; what the migration
  runner makes of a schema with them. The rows that the tables then hold are the subject of \<open>Schema\<close> and
  \<open>WalletDatabase\<close>.
\<close>

section \<open>The catalog\<close>

datatype coltype =
    TText | TTextArray | TJsonb | TBigint | TBigserial | TInteger | TBoolean | TBytea | TTimestamptz | TTstzrange

text \<open>The expressions of the two generated columns.\<close>

datatype generated = RangeOf string string | OctetLength string

record column =
  cl_name :: string
  cl_type :: coltype
  cl_not_null :: bool
  cl_default :: "string option"
  cl_generated :: "generated option"

text \<open>
  \<^verbatim>\<open>CHECK (a < b)\<close>; \<^verbatim>\<open>EXCLUDE USING gist\<close> with equality on columns and overlap on a range column; a foreign
  key with the table and columns it refers to and whether deletion cascades.
\<close>

datatype constr =
    PrimaryKey "string list"
  | CheckLess string string string
  | ExcludeGist string "string list" string
  | ForeignKey string string string bool

record tabledef =
  tb_name :: string
  tb_columns :: "column list"
  tb_constraints :: "constr list"
  tb_fillfactor :: "nat option"

record indexdef =
  ix_name :: string
  ix_table :: string
  ix_method :: string
  ix_columns :: "(string \<times> bool) list"

record triggerdef =
  tg_name :: string
  tg_table :: string
  tg_function :: string

text \<open>Extensions belong to the database, not to the schema: some may be there before the first migration.\<close>

record catalog =
  ca_tables :: "tabledef list"
  ca_indexes :: "indexdef list"
  ca_functions :: "string list"
  ca_triggers :: "triggerdef list"
  ca_extensions :: "string list"

datatype ddl =
    XactLock int int
  | CreateExtension string
  | CreateTable tabledef
  | CreateIndex indexdef
  | CreateFunction string
  | CreateTrigger triggerdef
  | SetFillfactor string nat
  | AddColumn string column

definition bare :: "string list \<Rightarrow> catalog" where
  "bare exts = \<lparr>ca_tables = [], ca_indexes = [], ca_functions = [], ca_triggers = [], ca_extensions = exts\<rparr>"

definition find_table :: "catalog \<Rightarrow> string \<Rightarrow> tabledef option" where
  "find_table c n = List.find (\<lambda>t. tb_name t = n) (ca_tables c)"

definition column_names :: "tabledef \<Rightarrow> string list" where
  "column_names t = map cl_name (tb_columns t)"

fun exclusion_names :: "constr list \<Rightarrow> string list" where
  "exclusion_names (ExcludeGist n _ _ # cs) = n # exclusion_names cs"
| "exclusion_names (_ # cs) = exclusion_names cs"
| "exclusion_names [] = []"

text \<open>
  Tables and indexes share one name space; the index of a named exclusion constraint is part of it. The names
  that the server makes up for primary keys and sequences avoid those in use.
\<close>

definition relation_names :: "catalog \<Rightarrow> string list" where
  "relation_names c =
     map tb_name (ca_tables c) @ concat (map (\<lambda>t. exclusion_names (tb_constraints t)) (ca_tables c)) @ map ix_name (ca_indexes c)"

fun base_type :: "coltype \<Rightarrow> coltype" where
  "base_type TBigserial = TBigint"
| "base_type t = t"

definition type_of :: "tabledef \<Rightarrow> string \<Rightarrow> coltype option" where
  "type_of t n = map_option (base_type \<circ> cl_type) (List.find (\<lambda>c. cl_name c = n) (tb_columns t))"

definition primary_key :: "tabledef \<Rightarrow> string list" where
  "primary_key t = concat (map (\<lambda>c. case c of PrimaryKey cs \<Rightarrow> cs | _ \<Rightarrow> []) (tb_constraints t))"

section \<open>Statements\<close>

text \<open>
  What the server checks before it accepts a statement, with the SQLSTATE of each refusal: duplicate relation
  42P07, column 42701, object 42710; undefined table 42P01, column 42703, function 42883, operator class 42704
  (equality on text in a gist index needs btree_gist); a foreign key to columns that are not unique 42830, of
  another type 42804; a second primary key 42P16; a fill factor out of range 22023.
\<close>

definition refuse :: "string \<Rightarrow> js_error + 'a" where
  "refuse state = Inl (pg_error state None)"

definition require :: "bool \<Rightarrow> string \<Rightarrow> js_error + unit" where
  "require b state = (if b then Inr () else refuse state)"

definition all_columns :: "tabledef \<Rightarrow> string list \<Rightarrow> bool" where
  "all_columns t ns \<longleftrightarrow> list_all (\<lambda>n. n \<in> set (column_names t)) ns"

fun generated_columns :: "generated option \<Rightarrow> string list" where
  "generated_columns None = []"
| "generated_columns (Some (RangeOf a b)) = [a, b]"
| "generated_columns (Some (OctetLength a)) = [a]"

fun check_constraint :: "catalog \<Rightarrow> tabledef \<Rightarrow> constr \<Rightarrow> js_error + unit" where
  "check_constraint c t (PrimaryKey ns) = require (all_columns t ns) ''42703''"
| "check_constraint c t (CheckLess _ a b) = require (all_columns t [a, b]) ''42703''"
| "check_constraint c t (ExcludeGist n ns r) =
     (if n \<in> set (relation_names c) then refuse ''42P07''
      else if \<not> all_columns t (r # ns) then refuse ''42703''
      else require (''btree_gist'' \<in> set (ca_extensions c)) ''42704'')"
| "check_constraint c t (ForeignKey a target b _) =
     (if \<not> all_columns t [a] then refuse ''42703''
      else case find_table c target of
        None \<Rightarrow> refuse ''42P01''
      | Some u \<Rightarrow>
          (if \<not> all_columns u [b] then refuse ''42703''
           else if primary_key u \<noteq> [b] then refuse ''42830''
           else require (type_of t a = type_of u b) ''42804''))"

fun check_all :: "('a \<Rightarrow> js_error + unit) \<Rightarrow> 'a list \<Rightarrow> js_error + unit" where
  "check_all f [] = Inr ()"
| "check_all f (x # xs) = (case f x of Inl e \<Rightarrow> Inl e | Inr _ \<Rightarrow> check_all f xs)"

definition check_table :: "catalog \<Rightarrow> tabledef \<Rightarrow> js_error + unit" where
  "check_table c t =
     (if tb_name t \<in> set (relation_names c) then refuse ''42P07''
      else if \<not> distinct (column_names t) then refuse ''42701''
      else if \<not> list_all (\<lambda>col. all_columns t (generated_columns (cl_generated col))) (tb_columns t) then refuse ''42703''
      else if 1 < length (filter (\<lambda>k. case k of PrimaryKey _ \<Rightarrow> True | _ \<Rightarrow> False) (tb_constraints t)) then refuse ''42P16''
      else check_all (check_constraint c t) (tb_constraints t))"

definition update_table :: "string \<Rightarrow> (tabledef \<Rightarrow> tabledef) \<Rightarrow> catalog \<Rightarrow> catalog" where
  "update_table n f c = c\<lparr>ca_tables := map (\<lambda>t. if tb_name t = n then f t else t) (ca_tables c)\<rparr>"

definition on_table :: "catalog \<Rightarrow> string \<Rightarrow> (tabledef \<Rightarrow> js_error + catalog) \<Rightarrow> js_error + catalog" where
  "on_table c n f = (case find_table c n of None \<Rightarrow> refuse ''42P01'' | Some t \<Rightarrow> f t)"

fun run_ddl :: "ddl \<Rightarrow> catalog \<Rightarrow> js_error + catalog" where
  "run_ddl (XactLock _ _) c = Inr c"
| "run_ddl (CreateExtension e) c =
     Inr (if e \<in> set (ca_extensions c) then c else c\<lparr>ca_extensions := ca_extensions c @ [e]\<rparr>)"
| "run_ddl (CreateTable t) c =
     (case check_table c t of Inl e \<Rightarrow> Inl e | Inr _ \<Rightarrow> Inr (c\<lparr>ca_tables := ca_tables c @ [t]\<rparr>))"
| "run_ddl (CreateIndex i) c =
     on_table c (ix_table i) (\<lambda>t.
       if ix_name i \<in> set (relation_names c) then refuse ''42P07''
       else if \<not> all_columns t (map fst (ix_columns i)) then refuse ''42703''
       else Inr (c\<lparr>ca_indexes := ca_indexes c @ [i]\<rparr>))"
| "run_ddl (CreateFunction f) c =
     Inr (if f \<in> set (ca_functions c) then c else c\<lparr>ca_functions := ca_functions c @ [f]\<rparr>)"
| "run_ddl (CreateTrigger g) c =
     on_table c (tg_table g) (\<lambda>_.
       if tg_function g \<notin> set (ca_functions c) then refuse ''42883''
       else if list_ex (\<lambda>h. tg_name h = tg_name g \<and> tg_table h = tg_table g) (ca_triggers c) then refuse ''42710''
       else Inr (c\<lparr>ca_triggers := ca_triggers c @ [g]\<rparr>))"
| "run_ddl (SetFillfactor n k) c =
     on_table c n (\<lambda>_. if k < 10 \<or> 100 < k then refuse ''22023'' else Inr (update_table n (\<lambda>t. t\<lparr>tb_fillfactor := Some k\<rparr>) c))"
| "run_ddl (AddColumn n col) c =
     on_table c n (\<lambda>t.
       if cl_name col \<in> set (column_names t) then refuse ''42701''
       else if \<not> all_columns t (generated_columns (cl_generated col)) then refuse ''42703''
       else Inr (update_table n (\<lambda>t. t\<lparr>tb_columns := tb_columns t @ [col]\<rparr>) c))"

fun run_script :: "ddl list \<Rightarrow> catalog \<Rightarrow> js_error + catalog" where
  "run_script [] c = Inr c"
| "run_script (s # ss) c = (case run_ddl s c of Inl e \<Rightarrow> Inl e | Inr c' \<Rightarrow> run_script ss c')"

section \<open>The migrations\<close>

definition col :: "string \<Rightarrow> coltype \<Rightarrow> column" where
  "col n t = \<lparr>cl_name = n, cl_type = t, cl_not_null = True, cl_default = None, cl_generated = None\<rparr>"

definition defaults :: "column \<Rightarrow> string \<Rightarrow> column" where
  "defaults c e = c\<lparr>cl_default := Some e\<rparr>"

definition nullable :: "column \<Rightarrow> column" where
  "nullable c = c\<lparr>cl_not_null := False\<rparr>"

text \<open>A generated column carries no \<^verbatim>\<open>NOT NULL\<close> of its own.\<close>

definition generated_as :: "column \<Rightarrow> generated \<Rightarrow> column" where
  "generated_as c g = (nullable c)\<lparr>cl_generated := Some g\<rparr>"

definition kv_current_table :: tabledef where
  "kv_current_table = \<lparr>tb_name = ''kv_current'',
     tb_columns = [col ''ns'' TText, col ''scope'' TText, col ''key'' TText, col ''value'' TJsonb, col ''version'' TBigint,
       defaults (col ''updated_at'' TTimestamptz) ''date_trunc('milliseconds', clock_timestamp())'',
       defaults (col ''updated_xact'' TBigint) ''txid_current()''],
     tb_constraints = [PrimaryKey [''ns'', ''scope'', ''key'']], tb_fillfactor = None\<rparr>"

definition kv_history_table :: tabledef where
  "kv_history_table = \<lparr>tb_name = ''kv_history'',
     tb_columns = [col ''id'' TBigserial, col ''ns'' TText, col ''scope'' TText, col ''key'' TText, col ''value'' TJsonb,
       col ''version'' TBigint, col ''valid_from'' TTimestamptz, col ''valid_to'' TTimestamptz,
       generated_as (col ''validity'' TTstzrange) (RangeOf ''valid_from'' ''valid_to'')],
     tb_constraints = [PrimaryKey [''id''], CheckLess ''kv_history_range'' ''valid_from'' ''valid_to'',
       ExcludeGist ''kv_history_no_overlap'' [''ns'', ''scope'', ''key''] ''validity''],
     tb_fillfactor = None\<rparr>"

definition plain_index :: "string \<Rightarrow> string \<Rightarrow> string list \<Rightarrow> indexdef" where
  "plain_index n t cs = \<lparr>ix_name = n, ix_table = t, ix_method = ''btree'', ix_columns = map (\<lambda>c. (c, False)) cs\<rparr>"

definition kv_history_lookup :: indexdef where
  "kv_history_lookup = plain_index ''kv_history_lookup'' ''kv_history'' [''ns'', ''scope'', ''key'', ''valid_from'']"

definition kv_history_by_version :: indexdef where
  "kv_history_by_version = plain_index ''kv_history_by_version'' ''kv_history'' [''ns'', ''scope'', ''key'', ''version'']"

definition kv_current_history_bu :: triggerdef where
  "kv_current_history_bu = \<lparr>tg_name = ''kv_current_history_bu'', tg_table = ''kv_current'', tg_function = ''kv_current_history_trigger''\<rparr>"

definition up_001_temporal_kv :: "ddl list" where
  "up_001_temporal_kv =
     [XactLock 3 0, CreateExtension ''btree_gist'', CreateTable kv_current_table, CreateTable kv_history_table,
      CreateIndex kv_history_lookup, CreateIndex kv_history_by_version, CreateFunction ''kv_current_history_trigger'',
      CreateTrigger kv_current_history_bu]"

definition ckpt_chunks_table :: tabledef where
  "ckpt_chunks_table = \<lparr>tb_name = ''ckpt_chunks'',
     tb_columns = [col ''hash'' TBytea, col ''data'' TBytea, defaults (col ''created_at'' TTimestamptz) ''now()''],
     tb_constraints = [PrimaryKey [''hash'']], tb_fillfactor = None\<rparr>"

definition ckpt_manifests_table :: tabledef where
  "ckpt_manifests_table = \<lparr>tb_name = ''ckpt_manifests'',
     tb_columns = [col ''id'' TBigserial, col ''w'' TText, col ''net'' TText, col ''seq'' TBigint,
       defaults (col ''complete'' TBoolean) ''false'', col ''manifest_hash'' TBytea, nullable (col ''label'' TText),
       defaults (col ''created_at'' TTimestamptz) ''now()''],
     tb_constraints = [PrimaryKey [''id'']], tb_fillfactor = None\<rparr>"

definition ckpt_manifests_lookup :: indexdef where
  "ckpt_manifests_lookup = \<lparr>ix_name = ''ckpt_manifests_lookup'', ix_table = ''ckpt_manifests'', ix_method = ''btree'',
     ix_columns = [(''w'', False), (''net'', False), (''complete'', False), (''seq'', True)]\<rparr>"

definition ckpt_manifest_chunks_table :: tabledef where
  "ckpt_manifest_chunks_table = \<lparr>tb_name = ''ckpt_manifest_chunks'',
     tb_columns = [col ''manifest_id'' TBigint, col ''position'' TInteger, col ''chunk_hash'' TBytea],
     tb_constraints = [ForeignKey ''manifest_id'' ''ckpt_manifests'' ''id'' True, ForeignKey ''chunk_hash'' ''ckpt_chunks'' ''hash'' False,
       PrimaryKey [''manifest_id'', ''position'']],
     tb_fillfactor = None\<rparr>"

definition ckpt_manifest_chunks_by_hash :: indexdef where
  "ckpt_manifest_chunks_by_hash = plain_index ''ckpt_manifest_chunks_by_hash'' ''ckpt_manifest_chunks'' [''chunk_hash'']"

definition ckpt_sequence_counters_table :: tabledef where
  "ckpt_sequence_counters_table = \<lparr>tb_name = ''ckpt_sequence_counters'',
     tb_columns = [col ''w'' TText, col ''net'' TText, defaults (col ''next_seq'' TBigint) ''2''],
     tb_constraints = [PrimaryKey [''w'', ''net'']], tb_fillfactor = None\<rparr>"

definition up_002_checkpoint_store :: "ddl list" where
  "up_002_checkpoint_store =
     [CreateTable ckpt_chunks_table, CreateTable ckpt_manifests_table, CreateIndex ckpt_manifests_lookup,
      CreateTable ckpt_manifest_chunks_table, CreateIndex ckpt_manifest_chunks_by_hash, CreateTable ckpt_sequence_counters_table]"

definition watermarks_table :: tabledef where
  "watermarks_table = \<lparr>tb_name = ''watermarks'',
     tb_columns = [col ''kind'' TText, col ''key'' TText, col ''value'' TJsonb, defaults (col ''updated_at'' TTimestamptz) ''now()''],
     tb_constraints = [PrimaryKey [''kind'', ''key'']], tb_fillfactor = Some 90\<rparr>"

definition up_003_watermarks :: "ddl list" where
  "up_003_watermarks = [CreateTable watermarks_table]"

definition transaction_history_table :: tabledef where
  "transaction_history_table = \<lparr>tb_name = ''transaction_history'',
     tb_columns = [col ''wallet_id'' TText, col ''tx_hash'' TText, col ''entry'' TJsonb,
       defaults (col ''identifiers'' TTextArray) ''{}'', col ''lifecycle'' TText, defaults (col ''updated_at'' TTimestamptz) ''now()''],
     tb_constraints = [PrimaryKey [''wallet_id'', ''tx_hash'']], tb_fillfactor = None\<rparr>"

definition transaction_history_identifiers_gin :: indexdef where
  "transaction_history_identifiers_gin = \<lparr>ix_name = ''transaction_history_identifiers_gin'', ix_table = ''transaction_history'',
     ix_method = ''gin'', ix_columns = [(''identifiers'', False)]\<rparr>"

definition up_004_transaction_history :: "ddl list" where
  "up_004_transaction_history = [CreateTable transaction_history_table, CreateIndex transaction_history_identifiers_gin]"

definition up_005_kv_current_fillfactor :: "ddl list" where
  "up_005_kv_current_fillfactor = [SetFillfactor ''kv_current'' 90]"

definition size_bytes_column :: column where
  "size_bytes_column = generated_as (col ''size_bytes'' TInteger) (OctetLength ''data'')"

definition up_006_ckpt_chunks_size_bytes :: "ddl list" where
  "up_006_ckpt_chunks_size_bytes = [AddColumn ''ckpt_chunks'' size_bytes_column]"

definition wallet_scripts :: "ddl list list" where
  "wallet_scripts = [up_001_temporal_kv, up_002_checkpoint_store, up_003_watermarks, up_004_transaction_history,
     up_005_kv_current_fillfactor, up_006_ckpt_chunks_size_bytes]"

text \<open>The migrations of the wallet lineage after 000, as the runner applies them.\<close>

definition wallet_ups :: "nat \<Rightarrow> catalog \<Rightarrow> js_error + catalog" where
  "wallet_ups i = run_script (wallet_scripts ! i)"

section \<open>The schema they build\<close>

text \<open>The wallet schema of the current release, written out as a catalog.\<close>

definition wallet_catalog :: "string list \<Rightarrow> catalog" where
  "wallet_catalog exts = \<lparr>
     ca_tables = [kv_current_table\<lparr>tb_fillfactor := Some 90\<rparr>, kv_history_table,
       ckpt_chunks_table\<lparr>tb_columns := tb_columns ckpt_chunks_table @ [size_bytes_column]\<rparr>, ckpt_manifests_table,
       ckpt_manifest_chunks_table, ckpt_sequence_counters_table, watermarks_table, transaction_history_table],
     ca_indexes = [kv_history_lookup, kv_history_by_version, ckpt_manifests_lookup, ckpt_manifest_chunks_by_hash,
       transaction_history_identifiers_gin],
     ca_functions = [''kv_current_history_trigger''], ca_triggers = [kv_current_history_bu],
     ca_extensions = (if ''btree_gist'' \<in> set exts then exts else exts @ [''btree_gist''])\<rparr>"

text \<open>
  A catalog is coherent when names are unique, every column an index, a constraint or a generated column
  mentions exists, and every foreign key refers to the primary key of a table.
\<close>

definition coherent :: "catalog \<Rightarrow> bool" where
  "coherent c \<longleftrightarrow>
     distinct (relation_names c)
   \<and> list_all (\<lambda>t. distinct (column_names t)
        \<and> list_all (\<lambda>k. case k of
              PrimaryKey ns \<Rightarrow> all_columns t ns
            | CheckLess _ a b \<Rightarrow> all_columns t [a, b]
            | ExcludeGist _ ns r \<Rightarrow> all_columns t (r # ns)
            | ForeignKey a u b _ \<Rightarrow> all_columns t [a]
                \<and> list_ex (\<lambda>v. tb_name v = u \<and> primary_key v = [b] \<and> type_of v b = type_of t a) (ca_tables c)) (tb_constraints t)
        \<and> list_all (\<lambda>x. all_columns t (generated_columns (cl_generated x))) (tb_columns t)) (ca_tables c)
   \<and> list_all (\<lambda>i. list_ex (\<lambda>t. tb_name t = ix_table i \<and> all_columns t (map fst (ix_columns i))) (ca_tables c)) (ca_indexes c)
   \<and> list_all (\<lambda>g. tg_function g \<in> set (ca_functions c) \<and> tg_table g \<in> set (map tb_name (ca_tables c))) (ca_triggers c)"

text \<open>
  The hard invariant that migrations 003 and 005 state for the tables tuned for HOT updates: slack on every
  page, and no index on a column outside the primary key.
\<close>

definition hot_eligible :: "catalog \<Rightarrow> string \<Rightarrow> bool" where
  "hot_eligible c n \<longleftrightarrow>
     (case find_table c n of
        None \<Rightarrow> False
      | Some t \<Rightarrow> tb_fillfactor t = Some 90
          \<and> list_all (\<lambda>i. ix_table i = n \<longrightarrow> set (map fst (ix_columns i)) \<subseteq> set (primary_key t)) (ca_indexes c))"

lemmas wallet_tables =
  kv_current_table_def kv_history_table_def ckpt_chunks_table_def ckpt_manifests_table_def ckpt_manifest_chunks_table_def
  ckpt_sequence_counters_table_def watermarks_table_def transaction_history_table_def size_bytes_column_def
  kv_history_lookup_def kv_history_by_version_def ckpt_manifests_lookup_def ckpt_manifest_chunks_by_hash_def
  transaction_history_identifiers_gin_def kv_current_history_bu_def

lemmas wallet_ups_defs =
  up_001_temporal_kv_def up_002_checkpoint_store_def up_003_watermarks_def up_004_transaction_history_def
  up_005_kv_current_fillfactor_def up_006_ckpt_chunks_size_bytes_def

lemmas ddl_defs =
  check_table_def find_table_def column_names_def all_columns_def relation_names_def require_def refuse_def on_table_def
  update_table_def primary_key_def type_of_def col_def defaults_def nullable_def generated_as_def plain_index_def bare_def

text \<open>Every script runs on what the ones before it have built.\<close>

lemma run_script_append:
  "run_script (xs @ ys) c = (case run_script xs c of Inl e \<Rightarrow> Inl e | Inr c' \<Rightarrow> run_script ys c')"
  by (induction xs arbitrary: c) (auto split: sum.splits)

lemma script_001: "run_script up_001_temporal_kv (bare exts) = Inr \<lparr>ca_tables = [kv_current_table, kv_history_table],
    ca_indexes = [kv_history_lookup, kv_history_by_version], ca_functions = [''kv_current_history_trigger''],
    ca_triggers = [kv_current_history_bu], ca_extensions = ca_extensions (wallet_catalog exts)\<rparr>"
  by (simp add: wallet_ups_defs wallet_tables ddl_defs wallet_catalog_def)

lemma script_002:
  "run_script up_002_checkpoint_store \<lparr>ca_tables = [kv_current_table, kv_history_table],
      ca_indexes = [kv_history_lookup, kv_history_by_version], ca_functions = fs, ca_triggers = ts, ca_extensions = es\<rparr>
   = Inr \<lparr>ca_tables = [kv_current_table, kv_history_table, ckpt_chunks_table, ckpt_manifests_table, ckpt_manifest_chunks_table,
        ckpt_sequence_counters_table],
      ca_indexes = [kv_history_lookup, kv_history_by_version, ckpt_manifests_lookup, ckpt_manifest_chunks_by_hash],
      ca_functions = fs, ca_triggers = ts, ca_extensions = es\<rparr>"
  by (simp add: wallet_ups_defs wallet_tables ddl_defs)

lemma scripts_003_004:
  "run_script (up_003_watermarks @ up_004_transaction_history) \<lparr>ca_tables = [kv_current_table, kv_history_table, ckpt_chunks_table,
        ckpt_manifests_table, ckpt_manifest_chunks_table, ckpt_sequence_counters_table],
      ca_indexes = [kv_history_lookup, kv_history_by_version, ckpt_manifests_lookup, ckpt_manifest_chunks_by_hash],
      ca_functions = fs, ca_triggers = ts, ca_extensions = es\<rparr>
   = Inr \<lparr>ca_tables = [kv_current_table, kv_history_table, ckpt_chunks_table, ckpt_manifests_table, ckpt_manifest_chunks_table,
        ckpt_sequence_counters_table, watermarks_table, transaction_history_table],
      ca_indexes = [kv_history_lookup, kv_history_by_version, ckpt_manifests_lookup, ckpt_manifest_chunks_by_hash,
        transaction_history_identifiers_gin],
      ca_functions = fs, ca_triggers = ts, ca_extensions = es\<rparr>"
  by (simp add: wallet_ups_defs wallet_tables ddl_defs)

lemma scripts_005_006:
  "run_script (up_005_kv_current_fillfactor @ up_006_ckpt_chunks_size_bytes) \<lparr>ca_tables = [kv_current_table, kv_history_table,
        ckpt_chunks_table, ckpt_manifests_table, ckpt_manifest_chunks_table, ckpt_sequence_counters_table, watermarks_table,
        transaction_history_table],
      ca_indexes = ixs, ca_functions = fs, ca_triggers = ts, ca_extensions = es\<rparr>
   = Inr \<lparr>ca_tables = ca_tables (wallet_catalog []), ca_indexes = ixs, ca_functions = fs, ca_triggers = ts, ca_extensions = es\<rparr>"
  by (simp add: wallet_ups_defs wallet_tables ddl_defs wallet_catalog_def)

lemma wallet_scripts_run: "run_script (concat wallet_scripts) (bare exts) = Inr (wallet_catalog exts)"
proof -
  have "concat wallet_scripts = up_001_temporal_kv @ up_002_checkpoint_store @ (up_003_watermarks @ up_004_transaction_history)
      @ (up_005_kv_current_fillfactor @ up_006_ckpt_chunks_size_bytes)"
    by (simp add: wallet_scripts_def)
  then show ?thesis
    by (simp only: run_script_append [of up_001_temporal_kv] run_script_append [of up_002_checkpoint_store]
        run_script_append [of "up_003_watermarks @ up_004_transaction_history"] script_001 script_002 scripts_003_004 scripts_005_006 sum.case)
      (simp add: wallet_catalog_def)
qed

lemma wallet_catalog_coherent: "coherent (wallet_catalog exts)"
  by (simp add: coherent_def wallet_tables ddl_defs wallet_catalog_def)

lemma wallet_catalog_hot: "hot_eligible (wallet_catalog exts) ''kv_current''" "hot_eligible (wallet_catalog exts) ''watermarks''"
  by (simp_all add: hot_eligible_def wallet_tables ddl_defs wallet_catalog_def)

section \<open>A run that meets no failure\<close>

lemma applied_in_order_append:
  "applied_in_order (xs @ ys) x = (case applied_in_order xs x of Inl e \<Rightarrow> Inl e | Inr y \<Rightarrow> applied_in_order ys y)"
  by (induction xs arbitrary: x) (auto split: sum.splits)

lemma next_step:
  assumes "applied_in_order L x0 = Inr z" and "reached L x0 k x" and "k < length L"
  shows "\<exists>y. step (L ! k) x = Inr y"
proof -
  have "L = take k L @ L ! k # drop (Suc k) L" using assms(3) by (rule id_take_nth_drop)
  with assms(1) have "applied_in_order (take k L @ L ! k # drop (Suc k) L) x0 = Inr z" by simp
  then show ?thesis using assms(2) by (auto simp: applied_in_order_append reached_def split: sum.splits)
qed

lemma apply_one_completes:
  assumes "me_faults env = (\<lambda>_. None)" and "step m (sv_schema s) = Inr y"
  shows "apply_one env j c m s = (Inr (), s\<lparr>sv_schema := y\<rparr>)"
  using assms by (auto simp: apply_one_def withReservedTransaction_def on_conn_def ebind_def eret_def on_schema_def step_def split: sum.splits)

lemma apply_rest_completes:
  assumes env: "me_faults env = (\<lambda>_. None)" and L: "lineage_ok L" and x0: "ss_migrations x0 = None" and all: "applied_in_order L x0 = Inr z"
  shows "L = pre @ ms \<Longrightarrow> pre \<noteq> [] \<Longrightarrow> length pre \<le> k \<Longrightarrow> reached L x0 k (sv_schema s) \<Longrightarrow>
    \<exists>t. apply_rest env j c ms s = (Inr (), t)"
proof (induction ms arbitrary: pre j k s)
  case Nil
  then show ?case by (simp add: eret_def)
next
  case (Cons m ms)
  have m: "m = L ! length pre" and len: "length pre < length L" using Cons.prems(1) by simp_all
  have "k \<noteq> 0" using Cons.prems(2,3) by (cases pre) auto
  with reached_names [OF L x0 Cons.prems(4)] have ns: "ss_migrations (sv_schema s) = Some (map mg_name (take k L))" by simp
  have mem: "mg_name m \<in> set (map mg_name (take k L)) \<longleftrightarrow> length pre < k"
    unfolding m using L Cons.prems(4) len by (intro member_take) (auto simp: lineage_ok_def reached_def)
  note IH = Cons.IH [of "pre @ [m]" _ _ "Suc j"]
  show ?case
  proof (cases "length pre < k")
    case True
    then show ?thesis
      using IH [of k s] Cons.prems mem by (simp add: ebind_def is_applied_def on_conn_def env ns eret_def)
  next
    case False
    with Cons.prems(3) have k: "k = length pre" by simp
    from next_step [OF all Cons.prems(4)] k len m obtain y where y: "step m (sv_schema s) = Inr y" by auto
    have "reached L x0 (Suc k) y" using reached_Suc [OF Cons.prems(4), of y] k len m y by simp
    then show ?thesis
      using IH [of "Suc k" "s\<lparr>sv_schema := y\<rparr>"] Cons.prems k False mem
      by (simp add: ebind_def is_applied_def on_conn_def env ns eret_def apply_one_completes [OF env y])
  qed
qed

lemma apply_lineage_completes:
  assumes env: "me_faults env = (\<lambda>_. None)" and L: "lineage_ok L" and x0: "ss_migrations x0 = None" and all: "applied_in_order L x0 = Inr z"
    and r: "reached L x0 k (sv_schema s)"
  shows "\<exists>t. apply_lineage env c L s = (Inr (), t)"
proof -
  obtain m ms where Lm: "L = m # ms" using L by (cases L) (auto simp: lineage_ok_def)
  note rest = apply_rest_completes [OF env L x0 all, of "[m]" ms]
  show ?thesis
  proof (cases k)
    case 0
    with r have "ss_migrations (sv_schema s) = None" using x0 by (simp add: reached_def)
    moreover from next_step [OF all r] 0 obtain y where y: "step m (sv_schema s) = Inr y" by (auto simp: Lm)
    moreover have "reached L x0 1 y" using reached_Suc [OF r, of y] 0 y by (simp add: Lm)
    ultimately show ?thesis
      using rest [of 1 "s\<lparr>sv_schema := y\<rparr>" 2 c] apply_one_completes [OF env y, of 1 c]
      by (simp add: apply_lineage_def ebind_def on_conn_def env Lm)
  next
    case (Suc i)
    then have "ss_migrations (sv_schema s) \<noteq> None" using reached_names [OF L x0 r] by simp
    then show ?thesis
      using rest [of k s 2 c] r Suc by (simp add: apply_lineage_def ebind_def on_conn_def env Lm eret_def)
  qed
qed

text \<open>The server answers every statement, has durable settings, and is not behind a transaction pooler.\<close>

definition responsive :: "mig_env \<Rightarrow> 'd run_options \<Rightarrow> bool" where
  "responsive env opts \<longleftrightarrow>
     me_faults env = (\<lambda>_. None) \<and> \<not> isl (me_probe_reserve env) \<and> \<not> isl (me_reserve env)
   \<and> me_setting env ''fsync'' \<noteq> ''off'' \<and> (me_setting env ''full_page_writes'' \<noteq> ''off'' \<or> ro_allowFullPageWritesOff opts)
   \<and> (me_acquired env \<longrightarrow> 1 \<le> me_visible env)
   \<and> \<not> isl (assertValidSchemaName (ro_schema opts)) \<and> \<not> bad_timeout (ro_migrationLockTimeoutMs opts)"

lemma probe_completes:
  assumes "responsive env opts"
  shows "\<exists>ws t. probeDurability hash env (ro_allowFullPageWritesOff opts) s = (Inr ws, t) \<and> sv_schema t = sv_schema s"
proof -
  obtain c where c: "me_probe_reserve env = Inr c" using assms by (cases "me_probe_reserve env") (auto simp: responsive_def)
  show ?thesis
    using assms
    by (auto simp: probeDurability_def responsive_def ebind_def reserve_def c efinally_def on_conn_def eret_def classifyFsync_def
        classifyFullPageWrites_def List.map_filter_def probeAdvisoryLockVisibility_def take_lock_def drop_lock_def release_def Let_def
        assertNoTransactionPooler_def elift_def)
qed

lemma runMigrations_completes:
  assumes res: "responsive env opts" and L: "lineage_ok (lineage_used ups opts)" and x0: "ss_migrations x0 = None"
    and all: "applied_in_order (lineage_used ups opts) x0 = Inr z" and r: "reached (lineage_used ups opts) x0 k (sv_schema s)"
  shows "\<exists>t. runMigrations hash ups env opts s = (Inr (), t)"
proof -
  have env: "me_faults env = (\<lambda>_. None)" using res by (simp add: responsive_def)
  obtain u where u: "assertValidSchemaName (ro_schema opts) = Inr u" using res by (cases "assertValidSchemaName (ro_schema opts)") (auto simp: responsive_def)
  obtain ws s1 where p: "probeDurability hash env (ro_allowFullPageWritesOff opts) s = (Inr ws, s1)" "sv_schema s1 = sv_schema s"
    using probe_completes [OF res] by blast
  obtain c where c: "me_reserve env = Inr c" using res by (cases "me_reserve env") (auto simp: responsive_def)
  have bound: "\<not> bad_timeout (Some (option_default (ro_migrationLockTimeoutMs opts) DEFAULT_MIGRATION_LOCK_TIMEOUT_MS))"
    using res by (cases "ro_migrationLockTimeoutMs opts")
      (auto simp: responsive_def bad_timeout_def option_default_def DEFAULT_MIGRATION_LOCK_TIMEOUT_MS_def)
  let ?s = "s1\<lparr>sv_reserved := c # sv_reserved s1, sv_locks := (MIGRATION_LOCK_CLASS, hash (ro_schema opts), c) # sv_locks s1,
    sv_widened := c # sv_widened s1\<rparr>"
  obtain t where "apply_lineage env c (lineage_used ups opts) ?s = (Inr (), t)"
    using apply_lineage_completes [OF env L x0 all, of k ?s c] r p(2) by auto
  then have impl: "\<exists>t. runMigrationsImpl hash ups env opts s1 = (Inr (), t)"
    using bound
    by (simp add: runMigrationsImpl_def ebind_def reserve_def c Let_def acquire_lock_def withReservedTransaction_def on_conn_def env eret_def
        take_lock_def under_lock_def efinally_def elift_def widen_def narrow_def drop_lock_def release_def)
  then show ?thesis
    using res u p(1) by (auto simp: runMigrations_def responsive_def emap_error_def ebind_def)
qed

section \<open>Properties\<close>

lemma wallet_lineage_applies:
  assumes "ss_migrations x = None" and "ss_content x = bare exts"
  shows "applied_in_order (tier1WalletMigrations wallet_ups) x
    = Inr \<lparr>ss_migrations = Some (map mg_name (tier1WalletMigrations wallet_ups)), ss_content = wallet_catalog exts\<rparr>"
proof -
  from wallet_scripts_run [of exts] obtain c1 c2 c3 c4 c5 where
    "run_script up_001_temporal_kv (bare exts) = Inr c1" "run_script up_002_checkpoint_store c1 = Inr c2"
    "run_script up_003_watermarks c2 = Inr c3" "run_script up_004_transaction_history c3 = Inr c4"
    "run_script up_005_kv_current_fillfactor c4 = Inr c5" "run_script up_006_ckpt_chunks_size_bytes c5 = Inr (wallet_catalog exts)"
    by (auto simp: wallet_scripts_def run_script_append split: sum.splits)
  moreover have "distinct (map mg_name (tier1WalletMigrations wallet_ups))" using lineages_ok(1) [of wallet_ups] by (simp add: lineage_ok_def)
  ultimately show ?thesis
    using assms
    by (simp add: tier1WalletMigrations_def lineage_of_def upt_rec step_def schema_up_def content_up_def record_name_def wallet_ups_def
        wallet_scripts_def)
qed

text \<open>The state of the schema after calls that may have failed, and after one that returned.\<close>

lemma wallet_schema_runs:
  assumes "ss_migrations (sv_schema s0) = None" and "ss_content (sv_schema s0) = bare exts"
    and "\<forall>(env, opts) \<in> set calls. ro_migrations opts = None" and "s = migration_calls hash wallet_ups calls s0"
    and "ro_migrations opts = None" and "runMigrations hash wallet_ups env opts s = (r, t)"
  shows "\<not> isl r \<Longrightarrow> sv_schema t = \<lparr>ss_migrations = Some (map mg_name (tier1WalletMigrations wallet_ups)), ss_content = wallet_catalog exts\<rparr>"
    and "responsive env opts \<Longrightarrow> \<not> isl r"
proof -
  let ?L = "tier1WalletMigrations wallet_ups"
  have used: "lineage_used wallet_ups o' = ?L" if "ro_migrations o' = None" for o' :: "catalog run_options"
    using that by (simp add: lineage_used_def option_default_def)
  have "reached ?L (sv_schema s0) 0 (sv_schema s0)" by (simp add: reached_def)
  from migration_calls_reached [OF lineages_ok(1) assms(1) _ this, of calls wallet_ups hash] assms(3,4) used
  obtain k where k: "reached ?L (sv_schema s0) k (sv_schema s)" by fastforce
  note all = wallet_lineage_applies [OF assms(1,2)]
  have "reached ?L (sv_schema s0) (length ?L) (sv_schema t)" if "\<not> isl r"
    using runMigrations_reached [of wallet_ups opts "sv_schema s0" k s hash env r t] used [OF assms(5)] lineages_ok(1) [of wallet_ups] assms(1,6) k that by auto
  then show "\<not> isl r \<Longrightarrow> sv_schema t = \<lparr>ss_migrations = Some (map mg_name ?L), ss_content = wallet_catalog exts\<rparr>"
    using all by (simp add: reached_def)
  show "\<not> isl r" if "responsive env opts"
    using runMigrations_completes [OF that, of wallet_ups "sv_schema s0" _ k s hash] used [OF assms(5)] lineages_ok(1) [of wallet_ups] assms(1,6) all k by auto
qed


definition wallet_opts :: "catalog run_options" where
  "wallet_opts = \<lparr>ro_schema = js ''umbradb'', ro_migrations = None, ro_allowFullPageWritesOff = False, ro_migrationLockTimeoutMs = None\<rparr>"

definition empty_server :: "catalog server" where
  "empty_server = \<lparr>sv_schema = \<lparr>ss_migrations = None, ss_content = bare [''plpgsql'']\<rparr>, sv_locks = [], sv_widened = [], sv_reserved = []\<rparr>"

lemma calm_responsive: "responsive calm wallet_opts"
proof -
  have "\<not> isl (assertValidSchemaName (js ''umbradb''))" by code_simp
  then show ?thesis by (simp add: responsive_def calm_def wallet_opts_def bad_timeout_def)
qed


end
