(* ===== verification/Watermarks.thy ===== *)
theory Watermarks
  imports TransactionLease
begin

text \<open>
  Sync cursors: \<^verbatim>\<open>src/src/postgres/watermarks.ts\<close> over the table of
  \<^verbatim>\<open>migrations/003_watermarks.ts\<close>, a last-write-wins store of one JSON value per (kind, key).
\<close>

section \<open>Model\<close>

definition WatermarkValueSchema :: "jsval \<Rightarrow> bool" where
  "WatermarkValueSchema = JsonValueSchema"

record wm_opts =
  wo_tx :: "nat option"
  wo_signal :: signal

definition plain_wm :: wm_opts where
  "plain_wm = \<lparr>wo_tx = None, wo_signal = NoSignal\<rparr>"

text \<open>Kind and key are bound as they are: nothing in the module validates them.\<close>

definition bind_key :: "jsstr \<Rightarrow> jsstr \<Rightarrow> js_error + jsstr \<times> jsstr" where
  "bind_key kind key =
     (case bind_text kind of
        Inl e \<Rightarrow> Inl e
      | Inr k \<Rightarrow> (case bind_text key of Inl e \<Rightarrow> Inl e | Inr y \<Rightarrow> Inr (k, y)))"

definition upsert_watermark :: "pg_env \<Rightarrow> jsstr \<Rightarrow> jsstr \<Rightarrow> jsval \<Rightarrow> unit dbrun" where
  "upsert_watermark env kind key value d =
     (case bind_key kind key of
        Inl e \<Rightarrow> (Inl e, d)
      | Inr ky \<Rightarrow>
          (Inr (), d\<lparr>watermarks := AList.update ky \<lparr>w_value = value, w_updated_at = env_now env\<rparr> (watermarks d)\<rparr>))"

definition setImpl :: "pg_env \<Rightarrow> jsstr \<Rightarrow> jsstr \<Rightarrow> jsval \<Rightarrow> unit dbrun" where
  "setImpl env kind key value =
     emap_error (\<lambda>err. translatePostgresError err None) (stmt env 0 (upsert_watermark env kind key value))"

definition set_watermark :: "pg_env \<Rightarrow> jsstr \<Rightarrow> jsstr \<Rightarrow> jsval \<Rightarrow> wm_opts \<Rightarrow> unit run" where
  "set_watermark env kind key value opts =
     ebind (sql_of (wo_tx opts)) (\<lambda>_.
     ebind (if value = JNull then ethrow (validation_error ''PgWatermarks.set value must not be a top-level null'')
            else eret ()) (\<lambda>_.
     ebind (if WatermarkValueSchema value then eret () else ethrow (validation_error ''PgWatermarks.set value'')) (\<lambda>_.
       withAbort (on_db (setImpl env kind key value)) (wo_signal opts))))"

definition getImpl_wm :: "pg_env \<Rightarrow> jsstr \<Rightarrow> jsstr \<Rightarrow> jsval option dbrun" where
  "getImpl_wm env kind key =
     emap_error (\<lambda>err. translatePostgresError err None)
       (stmt env 0 (\<lambda>d. (map_sum id (\<lambda>ky. map_option w_value (map_of (watermarks d) ky)) (bind_key kind key), d)))"

definition get_watermark :: "pg_env \<Rightarrow> jsstr \<Rightarrow> jsstr \<Rightarrow> wm_opts \<Rightarrow> jsval option run" where
  "get_watermark env kind key opts =
     ebind (sql_of (wo_tx opts)) (\<lambda>_. withAbort (on_db (getImpl_wm env kind key)) (wo_signal opts))"

section \<open>The abstract store\<close>

definition cursor_at :: "db \<Rightarrow> jsstr \<times> jsstr \<Rightarrow> jsval option" where
  "cursor_at d ky = map_option w_value (map_of (watermarks d) ky)"

lemma cursor_at_empty [simp]: "cursor_at empty_db ky = None"
  by (simp add: cursor_at_def)

lemma upsert_watermark_Inr:
  assumes "upsert_watermark env kind key value d = (Inr u, d')"
  obtains ky where "bind_key kind key = Inr ky"
    and "d' = d\<lparr>watermarks := AList.update ky \<lparr>w_value = value, w_updated_at = env_now env\<rparr> (watermarks d)\<rparr>"
  using assms by (auto simp: upsert_watermark_def split: sum.splits)

lemma set_watermark_Inr:
  assumes "set_watermark env kind key value opts w = (Inr u, w')"
  obtains ky where "bind_key kind key = Inr ky" and "usable (wo_tx opts) w"
    and "w' = w\<lparr>w_db := (w_db w)\<lparr>watermarks := AList.update ky \<lparr>w_value = value, w_updated_at = env_now env\<rparr> (watermarks (w_db w))\<rparr>\<rparr>"
  using assms
  by (auto simp: set_watermark_def setImpl_def withAbort_def sql_of_Inr on_db_Inr stmt_Inr
      elim!: ebind_InrE upsert_watermark_Inr split: if_splits)

lemma cursor_at_update:
  "cursor_at (d\<lparr>watermarks := AList.update ky \<lparr>w_value = v, w_updated_at = t\<rparr> (watermarks d)\<rparr>) = (cursor_at d)(ky \<mapsto> v)"
  by (rule ext) (simp add: cursor_at_def)

lemma bind_key_safe [simp]:
  "\<not> hasPostgresUnsafeText kind \<Longrightarrow> \<not> hasPostgresUnsafeText key \<Longrightarrow> bind_key kind key = Inr (kind, key)"
  by (simp add: bind_key_def)

text \<open>
  What a client of the cursor store relies on, whatever the store: a successful write is what the
  next read of that cursor returns, and it stays until the next write of the same cursor.
\<close>

locale cursor_store =
  fixes set_cursor :: "'k \<Rightarrow> 'v \<Rightarrow> ('e, 's, unit) exec"
    and cursor :: "'s \<Rightarrow> 'k \<Rightarrow> 'v option"
  assumes written: "set_cursor k v s = (Inr u, s') \<Longrightarrow> cursor s' = (cursor s)(k \<mapsto> v)"
    and unwritten: "set_cursor k v s = (Inl e, s') \<Longrightarrow> cursor s' = cursor s"
begin

lemma last_write_wins:
  assumes "run_calls (\<lambda>(k, v). set_cursor k v) cs s = (rs, s')"
  shows "cursor s' k = fold (\<lambda>(c, r) acc. if fst c = k \<and> (\<exists>u. r = Inr u) then Some (snd c) else acc) (zip cs rs) (cursor s k)"
  using assms
proof (induction cs arbitrary: s rs)
  case Nil
  then show ?case by simp
next
  case (Cons c cs)
  obtain r s1 where c: "set_cursor (fst c) (snd c) s = (r, s1)" by fastforce
  obtain rs1 where rs: "rs = r # rs1" "run_calls (\<lambda>(k, v). set_cursor k v) cs s1 = (rs1, s')"
    using Cons.prems c by (auto split: prod.splits)
  have "cursor s1 k = (if fst c = k \<and> (\<exists>u. r = Inr u) then Some (snd c) else cursor s k)"
    using c written [of "fst c" "snd c" s _ s1] unwritten [of "fst c" "snd c" s _ s1] by (cases r) auto
  with Cons.IH [OF rs(2)] rs(1) show ?case by simp
qed

end

text \<open>The interpretation is on cursors whose names the server stores unchanged.\<close>

definition safe_set :: "pg_env \<Rightarrow> wm_opts \<Rightarrow> jsstr \<times> jsstr \<Rightarrow> jsval \<Rightarrow> unit run" where
  "safe_set env opts ky v =
     (if hasPostgresUnsafeText (fst ky) \<or> hasPostgresUnsafeText (snd ky) then ethrow (plain_error ''unsafe'')
      else set_watermark env (fst ky) (snd ky) v opts)"

lemma set_watermark_Inl: "set_watermark env kind key value opts w = (Inl e, w') \<Longrightarrow> w' = w"
  by (auto simp: set_watermark_def ebind_def setImpl_def withAbort_def sql_of_def resolveTransaction_def on_db_def
      emap_error_def stmt_def upsert_watermark_def split: if_splits option.splits sum.splits prod.splits)

interpretation pg_cursors: cursor_store "safe_set env opts" "\<lambda>w. cursor_at (w_db w)"
proof
  fix k v s u s'
  assume "safe_set env opts k v s = (Inr u, s')"
  then have safe: "\<not> hasPostgresUnsafeText (fst k)" "\<not> hasPostgresUnsafeText (snd k)"
    and run: "set_watermark env (fst k) (snd k) v opts s = (Inr u, s')"
    by (auto simp: safe_set_def split: if_splits)
  from run show "cursor_at (w_db s') = (cursor_at (w_db s))(k \<mapsto> v)"
    by (rule set_watermark_Inr) (use safe in \<open>simp add: cursor_at_update\<close>)
next
  fix k v s e s'
  assume "safe_set env opts k v s = (Inl e, s')"
  then have "s' = s" by (auto simp: safe_set_def dest: set_watermark_Inl split: if_splits)
  then show "cursor_at (w_db s') = cursor_at (w_db s)" by simp
qed

section \<open>Properties\<close>

text \<open>
  Set and get: with a valid value and a responsive server, \<^verbatim>\<open>set\<close> succeeds, the next
  \<^verbatim>\<open>get\<close> returns that value, every other cursor and every other table is unchanged, and
  \<^verbatim>\<open>get\<close> of a cursor never set is \<^verbatim>\<open>undefined\<close>, not an error. A \<^verbatim>\<open>null\<close>
  is refused as a validation error before any statement.
\<close>

lemma watermark_set_get:
  assumes "WatermarkValueSchema v" and "v \<noteq> JNull" and "\<not> hasPostgresUnsafeText kind" and "\<not> hasPostgresUnsafeText key"
    and "usable (wo_tx opts) w" and "\<not> aborted (wo_signal opts)" and "env_faults env = (\<lambda>_. None)"
  shows "\<exists>d. set_watermark env kind key v opts w = (Inr (), w\<lparr>w_db := d\<rparr>)
    \<and> cursor_at d = (cursor_at (w_db w))((kind, key) \<mapsto> v) \<and> d\<lparr>watermarks := watermarks (w_db w)\<rparr> = w_db w
    \<and> get_watermark env kind key opts (w\<lparr>w_db := d\<rparr>) = (Inr (Some v), w\<lparr>w_db := d\<rparr>)
    \<and> get_watermark env kind key opts w = (Inr (cursor_at (w_db w) (kind, key)), w)
    \<and> set_watermark env kind key JNull opts w
        = (Inl (validation_error ''PgWatermarks.set value must not be a top-level null''), w)"
proof -
  let ?d = "(w_db w)\<lparr>watermarks := AList.update (kind, key) \<lparr>w_value = v, w_updated_at = env_now env\<rparr> (watermarks (w_db w))\<rparr>"
  have u: "usable (wo_tx opts) (w\<lparr>w_db := ?d\<rparr>)" using assms(5) by (simp add: usable_def split: option.splits)
  have "set_watermark env kind key v opts w = (Inr (), w\<lparr>w_db := ?d\<rparr>)"
    using assms by (simp add: set_watermark_def ebind_def setImpl_def emap_error_def upsert_watermark_def on_db_def)
  moreover have "get_watermark env kind key opts (w\<lparr>w_db := ?d\<rparr>) = (Inr (Some v), w\<lparr>w_db := ?d\<rparr>)"
    using assms u by (simp add: get_watermark_def ebind_def getImpl_wm_def emap_error_def on_db_def)
  moreover have "get_watermark env kind key opts w = (Inr (cursor_at (w_db w) (kind, key)), w)"
    using assms by (simp add: get_watermark_def ebind_def getImpl_wm_def emap_error_def on_db_def cursor_at_def)
  moreover have "set_watermark env kind key JNull opts w
        = (Inl (validation_error ''PgWatermarks.set value must not be a top-level null''), w)"
    using assms(5) by (simp add: set_watermark_def ebind_def)
  moreover have "cursor_at ?d = (cursor_at (w_db w))((kind, key) \<mapsto> v)" by (rule cursor_at_update)
  ultimately show ?thesis by (intro exI [of _ ?d]) simp
qed

text \<open>
  Unvalidated names: the module checks neither kind nor key, so two distinct cursors whose names
  differ only in unpaired surrogates are one row; writing one silently overwrites the other.
\<close>

lemma watermark_names_alias:
  assumes "bind_key kind key = bind_key kind' key'" and "bind_key kind key = Inr ky"
    and "set_watermark env kind key v opts w = (Inr (), w')" and "\<not> aborted (wo_signal opts)" and "env_faults env = (\<lambda>_. None)"
  shows "fst (get_watermark env kind' key' opts w') = Inr (Some v)"
proof -
  from assms(3) obtain ky' where k: "bind_key kind key = Inr ky'" "usable (wo_tx opts) w"
    and w': "w' = w\<lparr>w_db := (w_db w)\<lparr>watermarks := AList.update ky' \<lparr>w_value = v, w_updated_at = env_now env\<rparr> (watermarks (w_db w))\<rparr>\<rparr>"
    by (rule set_watermark_Inr)
  then have u: "usable (wo_tx opts) w'" by (simp add: usable_def split: option.splits)
  have "bind_key kind' key' = Inr ky'" using assms(1) k(1) by simp
  then show ?thesis
    using u assms(4,5) by (simp add: get_watermark_def ebind_def getImpl_wm_def emap_error_def) (simp add: w')
qed

end
