(* ===== verification/SaveAndAdvance.thy ===== *)
theory SaveAndAdvance
  imports CheckpointStore Watermarks
begin

text \<open>
  \<^verbatim>\<open>src/src/postgres/save-and-advance.ts\<close>: a checkpoint and its sync cursor in one
  transaction. The composition is over the interfaces of the three modules; the client's argument is
  made once, in a locale over the transaction layer, and then instantiated.
\<close>

section \<open>Model\<close>

record cursor =
  cu_kind :: jsstr
  cu_key :: jsstr
  cu_value :: jsval

definition saveAndAdvance ::
  "(bytes \<Rightarrow> bytes) \<Rightarrow> pg_env \<Rightarrow> pg_env \<Rightarrow> tx_faults \<Rightarrow> jsstr \<Rightarrow> jsstr \<Rightarrow> bytes \<Rightarrow> cursor \<Rightarrow> save_opts
    \<Rightarrow> checkpoint_summary run" where
  "saveAndAdvance sha env env' fl walletId networkId data cur opts =
     withTransaction
       (\<lambda>tx.
          ebind (save sha env fl walletId networkId data (opts\<lparr>so_tx := Some tx\<rparr>)) (\<lambda>summary.
          ebind (set_watermark env' (cu_kind cur) (cu_key cur) (cu_value cur)
                   \<lparr>wo_tx = Some tx, wo_signal = so_signal opts\<rparr>) (\<lambda>_.
            eret summary)))
       no_tx_options fl"

section \<open>Two writes in one transaction\<close>

text \<open>
  The argument of every co-commit: if each of two methods, run on a live handle, has its effect on the
  database when it resolves, then the transaction either has both effects or none.
\<close>

locale co_commit = transaction_layer run_tx db_of live
  for run_tx :: "(nat \<Rightarrow> (js_error, 'w, 'b) exec) \<Rightarrow> (js_error, 'w, 'b) exec"
    and db_of :: "'w \<Rightarrow> 'd" and live :: "'w \<Rightarrow> nat \<Rightarrow> bool" +
  fixes first :: "nat \<Rightarrow> (js_error, 'w, 'a) exec"
    and second :: "nat \<Rightarrow> 'a \<Rightarrow> (js_error, 'w, 'b) exec"
    and effect1 :: "'d \<Rightarrow> 'a \<Rightarrow> 'd \<Rightarrow> bool"
    and effect2 :: "'d \<Rightarrow> 'a \<Rightarrow> 'b \<Rightarrow> 'd \<Rightarrow> bool"
  assumes first_effect: "first h w = (Inr a, w') \<Longrightarrow> effect1 (db_of w) a (db_of w')"
    and second_effect: "second h a w = (Inr b, w') \<Longrightarrow> effect2 (db_of w) a b (db_of w')"
begin

lemma both_or_none:
  assumes "run_tx (\<lambda>h. ebind (first h) (second h)) w = (r, w')"
  shows "case r of
      Inl e \<Rightarrow> db_of w' = db_of w
    | Inr b \<Rightarrow> \<exists>a d. effect1 (db_of w) a d \<and> effect2 d a b (db_of w')"
proof (cases r)
  case (Inl e)
  with assms rolled_back show ?thesis by simp
next
  case (Inr b)
  from committed [OF assms [unfolded Inr]] obtain h w1 w2 where w1: "db_of w1 = db_of w"
    and run: "ebind (first h) (second h) w1 = (Inr b, w2)" and w': "db_of w' = db_of w2" by blast
  from run obtain a w3 where "first h w1 = (Inr a, w3)" "second h a w3 = (Inr b, w2)" by (rule ebind_InrE)
  from first_effect [OF this(1)] second_effect [OF this(2)] show ?thesis
    unfolding Inr sum.case w1 w' by blast
qed

end

definition save_effect_on ::
  "(bytes \<Rightarrow> bytes) \<Rightarrow> pg_env \<Rightarrow> jsstr \<Rightarrow> jsstr \<Rightarrow> bytes \<Rightarrow> save_opts \<Rightarrow> db \<Rightarrow> checkpoint_summary \<Rightarrow> db \<Rightarrow> bool" where
  "save_effect_on sha env w net data opts d s d' \<longleftrightarrow>
     SaveCheckpointOptionsSchema opts \<and> cs_sequence s = next_sequence d w net
     \<and> (\<exists>label. d' = saved_db sha env w net (splitChunks data (chunk_size opts)) label d)"

definition cursor_effect_on :: "pg_env \<Rightarrow> cursor \<Rightarrow> db \<Rightarrow> db \<Rightarrow> bool" where
  "cursor_effect_on env cur d d' \<longleftrightarrow>
     (\<exists>ky. bind_key (cu_kind cur) (cu_key cur) = Inr ky
        \<and> d' = d\<lparr>watermarks := AList.update ky \<lparr>w_value = cu_value cur, w_updated_at = env_now env\<rparr> (watermarks d)\<rparr>)"

lemma save_in_tx_Inr:
  assumes "save sha env fl w net data (opts\<lparr>so_tx := Some h\<rparr>) world = (Inr s, world')"
  shows "save_effect_on sha env w net data opts (w_db world) s (w_db world')"
proof -
  let ?o = "opts\<lparr>so_tx := Some h\<rparr>"
  have schema: "SaveCheckpointOptionsSchema ?o" and impl: "saveImpl sha env fl w net data ?o world = (Inr s, world')"
    using assms by (auto simp: save_def validateSaveOptions_def withAbort_def elim!: ebind_InrE split: if_splits)
  from impl obtain d where "runOnTx sha env w net data ?o (w_db world) = (Inr s, d)" "w_db world' = d"
    by (auto simp: saveImpl_def on_db_Inr resolveTransaction_def elim!: ebind_InrE split: if_splits)
  with runOnTx_Inr [OF this(1)] schema show ?thesis
    by (auto simp: save_effect_on_def SaveCheckpointOptionsSchema_def chunk_size_def)
qed

interpretation save_advance: co_commit
  "\<lambda>fn. withTransaction fn no_tx_options fl" w_db is_live
  "\<lambda>tx. save sha env fl w net data (opts\<lparr>so_tx := Some tx\<rparr>)"
  "\<lambda>tx summary. ebind (set_watermark env' (cu_kind cur) (cu_key cur) (cu_value cur)
       \<lparr>wo_tx = Some tx, wo_signal = so_signal opts\<rparr>) (\<lambda>_. eret summary)"
  "save_effect_on sha env w net data opts"
  "\<lambda>d a b d'. b = a \<and> cursor_effect_on env' cur d d'"
proof unfold_locales
  fix h world a world'
  assume "save sha env fl w net data (opts\<lparr>so_tx := Some h\<rparr>) world = (Inr a, world')"
  then show "save_effect_on sha env w net data opts (w_db world) a (w_db world')" by (rule save_in_tx_Inr)
next
  fix h a world b world'
  assume "ebind (set_watermark env' (cu_kind cur) (cu_key cur) (cu_value cur)
       \<lparr>wo_tx = Some h, wo_signal = so_signal opts\<rparr>) (\<lambda>_. eret a) world = (Inr b, world')"
  then show "b = a \<and> cursor_effect_on env' cur (w_db world) (w_db world')"
    by (auto simp: cursor_effect_on_def elim!: ebind_InrE set_watermark_Inr)
qed

lemma saveAndAdvance_cases:
  assumes "saveAndAdvance sha env env' fl w net data cur opts world = (r, world')"
  shows "case r of
      Inl e \<Rightarrow> w_db world' = w_db world
    | Inr s \<Rightarrow> \<exists>d. save_effect_on sha env w net data opts (w_db world) s d \<and> cursor_effect_on env' cur d (w_db world')"
proof (cases r)
  case (Inl e)
  with save_advance.both_or_none [OF assms [unfolded saveAndAdvance_def]] show ?thesis by simp
next
  case (Inr s)
  with save_advance.both_or_none [OF assms [unfolded saveAndAdvance_def]] show ?thesis by auto
qed

lemma cursor_effect_frame:
  assumes "cursor_effect_on env cur d d'"
  shows "ckpts d' w net = ckpts d w net" and "ckpt_inv sha d' = ckpt_inv sha d" and "stored_data d' = stored_data d"
    and "next_sequence d' w net = next_sequence d w net"
proof -
  from assms obtain al where d': "d' = d\<lparr>watermarks := al\<rparr>" by (auto simp: cursor_effect_on_def)
  have m: "complete_manifests w net d' = complete_manifests w net d" for w net by (simp add: d' complete_manifests_def)
  have j: "junction_of i d' = junction_of i d" for i by (simp add: d' junction_of_def)
  have c: "chunk_data d' h = chunk_data d h" for h by (simp add: d' chunk_data_def)
  have a: "abs_ckpt d' = abs_ckpt d" by (rule ext) (simp add: abs_ckpt_def payload_def j c)
  show "ckpts d' w net = ckpts d w net" by (simp add: ckpts_def m a)
  have "manifest_ok sha d' = manifest_ok sha d" by (rule ext) (simp add: manifest_ok_def j, simp add: d')
  moreover have "seqs_ok d' = seqs_ok d" by (simp add: seqs_ok_def m, simp add: d')
  ultimately show "ckpt_inv sha d' = ckpt_inv sha d" by (simp add: ckpt_inv_def, simp add: d' refs_ok_def)
  show "stored_data d' = stored_data d" by (simp add: d' stored_data_def)
  show "next_sequence d' w net = next_sequence d w net" by (simp add: d' next_sequence_def)
qed

lemma saveAndAdvance_committed:
  assumes inv: "ckpt_inv sha (w_db world)" and run: "saveAndAdvance sha env env' fl w net data cur opts world = (Inr s, world')"
    and free: "collision_free sha (stored_data (w_db world) \<union> set (splitChunks data (chunk_size opts)))"
  shows "ckpt_inv sha (w_db world')"
    and "\<exists>k. ckpts (w_db world') w net = ckpts (w_db world) w net @ [k] \<and> k_data k = data \<and> k_seq k = cs_sequence s"
    and "\<exists>ky. bind_key (cu_kind cur) (cu_key cur) = Inr ky
      \<and> cursor_at (w_db world') = (cursor_at (w_db world))(ky \<mapsto> cu_value cur)"
    and "stored_data (w_db world') \<subseteq> stored_data (w_db world) \<union> set (splitChunks data (chunk_size opts))"
proof -
  let ?chunks = "splitChunks data (chunk_size opts)"
  from saveAndAdvance_cases [OF run] obtain d label where schema: "SaveCheckpointOptionsSchema opts"
    and s: "cs_sequence s = next_sequence (w_db world) w net"
    and d: "d = saved_db sha env w net ?chunks label (w_db world)" and e: "cursor_effect_on env' cur d (w_db world')"
    by (auto simp: save_effect_on_def)
  note frame = cursor_effect_frame [OF e]
  show "ckpt_inv sha (w_db world')" by (simp add: frame(2) d ckpt_inv_saved [OF inv])
  have "concat ?chunks = data" using chunk_size_pos [OF schema] by (rule splitChunks_concat)
  then show "\<exists>k. ckpts (w_db world') w net = ckpts (w_db world) w net @ [k] \<and> k_data k = data \<and> k_seq k = cs_sequence s"
    using ckpts_saved [OF inv free, of env w net label w net] s by (simp add: frame(1) d)
  have "cursor_at d = cursor_at (w_db world)" by (rule ext) (simp add: d cursor_at_def saved_db_def)
  with e show "\<exists>ky. bind_key (cu_kind cur) (cu_key cur) = Inr ky
      \<and> cursor_at (w_db world') = (cursor_at (w_db world))(ky \<mapsto> cu_value cur)"
    by (auto simp: cursor_effect_on_def cursor_at_update)
  show "stored_data (w_db world') \<subseteq> stored_data (w_db world) \<union> set ?chunks"
    using stored_data_saved [OF inv] by (simp add: frame(3) d)
qed

section \<open>Properties\<close>


definition demo_cursor :: cursor where
  "demo_cursor = \<lparr>cu_kind = js ''chain'', cu_key = js ''tip'', cu_value = JBool True\<rparr>"

lemma demo_collision_free:
  "collision_free pad32 (stored_data (w_db initial_world) \<union> set (splitChunks [1, 2, 3, 1, 2] (chunk_size demo_opts)))"
  using demo_save_ok by (simp add: save_ok_def Let_def)


type_synonym advance_call = "pg_env \<times> pg_env \<times> tx_faults \<times> bytes \<times> jsval \<times> save_opts"

fun advance_call ::
  "(bytes \<Rightarrow> bytes) \<Rightarrow> jsstr \<Rightarrow> jsstr \<Rightarrow> jsstr \<Rightarrow> jsstr \<Rightarrow> advance_call \<Rightarrow> checkpoint_summary run" where
  "advance_call sha w net kind key (env, env', fl, data, value, opts) =
     saveAndAdvance sha env env' fl w net data \<lparr>cu_kind = kind, cu_key = key, cu_value = value\<rparr> opts"

fun call_chunks :: "advance_call \<Rightarrow> bytes set" where
  "call_chunks (_, _, _, data, _, opts) = set (splitChunks data (chunk_size opts))"

text \<open>The cursor and the newest checkpoint come from the same call, or neither exists.\<close>

definition in_step :: "jsstr \<Rightarrow> jsstr \<Rightarrow> jsstr \<times> jsstr \<Rightarrow> advance_call set \<Rightarrow> db \<Rightarrow> bool" where
  "in_step w net ky calls d \<longleftrightarrow>
     (if ckpts d w net = [] then cursor_at d ky = None
      else \<exists>(env, env', fl, data, value, opts) \<in> calls.
             k_data (last (ckpts d w net)) = data \<and> cursor_at d ky = Some value)"

lemma advance_step:
  assumes c: "c \<in> calls" and ky: "bind_key kind key = Inr ky" and free: "collision_free sha X" "call_chunks c \<subseteq> X"
    and inv: "ckpt_inv sha (w_db world)" "stored_data (w_db world) \<subseteq> X" "in_step w net ky calls (w_db world)"
    and run: "advance_call sha w net kind key c world = (r, world')"
  shows "ckpt_inv sha (w_db world') \<and> stored_data (w_db world') \<subseteq> X \<and> in_step w net ky calls (w_db world')"
proof -
  obtain env env' fl data v opts where cc: "c = (env, env', fl, data, v, opts)" by (cases c)
  let ?chunks = "splitChunks data (chunk_size opts)"
  have run': "saveAndAdvance sha env env' fl w net data \<lparr>cu_kind = kind, cu_key = key, cu_value = v\<rparr> opts world = (r, world')"
    using run cc by simp
  show ?thesis
  proof (cases r)
    case (Inl e)
    with saveAndAdvance_cases [OF run'] inv show ?thesis by simp
  next
    case (Inr s)
    have sub: "stored_data (w_db world) \<union> set ?chunks \<subseteq> X" using inv(2) free(2) cc by simp
    then have "collision_free sha (stored_data (w_db world) \<union> set ?chunks)"
      using free(1) by (auto simp: collision_free_def elim: inj_on_subset)
    note eff = saveAndAdvance_committed [OF inv(1) run' [unfolded Inr] this]
    from eff(2) have "ckpts (w_db world') w net \<noteq> []" "k_data (last (ckpts (w_db world') w net)) = data" by auto
    moreover from eff(3) ky have "cursor_at (w_db world') ky = Some v" by auto
    ultimately have "in_step w net ky calls (w_db world')" using c cc by (force simp: in_step_def)
    with eff(1,4) sub show ?thesis by blast
  qed
qed



end
