(* ===== verification/TemporalKV.thy ===== *)
theory TemporalKV
  imports TransactionLease
begin

text \<open>
  The versioned key-value store: \<^verbatim>\<open>src/src/postgres/temporal-kv.ts\<close> over the tables, the
  history trigger and the constraints of \<^verbatim>\<open>migrations/001_temporal_kv.ts\<close>. The abstract
  contract is one append-only list of (value, instant) pairs per key; the refinement lemmas say what
  every method does to it or reads from it, error branches included.
\<close>

section \<open>Rows and entries\<close>

record versioned_entry =
  ve_namespace :: jsstr
  ve_scope :: jsstr
  ve_key :: jsstr
  ve_value :: jsval
  ve_version :: int
  ve_writtenAt :: int

text \<open>The row shape every query of the module returns: value, version, written at.\<close>

type_synonym kv_row = "jsval \<times> int \<times> int"

definition VersionedEntrySchema :: "versioned_entry \<Rightarrow> bool" where
  "VersionedEntrySchema e \<longleftrightarrow>
     NamespaceSchema (ve_namespace e) \<and> ScopeSchema (ve_scope e) \<and> KeySchema (ve_key e)
     \<and> JsonValueSchema (ve_value e) \<and> StoredVersionSchema (ve_version e)"

fun toEntry :: "kvkey \<Rightarrow> kv_row \<Rightarrow> js_error + versioned_entry" where
  "toEntry (ns, scope, key) (value, version, written_at) =
     (let e = \<lparr>ve_namespace = ns, ve_scope = scope, ve_key = key, ve_value = value,
               ve_version = version, ve_writtenAt = to_Date written_at\<rparr>
      in if VersionedEntrySchema e then Inr e else Inl (validation_error ''PgTemporalKV row''))"

definition current_kv_row :: "kv_current_row \<Rightarrow> kv_row" where
  "current_kv_row r = (c_value r, c_version r, c_updated_at r)"

definition history_kv_row :: "kv_history_row \<Rightarrow> kv_row" where
  "history_kv_row h = (h_value h, h_version h, h_valid_from h)"

section \<open>The server side: constraints and the history trigger\<close>

text \<open>
  The driver's parameter for \<^verbatim>\<open>sql.json(value)\<close>: a top-level JSON \<^verbatim>\<open>null\<close> is bound
  as SQL NULL, as the comment at \<^verbatim>\<open>watermarks.ts\<close> lines 47 to 59 records.
\<close>

fun bind_json :: "jsval \<Rightarrow> jsval option" where
  "bind_json JNull = None"
| "bind_json v = Some v"

text \<open>
  INSERT into \<^verbatim>\<open>kv_history\<close>. The generated column \<^verbatim>\<open>validity\<close> is computed before
  the constraints are checked, and the range constructor refuses a lower bound above the upper one
  with SQLSTATE 22000; an empty range is refused by the CHECK \<^verbatim>\<open>kv_history_range\<close>, an
  overlapping one by the EXCLUDE constraint.
\<close>

definition overlaps :: "kv_history_row \<Rightarrow> kv_history_row \<Rightarrow> bool" where
  "overlaps a b \<longleftrightarrow> h_key a = h_key b \<and> h_valid_from a < h_valid_to b \<and> h_valid_from b < h_valid_to a"

definition insert_kv_history :: "kv_history_row \<Rightarrow> unit dbrun" where
  "insert_kv_history h d =
     (if h_valid_to h < h_valid_from h then (Inl (pg_error ''22000'' None), d)
      else if h_valid_from h = h_valid_to h then (Inl (pg_error ''23514'' (Some ''kv_history_range'')), d)
      else if list_ex (overlaps h) (kv_history d)
      then (Inl (pg_error ''23P01'' (Some ''kv_history_no_overlap'')), d)
      else (Inr (), d\<lparr>kv_history := kv_history d @ [h]\<rparr>))"

text \<open>
  The BEFORE UPDATE trigger: refuse a second write of the same transaction, archive the old row, and
  stamp the new one. It returns the new \<^verbatim>\<open>updated_at\<close> and \<^verbatim>\<open>updated_xact\<close>.
\<close>

definition kv_current_history_trigger ::
  "pg_env \<Rightarrow> kvkey \<Rightarrow> kv_current_row \<Rightarrow> (int \<times> int) dbrun" where
  "kv_current_history_trigger env k old =
     (let now_xact = env_xact env; now_ts = date_trunc_ms (env_clock env) in
      if c_updated_xact old = now_xact then ethrow (pg_error ''UB001'' None)
      else ebind (insert_kv_history \<lparr>h_key = k, h_value = c_value old, h_version = c_version old,
                    h_valid_from = c_updated_at old, h_valid_to = now_ts\<rparr>)
             (\<lambda>_. eret (now_ts, now_xact)))"

definition not_null :: "'a option \<Rightarrow> 'a dbrun" where
  "not_null b = (case b of None \<Rightarrow> ethrow (pg_error ''23502'' None) | Some v \<Rightarrow> eret v)"

definition next_version :: "int \<Rightarrow> int dbrun" where
  "next_version v = (if v = POSTGRES_BIGINT_MAX then ethrow (pg_error ''22003'' None) else eret (v + 1))"

text \<open>A failing statement changes nothing, whatever its trigger did before the failure.\<close>

definition atomically :: "'a dbrun \<Rightarrow> 'a dbrun" where
  "atomically m d = (case m d of (Inl e, _) \<Rightarrow> (Inl e, d) | (Inr a, d') \<Rightarrow> (Inr a, d'))"

definition set_current :: "kvkey \<Rightarrow> kv_current_row \<Rightarrow> kv_row dbrun" where
  "set_current k r d = (Inr (current_kv_row r), d\<lparr>kv_current := AList.update k r (kv_current d)\<rparr>)"

text \<open>INSERT of a fresh row: version 1, the column defaults for the stamps.\<close>

definition insert_current :: "pg_env \<Rightarrow> kvkey \<Rightarrow> jsval \<Rightarrow> kv_row dbrun" where
  "insert_current env k v =
     set_current k \<lparr>c_value = v, c_version = 1, c_updated_at = date_trunc_ms (env_clock env),
                   c_updated_xact = env_xact env\<rparr>"

text \<open>UPDATE of a present row: the SET expressions, the trigger, the NOT NULL check, the write.\<close>

definition update_current :: "pg_env \<Rightarrow> kvkey \<Rightarrow> jsval option \<Rightarrow> kv_current_row \<Rightarrow> kv_row dbrun" where
  "update_current env k b old =
     atomically
       (ebind (next_version (c_version old)) (\<lambda>ver.
        ebind (kv_current_history_trigger env k old) (\<lambda>(ts, xact).
        ebind (not_null b) (\<lambda>v.
          set_current k \<lparr>c_value = v, c_version = ver, c_updated_at = ts, c_updated_xact = xact\<rparr>))))"

definition select_current :: "kvkey \<Rightarrow> kv_row option dbrun" where
  "select_current k d = (Inr (map_option current_kv_row (map_of (kv_current d) k)), d)"

section \<open>put\<close>

definition validateNamespaceScope :: "jsstr \<Rightarrow> jsstr \<Rightarrow> js_error + unit" where
  "validateNamespaceScope ns scope =
     (if \<not> NamespaceSchema ns then Inl (validation_error ''PgTemporalKV namespace'')
      else if \<not> ScopeSchema scope then Inl (validation_error ''PgTemporalKV scope'')
      else Inr ())"

fun validateKey :: "kvkey \<Rightarrow> js_error + unit" where
  "validateKey (ns, scope, key) =
     (case validateNamespaceScope ns scope of
        Inl e \<Rightarrow> Inl e
      | Inr _ \<Rightarrow> if \<not> KeySchema key then Inl (validation_error ''PgTemporalKV key'') else Inr ())"

text \<open>Case 1, no expected version: INSERT ... ON CONFLICT DO UPDATE.\<close>

definition upsert :: "pg_env \<Rightarrow> kvkey \<Rightarrow> jsval option \<Rightarrow> kv_row dbrun" where
  "upsert env k b d =
     (case b of
        None \<Rightarrow> (Inl (pg_error ''23502'' None), d)
      | Some v \<Rightarrow>
          (case map_of (kv_current d) k of
             None \<Rightarrow> insert_current env k v d
           | Some old \<Rightarrow> update_current env k b old d))"

text \<open>Case 2, expected version 0: INSERT ... ON CONFLICT DO NOTHING.\<close>

definition insert_if_absent :: "pg_env \<Rightarrow> kvkey \<Rightarrow> jsval option \<Rightarrow> kv_row option dbrun" where
  "insert_if_absent env k b d =
     (case b of
        None \<Rightarrow> (Inl (pg_error ''23502'' None), d)
      | Some v \<Rightarrow>
          (case map_of (kv_current d) k of
             None \<Rightarrow> ebind (insert_current env k v) (\<lambda>r. eret (Some r)) d
           | Some _ \<Rightarrow> (Inr None, d)))"

text \<open>Case 3, a specific expected version: a guarded UPDATE.\<close>

definition guarded_update :: "pg_env \<Rightarrow> kvkey \<Rightarrow> jsval option \<Rightarrow> int \<Rightarrow> kv_row option dbrun" where
  "guarded_update env k b ev d =
     (case map_of (kv_current d) k of
        None \<Rightarrow> (Inr None, d)
      | Some old \<Rightarrow>
          (if c_version old = ev
           then ebind (update_current env k b old) (\<lambda>r. eret (Some r)) d
           else (Inr None, d)))"

definition kv_catch :: "kvkey \<Rightarrow> js_error \<Rightarrow> js_error" where
  "kv_catch k err =
     (case err of
        StorageErr (VersionConflictError _ _) \<Rightarrow> err
      | _ \<Rightarrow> translatePostgresError err (Some k))"

text \<open>\<^verbatim>\<open>existing[0]?.version\<close>: the re-read after zero affected rows.\<close>

definition conflict_after_reread :: "pg_env \<Rightarrow> kvkey \<Rightarrow> int \<Rightarrow> versioned_entry dbrun" where
  "conflict_after_reread env k ev =
     ebind (stmt env 1 (select_current k)) (\<lambda>existing.
       ethrow (StorageErr (VersionConflictError ev (map_option (\<lambda>(_, ver, _). ver) existing))))"

definition putImpl :: "pg_env \<Rightarrow> kvkey \<Rightarrow> jsval \<Rightarrow> int option \<Rightarrow> versioned_entry dbrun" where
  "putImpl env k value expectedVersion =
     (let b = bind_json value in
      emap_error (kv_catch k)
        (case expectedVersion of
           None \<Rightarrow> ebind (stmt env 0 (upsert env k b)) (\<lambda>row. elift (toEntry k row))
         | Some ev \<Rightarrow>
             (if ev = 0 then
                ebind (stmt env 0 (insert_if_absent env k b)) (\<lambda>rows.
                  (case rows of
                     Some row \<Rightarrow> elift (toEntry k row)
                   | None \<Rightarrow> conflict_after_reread env k 0))
              else
                ebind (stmt env 0 (guarded_update env k b ev)) (\<lambda>rows.
                  (case rows of
                     Some row \<Rightarrow> elift (toEntry k row)
                   | None \<Rightarrow> conflict_after_reread env k ev)))))"

record put_opts =
  po_expectedVersion :: "int option"
  po_tx :: "nat option"
  po_signal :: signal

definition put :: "pg_env \<Rightarrow> kvkey \<Rightarrow> jsval \<Rightarrow> put_opts \<Rightarrow> versioned_entry run" where
  "put env k value opts =
     ebind (sql_of (po_tx opts)) (\<lambda>_.
     ebind (elift (validateKey k)) (\<lambda>_.
     ebind (if JsonValueSchema value then eret () else ethrow (validation_error ''PgTemporalKV value'')) (\<lambda>_.
     ebind (case po_expectedVersion opts of
              Some ev \<Rightarrow> (if ExpectedVersionSchema ev then eret ()
                          else ethrow (validation_error ''PgTemporalKV expectedVersion''))
            | None \<Rightarrow> eret ()) (\<lambda>_.
       withAbort (on_db (putImpl env k value (po_expectedVersion opts))) (po_signal opts)))))"

section \<open>Reads\<close>

record read_opts =
  ro_tx :: "nat option"
  ro_signal :: signal

definition plain_read :: read_opts where
  "plain_read = \<lparr>ro_tx = None, ro_signal = NoSignal\<rparr>"

definition entry_option :: "kvkey \<Rightarrow> kv_row option \<Rightarrow> js_error + versioned_entry option" where
  "entry_option k row = (case row of None \<Rightarrow> Inr None | Some r \<Rightarrow> map_sum id Some (toEntry k r))"

definition getImpl :: "pg_env \<Rightarrow> kvkey \<Rightarrow> versioned_entry option dbrun" where
  "getImpl env k =
     emap_error (\<lambda>err. translatePostgresError err (Some k))
       (ebind (stmt env 0 (select_current k)) (\<lambda>row. elift (entry_option k row)))"

definition get :: "pg_env \<Rightarrow> kvkey \<Rightarrow> read_opts \<Rightarrow> versioned_entry option run" where
  "get env k opts =
     ebind (sql_of (ro_tx opts)) (\<lambda>_.
     ebind (elift (validateKey k)) (\<lambda>_.
       withAbort (on_db (getImpl env k)) (ro_signal opts)))"

text \<open>
  The two UNION ALL queries of \<^verbatim>\<open>getAtImpl\<close>: rows of the history first (priority 0), then the
  current row (priority 1), LIMIT 1. \<^verbatim>\<open>validity\<close> is the half-open range from
  \<^verbatim>\<open>valid_from\<close> to \<^verbatim>\<open>valid_to\<close>.
\<close>

definition at_version :: "kvkey \<Rightarrow> int \<Rightarrow> db \<Rightarrow> kv_row list" where
  "at_version k v d =
     map history_kv_row (filter (\<lambda>h. h_key h = k \<and> h_version h = v) (kv_history d))
     @ map current_kv_row (filter (\<lambda>r. c_version r = v)
         (case map_of (kv_current d) k of None \<Rightarrow> [] | Some r \<Rightarrow> [r]))"

definition at_instant :: "kvkey \<Rightarrow> int \<Rightarrow> db \<Rightarrow> kv_row list" where
  "at_instant k t d =
     map history_kv_row (filter (\<lambda>h. h_key h = k \<and> h_valid_from h \<le> t \<and> t < h_valid_to h) (kv_history d))
     @ map current_kv_row (filter (\<lambda>r. c_updated_at r \<le> t)
         (case map_of (kv_current d) k of None \<Rightarrow> [] | Some r \<Rightarrow> [r]))"

text \<open>The caller's selector; the last constructor is any value with another discriminant.\<close>

datatype as_of_arg = ByVersion int | ByInstant "int option" | BadKind

fun getAt_query :: "kvkey \<Rightarrow> as_of_arg \<Rightarrow> db \<Rightarrow> kv_row list" where
  "getAt_query k (ByVersion v) d = at_version k v d"
| "getAt_query k (ByInstant (Some t)) d = at_instant k (of_Date t) d"
| "getAt_query k _ d = []"

definition getAtImpl :: "pg_env \<Rightarrow> kvkey \<Rightarrow> as_of_arg \<Rightarrow> versioned_entry option dbrun" where
  "getAtImpl env k asOf =
     emap_error (\<lambda>err. translatePostgresError err (Some k))
       (ebind (stmt env 0 (\<lambda>d. (Inr (limit1 (getAt_query k asOf d)), d))) (\<lambda>row. elift (entry_option k row)))"

fun validateAsOf :: "as_of_arg \<Rightarrow> js_error + unit" where
  "validateAsOf (ByVersion v) =
     (if StoredVersionSchema v then Inr () else Inl (validation_error ''PgTemporalKV getAt asOf.version''))"
| "validateAsOf (ByInstant (Some _)) = Inr ()"
| "validateAsOf (ByInstant None) = Inl (validation_error ''PgTemporalKV getAt: asOf.at must be a valid Date'')"
| "validateAsOf BadKind = Inl (validation_error ''PgTemporalKV getAt: asOf'')"

definition getAt :: "pg_env \<Rightarrow> kvkey \<Rightarrow> as_of_arg \<Rightarrow> read_opts \<Rightarrow> versioned_entry option run" where
  "getAt env k asOf opts =
     ebind (sql_of (ro_tx opts)) (\<lambda>_.
     ebind (elift (validateKey k)) (\<lambda>_.
     ebind (elift (validateAsOf asOf)) (\<lambda>_.
       withAbort (on_db (getAtImpl env k asOf)) (ro_signal opts))))"

section \<open>listKeys\<close>

text \<open>
  The generator over a cursor of batches of 256 rows. What the outside does is an argument: for each
  \<^verbatim>\<open>iterator.next()\<close> whether the batch arrives, the fetch fails, or the signal fires first;
  and, for the check before each \<^verbatim>\<open>yield\<close>, whether \<^verbatim>\<open>signal.aborted\<close> is set by
  then. The result is what was yielded and how the iteration ended.
\<close>

datatype fetch = Arrives | FetchFails js_error | AbortFires

record cursor_env =
  ce_fetch :: "nat \<Rightarrow> fetch"
  ce_aborted :: "nat \<Rightarrow> bool"

fun yield_rows :: "(nat \<Rightarrow> bool) \<Rightarrow> nat \<Rightarrow> jsstr list \<Rightarrow> bool \<times> jsstr list" where
  "yield_rows ab n [] = (False, [])"
| "yield_rows ab n (r # rs) =
     (if ab n then (True, [])
      else (case yield_rows ab (Suc n) rs of (stopped, ys) \<Rightarrow> (stopped, r # ys)))"

definition fetch_error :: "bool \<Rightarrow> js_error \<Rightarrow> js_error" where
  "fetch_error is_aborted err =
     (if err = AbortErr then err else if is_aborted then AbortErr else translatePostgresError err None)"

fun cursor_loop ::
  "(nat \<Rightarrow> fetch) \<Rightarrow> (nat \<Rightarrow> bool) \<Rightarrow> nat \<Rightarrow> nat \<Rightarrow> jsstr list list \<Rightarrow> jsstr list \<times> (js_error + unit)" where
  "cursor_loop fetches ab i n [] =
     (case fetches i of
        AbortFires \<Rightarrow> ([], Inl AbortErr)
      | FetchFails e \<Rightarrow> ([], Inl (fetch_error (ab n) e))
      | Arrives \<Rightarrow> ([], Inr ()))"
| "cursor_loop fetches ab i n (b # bs) =
     (case fetches i of
        AbortFires \<Rightarrow> ([], Inl AbortErr)
      | FetchFails e \<Rightarrow> ([], Inl (fetch_error (ab n) e))
      | Arrives \<Rightarrow>
          (case yield_rows ab n b of
             (True, ys) \<Rightarrow> (ys, Inl AbortErr)
           | (False, ys) \<Rightarrow>
               (case cursor_loop fetches ab (Suc i) (n + length b) bs of (zs, r) \<Rightarrow> (ys @ zs, r))))"

text \<open>
  \<^verbatim>\<open>ORDER BY key\<close> uses the collation of the database, which is configuration of the server:
  \<open>collate\<close> maps a key to its rank.
\<close>

definition listKeys_rows :: "(jsstr \<Rightarrow> 'o::linorder) \<Rightarrow> jsstr \<Rightarrow> jsstr \<Rightarrow> jsstr \<Rightarrow> db \<Rightarrow> jsstr list" where
  "listKeys_rows collate ns scope escaped d =
     sort_key collate
       (map (\<lambda>((_, _, key), _). key)
         (filter (\<lambda>((n, s, key), _). n = ns \<and> s = scope \<and> like escaped key) (kv_current d)))"

definition listKeys ::
  "(jsstr \<Rightarrow> 'o::linorder) \<Rightarrow> cursor_env \<Rightarrow> jsstr \<Rightarrow> jsstr \<Rightarrow> jsstr \<Rightarrow> read_opts \<Rightarrow> world
    \<Rightarrow> jsstr list \<times> (js_error + unit)" where
  "listKeys collate ce ns scope prefix opts w =
     (case fst (sql_of (ro_tx opts) w) of
        Inl e \<Rightarrow> ([], Inl e)
      | Inr _ \<Rightarrow>
          (case validateNamespaceScope ns scope of
             Inl e \<Rightarrow> ([], Inl e)
           | Inr _ \<Rightarrow>
               (if hasPostgresUnsafeText prefix
                then ([], Inl (validation_error ''PgTemporalKV listKeys: prefix''))
                else if aborted (ro_signal opts) then ([], Inl (abortError (ro_signal opts)))
                else
                  (let escaped = escapeLikePrefix prefix @ [percent];
                       batches = slices 256 0 (listKeys_rows collate ns scope escaped (w_db w))
                   in if ro_signal opts = NoSignal
                      then cursor_loop (\<lambda>i. case ce_fetch ce i of AbortFires \<Rightarrow> Arrives | f \<Rightarrow> f) (\<lambda>_. False) 0 0 batches
                      else cursor_loop (ce_fetch ce) (ce_aborted ce) 0 0 batches))))"

section \<open>The abstract store: one list of writes per key\<close>

definition hist :: "db \<Rightarrow> kvkey \<Rightarrow> kv_history_row list" where
  "hist d k = filter (\<lambda>h. h_key h = k) (kv_history d)"

text \<open>What has been written to a key, oldest first: the value and the instant of each version.\<close>

definition kv_versions :: "db \<Rightarrow> kvkey \<Rightarrow> (jsval \<times> int) list" where
  "kv_versions d k =
     (case map_of (kv_current d) k of
        None \<Rightarrow> []
      | Some r \<Rightarrow> map (\<lambda>h. (h_value h, h_valid_from h)) (hist d k) @ [(c_value r, c_updated_at r)])"

text \<open>The history rows that a list of writes determines.\<close>

definition hist_row :: "kvkey \<Rightarrow> (jsval \<times> int) list \<Rightarrow> nat \<Rightarrow> kv_history_row" where
  "hist_row k vs i = \<lparr>h_key = k, h_value = fst (vs ! i), h_version = int i + 1,
     h_valid_from = snd (vs ! i), h_valid_to = snd (vs ! Suc i)\<rparr>"

definition hist_of :: "kvkey \<Rightarrow> (jsval \<times> int) list \<Rightarrow> kv_history_row list" where
  "hist_of k vs = map (hist_row k vs) [0..<length vs - 1]"

definition writes_ok :: "(jsval \<times> int) list \<Rightarrow> bool" where
  "writes_ok vs \<longleftrightarrow> sorted_wrt (<) (map snd vs) \<and> int (length vs) \<le> POSTGRES_BIGINT_MAX
     \<and> (\<forall>(v, t) \<in> set vs. t mod 1000 = 0 \<and> JsonValueSchema v)"

definition kv_wf :: "db \<Rightarrow> kvkey \<Rightarrow> bool" where
  "kv_wf d k \<longleftrightarrow>
     hist d k = hist_of k (kv_versions d k) \<and> writes_ok (kv_versions d k)
     \<and> (\<forall>r. map_of (kv_current d) k = Some r \<longrightarrow> c_version r = int (length (kv_versions d k)))"

definition kv_inv :: "db \<Rightarrow> bool" where
  "kv_inv d \<longleftrightarrow> distinct (map fst (kv_current d)) \<and> (\<forall>k. kv_wf d k)"

lemma kv_inv_empty [simp]: "kv_inv empty_db"
  by (simp add: kv_inv_def kv_wf_def empty_db_def hist_def hist_of_def kv_versions_def writes_ok_def
      POSTGRES_BIGINT_MAX_def)

lemma kv_versions_empty [simp]: "kv_versions empty_db k = []"
  by (simp add: kv_versions_def)

lemma kv_invD:
  assumes "kv_inv d"
  shows "hist d k = hist_of k (kv_versions d k)" and "writes_ok (kv_versions d k)"
    and "map_of (kv_current d) k = Some r \<Longrightarrow> c_version r = int (length (kv_versions d k))"
  using assms unfolding kv_inv_def kv_wf_def by blast+

lemma kv_versions_Nil: "kv_versions d k = [] \<longleftrightarrow> map_of (kv_current d) k = None"
  by (auto simp: kv_versions_def split: option.splits)

lemma kv_versions_last:
  "map_of (kv_current d) k = Some r \<Longrightarrow>
   kv_versions d k \<noteq> [] \<and> last (kv_versions d k) = (c_value r, c_updated_at r)"
  by (simp add: kv_versions_def)

lemma hist_of_snoc:
  assumes "vs \<noteq> []"
  shows "hist_of k (vs @ [x]) = hist_of k vs @ [\<lparr>h_key = k, h_value = fst (last vs),
     h_version = int (length vs), h_valid_from = snd (last vs), h_valid_to = snd x\<rparr>]"
proof -
  obtain n where n: "length vs = Suc n" using assms by (cases vs) auto
  have "hist_of k (vs @ [x]) = map (hist_row k (vs @ [x])) [0..<n] @ [hist_row k (vs @ [x]) n]"
    by (simp add: hist_of_def n)
  moreover have "map (hist_row k (vs @ [x])) [0..<n] = hist_of k vs"
    by (simp add: hist_of_def hist_row_def n nth_append)
  moreover have "vs ! n = last vs" using assms n by (simp add: last_conv_nth)
  ultimately show ?thesis by (simp add: hist_row_def n nth_append)
qed

lemma hist_of_single [simp]: "hist_of k [x] = []"
  by (simp add: hist_of_def)

lemma writes_ok_nth_less: "writes_ok vs \<Longrightarrow> i < j \<Longrightarrow> j < length vs \<Longrightarrow> snd (vs ! i) < snd (vs ! j)"
  using sorted_wrt_nth_less [of "(<)" "map snd vs" i j] by (simp add: writes_ok_def)

lemma writes_ok_aligned:
  assumes "writes_ok vs" and "i < length vs"
  shows "snd (vs ! i) mod 1000 = 0"
proof -
  have "\<forall>x \<in> set vs. snd x mod 1000 = 0" using assms(1) by (auto simp: writes_ok_def)
  then show ?thesis using assms(2) by simp
qed

lemma writes_ok_le_last:
  assumes "writes_ok vs" and "i < length vs"
  shows "snd (vs ! i) \<le> snd (last vs)"
proof -
  have "vs \<noteq> []" using assms(2) by auto
  then have l: "last vs = vs ! (length vs - 1)" by (simp add: last_conv_nth)
  show ?thesis
  proof (cases "i = length vs - 1")
    case True
    with l show ?thesis by simp
  next
    case False
    with assms(2) have "i < length vs - 1" and "length vs - 1 < length vs" by linarith+
    from writes_ok_nth_less [OF assms(1) this] l show ?thesis by simp
  qed
qed

lemma hist_of_before_last:
  assumes "writes_ok vs" and "h \<in> set (hist_of k vs)"
  shows "h_valid_to h \<le> snd (last vs)" and "h_key h = k"
proof -
  from assms(2) obtain i where i: "i < length vs - 1" "h = hist_row k vs i" by (auto simp: hist_of_def)
  with writes_ok_le_last [OF assms(1), of "Suc i"]
  show "h_valid_to h \<le> snd (last vs)" by (simp add: hist_row_def)
  from i show "h_key h = k" by (simp add: hist_row_def)
qed

lemma writes_ok_snoc:
  assumes "writes_ok vs" and "vs \<noteq> [] \<Longrightarrow> snd (last vs) < t" and "t mod 1000 = 0" and "JsonValueSchema v"
    and "int (length vs) < POSTGRES_BIGINT_MAX"
  shows "writes_ok (vs @ [(v, t)])"
proof -
  have "snd x < t" if "x \<in> set vs" for x
  proof -
    from that obtain i where "i < length vs" "x = vs ! i" by (auto simp: in_set_conv_nth)
    moreover from that have "vs \<noteq> []" by auto
    ultimately show ?thesis using writes_ok_le_last [OF assms(1)] assms(2) by fastforce
  qed
  with assms show ?thesis by (auto simp: writes_ok_def sorted_wrt_append)
qed

lemma date_trunc_ms_mod [simp]: "date_trunc_ms t mod 1000 = 0"
  by (simp add: date_trunc_ms_def)

subsection \<open>What a successful write does to the tables\<close>

definition appended :: "kvkey \<Rightarrow> jsval \<Rightarrow> int \<Rightarrow> int \<Rightarrow> db \<Rightarrow> db" where
  "appended k v t x d =
     d\<lparr>kv_current := AList.update k \<lparr>c_value = v, c_version = int (length (kv_versions d k)) + 1,
          c_updated_at = t, c_updated_xact = x\<rparr> (kv_current d),
       kv_history := kv_history d @ (case map_of (kv_current d) k of None \<Rightarrow> [] | Some r \<Rightarrow>
         [\<lparr>h_key = k, h_value = c_value r, h_version = c_version r, h_valid_from = c_updated_at r, h_valid_to = t\<rparr>])\<rparr>"

lemma hist_appended:
  assumes "kv_inv d"
  shows "hist (appended k v t x d) k' = (if k' = k \<and> kv_versions d k \<noteq> []
     then hist d k @ [\<lparr>h_key = k, h_value = fst (last (kv_versions d k)), h_version = int (length (kv_versions d k)),
            h_valid_from = snd (last (kv_versions d k)), h_valid_to = t\<rparr>] else hist d k')"
  using kv_invD(3) [OF assms, of k] kv_versions_last [of d k] kv_versions_Nil [of d k]
  by (auto simp: hist_def appended_def split: option.splits)

lemma versions_appended:
  assumes "kv_inv d"
  shows "kv_versions (appended k v t x d) k' = (if k' = k then kv_versions d k @ [(v, t)] else kv_versions d k')"
proof (cases "k' = k")
  case True
  have "map_of (kv_current (appended k v t x d)) k
      = Some \<lparr>c_value = v, c_version = int (length (kv_versions d k)) + 1, c_updated_at = t, c_updated_xact = x\<rparr>"
    by (simp add: appended_def)
  moreover have "hist d k = []" if "kv_versions d k = []"
    using kv_invD(1) [OF assms, of k] that by (simp add: hist_of_def)
  moreover have "map (\<lambda>h. (h_value h, h_valid_from h)) (hist d k) @ [last (kv_versions d k)] = kv_versions d k"
    if "kv_versions d k \<noteq> []"
    using that kv_versions_last [of d k] by (auto simp: kv_versions_def split: option.splits)
  ultimately show ?thesis
    using True by (auto simp: kv_versions_def [of "appended k v t x d"] hist_appended [OF assms])
next
  case False
  then have "hist (appended k v t x d) k' = hist d k'"
    and "map_of (kv_current (appended k v t x d)) k' = map_of (kv_current d) k'"
    by (simp_all add: hist_appended [OF assms]) (simp add: appended_def)
  with False show ?thesis by (auto simp: kv_versions_def split: option.splits)
qed

lemma kv_inv_appended:
  assumes inv: "kv_inv d" and "kv_versions d k \<noteq> [] \<Longrightarrow> snd (last (kv_versions d k)) < t"
    and "t mod 1000 = 0" and "JsonValueSchema v" and "int (length (kv_versions d k)) < POSTGRES_BIGINT_MAX"
  shows "kv_inv (appended k v t x d)"
proof -
  have "distinct (map fst (kv_current (appended k v t x d)))"
    using inv by (simp add: kv_inv_def appended_def)
  moreover have "kv_wf (appended k v t x d) k'" for k'
  proof (cases "k' = k")
    case True
    have h: "hist (appended k v t x d) k = hist_of k (kv_versions d k @ [(v, t)])"
      using kv_invD(1) [OF inv, of k]
      by (cases "kv_versions d k = []") (simp_all add: hist_appended [OF inv] hist_of_snoc, simp add: hist_of_def)
    have "writes_ok (kv_versions d k @ [(v, t)])"
      by (rule writes_ok_snoc [OF kv_invD(2) [OF inv]]) (use assms(2-) in auto)
    with h True show ?thesis
      by (simp add: kv_wf_def versions_appended [OF inv]) (simp add: appended_def)
  next
    case False
    moreover have "kv_wf d k'" using inv by (simp add: kv_inv_def del: split_paired_All)
    ultimately show ?thesis
      by (simp add: kv_wf_def versions_appended [OF inv] hist_appended [OF inv]) (simp add: appended_def)
  qed
  ultimately show ?thesis by (simp add: kv_inv_def)
qed

section \<open>Writes\<close>

lemma atomically_Inl [simp]: "m d = (Inl e, d') \<Longrightarrow> atomically m d = (Inl e, d)"
  by (simp add: atomically_def)

lemma atomically_Inr [simp]: "m d = (Inr a, d') \<Longrightarrow> atomically m d = (Inr a, d')"
  by (simp add: atomically_def)

lemma no_overlap:
  assumes "kv_inv d" and "map_of (kv_current d) k = Some old"
  shows "\<not> list_ex (overlaps \<lparr>h_key = k, h_value = v, h_version = n, h_valid_from = c_updated_at old, h_valid_to = t\<rparr>)
     (kv_history d)"
proof -
  have "c_updated_at old \<ge> h_valid_to h" if "h \<in> set (kv_history d)" "h_key h = k" for h
  proof -
    from that have "h \<in> set (hist d k)" by (simp add: hist_def)
    then have "h \<in> set (hist_of k (kv_versions d k))" using kv_invD(1) [OF assms(1)] by simp
    from hist_of_before_last(1) [OF kv_invD(2) [OF assms(1)] this] kv_versions_last [OF assms(2)]
    show ?thesis by simp
  qed
  then show ?thesis by (fastforce simp: list_ex_iff overlaps_def)
qed

lemma update_current_spec:
  assumes "kv_inv d" and "map_of (kv_current d) k = Some old"
  shows "update_current env k (Some v) old d =
     (let t = date_trunc_ms (env_clock env) in
      if c_version old = POSTGRES_BIGINT_MAX then (Inl (pg_error ''22003'' None), d)
      else if c_updated_xact old = env_xact env then (Inl (pg_error ''UB001'' None), d)
      else if t < c_updated_at old then (Inl (pg_error ''22000'' None), d)
      else if t = c_updated_at old then (Inl (pg_error ''23514'' (Some ''kv_history_range'')), d)
      else (Inr (v, c_version old + 1, t), appended k v t (env_xact env) d))"
  using no_overlap [OF assms] assms(2) kv_invD(3) [OF assms]
  by (simp add: update_current_def atomically_def ebind_def next_version_def kv_current_history_trigger_def
      insert_kv_history_def not_null_def set_current_def current_kv_row_def Let_def appended_def)

lemma insert_current_spec:
  "map_of (kv_current d) k = None \<Longrightarrow>
   insert_current env k v d = (Inr (v, 1, date_trunc_ms (env_clock env)),
     appended k v (date_trunc_ms (env_clock env)) (env_xact env) d)"
  using kv_versions_Nil [of d k]
  by (simp add: insert_current_def set_current_def current_kv_row_def appended_def)

text \<open>The entry of the \<open>i\<close>-th write.\<close>

fun write_entry :: "kvkey \<Rightarrow> (jsval \<times> int) list \<Rightarrow> nat \<Rightarrow> versioned_entry" where
  "write_entry (ns, scope, key) vs i =
     \<lparr>ve_namespace = ns, ve_scope = scope, ve_key = key, ve_value = fst (vs ! i),
      ve_version = int i + 1, ve_writtenAt = to_Date (snd (vs ! i))\<rparr>"

lemma validateKey_Inr:
  "validateKey (ns, scope, key) = Inr u \<longleftrightarrow> NamespaceSchema ns \<and> ScopeSchema scope \<and> KeySchema key"
  by (auto simp: validateNamespaceScope_def split: if_splits)

lemma toEntry_write:
  assumes "validateKey k = Inr u" and "writes_ok vs" and "i < length vs"
  shows "toEntry k (fst (vs ! i), int i + 1, snd (vs ! i)) = Inr (write_entry k vs i)"
proof -
  obtain ns scope key where k: "k = (ns, scope, key)" by (cases k)
  have "(fst (vs ! i), snd (vs ! i)) \<in> set vs" using assms(3) by simp
  with assms(2) have "JsonValueSchema (fst (vs ! i))" unfolding writes_ok_def by blast
  moreover have "StoredVersionSchema (int i + 1)"
    using assms(2,3) by (simp add: writes_ok_def StoredVersionSchema_def)
  ultimately show ?thesis
    using assms(1) by (simp add: k validateKey_Inr VersionedEntrySchema_def Let_def del: validateKey.simps)
qed

text \<open>
  The contract of \<^verbatim>\<open>put\<close> on the list of writes of the key: which writes are accepted, and
  the typed error of each refusal. \<open>lx\<close> is the transaction that wrote the last version.
\<close>

definition put_spec ::
  "pg_env \<Rightarrow> kvkey \<Rightarrow> jsval \<Rightarrow> int option \<Rightarrow> int option \<Rightarrow> (jsval \<times> int) list
    \<Rightarrow> storage_error + (jsval \<times> int) list" where
  "put_spec env k v ev lx vs =
     (let t = date_trunc_ms (env_clock env); n = int (length vs) in
      if vs = [] then
        (if ev = None \<or> ev = Some 0 then Inr [(v, t)] else Inl (VersionConflictError (the ev) None))
      else if ev \<noteq> None \<and> ev \<noteq> Some n then Inl (VersionConflictError (the ev) (Some n))
      else if n = POSTGRES_BIGINT_MAX then Inl (UnrecognizedPostgresError [])
      else if lx = Some (env_xact env) then
        Inl (TransactionKeyReuseError (fst k) (fst (snd k)) (snd (snd k)))
      else if t < snd (last vs) then Inl (UnrecognizedPostgresError [])
      else if t = snd (last vs) then Inl (ClockRegressionError [])
      else Inr (vs @ [(v, t)]))"

definition last_xact :: "db \<Rightarrow> kvkey \<Rightarrow> int option" where
  "last_xact d k = map_option c_updated_xact (map_of (kv_current d) k)"

lemma toEntry_appended:
  assumes "kv_inv d" and "validateKey k = Inr u" and "JsonValueSchema v"
    and "kv_versions d k \<noteq> [] \<Longrightarrow> snd (last (kv_versions d k)) < t" and "t mod 1000 = 0"
    and "int (length (kv_versions d k)) < POSTGRES_BIGINT_MAX"
  shows "toEntry k (v, int (length (kv_versions d k)) + 1, t)
     = Inr (write_entry k (kv_versions d k @ [(v, t)]) (length (kv_versions d k)))"
proof -
  have "writes_ok (kv_versions d k @ [(v, t)])"
    by (rule writes_ok_snoc [OF kv_invD(2) [OF assms(1)]]) (use assms in auto)
  from toEntry_write [OF assms(2) this, of "length (kv_versions d k)"] show ?thesis by simp
qed

lemma bind_json_Some: "v \<noteq> JNull \<Longrightarrow> bind_json v = Some v"
  by (cases v) simp_all

lemma kv_catch_pg [simp]: "kv_catch k (pg_error code con) = StorageErr (translate_code code con [] (Some k))"
  by (simp add: kv_catch_def) (simp add: pg_error_def)

lemma kv_catch_conflict [simp]: "kv_catch k (StorageErr e) = StorageErr e"
  by (simp add: kv_catch_def split: storage_error.splits)

lemma putImpl_absent:
  assumes inv: "kv_inv d" and absent: "map_of (kv_current d) k = None"
    and ok: "validateKey k = Inr u" "JsonValueSchema v" "v \<noteq> JNull" "env_faults env = (\<lambda>_. None)"
  shows "putImpl env k v ev d =
     (if ev = None \<or> ev = Some 0
      then (Inr (write_entry k [(v, date_trunc_ms (env_clock env))] 0),
            appended k v (date_trunc_ms (env_clock env)) (env_xact env) d)
      else (Inl (StorageErr (VersionConflictError (the ev) None)), d))"
proof -
  let ?t = "date_trunc_ms (env_clock env)"
  have vs: "kv_versions d k = []" using absent by (simp add: kv_versions_Nil)
  have e: "toEntry k (v, 1, ?t) = Inr (write_entry k [(v, ?t)] 0)"
    using toEntry_appended [OF inv ok(1,2), of ?t] by (simp add: vs POSTGRES_BIGINT_MAX_def)
  show ?thesis
    using ok(3,4) absent e
    by (cases "ev = Some 0"; cases ev)
       (simp_all add: putImpl_def Let_def bind_json_Some upsert_def insert_if_absent_def guarded_update_def
        emap_error_def ebind_def insert_current_spec conflict_after_reread_def select_current_def)
qed

lemma putImpl_present:
  assumes inv: "kv_inv d" and pres: "map_of (kv_current d) k = Some old"
    and ok: "validateKey k = Inr u" "JsonValueSchema v" "v \<noteq> JNull" "env_faults env = (\<lambda>_. None)"
  shows "putImpl env k v ev d =
     (case put_spec env k v ev (Some (c_updated_xact old)) (kv_versions d k) of
        Inl e \<Rightarrow> (Inl (StorageErr e), d)
      | Inr vs \<Rightarrow> (Inr (write_entry k vs (length vs - 1)),
                  appended k v (date_trunc_ms (env_clock env)) (env_xact env) d))"
proof -
  let ?t = "date_trunc_ms (env_clock env)" and ?vs = "kv_versions d k"
  have l: "?vs \<noteq> []" "snd (last ?vs) = c_updated_at old" "c_version old = int (length ?vs)"
    using kv_versions_last [OF pres] kv_invD(3) [OF inv pres] by simp_all
  have e: "toEntry k (v, int (length ?vs) + 1, ?t) = Inr (write_entry k (?vs @ [(v, ?t)]) (length ?vs))"
    if "c_updated_at old < ?t" "int (length ?vs) \<noteq> POSTGRES_BIGINT_MAX"
    by (rule toEntry_appended [OF inv ok(1,2)])
       (use that l kv_invD(2) [OF inv, of k] in \<open>auto simp: writes_ok_def\<close>)
  obtain a b c where k: "k = (a, b, c)" by (cases k)
  note defs = putImpl_def bind_json_Some emap_error_def ebind_def put_spec_def Let_def
    update_current_spec [OF inv pres] l k [symmetric]
  show ?thesis
  proof (cases ev)
    case None
    with ok(3,4) pres e show ?thesis by (simp add: defs upsert_def) (simp add: k)
  next
    case (Some n)
    show ?thesis
    proof (cases "n = 0")
      case True
      with Some ok(3,4) pres l show ?thesis
        by (simp add: defs insert_if_absent_def conflict_after_reread_def select_current_def current_kv_row_def)
    next
      case False
      with Some ok(3,4) pres e show ?thesis
        by (simp add: defs guarded_update_def conflict_after_reread_def select_current_def current_kv_row_def)
           (simp add: k)
    qed
  qed
qed

subsection \<open>Every outcome keeps the invariant\<close>

lemma update_current_null: "snd (update_current env k None old d) = d"
  by (auto simp: update_current_def atomically_def ebind_def next_version_def not_null_def
      split: prod.splits sum.splits)

lemma kv_inv_update:
  assumes "kv_inv d" and "map_of (kv_current d) k = Some old" and "\<And>v. b = Some v \<Longrightarrow> JsonValueSchema v"
  shows "kv_inv (snd (update_current env k b old d))"
proof (cases b)
  case None
  with assms(1) show ?thesis by (simp add: update_current_null)
next
  case (Some v)
  let ?t = "date_trunc_ms (env_clock env)"
  have "kv_inv (appended k v ?t (env_xact env) d)"
    if "c_version old \<noteq> POSTGRES_BIGINT_MAX" "c_updated_at old < ?t"
  proof (rule kv_inv_appended [OF assms(1)])
    show "int (length (kv_versions d k)) < POSTGRES_BIGINT_MAX"
      using that(1) kv_invD(2) [OF assms(1), of k] kv_invD(3) [OF assms(1,2)] by (simp add: writes_ok_def)
  qed (use that(2) Some assms(3) kv_versions_last [OF assms(2)] in simp_all)
  with assms(1) Some show ?thesis
    by (auto simp: update_current_spec [OF assms(1,2)] Let_def)
qed

lemma kv_inv_insert:
  assumes "kv_inv d" and "map_of (kv_current d) k = None" and "JsonValueSchema v"
  shows "kv_inv (snd (insert_current env k v d))"
  using kv_inv_appended [OF assms(1), of k _ v] assms(2,3) kv_versions_Nil [of d k]
  by (simp add: insert_current_spec POSTGRES_BIGINT_MAX_def)

lemma keeps_upsert: "JsonValueSchema v \<Longrightarrow> keeps kv_inv (upsert env k (bind_json v))"
  by (cases "v = JNull")
     (auto simp: keeps_def upsert_def bind_json_Some kv_inv_insert split: option.splits intro!: kv_inv_update)

lemma snd_ebind_eret [simp]: "snd (ebind m (\<lambda>r. eret (f r)) d) = snd (m d)"
  by (auto simp: ebind_def split: prod.splits sum.splits)

lemma keeps_insert_if_absent: "JsonValueSchema v \<Longrightarrow> keeps kv_inv (insert_if_absent env k (bind_json v))"
  by (cases "v = JNull")
     (auto simp: keeps_def insert_if_absent_def bind_json_Some kv_inv_insert split: option.splits
       simp del: eret_app)

lemma keeps_guarded_update: "JsonValueSchema v \<Longrightarrow> keeps kv_inv (guarded_update env k (bind_json v) ev)"
  by (cases "v = JNull")
     (auto simp: keeps_def guarded_update_def bind_json_Some split: option.splits intro!: kv_inv_update
       simp del: eret_app)

lemma keeps_reread: "keeps P (conflict_after_reread env k ev)"
  unfolding conflict_after_reread_def
  by (intro keeps_ebind keeps_stmt) (simp_all add: keeps_def select_current_def)

lemma keeps_putImpl: "JsonValueSchema v \<Longrightarrow> keeps kv_inv (putImpl env k v ev)"
  unfolding putImpl_def Let_def
  by (auto intro!: keeps_emap_error keeps_ebind keeps_stmt keeps_upsert keeps_insert_if_absent
      keeps_guarded_update keeps_reread split: option.splits)

lemma keeps_put: "keeps (\<lambda>w. kv_inv (w_db w)) (put env k v opts)"
proof (cases "JsonValueSchema v")
  case True
  then show ?thesis
    unfolding put_def
    by (auto intro!: keeps_ebind keeps_withAbort keeps_on_db keeps_putImpl keeps_sql_of split: option.splits)
next
  case False
  then show ?thesis
    unfolding put_def by (auto intro!: keeps_ebind keeps_sql_of)
qed

section \<open>Reads\<close>

definition write_row :: "(jsval \<times> int) list \<Rightarrow> nat \<Rightarrow> kv_row" where
  "write_row vs i = (fst (vs ! i), int i + 1, snd (vs ! i))"

lemma history_kv_row_hist [simp]: "history_kv_row (hist_row k vs i) = write_row vs i"
  by (simp add: history_kv_row_def hist_row_def write_row_def)

lemma current_kv_row_last:
  assumes "kv_inv d" and "map_of (kv_current d) k = Some r"
  shows "current_kv_row r = write_row (kv_versions d k) (length (kv_versions d k) - 1)"
  using kv_versions_last [OF assms(2)] kv_invD(3) [OF assms]
  by (cases "kv_versions d k" rule: rev_cases) (auto simp: current_kv_row_def write_row_def)

lemma history_scan:
  assumes "kv_inv d"
  shows "filter (\<lambda>h. h_key h = k \<and> P h) (kv_history d)
     = map (hist_row k (kv_versions d k)) (filter (P \<circ> hist_row k (kv_versions d k)) [0..<length (kv_versions d k) - 1])"
proof -
  have "filter (\<lambda>h. h_key h = k \<and> P h) (kv_history d) = filter P (hist d k)"
    by (simp add: hist_def conj_commute)
  with kv_invD(1) [OF assms] show ?thesis by (simp add: hist_of_def filter_map)
qed

lemma at_version_spec:
  assumes inv: "kv_inv d" and v: "1 \<le> v"
  shows "limit1 (at_version k v d) =
     (if v \<le> int (length (kv_versions d k)) then Some (write_row (kv_versions d k) (nat v - 1)) else None)"
proof -
  let ?vs = "kv_versions d k"
  let ?hs = "filter (\<lambda>i. int i + 1 = v) [0..<length ?vs - 1]"
  have scan: "at_version k v d = map (write_row ?vs) ?hs
      @ map current_kv_row (filter (\<lambda>r. c_version r = v) (case map_of (kv_current d) k of None \<Rightarrow> [] | Some r \<Rightarrow> [r]))"
    by (simp add: at_version_def history_scan [OF inv] comp_def hist_row_def [of _ _ _]) (simp add: history_kv_row_def write_row_def)
  show ?thesis
  proof (cases "v \<le> int (length ?vs) - 1")
    case True
    have "limit1 ?hs = Some (nat v - 1)"
      by (rule limit1_unique) (use True v in auto)
    then show ?thesis using True v by (cases ?hs) (simp_all add: scan limit1_append limit1_map)
  next
    case False
    then have "?hs = []" by (auto simp: filter_empty_conv)
    with False v show ?thesis
      using kv_invD(3) [OF inv, of k] current_kv_row_last [OF inv, of k] kv_versions_Nil [of d k]
      by (auto simp: scan split: option.splits)
  qed
qed

text \<open>The write that was current at an instant: the last one not after it.\<close>

definition write_at :: "(jsval \<times> int) list \<Rightarrow> int \<Rightarrow> nat option" where
  "write_at vs t =
     (let n = length (takeWhile (\<lambda>x. snd x \<le> t) vs) in if n = 0 then None else Some (n - 1))"

lemma write_at_Some:
  assumes "write_at vs t = Some i"
  shows "i < length vs" and "snd (vs ! i) \<le> t" and "Suc i < length vs \<Longrightarrow> t < snd (vs ! Suc i)"
proof -
  let ?n = "length (takeWhile (\<lambda>x. snd x \<le> t) vs)"
  have n: "?n = Suc i" using assms by (auto simp: write_at_def Let_def split: if_splits)
  then show "i < length vs" using length_takeWhile_le [of "\<lambda>x. snd x \<le> t" vs] by simp
  show "snd (vs ! i) \<le> t"
    using n set_takeWhileD [of "vs ! i" "\<lambda>x. snd x \<le> t" vs] nth_mem [of i "takeWhile (\<lambda>x. snd x \<le> t) vs"]
    by (simp add: takeWhile_nth)
  show "t < snd (vs ! Suc i)" if "Suc i < length vs"
    using nth_length_takeWhile [of "\<lambda>x. snd x \<le> t" vs] that n by simp
qed

lemma write_at_None: "write_at vs t = None \<Longrightarrow> vs = [] \<or> t < snd (hd vs)"
  by (cases vs) (auto simp: write_at_def Let_def split: if_splits)

lemma writes_ok_hd_le: "writes_ok vs \<Longrightarrow> i < length vs \<Longrightarrow> snd (hd vs) \<le> snd (vs ! i)"
  using writes_ok_nth_less [of vs 0 i] by (cases vs; cases "i = 0") auto

lemma at_instant_spec:
  assumes inv: "kv_inv d"
  shows "limit1 (at_instant k t d) = map_option (write_row (kv_versions d k)) (write_at (kv_versions d k) t)"
proof -
  let ?vs = "kv_versions d k"
  let ?cur = "case map_of (kv_current d) k of None \<Rightarrow> [] | Some r \<Rightarrow> [r]"
  let ?hs = "filter (\<lambda>i. snd (?vs ! i) \<le> t \<and> t < snd (?vs ! Suc i)) [0..<length ?vs - 1]"
  have ok: "writes_ok ?vs" by (rule kv_invD(2) [OF inv])
  have scan: "at_instant k t d = map (write_row ?vs) ?hs @ map current_kv_row (filter (\<lambda>r. c_updated_at r \<le> t) ?cur)"
    by (simp add: at_instant_def history_scan [OF inv] comp_def hist_row_def [of _ _ _])
       (simp add: history_kv_row_def write_row_def)
  show ?thesis
  proof (cases "write_at ?vs t")
    case None
    have later: "t < snd (?vs ! i)" if "i < length ?vs" for i
      using write_at_None [OF None] that writes_ok_hd_le [OF ok that] by auto
    have "?hs = []" using later by (auto simp: filter_empty_conv not_le)
    moreover have "filter (\<lambda>r. c_updated_at r \<le> t) ?cur = []"
      using kv_versions_last [of d k] later [of "length ?vs - 1"]
      by (auto simp: last_conv_nth split: option.splits)
    ultimately show ?thesis using None by (simp add: scan)
  next
    case (Some i)
    note i = write_at_Some [OF Some]
    show ?thesis
    proof (cases "Suc i < length ?vs")
      case True
      have "limit1 ?hs = Some i"
      proof (rule limit1_unique)
        show "y = i" if "y \<in> set [0..<length ?vs - 1]" "snd (?vs ! y) \<le> t \<and> t < snd (?vs ! Suc y)" for y
        proof (rule ccontr)
          assume "y \<noteq> i"
          have "y < length ?vs" using that(1) by simp
          from \<open>y \<noteq> i\<close> consider "Suc y < Suc i" | "Suc i < Suc y" by linarith
          then show False
          proof cases
            case 1
            with writes_ok_nth_less [OF ok, of "Suc y" i] i that show False by (cases "Suc y = i") auto
          next
            case 2
            with writes_ok_nth_less [OF ok, of "Suc i" y] i that True \<open>y < length ?vs\<close> show False
              by (cases "Suc i = y") auto
          qed
        qed
      qed (use i True in auto)
      then show ?thesis using Some by (cases ?hs) (simp_all add: scan limit1_append limit1_map)
    next
      case False
      with i have n: "i = length ?vs - 1" "?vs \<noteq> []" by auto
      then obtain r where r: "map_of (kv_current d) k = Some r" using kv_versions_Nil [of d k] by auto
      have "snd (?vs ! Suc j) \<le> t" if "j < length ?vs - 1" for j
        using writes_ok_le_last [OF ok, of "Suc j"] that n i by (simp add: last_conv_nth)
      then have "?hs = []" by (auto simp: filter_empty_conv not_less)
      moreover have "c_updated_at r \<le> t" using kv_versions_last [OF r] n i by (simp add: last_conv_nth)
      ultimately show ?thesis using Some r n current_kv_row_last [OF inv r] by (simp add: scan)
    qed
  qed
qed

subsection \<open>The read methods\<close>

lemma entry_option_write:
  assumes "kv_inv d" and "validateKey k = Inr ()" and "\<And>j. i = Some j \<Longrightarrow> j < length (kv_versions d k)"
  shows "entry_option k (map_option (write_row (kv_versions d k)) i) = Inr (map_option (write_entry k (kv_versions d k)) i)"
  using assms(3) toEntry_write [OF assms(2) kv_invD(2) [OF assms(1)]]
  by (cases i) (simp_all add: entry_option_def write_row_def)

lemma getImpl_eq:
  assumes "env_faults env = (\<lambda>_. None)"
    and "map_option current_kv_row (map_of (kv_current d) k) = row" and "entry_option k row = Inr e"
  shows "getImpl env k d = (Inr e, d)"
  using assms by (simp add: getImpl_def emap_error_def ebind_def select_current_def)

lemma getAtImpl_eq:
  assumes "env_faults env = (\<lambda>_. None)" and "limit1 (getAt_query k a d) = row" and "entry_option k row = Inr e"
  shows "getAtImpl env k a d = (Inr e, d)"
  using assms by (simp add: getAtImpl_def emap_error_def ebind_def)

lemma get_last:
  assumes "kv_inv (w_db w)" and "usable (ro_tx opts) w" and "validateKey k = Inr ()"
    and "\<not> aborted (ro_signal opts)" and "env_faults env = (\<lambda>_. None)"
  shows "get env k opts w = (Inr (let vs = kv_versions (w_db w) k in
     if vs = [] then None else Some (write_entry k vs (length vs - 1))), w)"
proof -
  let ?vs = "kv_versions (w_db w) k" and ?i = "\<lambda>vs. if vs = [] then None else Some (length vs - 1)"
  have "map_option current_kv_row (map_of (kv_current (w_db w)) k) = map_option (write_row ?vs) (?i ?vs)"
    using kv_versions_Nil [of "w_db w" k] current_kv_row_last [OF assms(1), of k]
    by (cases "map_of (kv_current (w_db w)) k") auto
  from getImpl_eq [OF assms(5) this entry_option_write [OF assms(1,3)]] assms(2-4)
  show ?thesis by (auto simp: get_def ebind_def on_db_def Let_def split: if_splits)
qed

lemma getAt_by_version:
  assumes "kv_inv (w_db w)" and "usable (ro_tx opts) w" and "validateKey k = Inr ()"
    and "\<not> aborted (ro_signal opts)" and "env_faults env = (\<lambda>_. None)"
    and "1 \<le> v" and "v \<le> POSTGRES_BIGINT_MAX"
  shows "getAt env k (ByVersion v) opts w = (Inr (let vs = kv_versions (w_db w) k in
     if v \<le> int (length vs) then Some (write_entry k vs (nat v - 1)) else None), w)"
proof -
  let ?vs = "kv_versions (w_db w) k"
  have "limit1 (getAt_query k (ByVersion v) (w_db w))
      = map_option (write_row ?vs) (if v \<le> int (length ?vs) then Some (nat v - 1) else None)"
    using at_version_spec [OF assms(1,6)] by simp
  from getAtImpl_eq [OF assms(5) this entry_option_write [OF assms(1,3)]] assms(2-4,6,7)
  show ?thesis
    by (auto simp: getAt_def ebind_def on_db_def Let_def StoredVersionSchema_def)
qed

lemma getAt_by_instant:
  assumes "kv_inv (w_db w)" and "usable (ro_tx opts) w" and "validateKey k = Inr ()"
    and "\<not> aborted (ro_signal opts)" and "env_faults env = (\<lambda>_. None)"
  shows "getAt env k (ByInstant (Some t)) opts w = (Inr (let vs = kv_versions (w_db w) k in
     map_option (write_entry k vs) (write_at vs (of_Date t))), w)"
proof -
  let ?vs = "kv_versions (w_db w) k"
  have "limit1 (getAt_query k (ByInstant (Some t)) (w_db w)) = map_option (write_row ?vs) (write_at ?vs (of_Date t))"
    using at_instant_spec [OF assms(1)] by simp
  from getAtImpl_eq [OF assms(5) this entry_option_write [OF assms(1,3) write_at_Some(1)]] assms(2-4)
  show ?thesis by (simp add: getAt_def ebind_def on_db_def Let_def)
qed

lemma write_at_own:
  assumes "writes_ok vs" and "i < length vs"
  shows "write_at vs (snd (vs ! i)) = Some i"
proof -
  have "takeWhile (\<lambda>x. snd x \<le> snd (vs ! i)) vs = take (Suc i) vs"
  proof (rule takeWhile_eq_take_P_nth)
    show "snd (vs ! j) \<le> snd (vs ! i)" if "j < Suc i" "j < length vs" for j
      using writes_ok_nth_less [OF assms(1), of j i] that assms(2) by (cases "j = i") auto
    show "\<not> snd (vs ! Suc i) \<le> snd (vs ! i)" if "Suc i < length vs"
      using writes_ok_nth_less [OF assms(1), of i "Suc i"] that by simp
  qed
  with assms(2) show ?thesis by (simp add: write_at_def)
qed

section \<open>Sequences of writes\<close>

text \<open>
  The contract of a store with compare-and-set, whatever its representation: the writes of a key are
  a list, a refused call changes no list, an accepted one appends one write to its own key, and an
  accepted guarded one found exactly the expected number of writes.
\<close>

locale cas_store =
  fixes vers :: "'s \<Rightarrow> 'k \<Rightarrow> 'x list"
    and inv :: "'s \<Rightarrow> bool"
    and call :: "'c \<Rightarrow> ('e, 's, 'r) exec"
    and key_of :: "'c \<Rightarrow> 'k"
    and expected :: "'c \<Rightarrow> int option"
  assumes inv_call: "inv s \<Longrightarrow> inv (snd (call c s))"
    and refused: "inv s \<Longrightarrow> call c s = (Inl e, s') \<Longrightarrow> vers s' k = vers s k"
    and accepted: "inv s \<Longrightarrow> call c s = (Inr r, s') \<Longrightarrow>
      \<exists>x. vers s' k = (if k = key_of c then vers s k @ [x] else vers s k)"
    and guarded: "inv s \<Longrightarrow> call c s = (Inr r, s') \<Longrightarrow> expected c = Some n \<Longrightarrow>
      n = int (length (vers s (key_of c)))"
begin

lemma call_prefix:
  assumes "inv s" and "call c s = (r, s')"
  shows "\<exists>xs. vers s' k = vers s k @ xs"
proof (cases r)
  case (Inl e)
  with assms refused [of s c e s' k] show ?thesis by auto
next
  case (Inr a)
  with assms accepted [of s c a s' k] show ?thesis by (metis append_Nil2)
qed

lemma append_only:
  assumes "inv s" and "run_calls call cs s = (rs, s')"
  shows "inv s' \<and> (\<exists>xs. vers s' k = vers s k @ xs)"
  using assms
proof (induction cs arbitrary: s rs)
  case Nil
  then show ?case by simp
next
  case (Cons c cs)
  obtain r s1 where c: "call c s = (r, s1)" by (cases "call c s")
  with inv_call [OF Cons.prems(1), of c] have "inv s1" by simp
  with Cons c call_prefix [OF Cons.prems(1) c, of k] show ?case
    by (auto split: prod.splits) (metis append.assoc)
qed

text \<open>Of two calls on one key with the same expected version, at most one is accepted.\<close>

lemma no_lost_update:
  assumes "inv s" and "run_calls call (xs @ c1 # ys @ c2 # zs) s = (rs, s')"
    and "key_of c1 = key_of c2" and "expected c1 = Some n" and "expected c2 = Some n"
    and "rs ! length xs = Inr a"
  shows "\<exists>e. rs ! (length xs + 1 + length ys) = Inl e"
proof -
  obtain rx s1 where x: "run_calls call xs s = (rx, s1)" by fastforce
  obtain r1 s2 where c1: "call c1 s1 = (r1, s2)" by fastforce
  obtain ry s3 where y: "run_calls call ys s2 = (ry, s3)" by fastforce
  obtain r2 s4 where c2: "call c2 s3 = (r2, s4)" by fastforce
  obtain rz s5 where z: "run_calls call zs s4 = (rz, s5)" by fastforce
  have rs: "rs = rx @ r1 # ry @ r2 # rz" using assms(2) x c1 y c2 z by (simp add: run_calls_append)
  have len: "length rx = length xs" "length ry = length ys"
    using length_run_calls [OF x] length_run_calls [OF y] .
  have i1: "inv s1" using append_only [OF assms(1) x] by blast
  have i2: "inv s2" using inv_call [OF i1, of c1] c1 by simp
  have i3: "inv s3" using append_only [OF i2 y] by blast
  from assms(6) rs len have r1: "r1 = Inr a" by (simp add: nth_append)
  have "int (length (vers s2 (key_of c1))) = n + 1"
    using accepted [OF i1, of c1 a s2 "key_of c1"] guarded [OF i1, of c1 a s2 n] c1 r1 assms(4) by auto
  moreover have "length (vers s2 (key_of c1)) \<le> length (vers s3 (key_of c1))"
    using append_only [OF i2 y, of "key_of c1"] by auto
  ultimately have "n \<noteq> int (length (vers s3 (key_of c2)))" using assms(3) by simp
  then have "\<not> (\<exists>b. r2 = Inr b)" using guarded [OF i3, of c2 _ s4 n] c2 assms(5) by blast
  moreover have "rs ! (length xs + 1 + length ys) = r2" using rs len by (simp add: nth_append)
  ultimately show ?thesis by (cases r2) auto
qed

end

text \<open>The write statement of each case, and what it can do: fail, touch no row, or append.\<close>

definition write_stmt :: "pg_env \<Rightarrow> kvkey \<Rightarrow> jsval option \<Rightarrow> int option \<Rightarrow> kv_row option dbrun" where
  "write_stmt env k b ev =
     (case ev of
        None \<Rightarrow> ebind (upsert env k b) (\<lambda>row. eret (Some row))
      | Some n \<Rightarrow> if n = 0 then insert_if_absent env k b else guarded_update env k b n)"

lemma putImpl_write_stmt:
  "putImpl env k v ev = emap_error (kv_catch k)
     (ebind (stmt env 0 (write_stmt env k (bind_json v) ev)) (\<lambda>rows.
        case rows of Some row \<Rightarrow> elift (toEntry k row) | None \<Rightarrow> conflict_after_reread env k (the ev)))"
proof (cases ev)
  case None
  have "ebind (stmt env 0 m) f = ebind (stmt env 0 (ebind m (\<lambda>r. eret (Some r)))) (case_option g f)"
    for m and f :: "kv_row \<Rightarrow> versioned_entry dbrun" and g
    by (rule ext) (auto simp: stmt_def ebind_def split: option.splits prod.splits sum.splits)
  then show ?thesis by (simp add: putImpl_def write_stmt_def None)
next
  case (Some n)
  have "conflict_after_reread env k 0 = conflict_after_reread env k n" if "n = 0" using that by simp
  then show ?thesis unfolding Some option.sel putImpl_def write_stmt_def Let_def option.case
    by (cases "n = 0") (simp_all only: if_True if_False refl)
qed

lemma reread_fails: "\<exists>e. conflict_after_reread env k n d = (Inl e, d)"
  by (auto simp: conflict_after_reread_def ebind_def stmt_def select_current_def split: option.splits)

lemma update_current_null_fails: "\<exists>e. update_current env k None old d = (Inl e, d)"
  by (auto simp: update_current_def atomically_def ebind_def next_version_def not_null_def
      split: prod.splits sum.splits)

definition appends :: "pg_env \<Rightarrow> kvkey \<Rightarrow> jsval \<Rightarrow> int option \<Rightarrow> db \<Rightarrow> bool" where
  "appends env k v ev d \<longleftrightarrow>
     (let vs = kv_versions d k; t = date_trunc_ms (env_clock env) in
      (vs \<noteq> [] \<longrightarrow> snd (last vs) < t) \<and> int (length vs) < POSTGRES_BIGINT_MAX
      \<and> (ev = None \<or> ev = Some (int (length vs))))"

lemma update_stmt_cases:
  assumes "kv_inv d" and "map_of (kv_current d) k = Some old" and "ev = None \<or> ev = Some (c_version old)"
  shows "(\<exists>e. update_current env k b old d = (Inl e, d))
    \<or> (\<exists>v. b = Some v \<and> appends env k v ev d
        \<and> update_current env k b old d
          = (Inr (v, int (length (kv_versions d k)) + 1, date_trunc_ms (env_clock env)),
             appended k v (date_trunc_ms (env_clock env)) (env_xact env) d))"
proof (cases b)
  case None
  then show ?thesis using update_current_null_fails by blast
next
  case (Some v)
  have "int (length (kv_versions d k)) \<le> POSTGRES_BIGINT_MAX"
    using kv_invD(2) [OF assms(1), of k] by (simp add: writes_ok_def)
  with Some show ?thesis
    using kv_versions_last [OF assms(2)] kv_invD(3) [OF assms(1,2)] assms(3)
    by (auto simp: update_current_spec [OF assms(1,2)] appends_def Let_def)
qed

lemma write_stmt_cases:
  assumes "kv_inv d"
  obtains (fail) e where "write_stmt env k b ev d = (Inl e, d)"
  | (none) "write_stmt env k b ev d = (Inr None, d)"
  | (append) v where "b = Some v" and "appends env k v ev d"
      and "write_stmt env k b ev d
        = (Inr (Some (v, int (length (kv_versions d k)) + 1, date_trunc_ms (env_clock env))),
           appended k v (date_trunc_ms (env_clock env)) (env_xact env) d)"
proof (cases "map_of (kv_current d) k")
  case None
  then have "kv_versions d k = []" by (simp add: kv_versions_Nil)
  then show thesis
    using None that
    by (cases b; cases ev; cases "ev = Some 0")
       (auto simp: write_stmt_def upsert_def insert_if_absent_def guarded_update_def ebind_def
         insert_current_spec appends_def POSTGRES_BIGINT_MAX_def split: if_splits)
next
  case (Some old)
  show thesis
  proof (cases "ev = None \<or> ev = Some (c_version old)")
    case True
    have pos: "c_version old \<noteq> 0" using kv_invD(3) [OF assms Some] kv_versions_last [OF Some] by simp
    from update_stmt_cases [OF assms Some True, of env b] show thesis
      using True Some that pos
      by (cases b) (auto simp: write_stmt_def upsert_def guarded_update_def ebind_def)
  next
    case False
    with Some that show thesis
      by (cases b; cases ev; cases "ev = Some 0")
         (auto simp: write_stmt_def insert_if_absent_def guarded_update_def ebind_def split: if_splits)
  qed
qed

lemma putImpl_effect:
  assumes inv: "kv_inv d" and ok: "validateKey k = Inr u" "JsonValueSchema v"
  obtains (refused) e where "putImpl env k v ev d = (Inl e, d)"
  | (accepted) vs t where "vs = kv_versions d k" and "t = date_trunc_ms (env_clock env)"
      and "putImpl env k v ev d = (Inr (write_entry k (vs @ [(v, t)]) (length vs)), appended k v t (env_xact env) d)"
      and "appends env k v ev d"
proof (cases "env_faults env 0")
  case (Some e)
  with refused show thesis by (simp add: putImpl_write_stmt emap_error_def ebind_def stmt_def)
next
  case None
  from inv show thesis
  proof (cases rule: write_stmt_cases [of d env k "bind_json v" ev])
    case (fail e)
    with None refused show thesis by (simp add: putImpl_write_stmt emap_error_def ebind_def)
  next
    case none
    with None refused reread_fails [of env k "the ev" d] show thesis
      by (auto simp: putImpl_write_stmt emap_error_def ebind_def)
  next
    case (append v')
    then have v': "v' = v" by (cases v) auto
    have "toEntry k (v, int (length (kv_versions d k)) + 1, date_trunc_ms (env_clock env))
      = Inr (write_entry k (kv_versions d k @ [(v, date_trunc_ms (env_clock env))]) (length (kv_versions d k)))"
      by (rule toEntry_appended [OF inv ok]) (use append(2) in \<open>auto simp: appends_def Let_def\<close>)
    with None append v' accepted show thesis by (simp add: putImpl_write_stmt emap_error_def ebind_def)
  qed
qed

subsection \<open>The store is a compare-and-set store\<close>

type_synonym put_call = "nat list \<times> pg_env \<times> kvkey \<times> jsval \<times> put_opts"

text \<open>A call of \<^verbatim>\<open>put\<close>, with the transactions that are live when it is made.\<close>

fun put_call :: "put_call \<Rightarrow> versioned_entry run" where
  "put_call (live, env, k, v, opts) w = put env k v opts (w\<lparr>active_transactions := live\<rparr>)"

lemma put_effect:
  assumes "kv_inv (w_db w)"
  obtains (refused) e where "put env k v opts w = (Inl e, w)"
  | (accepted) vs t where "vs = kv_versions (w_db w) k" and "t = date_trunc_ms (env_clock env)"
      and "put env k v opts w = (Inr (write_entry k (vs @ [(v, t)]) (length vs)),
             w\<lparr>w_db := appended k v t (env_xact env) (w_db w)\<rparr>)"
      and "appends env k v (po_expectedVersion opts) (w_db w)"
proof (cases "usable (po_tx opts) w \<and> validateKey k = Inr () \<and> JsonValueSchema v \<and> \<not> aborted (po_signal opts)
    \<and> (\<forall>n. po_expectedVersion opts = Some n \<longrightarrow> ExpectedVersionSchema n)")
  case True
  then have p: "put env k v opts w = on_db (putImpl env k v (po_expectedVersion opts)) w"
    by (cases "po_expectedVersion opts") (simp_all add: put_def ebind_def)
  from True have ok: "validateKey k = Inr ()" "JsonValueSchema v" by simp_all
  show thesis
  proof (rule putImpl_effect [OF assms ok, of env "po_expectedVersion opts"], goal_cases)
    case (1 e)
    then show thesis by (intro refused [of e]) (simp add: p on_db_def)
  next
    case (2 vs t)
    then show thesis by (intro accepted [of vs t]) (simp_all add: p on_db_def)
  qed
next
  case False
  have "\<exists>e. put env k v opts w = (Inl e, w)"
  proof (cases "sql_of (po_tx opts) w")
    case (Pair r w')
    moreover from Pair have "w' = w" by (rule sql_of_state)
    ultimately show ?thesis
      using False
      by (cases r; cases "validateKey k"; cases "po_expectedVersion opts")
         (auto simp: put_def ebind_def sql_of_Inr split: if_splits)
  qed
  with refused show thesis by blast
qed

interpretation pg_kv: cas_store "\<lambda>w. kv_versions (w_db w)" "\<lambda>w. kv_inv (w_db w)" put_call
  "\<lambda>(_, _, k, _, _). k" "\<lambda>(_, _, _, _, opts). po_expectedVersion opts"
proof
  fix s :: world and c :: put_call
  obtain live env k v opts where c: "c = (live, env, k, v, opts)" by (cases c)
  assume inv: "kv_inv (w_db s)"
  then show "kv_inv (w_db (snd (put_call c s)))"
    using keepsD [OF keeps_put, of "s\<lparr>active_transactions := live\<rparr>"] by (simp add: c)
  let ?s = "s\<lparr>active_transactions := live\<rparr>"
  have inv': "kv_inv (w_db ?s)" using inv by simp
  fix s' k'
  show "kv_versions (w_db s') k' = kv_versions (w_db s) k'" if "put_call c s = (Inl e, s')" for e
    using inv' by (cases rule: put_effect [of ?s env k v opts]) (use that c in auto)
  show "\<exists>x. kv_versions (w_db s') k' = (if k' = (case c of (_, _, k, _, _) \<Rightarrow> k)
      then kv_versions (w_db s) k' @ [x] else kv_versions (w_db s) k')" if "put_call c s = (Inr r, s')" for r
    using inv' by (cases rule: put_effect [of ?s env k v opts]) (use that c inv in \<open>auto simp: versions_appended\<close>)
  show "n = int (length (kv_versions (w_db s) (case c of (_, _, k, _, _) \<Rightarrow> k)))"
    if "put_call c s = (Inr r, s')" "(case c of (_, _, _, _, opts) \<Rightarrow> po_expectedVersion opts) = Some n" for r n
    using inv' by (cases rule: put_effect [of ?s env k v opts]) (use that c in \<open>auto simp: appends_def Let_def\<close>)
qed

section \<open>Properties\<close>



text \<open>
  Refinement of the reads: \<^verbatim>\<open>get\<close> returns the last write of the key or \<^verbatim>\<open>null\<close>;
  \<^verbatim>\<open>getAt\<close> by version the write with that number; \<^verbatim>\<open>getAt\<close> by instant the last write
  whose instant is not after the requested one. None of them changes the store.
\<close>

lemma reads_refine:
  assumes "kv_inv (w_db w)" and "usable (ro_tx opts) w" and "validateKey k = Inr ()"
    and "\<not> aborted (ro_signal opts)" and "env_faults env = (\<lambda>_. None)"
    and "1 \<le> v" and "v \<le> POSTGRES_BIGINT_MAX" and "vs = kv_versions (w_db w) k"
  shows "get env k opts w = (Inr (if vs = [] then None else Some (write_entry k vs (length vs - 1))), w)
    \<and> getAt env k (ByVersion v) opts w
        = (Inr (if v \<le> int (length vs) then Some (write_entry k vs (nat v - 1)) else None), w)
    \<and> getAt env k (ByInstant (Some t)) opts w = (Inr (map_option (write_entry k vs) (write_at vs (of_Date t))), w)"
  using get_last [OF assms(1-5)] getAt_by_version [OF assms(1-7)] getAt_by_instant [OF assms(1-5)] assms(8)
  by (simp add: Let_def)

text \<open>A store with two versions of one key, written by two transactions.\<close>

definition two_writes :: world where
  "two_writes =
     snd (run_calls put_call
       (map (\<lambda>(c, x, b). ([], quiet c x, (js ''ns'', js ''wallet'', js ''k''), JBool b,
              \<lparr>po_expectedVersion = None, po_tx = None, po_signal = NoSignal\<rparr>))
         [(1500123, 7, True), (1502456, 8, False)]) initial_world)"

lemma two_writes_inv: "kv_inv (w_db two_writes)"
  using pg_kv.append_only [of initial_world _ "fst _" two_writes]
  unfolding two_writes_def by (metis initial_world_simps(1) kv_inv_empty prod.collapse)

lemma two_writes_versions:
  "kv_versions (w_db two_writes) (js ''ns'', js ''wallet'', js ''k'')
     = [(JBool True, 1500000), (JBool False, 1502000)]"
  by code_simp

text \<open>
  C2. Dual addressing (Law T4): the instant a read returns is an address of the same version. For
  every stored version, reading it by number and then reading at the returned
  \<^verbatim>\<open>writtenAt\<close> gives the same entry, although \<^verbatim>\<open>timestamptz\<close> has microseconds and
  \<^verbatim>\<open>Date\<close> has milliseconds.
\<close>

theorem getAt_dual_addressing:
  assumes "kv_inv (w_db w)" and "usable (ro_tx opts) w" and "validateKey k = Inr ()"
    and "\<not> aborted (ro_signal opts)" and "env_faults env = (\<lambda>_. None)"
    and "getAt env k (ByVersion v) opts w = (Inr (Some e), w')"
  shows "ve_version e = v \<and> getAt env k (ByInstant (Some (ve_writtenAt e))) opts w = (Inr (Some e), w)"
proof -
  let ?vs = "kv_versions (w_db w) k"
  have ok: "writes_ok ?vs" by (rule kv_invD(2) [OF assms(1)])
  have v: "1 \<le> v" "v \<le> POSTGRES_BIGINT_MAX"
    using assms(2-4,6) by (auto simp: getAt_def ebind_def StoredVersionSchema_def split: if_splits)
  have n: "v \<le> int (length ?vs)" and e: "e = write_entry k ?vs (nat v - 1)"
    using assms(6) getAt_by_version [OF assms(1-5) v] by (auto simp: Let_def split: if_splits)
  let ?i = "nat v - 1"
  have i: "?i < length ?vs" using n v by auto
  obtain ns sc key where k: "k = (ns, sc, key)" by (cases k)
  have "snd (?vs ! ?i) mod 1000 = 0" by (rule writes_ok_aligned [OF ok i])
  then have t: "of_Date (ve_writtenAt e) = snd (?vs ! ?i)" using e by (simp add: k of_Date_aligned)
  have "write_at ?vs (snd (?vs ! ?i)) = Some ?i" by (rule write_at_own [OF ok i])
  with getAt_by_instant [OF assms(1-5)] e t v k show ?thesis by (simp add: Let_def)
qed

theorem getAt_dual_addressing_witness:
  "\<exists>e. getAt (quiet 0 0) (js ''ns'', js ''wallet'', js ''k'') (ByVersion 2) plain_read two_writes = (Inr (Some e), two_writes)
     \<and> getAt (quiet 0 0) (js ''ns'', js ''wallet'', js ''k'') (ByInstant (Some (ve_writtenAt e))) plain_read two_writes
        = (Inr (Some e), two_writes)"
proof -
  have k: "validateKey (js ''ns'', js ''wallet'', js ''k'') = Inr ()" by code_simp
  let ?e = "write_entry (js ''ns'', js ''wallet'', js ''k'') [(JBool True, 1500000), (JBool False, 1502000)] 1"
  have "getAt (quiet 0 0) (js ''ns'', js ''wallet'', js ''k'') (ByVersion 2) plain_read two_writes
      = (Inr (Some ?e), two_writes)"
    using getAt_by_version [OF two_writes_inv _ k, of plain_read "quiet 0 0" 2]
    by (simp add: two_writes_versions plain_read_def POSTGRES_BIGINT_MAX_def)
  with getAt_dual_addressing [OF two_writes_inv _ k _ _ this] show ?thesis by (auto simp: plain_read_def)
qed

text \<open>
  C5. History is append-only, over any sequence of writes of any clients: well-formedness is kept,
  what was written to a key before stays its list of writes, in order, and later writes only extend
  it.
\<close>

theorem history_append_only:
  assumes "kv_inv (w_db w)" and "run_calls put_call calls w = (rs, w')"
  shows "kv_inv (w_db w') \<and> (\<exists>new. kv_versions (w_db w') k = kv_versions (w_db w) k @ new)"
  by (rule pg_kv.append_only [OF assms])

theorem history_append_only_witness:
  "kv_inv (w_db two_writes)
   \<and> (\<exists>new. kv_versions (w_db two_writes) (js ''ns'', js ''wallet'', js ''k'') = [] @ new)"
proof -
  have "kv_inv (w_db initial_world)" by simp
  from history_append_only [OF this prod.collapse [symmetric]] show ?thesis
    unfolding two_writes_def by (metis initial_world_simps(1) kv_versions_empty)
qed

text \<open>
  C4. No lost update: in any sequence of calls, when a guarded \<^verbatim>\<open>put\<close> has been accepted,
  every later guarded \<^verbatim>\<open>put\<close> of the same key with the same expected version is refused,
  whatever the calls in between do.
\<close>

theorem put_no_lost_update:
  assumes "kv_inv (w_db w)"
    and "run_calls put_call (before @ (l1, env1, k, v1, opts1) # between @ (l2, env2, k, v2, opts2) # after) w = (rs, w')"
    and "po_expectedVersion opts1 = Some n" and "po_expectedVersion opts2 = Some n"
    and "rs ! length before = Inr e"
  shows "\<exists>err. rs ! (length before + 1 + length between) = Inl err"
  using pg_kv.no_lost_update [OF assms(1,2)] assms(3-5) by simp

theorem put_no_lost_update_witness:
  "\<exists>err. fst (run_calls put_call
      [([], quiet 1500123 7, (js ''ns'', js ''wallet'', js ''k''), JBool True,
          \<lparr>po_expectedVersion = Some 0, po_tx = None, po_signal = NoSignal\<rparr>),
       ([], quiet 1600123 8, (js ''ns'', js ''wallet'', js ''k''), JBool False,
          \<lparr>po_expectedVersion = Some 0, po_tx = None, po_signal = NoSignal\<rparr>)] initial_world) ! 1 = Inl err"
proof -
  let ?o = "\<lparr>po_expectedVersion = Some 0, po_tx = None, po_signal = NoSignal\<rparr>"
  let ?k = "(js ''ns'', js ''wallet'', js ''k'')"
  let ?run = "run_calls put_call ([] @ ([], quiet 1500123 7, ?k, JBool True, ?o) # []
      @ ([], quiet 1600123 8, ?k, JBool False, ?o) # []) initial_world"
  have "\<exists>e. fst ?run ! length ([] :: put_call list) = Inr e"
    by (rule exI [of _ "write_entry ?k [(JBool True, 1500000)] 0"]) code_simp
  then obtain e where "fst ?run ! length ([] :: put_call list) = Inr e" by blast
  from put_no_lost_update [OF _ prod.collapse [symmetric] _ _ this] show ?thesis by simp
qed

text \<open>
  What the server refuses and how it is reported: a JSON \<^verbatim>\<open>null\<close> passes the value
  schema but is bound as SQL NULL and comes back as \<open>UnrecognizedPostgresError\<close>, not as a
  validation error; two writes in one millisecond are a \<open>ClockRegressionError\<close>, while a clock
  that stepped back is refused earlier, by the range constructor of the generated column, and comes
  back as \<open>UnrecognizedPostgresError\<close>.
\<close>

lemma put_server_refusals:
  assumes "kv_inv (w_db w)" and "usable (po_tx opts) w" and "validateKey k = Inr ()"
    and "\<not> aborted (po_signal opts)" and "po_expectedVersion opts = None" and "env_faults env = (\<lambda>_. None)"
  shows "JsonValueSchema JNull
    \<and> put env k JNull opts w = (Inl (StorageErr (UnrecognizedPostgresError [])), w)
    \<and> (\<forall>v r. JsonValueSchema v \<and> v \<noteq> JNull \<and> map_of (kv_current (w_db w)) k = Some r
         \<and> c_version r \<noteq> POSTGRES_BIGINT_MAX \<and> c_updated_xact r \<noteq> env_xact env \<longrightarrow>
         (date_trunc_ms (env_clock env) = c_updated_at r \<longrightarrow>
            put env k v opts w = (Inl (StorageErr (ClockRegressionError [])), w)) \<and>
         (date_trunc_ms (env_clock env) < c_updated_at r \<longrightarrow>
            put env k v opts w = (Inl (StorageErr (UnrecognizedPostgresError [])), w)))"
proof (intro conjI allI impI)
  show null: "JsonValueSchema JNull" by code_simp
  have p: "put env k v opts w = on_db (putImpl env k v None) w" if "JsonValueSchema v" for v
    using assms that by (simp add: put_def ebind_def)
  show "put env k JNull opts w = (Inl (StorageErr (UnrecognizedPostgresError [])), w)"
    using assms(6) by (simp add: p [OF null] on_db_def putImpl_def upsert_def emap_error_def ebind_def)
  fix v r
  assume a: "JsonValueSchema v \<and> v \<noteq> JNull \<and> map_of (kv_current (w_db w)) k = Some r
     \<and> c_version r \<noteq> POSTGRES_BIGINT_MAX \<and> c_updated_xact r \<noteq> env_xact env"
  then have r: "map_of (kv_current (w_db w)) k = Some r" by blast
  note facts = a kv_versions_last [OF r] kv_invD(3) [OF assms(1) r] assms(6) p [of v]
    putImpl_present [OF assms(1) r assms(3) _ _ assms(6), of v None]
  show "put env k v opts w = (Inl (StorageErr (ClockRegressionError [])), w)"
    if "date_trunc_ms (env_clock env) = c_updated_at r"
    using that facts by (simp add: put_spec_def on_db_def)
  show "put env k v opts w = (Inl (StorageErr (UnrecognizedPostgresError [])), w)"
    if "date_trunc_ms (env_clock env) < c_updated_at r"
    using that facts by (simp add: put_spec_def on_db_def)
qed

subsection \<open>listKeys\<close>

lemma yield_rows_prefix: "\<exists>rest. rs = snd (yield_rows ab n rs) @ rest"
  by (induction ab n rs rule: yield_rows.induct) (auto split: prod.splits)

lemma yield_rows_all: "yield_rows ab n rs = (False, ys) \<Longrightarrow> ys = rs"
  by (induction ab n rs arbitrary: ys rule: yield_rows.induct) (auto split: prod.splits if_splits)

lemma yield_rows_unaborted: "(\<And>m. \<not> ab m) \<Longrightarrow> yield_rows ab n rs = (False, rs)"
  by (induction ab n rs rule: yield_rows.induct) auto

lemma cursor_loop_prefix:
  "\<exists>rest. concat bs = fst (cursor_loop f ab i n bs) @ rest \<and> (snd (cursor_loop f ab i n bs) = Inr () \<longrightarrow> rest = [])"
proof (induction f ab i n bs rule: cursor_loop.induct)
  case (1 f ab i n)
  then show ?case by (auto split: fetch.splits)
next
  case (2 f ab i n b bs)
  obtain stopped ys where y: "yield_rows ab n b = (stopped, ys)" by fastforce
  show ?case
  proof (cases stopped)
    case True
    with y yield_rows_prefix [of b ab n] show ?thesis by (auto split: fetch.splits)
  next
    case False
    with y have "ys = b" using yield_rows_all by simp
    with y False 2 [OF _ y [symmetric]] show ?thesis by (auto split: fetch.splits prod.splits)
  qed
qed

lemma cursor_loop_complete:
  "(\<And>j. f j = Arrives) \<Longrightarrow> (\<And>m. \<not> ab m) \<Longrightarrow> cursor_loop f ab i n bs = (concat bs, Inr ())"
  by (induction bs arbitrary: i n) (simp_all add: yield_rows_unaborted)

lemma listKeys_rows_spec:
  assumes "kv_inv d" and "inj collate"
  shows "sorted_wrt (<) (map collate (listKeys_rows collate ns scope (escapeLikePrefix prefix @ [percent]) d))"
    and "set (listKeys_rows collate ns scope (escapeLikePrefix prefix @ [percent]) d)
      = {key. map_of (kv_current d) (ns, scope, key) \<noteq> None \<and> starts_with key prefix}"
proof -
  let ?sel = "filter (\<lambda>((n, s, key), _). n = ns \<and> s = scope \<and> like (escapeLikePrefix prefix @ [percent]) key) (kv_current d)"
  let ?ks = "map (\<lambda>((_, _, key), _). key) ?sel"
  have d: "distinct (map fst (kv_current d))" using assms(1) by (simp add: kv_inv_def)
  have "inj_on (\<lambda>((_, _, key), _). key) (set ?sel)"
    using d by (auto simp: inj_on_def distinct_map eq_key_imp_eq_value [OF d])
  moreover have "distinct ?sel" using d by (simp add: distinct_map)
  ultimately have "distinct ?ks" by (simp add: distinct_map)
  then have "distinct (map collate (sort_key collate ?ks))"
    using assms(2) by (simp add: distinct_map) (meson inj_on_subset subset_UNIV)
  then show "sorted_wrt (<) (map collate (listKeys_rows collate ns scope (escapeLikePrefix prefix @ [percent]) d))"
    by (simp add: listKeys_rows_def strict_sorted_iff)
  show "set (listKeys_rows collate ns scope (escapeLikePrefix prefix @ [percent]) d)
      = {key. map_of (kv_current d) (ns, scope, key) \<noteq> None \<and> starts_with key prefix}"
    by (force simp: listKeys_rows_def like_escapeLikePrefix map_of_eq_None_iff)
qed

text \<open>
  C16. \<^verbatim>\<open>listKeys\<close> yields, in the order of the collation and each once, keys of the
  namespace and scope that start with the literal prefix (pattern characters in it have no effect).
  An iteration that ends normally has yielded all of them; one that is aborted or fails has yielded
  an initial part; and without an abort and a failing fetch it does end normally.
\<close>

theorem listKeys_exact:
  assumes "kv_inv (w_db w)" and "inj collate" and "usable (ro_tx opts) w"
    and "validateNamespaceScope ns scope = Inr ()" and "\<not> hasPostgresUnsafeText prefix" and "\<not> aborted (ro_signal opts)"
    and "listKeys collate ce ns scope prefix opts w = (ks, r)"
  shows "\<exists>all rest. all = ks @ rest \<and> sorted_wrt (<) (map collate all)
    \<and> set all = {key. map_of (kv_current (w_db w)) (ns, scope, key) \<noteq> None \<and> starts_with key prefix}
    \<and> (r = Inr () \<longrightarrow> rest = [])
    \<and> (ro_signal opts = NoSignal \<and> (\<forall>i e. ce_fetch ce i \<noteq> FetchFails e) \<longrightarrow> r = Inr ())"
proof -
  let ?all = "listKeys_rows collate ns scope (escapeLikePrefix prefix @ [percent]) (w_db w)"
  let ?bs = "slices 256 0 ?all"
  let ?f = "if ro_signal opts = NoSignal then (\<lambda>i. case ce_fetch ce i of AbortFires \<Rightarrow> Arrives | f \<Rightarrow> f) else ce_fetch ce"
  let ?ab = "if ro_signal opts = NoSignal then (\<lambda>_. False) else ce_aborted ce"
  have run: "cursor_loop ?f ?ab 0 0 ?bs = (ks, r)"
    using assms(3-7) by (simp add: listKeys_def Let_def split: if_splits)
  have "concat ?bs = ?all" by (simp add: concat_slices)
  with cursor_loop_prefix [of ?bs ?f ?ab 0 0] run obtain rest
    where rest: "?all = ks @ rest" "r = Inr () \<longrightarrow> rest = []" by auto
  have "r = Inr ()" if "ro_signal opts = NoSignal" "\<forall>i e. ce_fetch ce i \<noteq> FetchFails e"
  proof -
    have "?f j = Arrives" and "\<not> ?ab m" for j m using that by (simp_all split: fetch.splits)
    from cursor_loop_complete [of ?f ?ab, OF this, of 0 0 ?bs] run show ?thesis by simp
  qed
  with rest listKeys_rows_spec [OF assms(1,2), of ns scope prefix] show ?thesis
    by (intro exI [of _ ?all] exI [of _ rest]) simp
qed

theorem listKeys_exact_witness:
  "\<exists>all. set all = {key. map_of (kv_current (w_db two_writes)) (js ''ns'', js ''wallet'', key) \<noteq> None
       \<and> starts_with key (js ''k'')}
     \<and> listKeys (map unat) \<lparr>ce_fetch = (\<lambda>_. Arrives), ce_aborted = (\<lambda>_. False)\<rparr> (js ''ns'') (js ''wallet'') (js ''k'')
         plain_read two_writes = (all, Inr ())"
proof -
  have v: "validateNamespaceScope (js ''ns'') (js ''wallet'') = Inr ()" and u: "\<not> hasPostgresUnsafeText (js ''k'')"
    by code_simp+
  have "inj (map (unat :: 16 word \<Rightarrow> nat))" by (intro inj_mapI injI) (simp add: word_unat_eq_iff)
  note i = this
  let ?ce = "\<lparr>ce_fetch = (\<lambda>_. Arrives), ce_aborted = (\<lambda>_. False)\<rparr>"
  obtain ks r where run: "listKeys (map unat) ?ce (js ''ns'') (js ''wallet'') (js ''k'') plain_read two_writes = (ks, r)"
    by fastforce
  have "usable (ro_tx plain_read) two_writes" "\<not> aborted (ro_signal plain_read)" "ro_signal plain_read = NoSignal"
    by (simp_all add: plain_read_def)
  with listKeys_exact [OF two_writes_inv i _ v u _ run] have "r = Inr () \<and> set ks
      = {key. map_of (kv_current (w_db two_writes)) (js ''ns'', js ''wallet'', key) \<noteq> None \<and> starts_with key (js ''k'')}"
    by auto
  with run show ?thesis by blast
qed

end
