(* ===== verification/WalletDatabase.thy ===== *)
theory WalletDatabase
  imports Catalog SaveAndAdvance TemporalKV TxHistory
begin

text \<open>
  The wallet database as a whole: every writer of every store over the same tables, in any mixture, and
  the constraints that the migrated schema declares, read as conditions on the rows. The stores' own
  invariants, kept side by side, amount to those constraints.
\<close>

section \<open>Calls of all stores\<close>

text \<open>
  The writers of the four stores and the co-commit, as one program calls them: \<^verbatim>\<open>put\<close>, \<^verbatim>\<open>save\<close> and \<^verbatim>\<open>prune\<close>,
  \<^verbatim>\<open>set\<close>, the three history writers, \<^verbatim>\<open>saveAndAdvance\<close>. Each carries its environment and, where it takes a
  transaction handle, the handles that are live.
\<close>

datatype wallet_call =
    KvCall put_call
  | CkptCall ckpt_call
  | WatermarkCall "nat list" pg_env jsstr jsstr jsval wm_opts
  | HistoryCall th_call
  | AdvanceCall pg_env pg_env tx_faults jsstr jsstr bytes cursor save_opts

fun wallet_exec :: "(bytes \<Rightarrow> bytes) \<Rightarrow> wallet_call \<Rightarrow> unit run" where
  "wallet_exec sha (KvCall c) = ebind (put_call c) (\<lambda>_. eret ())"
| "wallet_exec sha (CkptCall c) = ebind (ckpt_exec sha c) (\<lambda>_. eret ())"
| "wallet_exec sha (WatermarkCall live env kind key v opts) = (\<lambda>w. set_watermark env kind key v opts (w\<lparr>active_transactions := live\<rparr>))"
| "wallet_exec sha (HistoryCall c) = th_call c"
| "wallet_exec sha (AdvanceCall env env' fl w net data cur opts) = ebind (saveAndAdvance sha env env' fl w net data cur opts) (\<lambda>_. eret ())"

definition wallet_ok :: "(bytes \<Rightarrow> bytes) \<Rightarrow> db \<Rightarrow> bool" where
  "wallet_ok sha d \<longleftrightarrow>
     kv_inv d \<and> ckpt_inv sha d \<and> history_ok d
   \<and> distinct (map fst (ckpt_sequence_counters d)) \<and> distinct (map fst (watermarks d))"

lemma wallet_ok_empty [simp]: "wallet_ok sha empty_db"
  by (simp add: wallet_ok_def history_ok_def)

text \<open>Each invariant looks at its own tables only.\<close>

lemma kv_inv_frame: "kv_current d' = kv_current d \<Longrightarrow> kv_history d' = kv_history d \<Longrightarrow> kv_inv d' = kv_inv d"
proof -
  assume e: "kv_current d' = kv_current d" "kv_history d' = kv_history d"
  then have h: "hist d' k = hist d k" for k by (simp add: hist_def)
  then have v: "kv_versions d' k = kv_versions d k" for k by (simp only: kv_versions_def e)
  have "kv_wf d' = kv_wf d" by (rule ext) (simp only: kv_wf_def h v e)
  with e show ?thesis by (simp add: kv_inv_def)
qed

lemma ckpt_inv_frame:
  assumes "ckpt_chunks d' = ckpt_chunks d" and "ckpt_manifests d' = ckpt_manifests d" and "ckpt_manifest_chunks d' = ckpt_manifest_chunks d"
    and "ckpt_sequence_counters d' = ckpt_sequence_counters d" and "ckpt_next_id d' = ckpt_next_id d"
  shows "ckpt_inv sha d' = ckpt_inv sha d"
  using assms by (simp add: ckpt_inv_def manifest_ok_def seqs_ok_def refs_ok_def complete_manifests_def junction_of_def)

lemma history_ok_frame: "transaction_history d' = transaction_history d \<Longrightarrow> history_ok d' = history_ok d"
  by (simp add: history_ok_def)

lemma kv_call_ok:
  assumes "wallet_ok sha (w_db w)"
  shows "wallet_ok sha (w_db (snd (put_call c w)))"
proof (cases c)
  case (fields live env k v opts)
  let ?w = "w\<lparr>active_transactions := live\<rparr>"
  have inv: "kv_inv (w_db ?w)" using assms by (simp add: wallet_ok_def)
  show ?thesis
  proof (cases rule: put_effect [OF inv, of env k v opts])
    case (1 e)
    with assms show ?thesis by (simp add: fields)
  next
    case (2 vs t)
    have "kv_inv (appended k v t (env_xact env) (w_db w))"
      using keepsD [OF keeps_put, of ?w env k v opts] inv 2 by simp
    moreover have "ckpt_inv sha (appended k v t (env_xact env) (w_db w)) = ckpt_inv sha (w_db w)"
      by (rule ckpt_inv_frame) (simp_all add: appended_def)
    moreover have "history_ok (appended k v t (env_xact env) (w_db w)) = history_ok (w_db w)"
      by (rule history_ok_frame) (simp add: appended_def)
    ultimately show ?thesis using assms 2 by (simp add: fields wallet_ok_def) (simp add: appended_def)
  qed
qed

lemma saved_wallet_ok:
  assumes "wallet_ok sha d"
  shows "wallet_ok sha (saved_db sha env w net chunks label d)"
proof -
  have "kv_inv (saved_db sha env w net chunks label d) = kv_inv d" by (rule kv_inv_frame) (simp_all add: saved_db_def)
  moreover have "history_ok (saved_db sha env w net chunks label d) = history_ok d" by (rule history_ok_frame) (simp add: saved_db_def)
  ultimately show ?thesis
    using assms ckpt_inv_saved by (simp add: wallet_ok_def) (simp add: saved_db_def distinct_update)
qed

lemma ckpt_call_ok:
  assumes "wallet_ok sha (w_db world)"
  shows "wallet_ok sha (w_db (snd (ckpt_exec sha c world)))"
proof (cases c)
  case (SaveCall env fl w net data opts)
  obtain q world' where s: "save sha env fl w net data (opts\<lparr>so_tx := None\<rparr>) world = (q, world')" by force
  then have "w_db (snd (ckpt_exec sha c world)) = w_db world'" by (cases q) (simp_all add: SaveCall ebind_def)
  with save_own_cases [OF s] assms saved_wallet_ok [OF assms] show ?thesis by (cases q) auto
next
  case (PruneCall env fl w net n sig)
  obtain q world' where p: "prune env fl w net n sig world = (q, world')" by force
  let ?d = "pruned_db env w net (nat \<lfloor>n\<rfloor>) (w_db world)"
  note frame = pruned_db_def pruned1_def delete_chunks_def delete_manifests_def
  have "kv_inv ?d = kv_inv (w_db world)" by (rule kv_inv_frame) (simp_all add: frame Let_def)
  moreover have "history_ok ?d = history_ok (w_db world)" by (rule history_ok_frame) (simp add: frame Let_def)
  moreover have "watermarks ?d = watermarks (w_db world)" by (simp add: frame Let_def)
  moreover have "w_db (snd (ckpt_exec sha c world)) = w_db world'" using p by (cases q) (simp_all add: PruneCall ebind_def)
  ultimately show ?thesis
    using prune_cases [OF p] assms ckpt_inv_pruned [of sha "w_db world"] by (auto simp: wallet_ok_def)
qed

lemma cursor_wallet_ok:
  assumes "wallet_ok sha d"
  shows "wallet_ok sha (d\<lparr>watermarks := AList.update ky r (watermarks d)\<rparr>)"
proof -
  let ?d = "d\<lparr>watermarks := AList.update ky r (watermarks d)\<rparr>"
  have "kv_inv ?d = kv_inv d" "ckpt_inv sha ?d = ckpt_inv sha d" "history_ok ?d = history_ok d"
    by (rule kv_inv_frame ckpt_inv_frame history_ok_frame; simp)+
  with assms show ?thesis by (simp add: wallet_ok_def distinct_update)
qed

lemma watermark_call_ok:
  assumes "wallet_ok sha (w_db w)"
  shows "wallet_ok sha (w_db (snd (set_watermark env kind key v opts (w\<lparr>active_transactions := live\<rparr>))))"
proof -
  let ?w = "w\<lparr>active_transactions := live\<rparr>"
  obtain r w' where s: "set_watermark env kind key v opts ?w = (r, w')" by force
  show ?thesis
  proof (cases r)
    case (Inl e)
    then have "w_db w' = w_db ?w" using set_watermark_Inl s by blast
    with s assms show ?thesis by simp
  next
    case (Inr u)
    from set_watermark_Inr [OF s [unfolded Inr]] obtain ky where
      "w' = ?w\<lparr>w_db := (w_db ?w)\<lparr>watermarks := AList.update ky \<lparr>w_value = v, w_updated_at = env_now env\<rparr> (watermarks (w_db ?w))\<rparr>\<rparr>"
      by blast
    then show ?thesis using cursor_wallet_ok [OF assms] by (simp add: s)
  qed
qed

text \<open>The history writers leave every other table alone, also when they fail half way in a caller's transaction.\<close>

lemma keeps_other_tables: "keeps (\<lambda>d. d\<lparr>transaction_history := []\<rparr> = d0) (writeRows ext mergeFn env wid entry)"
proof -
  let ?P = "\<lambda>d. d\<lparr>transaction_history := []\<rparr> = d0"
  have "keeps ?P (select_row wid h)" "keeps ?P (upsert_row env w e j)" "keeps ?P (clear_pending w e)" for h w e j
    by (auto simp: keeps_def select_row_def upsert_row_def clear_pending_def split: sum.splits)
  then show ?thesis
    unfolding writeRows_def by (intro keeps_emap_error keeps_ebind keeps_stmt keeps_elift) (auto intro: keeps_stmt)
qed

lemma history_call_ok:
  assumes "wallet_ok sha (w_db w)"
  shows "wallet_ok sha (w_db (snd (th_call c w)))"
proof -
  let ?d' = "w_db (snd (th_call c w))"
  have others: "?d'\<lparr>transaction_history := []\<rparr> = (w_db w)\<lparr>transaction_history := []\<rparr>"
  proof -
    obtain live l ext mergeFn env fl wid entry opts where c: "c = (live, l, ext, mergeFn, env, fl, wid, entry, opts)"
      by (metis surj_pair)
    have "keeps (\<lambda>x. (w_db x)\<lparr>transaction_history := []\<rparr> = d0) (write_th ext mergeFn env fl wid e opts)" for e d0
      unfolding write_th_def writeOwnTransaction_def
      by (intro keeps_ebind keeps_withAbort keeps_on_db keeps_sql_of)
        (auto intro: keeps_emap_error keeps_sql_begin keeps_other_tables split: option.splits)
    from keepsD [OF this, of "w\<lparr>active_transactions := live\<rparr>"] show ?thesis by (simp add: c got_write)
  qed
  have same: "f ?d' = f (w_db w)" if "\<And>d. f (d\<lparr>transaction_history := []\<rparr>) = f d" for f :: "db \<Rightarrow> 'x"
    using arg_cong [OF others, of f] that by simp
  have "kv_inv ?d' = kv_inv (w_db w)" by (rule kv_inv_frame; rule same; simp)
  moreover have "ckpt_inv sha ?d' = ckpt_inv sha (w_db w)" by (rule ckpt_inv_frame; rule same; simp)
  moreover have "watermarks ?d' = watermarks (w_db w)" "ckpt_sequence_counters ?d' = ckpt_sequence_counters (w_db w)"
    by (rule same; simp)+
  ultimately show ?thesis using assms th_call_ok by (simp add: wallet_ok_def)
qed

lemma advance_call_ok:
  assumes "wallet_ok sha (w_db world)"
  shows "wallet_ok sha (w_db (snd (saveAndAdvance sha env env' fl w net data cur opts world)))"
proof -
  obtain r world' where s: "saveAndAdvance sha env env' fl w net data cur opts world = (r, world')" by force
  from saveAndAdvance_cases [OF s] s assms saved_wallet_ok [OF assms] show ?thesis
    by (cases r) (auto simp: save_effect_on_def cursor_effect_on_def intro!: cursor_wallet_ok)
qed

lemma wallet_exec_ok:
  assumes "wallet_ok sha (w_db w)"
  shows "wallet_ok sha (w_db (snd (wallet_exec sha c w)))"
proof -
  have "snd (ebind m (\<lambda>_. eret ()) w) = snd (m w)" for m :: "'a run"
    by (simp add: ebind_def eret_def split: prod.splits sum.splits)
  then show ?thesis
    using assms kv_call_ok ckpt_call_ok watermark_call_ok history_call_ok advance_call_ok by (cases c) auto
qed

section \<open>Rows and what the schema asks of them\<close>

text \<open>
  A row as the server sees it: a cell per column, in the order of the table's columns. The \<^verbatim>\<open>id\<close> of a history row is
  not part of the model of \<open>Schema\<close>: it is the position here, the sequence's numbers being ascending in the
  order of insertion.
\<close>

datatype cell =
    CNull | CText jsstr | CTexts "jsstr list" | CJson jsval | CInt int | CBool bool | CBytes bytes | CTime int | CRange int int

type_synonym row = "(string \<times> cell) list"

definition kv_current_cells :: "kvkey \<times> kv_current_row \<Rightarrow> row" where
  "kv_current_cells = (\<lambda>((ns, scope, key), r).
     [(''ns'', CText ns), (''scope'', CText scope), (''key'', CText key), (''value'', CJson (c_value r)), (''version'', CInt (c_version r)),
      (''updated_at'', CTime (c_updated_at r)), (''updated_xact'', CInt (c_updated_xact r))])"

definition kv_history_cells :: "nat \<times> kv_history_row \<Rightarrow> row" where
  "kv_history_cells = (\<lambda>(i, h).
     [(''id'', CInt (int i + 1)), (''ns'', CText (fst (h_key h))), (''scope'', CText (fst (snd (h_key h)))),
      (''key'', CText (snd (snd (h_key h)))), (''value'', CJson (h_value h)), (''version'', CInt (h_version h)),
      (''valid_from'', CTime (h_valid_from h)), (''valid_to'', CTime (h_valid_to h)), (''validity'', CRange (h_valid_from h) (h_valid_to h))])"

definition chunk_cells :: "bytes \<times> chunk_row \<Rightarrow> row" where
  "chunk_cells = (\<lambda>(h, r). [(''hash'', CBytes h), (''data'', CBytes (ch_data r)), (''created_at'', CTime (ch_created_at r)),
     (''size_bytes'', CInt (size_bytes r))])"

definition manifest_cells :: "manifest_row \<Rightarrow> row" where
  "manifest_cells m = [(''id'', CInt (m_id m)), (''w'', CText (m_w m)), (''net'', CText (m_net m)), (''seq'', CInt (m_seq m)),
     (''complete'', CBool (m_complete m)), (''manifest_hash'', CBytes (m_manifest_hash m)),
     (''label'', case m_label m of None \<Rightarrow> CNull | Some l \<Rightarrow> CText l), (''created_at'', CTime (m_created_at m))]"

definition junction_cells :: "manifest_chunk_row \<Rightarrow> row" where
  "junction_cells r = [(''manifest_id'', CInt (mc_manifest_id r)), (''position'', CInt (int (mc_position r))),
     (''chunk_hash'', CBytes (mc_chunk_hash r))]"

definition counter_cells :: "(jsstr \<times> jsstr) \<times> int \<Rightarrow> row" where
  "counter_cells = (\<lambda>((w, net), n). [(''w'', CText w), (''net'', CText net), (''next_seq'', CInt n)])"

definition watermark_cells :: "(jsstr \<times> jsstr) \<times> watermark_row \<Rightarrow> row" where
  "watermark_cells = (\<lambda>((kind, key), r). [(''kind'', CText kind), (''key'', CText key), (''value'', CJson (w_value r)),
     (''updated_at'', CTime (w_updated_at r))])"

definition tx_history_cells :: "(jsstr \<times> jsstr) \<times> tx_history_row \<Rightarrow> row" where
  "tx_history_cells = (\<lambda>((w, h), r). [(''wallet_id'', CText w), (''tx_hash'', CText h), (''entry'', CJson (t_entry r)),
     (''identifiers'', CTexts (t_identifiers r)), (''lifecycle'', CText (js (t_lifecycle r))), (''updated_at'', CTime (t_updated_at r))])"

definition table_rows :: "db \<Rightarrow> string \<Rightarrow> row list" where
  "table_rows d n =
     (if n = ''kv_current'' then map kv_current_cells (kv_current d)
      else if n = ''kv_history'' then map kv_history_cells (List.enumerate 0 (kv_history d))
      else if n = ''ckpt_chunks'' then map chunk_cells (ckpt_chunks d)
      else if n = ''ckpt_manifests'' then map manifest_cells (ckpt_manifests d)
      else if n = ''ckpt_manifest_chunks'' then map junction_cells (ckpt_manifest_chunks d)
      else if n = ''ckpt_sequence_counters'' then map counter_cells (ckpt_sequence_counters d)
      else if n = ''watermarks'' then map watermark_cells (watermarks d)
      else if n = ''transaction_history'' then map tx_history_cells (transaction_history d)
      else [])"

definition cell :: "row \<Rightarrow> string \<Rightarrow> cell" where
  "cell r n = (case map_of r n of None \<Rightarrow> CNull | Some c \<Rightarrow> c)"

fun has_type :: "coltype \<Rightarrow> cell \<Rightarrow> bool" where
  "has_type _ CNull = True"
| "has_type TText (CText _) = True"
| "has_type TTextArray (CTexts _) = True"
| "has_type TJsonb (CJson _) = True"
| "has_type TBigint (CInt _) = True"
| "has_type TBigserial (CInt _) = True"
| "has_type TInteger (CInt _) = True"
| "has_type TBoolean (CBool _) = True"
| "has_type TBytea (CBytes _) = True"
| "has_type TTimestamptz (CTime _) = True"
| "has_type TTstzrange (CRange _ _) = True"
| "has_type _ _ = False"

fun generated_value :: "row \<Rightarrow> generated \<Rightarrow> cell" where
  "generated_value r (RangeOf a b) = (case (cell r a, cell r b) of (CTime x, CTime y) \<Rightarrow> CRange x y | _ \<Rightarrow> CNull)"
| "generated_value r (OctetLength a) = (case cell r a of CBytes bs \<Rightarrow> CInt (int (length bs)) | _ \<Rightarrow> CNull)"

definition row_conforms :: "tabledef \<Rightarrow> row \<Rightarrow> bool" where
  "row_conforms t r \<longleftrightarrow>
     map fst r = column_names t
   \<and> list_all (\<lambda>c. has_type (cl_type c) (cell r (cl_name c)) \<and> (cl_not_null c \<longrightarrow> cell r (cl_name c) \<noteq> CNull)
        \<and> (\<forall>g. cl_generated c = Some g \<longrightarrow> cell r (cl_name c) = generated_value r g)) (tb_columns t)"

definition overlapping :: "cell \<Rightarrow> cell \<Rightarrow> bool" where
  "overlapping x y \<longleftrightarrow> (case (x, y) of (CRange a b, CRange c d) \<Rightarrow> a < d \<and> c < b | _ \<Rightarrow> False)"

text \<open>The constraints, on all rows of all tables; a primary key excludes NULL, a foreign key and a check let it pass.\<close>

fun enforced :: "(string \<Rightarrow> row list) \<Rightarrow> tabledef \<Rightarrow> constr \<Rightarrow> bool" where
  "enforced rows t (PrimaryKey ns) \<longleftrightarrow>
     distinct (map (\<lambda>r. map (cell r) ns) (rows (tb_name t))) \<and> (\<forall>r \<in> set (rows (tb_name t)). CNull \<notin> set (map (cell r) ns))"
| "enforced rows t (CheckLess _ a b) \<longleftrightarrow>
     (\<forall>r \<in> set (rows (tb_name t)). case (cell r a, cell r b) of (CTime x, CTime y) \<Rightarrow> x < y | _ \<Rightarrow> CNull \<in> {cell r a, cell r b})"
| "enforced rows t (ExcludeGist _ ns c) \<longleftrightarrow>
     sorted_wrt (\<lambda>r s. \<not> (map (cell r) ns = map (cell s) ns \<and> overlapping (cell r c) (cell s c))) (rows (tb_name t))"
| "enforced rows t (ForeignKey a target b _) \<longleftrightarrow>
     (\<forall>r \<in> set (rows (tb_name t)). cell r a = CNull \<or> cell r a \<in> set (map (\<lambda>s. cell s b) (rows target)))"

definition satisfies :: "catalog \<Rightarrow> (string \<Rightarrow> row list) \<Rightarrow> bool" where
  "satisfies c rows \<longleftrightarrow>
     list_all (\<lambda>t. list_all (row_conforms t) (rows (tb_name t)) \<and> list_all (enforced rows t) (tb_constraints t)) (ca_tables c)"

section \<open>The invariants amount to the constraints\<close>

text \<open>A list is pairwise related if, apart from pairs of different keys, the parts with one key are.\<close>

lemma sorted_wrt_by_key:
  assumes "\<And>x y. f x \<noteq> f y \<Longrightarrow> R x y" and "\<And>k. sorted_wrt R (filter (\<lambda>x. f x = k) xs)"
  shows "sorted_wrt R xs"
  using assms(2)
proof (induction xs)
  case (Cons x xs)
  have "sorted_wrt R (filter (\<lambda>y. f y = k) xs)" for k using Cons.prems [of k] by (cases "f x = k") auto
  moreover have "R x y" if "y \<in> set xs" for y using Cons.prems [of "f x"] assms(1) [of x y] that by (cases "f x = f y") auto
  ultimately show ?case using Cons.IH by auto
qed simp

lemma distinct_by_key: "(\<And>k. distinct (map g (filter (\<lambda>x. f x = k) xs))) \<Longrightarrow> distinct (map (\<lambda>x. (f x, g x)) xs)"
proof (induction xs)
  case (Cons x xs)
  have "distinct (map g (filter (\<lambda>y. f y = k) xs))" for k using Cons.prems [of k] by (cases "f x = k") auto
  moreover have "(f x, g x) \<notin> (\<lambda>y. (f y, g y)) ` set xs" using Cons.prems [of "f x"] by force
  ultimately show ?case using Cons.IH by auto
qed simp

definition disjoint_periods :: "kv_history_row \<Rightarrow> kv_history_row \<Rightarrow> bool" where
  "disjoint_periods a b \<longleftrightarrow> \<not> (h_key a = h_key b \<and> h_valid_from a < h_valid_to b \<and> h_valid_from b < h_valid_to a)"

lemma history_periods:
  assumes "kv_inv d"
  shows "sorted_wrt disjoint_periods (kv_history d)" and "h \<in> set (kv_history d) \<Longrightarrow> h_valid_from h < h_valid_to h"
proof -
  have vs: "hist d k = hist_of k (kv_versions d k)" "sorted_wrt (<) (map snd (kv_versions d k))" for k
    using kv_invD [OF assms, of k] by (simp_all add: writes_ok_def)
  have "sorted_wrt disjoint_periods (hist d k)" for k
    unfolding vs(1) hist_of_def sorted_wrt_map
  proof (rule sorted_wrt_mono_rel [of _ "(<)"])
    fix i j
    assume "i \<in> set [0..<length (kv_versions d k) - 1]" "j \<in> set [0..<length (kv_versions d k) - 1]" "i < j"
    then have "j < length (kv_versions d k)" "Suc i < j \<or> Suc i = j" by auto
    then have "snd (kv_versions d k ! Suc i) \<le> snd (kv_versions d k ! j)"
      using sorted_wrt_nth_less [OF vs(2) [of k], of "Suc i" j] by auto
    then show "disjoint_periods (hist_row k (kv_versions d k) i) (hist_row k (kv_versions d k) j)"
      by (simp add: disjoint_periods_def hist_row_def)
  qed simp
  then have parts: "sorted_wrt disjoint_periods (filter (\<lambda>h. h_key h = k) (kv_history d))" for k by (simp add: hist_def)
  show "sorted_wrt disjoint_periods (kv_history d)"
    by (rule sorted_wrt_by_key [of h_key, OF _ parts]) (simp add: disjoint_periods_def)
  assume "h \<in> set (kv_history d)"
  then have "h \<in> set (hist_of (h_key h) (kv_versions d (h_key h)))" by (simp add: vs(1) [symmetric]) (simp add: hist_def)
  then obtain i where i: "i < length (kv_versions d (h_key h)) - 1" "h = hist_row (h_key h) (kv_versions d (h_key h)) i" by (auto simp: hist_of_def)
  then have "h_valid_from h = snd (kv_versions d (h_key h) ! i)" "h_valid_to h = snd (kv_versions d (h_key h) ! Suc i)"
    by (metis hist_row_def kv_history_row.select_convs(4), metis hist_row_def kv_history_row.select_convs(5))
  moreover have "Suc i < length (kv_versions d (h_key h))" using i(1) by simp
  ultimately show "h_valid_from h < h_valid_to h"
    using sorted_wrt_nth_less [OF vs(2) [of "h_key h"], of i "Suc i"] by simp
qed

lemmas cells = kv_current_cells_def kv_history_cells_def chunk_cells_def manifest_cells_def junction_cells_def counter_cells_def
  watermark_cells_def tx_history_cells_def

lemma table_rows_simps [simp]:
  "table_rows d ''kv_current'' = map kv_current_cells (kv_current d)"
  "table_rows d ''kv_history'' = map kv_history_cells (List.enumerate 0 (kv_history d))"
  "table_rows d ''ckpt_chunks'' = map chunk_cells (ckpt_chunks d)"
  "table_rows d ''ckpt_manifests'' = map manifest_cells (ckpt_manifests d)"
  "table_rows d ''ckpt_manifest_chunks'' = map junction_cells (ckpt_manifest_chunks d)"
  "table_rows d ''ckpt_sequence_counters'' = map counter_cells (ckpt_sequence_counters d)"
  "table_rows d ''watermarks'' = map watermark_cells (watermarks d)"
  "table_rows d ''transaction_history'' = map tx_history_cells (transaction_history d)"
  by (simp_all add: table_rows_def)

text \<open>Every row has the table's columns, with values of their types, NULL only where it may be, and the generated ones as computed.\<close>

lemmas conform_defs = row_conforms_def column_names_def wallet_tables col_def defaults_def nullable_def generated_as_def cells cell_def

lemma rows_conform:
  "row_conforms (kv_current_table\<lparr>tb_fillfactor := f\<rparr>) (kv_current_cells x1)"
  "row_conforms kv_history_table (kv_history_cells x2)"
  "row_conforms (ckpt_chunks_table\<lparr>tb_columns := tb_columns ckpt_chunks_table @ [size_bytes_column]\<rparr>) (chunk_cells x3)"
  "row_conforms ckpt_manifests_table (manifest_cells x4)"
  "row_conforms ckpt_manifest_chunks_table (junction_cells x5)"
  "row_conforms ckpt_sequence_counters_table (counter_cells x6)"
  "row_conforms watermarks_table (watermark_cells x7)"
  "row_conforms transaction_history_table (tx_history_cells x8)"
  by (simp_all add: conform_defs size_bytes_def split: prod.splits option.splits)

text \<open>A primary key whose cells are an injective image of what the list is distinct in.\<close>

lemma primary_keyI:
  assumes "rows (tb_name t) = map f xs" and "distinct (map g xs)" and "\<And>x. map (cell (f x)) ns = h (g x)" and "inj h"
    and "\<And>x. CNull \<notin> set (h x)"
  shows "enforced rows t (PrimaryKey ns)"
proof -
  have "distinct (map h (map g xs))" using assms(2) inj_on_subset [OF assms(4)] by (subst distinct_map) blast
  moreover have "CNull \<notin> set (map (cell (f x)) ns)" for x unfolding assms(3) by (rule assms(5))
  then have "\<forall>r \<in> set (map f xs). CNull \<notin> set (map (cell r) ns)" by auto
  ultimately show ?thesis unfolding enforced.simps assms(1) by (simp add: comp_def assms(3))
qed

lemma junction_keys:
  assumes "ckpt_inv sha d"
  shows "distinct (map (\<lambda>r. (mc_manifest_id r, mc_position r)) (ckpt_manifest_chunks d))"
proof (rule distinct_by_key)
  fix i
  show "distinct (map mc_position (filter (\<lambda>r. mc_manifest_id r = i) (ckpt_manifest_chunks d)))"
  proof (cases "i \<in> m_id ` set (ckpt_manifests d)")
    case True
    then obtain m where "m \<in> set (ckpt_manifests d)" "i = m_id m" by auto
    then have "map mc_position (junction_of i d) = [0..<length (junction_of i d)]" using assms by (auto simp: ckpt_inv_def manifest_ok_def)
    then show ?thesis unfolding junction_of_def by (metis distinct_upt)
  next
    case False
    then have "filter (\<lambda>r. mc_manifest_id r = i) (ckpt_manifest_chunks d) = []" using assms by (auto simp: filter_empty_conv ckpt_inv_def refs_ok_def)
    then show ?thesis by simp
  qed
qed

lemma wallet_primary_keys:
  assumes ok: "wallet_ok sha d"
  defines "rows \<equiv> table_rows d"
  shows "enforced rows (kv_current_table\<lparr>tb_fillfactor := f\<rparr>) (PrimaryKey [''ns'', ''scope'', ''key''])"
    and "enforced rows kv_history_table (PrimaryKey [''id''])"
    and "enforced rows (ckpt_chunks_table\<lparr>tb_columns := cs\<rparr>) (PrimaryKey [''hash''])"
    and "enforced rows ckpt_manifests_table (PrimaryKey [''id''])"
    and "enforced rows ckpt_manifest_chunks_table (PrimaryKey [''manifest_id'', ''position''])"
    and "enforced rows ckpt_sequence_counters_table (PrimaryKey [''w'', ''net''])"
    and "enforced rows watermarks_table (PrimaryKey [''kind'', ''key''])"
    and "enforced rows transaction_history_table (PrimaryKey [''wallet_id'', ''tx_hash''])"
proof -
  note defs = rows_def wallet_tables
  show "enforced rows (kv_current_table\<lparr>tb_fillfactor := f\<rparr>) (PrimaryKey [''ns'', ''scope'', ''key''])"
    by (rule primary_keyI [where f = kv_current_cells and g = fst and h = "\<lambda>(a, b, c). [CText a, CText b, CText c]" and xs = "kv_current d"])
      (use ok in \<open>auto simp: defs wallet_ok_def kv_inv_def cells cell_def inj_def split: prod.splits\<close>)
  show "enforced rows kv_history_table (PrimaryKey [''id''])"
    by (rule primary_keyI [where f = kv_history_cells and g = fst and h = "\<lambda>i. [CInt (int i + 1)]" and xs = "List.enumerate 0 (kv_history d)"])
      (auto simp: defs cells cell_def inj_def split: prod.splits)
  show "enforced rows (ckpt_chunks_table\<lparr>tb_columns := cs\<rparr>) (PrimaryKey [''hash''])"
    by (rule primary_keyI [where f = chunk_cells and g = fst and h = "\<lambda>a. [CBytes a]" and xs = "ckpt_chunks d"])
      (use ok in \<open>auto simp: defs wallet_ok_def ckpt_inv_def chunks_ok_def cells cell_def inj_def split: prod.splits\<close>)
  show "enforced rows ckpt_manifests_table (PrimaryKey [''id''])"
    by (rule primary_keyI [where f = manifest_cells and g = m_id and h = "\<lambda>a. [CInt a]" and xs = "ckpt_manifests d"])
      (use ok in \<open>auto simp: defs wallet_ok_def ckpt_inv_def cells cell_def inj_def\<close>)
  show "enforced rows ckpt_manifest_chunks_table (PrimaryKey [''manifest_id'', ''position''])"
    by (rule primary_keyI [where f = junction_cells and g = "\<lambda>r. (mc_manifest_id r, mc_position r)"
          and h = "\<lambda>(a, b). [CInt a, CInt (int b)]" and xs = "ckpt_manifest_chunks d"])
      (use ok junction_keys [of sha d] in \<open>auto simp: defs wallet_ok_def cells cell_def inj_def\<close>)
  show "enforced rows ckpt_sequence_counters_table (PrimaryKey [''w'', ''net''])"
    by (rule primary_keyI [where f = counter_cells and g = fst and h = "\<lambda>(a, b). [CText a, CText b]" and xs = "ckpt_sequence_counters d"])
      (use ok in \<open>auto simp: defs wallet_ok_def cells cell_def inj_def split: prod.splits\<close>)
  show "enforced rows watermarks_table (PrimaryKey [''kind'', ''key''])"
    by (rule primary_keyI [where f = watermark_cells and g = fst and h = "\<lambda>(a, b). [CText a, CText b]" and xs = "watermarks d"])
      (use ok in \<open>auto simp: defs wallet_ok_def cells cell_def inj_def split: prod.splits\<close>)
  show "enforced rows transaction_history_table (PrimaryKey [''wallet_id'', ''tx_hash''])"
    by (rule primary_keyI [where f = tx_history_cells and g = fst and h = "\<lambda>(a, b). [CText a, CText b]" and xs = "transaction_history d"])
      (use ok in \<open>auto simp: defs wallet_ok_def history_ok_def cells cell_def inj_def split: prod.splits\<close>)
qed

lemma wallet_other_constraints:
  assumes ok: "wallet_ok sha d"
  defines "rows \<equiv> table_rows d"
  shows "enforced rows kv_history_table (CheckLess n ''valid_from'' ''valid_to'')"
    and "enforced rows kv_history_table (ExcludeGist n [''ns'', ''scope'', ''key''] ''validity'')"
    and "enforced rows ckpt_manifest_chunks_table (ForeignKey ''manifest_id'' ''ckpt_manifests'' ''id'' b)"
    and "enforced rows ckpt_manifest_chunks_table (ForeignKey ''chunk_hash'' ''ckpt_chunks'' ''hash'' b)"
proof -
  have kv: "kv_inv d" and refs: "refs_ok d" using ok by (simp_all add: wallet_ok_def ckpt_inv_def)
  note defs = rows_def wallet_tables cells cell_def
  show "enforced rows kv_history_table (CheckLess n ''valid_from'' ''valid_to'')"
    using history_periods(2) [OF kv] by (auto simp: defs in_set_enumerate_eq)
  have "sorted_wrt (\<lambda>a b. disjoint_periods (snd a) (snd b)) (List.enumerate 0 (kv_history d))"
    using history_periods(1) [OF kv] by (simp add: sorted_wrt_map [symmetric, of disjoint_periods snd])
  then show "enforced rows kv_history_table (ExcludeGist n [''ns'', ''scope'', ''key''] ''validity'')"
    by (auto simp: defs sorted_wrt_map disjoint_periods_def overlapping_def prod_eq_iff elim!: sorted_wrt_mono_rel [rotated])
  show "enforced rows ckpt_manifest_chunks_table (ForeignKey ''manifest_id'' ''ckpt_manifests'' ''id'' b)"
    using refs by (auto simp: defs refs_ok_def image_iff)
  show "enforced rows ckpt_manifest_chunks_table (ForeignKey ''chunk_hash'' ''ckpt_chunks'' ''hash'' b)"
  proof -
    have "\<exists>x. (mc_chunk_hash r, x) \<in> set (ckpt_chunks d)" if "r \<in> set (ckpt_manifest_chunks d)" for r
      using refs that by (auto simp: refs_ok_def dest: map_of_SomeD)
    then show ?thesis by (force simp: defs image_iff)
  qed
qed

lemma wallet_ok_satisfies:
  assumes "wallet_ok sha d"
  shows "satisfies (wallet_catalog exts) (table_rows d)"
proof -
  have names: "tb_name kv_current_table = ''kv_current''" "tb_name kv_history_table = ''kv_history''" "tb_name ckpt_chunks_table = ''ckpt_chunks''"
    "tb_name ckpt_manifests_table = ''ckpt_manifests''" "tb_name ckpt_manifest_chunks_table = ''ckpt_manifest_chunks''"
    "tb_name ckpt_sequence_counters_table = ''ckpt_sequence_counters''" "tb_name watermarks_table = ''watermarks''"
    "tb_name transaction_history_table = ''transaction_history''"
    by (simp_all add: wallet_tables)
  have constraints: "tb_constraints kv_current_table = [PrimaryKey [''ns'', ''scope'', ''key'']]"
    "tb_constraints kv_history_table = [PrimaryKey [''id''], CheckLess ''kv_history_range'' ''valid_from'' ''valid_to'',
       ExcludeGist ''kv_history_no_overlap'' [''ns'', ''scope'', ''key''] ''validity'']"
    "tb_constraints ckpt_chunks_table = [PrimaryKey [''hash'']]" "tb_constraints ckpt_manifests_table = [PrimaryKey [''id'']]"
    "tb_constraints ckpt_manifest_chunks_table = [ForeignKey ''manifest_id'' ''ckpt_manifests'' ''id'' True,
       ForeignKey ''chunk_hash'' ''ckpt_chunks'' ''hash'' False, PrimaryKey [''manifest_id'', ''position'']]"
    "tb_constraints ckpt_sequence_counters_table = [PrimaryKey [''w'', ''net'']]" "tb_constraints watermarks_table = [PrimaryKey [''kind'', ''key'']]"
    "tb_constraints transaction_history_table = [PrimaryKey [''wallet_id'', ''tx_hash'']]"
    by (simp_all add: wallet_tables)
  show ?thesis
    unfolding satisfies_def wallet_catalog_def
    by (simp add: names constraints rows_conform wallet_primary_keys [OF assms] wallet_other_constraints [OF assms] list_all_iff del: enforced.simps)
qed

section \<open>Properties\<close>


definition sample_calls :: "wallet_call list" where
  "sample_calls =
     [KvCall ([], quiet 5000000 1, (js ''ns'', js ''wallet'', js ''k''), JNum 1, \<lparr>po_expectedVersion = None, po_tx = None, po_signal = NoSignal\<rparr>),
      KvCall ([], quiet 6000000 2, (js ''ns'', js ''wallet'', js ''k''), JNum 2, \<lparr>po_expectedVersion = None, po_tx = None, po_signal = NoSignal\<rparr>),
      CkptCall (SaveCall (quiet 7000000 3) no_faults (js ''w'') (js ''n'') [1, 2, 3] demo_opts),
      WatermarkCall [] (quiet 8000000 4) (js ''sync'') (js ''tip'') (JNum 7) plain_wm]"


end
