(* ===== verification/ExtensionRace.thy ===== *)
theory ExtensionRace
  imports Catalog
begin

text \<open>
  Migration 001 of several schemas of one database at the same time. The runner's lock is per schema, so their
  transactions interleave, while \<^verbatim>\<open>CREATE EXTENSION IF NOT EXISTS\<close> works on one row of the database: it looks for the
  row among what is committed or its own, and then inserts it, which a row of another session, committed since
  or still uncommitted, turns into a unique violation. A step is one statement of one session, that one in two;
  \<^verbatim>\<open>pg_advisory_xact_lock\<close> is granted when no other session has it and given back by \<^verbatim>\<open>COMMIT\<close> and \<^verbatim>\<open>ROLLBACK\<close>.
\<close>

datatype ext_phase = Outside | At nat | Prechecked nat bool | Collided

record ext_db =
  xd_installed :: "string list"
  xd_pending :: "nat \<Rightarrow> string list"
  xd_locks :: "int \<times> int \<Rightarrow> nat option"
  xd_phase :: "nat \<Rightarrow> ext_phase"

definition enter :: "nat \<Rightarrow> ext_phase \<Rightarrow> ext_db \<Rightarrow> ext_db" where
  "enter w p s = s\<lparr>xd_phase := (xd_phase s)(w := p)\<rparr>"

definition leave :: "nat \<Rightarrow> ext_db \<Rightarrow> ext_db" where
  "leave w s = enter w Outside (s\<lparr>xd_pending := (xd_pending s)(w := []),
     xd_locks := (\<lambda>k. if xd_locks s k = Some w then None else xd_locks s k)\<rparr>)"

definition taken_by_others :: "nat \<Rightarrow> string \<Rightarrow> ext_db \<Rightarrow> bool" where
  "taken_by_others w e s \<longleftrightarrow> e \<in> set (xd_installed s) \<or> (\<exists>v. v \<noteq> w \<and> e \<in> set (xd_pending s v))"

inductive ext_step :: "ddl list \<Rightarrow> ext_db \<Rightarrow> ext_db \<Rightarrow> bool" for script where
  begun: "xd_phase s w = Outside \<Longrightarrow> ext_step script s (enter w (At 0) s)"
| locked: "xd_phase s w = At n \<Longrightarrow> n < length script \<Longrightarrow> script ! n = XactLock a b \<Longrightarrow> xd_locks s (a, b) \<in> {None, Some w} \<Longrightarrow>
    ext_step script s (enter w (At (Suc n)) (s\<lparr>xd_locks := (xd_locks s)((a, b) \<mapsto> w)\<rparr>))"
| prechecked: "xd_phase s w = At n \<Longrightarrow> n < length script \<Longrightarrow> script ! n = CreateExtension e \<Longrightarrow>
    ext_step script s (enter w (Prechecked n (e \<in> set (xd_installed s @ xd_pending s w))) s)"
| present: "xd_phase s w = Prechecked n True \<Longrightarrow> ext_step script s (enter w (At (Suc n)) s)"
| created: "xd_phase s w = Prechecked n False \<Longrightarrow> script ! n = CreateExtension e \<Longrightarrow> \<not> taken_by_others w e s \<Longrightarrow>
    ext_step script s (enter w (At (Suc n)) (s\<lparr>xd_pending := (xd_pending s)(w := e # xd_pending s w)\<rparr>))"
| collided: "xd_phase s w = Prechecked n False \<Longrightarrow> script ! n = CreateExtension e \<Longrightarrow> taken_by_others w e s \<Longrightarrow>
    ext_step script s (enter w Collided s)"
| ordinary: "xd_phase s w = At n \<Longrightarrow> n < length script \<Longrightarrow> \<forall>a b. script ! n \<noteq> XactLock a b \<Longrightarrow> \<forall>e. script ! n \<noteq> CreateExtension e \<Longrightarrow>
    ext_step script s (enter w (At (Suc n)) s)"
| committed: "xd_phase s w = At (length script) \<Longrightarrow>
    ext_step script s (leave w (s\<lparr>xd_installed := xd_installed s @ xd_pending s w\<rparr>))"
| rolled_back: "xd_phase s w \<noteq> Outside \<Longrightarrow> ext_step script s (leave w s)"

inductive_cases ext_stepE: "ext_step script s t"

definition start :: "string list \<Rightarrow> ext_db" where
  "start exts = \<lparr>xd_installed = exts, xd_pending = (\<lambda>_. []), xd_locks = (\<lambda>_. None), xd_phase = (\<lambda>_. Outside)\<rparr>"

section \<open>The lock covers the transaction\<close>

text \<open>A script that takes the lock first, creates the extension next, and does neither again.\<close>

definition guarded_script :: "int \<times> int \<Rightarrow> string \<Rightarrow> ddl list \<Rightarrow> bool" where
  "guarded_script key e script \<longleftrightarrow>
     (\<exists>rest. script = XactLock (fst key) (snd key) # CreateExtension e # rest
        \<and> (\<forall>d \<in> set rest. (\<forall>a b. d \<noteq> XactLock a b) \<and> (\<forall>x. d \<noteq> CreateExtension x)))"

lemma guarded_nth:
  assumes "guarded_script key e script" and "n < length script"
  shows "script ! n = XactLock a b \<longleftrightarrow> n = 0 \<and> key = (a, b)" and "script ! n = CreateExtension x \<longleftrightarrow> n = 1 \<and> x = e"
  using assms by (auto simp: guarded_script_def nth_Cons' prod_eq_iff split: if_splits)

text \<open>What a session's phase says of the lock and of the extension.\<close>

fun session_ok :: "int \<times> int \<Rightarrow> string \<Rightarrow> ext_db \<Rightarrow> nat \<Rightarrow> ext_phase \<Rightarrow> bool" where
  "session_ok key e s w Outside \<longleftrightarrow> xd_pending s w = [] \<and> xd_locks s key \<noteq> Some w"
| "session_ok key e s w (At n) \<longleftrightarrow>
     (if n = 0 then xd_pending s w = [] \<and> xd_locks s key \<noteq> Some w
      else xd_locks s key = Some w \<and> (if n = 1 then xd_pending s w = [] else e \<in> set (xd_installed s @ xd_pending s w)))"
| "session_ok key e s w (Prechecked n b) \<longleftrightarrow>
     xd_locks s key = Some w \<and> n = 1 \<and> xd_pending s w = [] \<and> (b \<longleftrightarrow> e \<in> set (xd_installed s))"
| "session_ok key e s w Collided \<longleftrightarrow> False"

definition ext_ok :: "int \<times> int \<Rightarrow> string \<Rightarrow> ext_db \<Rightarrow> bool" where
  "ext_ok key e s \<longleftrightarrow> (\<forall>w. session_ok key e s w (xd_phase s w))"

lemma session_ok_frame:
  "xd_locks t key = xd_locks s key \<Longrightarrow> xd_pending t v = xd_pending s v \<Longrightarrow> xd_installed t = xd_installed s \<Longrightarrow>
   session_ok key e t v p = session_ok key e s v p"
  by (cases p) auto

text \<open>Who does not hold the lock has not come past its first statement.\<close>

lemma bystander:
  assumes "ext_ok key e s" and "xd_locks s key \<noteq> Some v"
  shows "xd_phase s v \<in> {Outside, At 0}" and "xd_pending s v = []"
proof -
  have "session_ok key e s v (xd_phase s v)" using assms(1) by (simp add: ext_ok_def)
  with assms(2) show "xd_phase s v \<in> {Outside, At 0}" "xd_pending s v = []"
    by (cases "xd_phase s v"; auto split: if_splits)+
qed

lemma bystander_ok: "p \<in> {Outside, At 0} \<Longrightarrow> xd_pending s v = [] \<Longrightarrow> xd_locks s key \<noteq> Some v \<Longrightarrow> session_ok key e s v p"
  by auto

lemma enter_simps [simp]:
  "xd_phase (enter w p s) = (xd_phase s)(w := p)" "xd_pending (enter w p s) = xd_pending s" "xd_locks (enter w p s) = xd_locks s"
  "xd_installed (enter w p s) = xd_installed s"
  by (simp_all add: enter_def)

text \<open>A step of \<open>w\<close> that changes neither the lock nor what is installed, nor what others have pending.\<close>

lemma ext_ok_enter:
  assumes "ext_ok key e s" and "xd_locks t key = xd_locks s key" and "xd_installed t = xd_installed s"
    and "\<And>v. v \<noteq> w \<Longrightarrow> xd_pending t v = xd_pending s v" and "xd_phase t = xd_phase s" and "session_ok key e t w p"
  shows "ext_ok key e (enter w p t)"
  unfolding ext_ok_def
proof
  fix v
  have "session_ok key e s v (xd_phase s v)" using assms(1) by (simp add: ext_ok_def)
  then show "session_ok key e (enter w p t) v (xd_phase (enter w p t) v)"
    using assms(2-6) session_ok_frame [of t key s v e "xd_phase s v"] session_ok_frame [of "enter w p t" key t v e] by (cases "v = w") auto
qed

lemma ext_ok_leave:
  assumes "ext_ok key e s" and "xd_locks s key \<in> {None, Some w}"
  shows "ext_ok key e (leave w (s\<lparr>xd_installed := is\<rparr>))"
  unfolding ext_ok_def
proof
  fix v
  show "session_ok key e (leave w (s\<lparr>xd_installed := is\<rparr>)) v (xd_phase (leave w (s\<lparr>xd_installed := is\<rparr>)) v)"
  proof (cases "v = w")
    case False
    then have "xd_locks s key \<noteq> Some v" using assms(2) by auto
    with bystander [OF assms(1)] False show ?thesis by (intro bystander_ok) (auto simp: leave_def)
  qed (simp add: leave_def)
qed

lemma ext_step_ok:
  assumes g: "guarded_script key e script" and ok: "ext_ok key e s" and "ext_step script s t"
  shows "ext_ok key e t"
  using assms(3)
proof (cases rule: ext_stepE [consumes 1])
  case (1 w)
  have "session_ok key e s w (xd_phase s w)" using ok by (simp add: ext_ok_def)
  with 1 show ?thesis by (auto intro!: ext_ok_enter [OF ok])
next
  case (2 w n a b)
  with guarded_nth(1) [OF g] have key: "n = 0" "key = (a, b)" by auto
  have "session_ok key e s w (xd_phase s w)" using ok by (simp add: ext_ok_def)
  with 2 key have w: "xd_pending s w = []" by simp
  show ?thesis
    unfolding ext_ok_def
  proof
    fix v
    have "v \<noteq> w \<Longrightarrow> xd_locks s key \<noteq> Some v" using 2 key by auto
    with bystander [OF ok, of v] show "session_ok key e t v (xd_phase t v)"
      using 2 key w by (cases "v = w") (auto intro!: bystander_ok)
  qed
next
  case (3 w n x)
  with guarded_nth(2) [OF g] have n: "n = 1" "x = e" by auto
  have "session_ok key e s w (xd_phase s w)" using ok by (simp add: ext_ok_def)
  with 3 n show ?thesis by (auto intro!: ext_ok_enter [OF ok])
next
  case (4 w n)
  have "session_ok key e s w (xd_phase s w)" using ok by (simp add: ext_ok_def)
  with 4 show ?thesis by (auto intro!: ext_ok_enter [OF ok])
next
  case (5 w n x)
  have "session_ok key e s w (xd_phase s w)" using ok by (simp add: ext_ok_def)
  with 5 have w: "xd_locks s key = Some w" "n = 1" by auto
  moreover have "x = e" using guarded_nth(2) [OF g, of n x] 5 w g by (auto simp: guarded_script_def)
  ultimately show ?thesis using 5 by (auto intro!: ext_ok_enter [OF ok])
next
  case (6 w n x)
  have "session_ok key e s w (xd_phase s w)" using ok by (simp add: ext_ok_def)
  with 6 have w: "xd_locks s key = Some w" "n = 1" "e \<notin> set (xd_installed s)" by auto
  moreover have "x = e" using guarded_nth(2) [OF g, of n x] 6 w g by (auto simp: guarded_script_def)
  moreover have "xd_pending s v = []" if "v \<noteq> w" for v using bystander(2) [OF ok, of v] w(1) that by simp
  ultimately show ?thesis using 6 by (auto simp: taken_by_others_def)
next
  case (7 w n)
  have "n \<noteq> 0" "n \<noteq> 1"
    using 7 guarded_nth(1) [OF g "7"(3), of "fst key" "snd key"] guarded_nth(2) [OF g "7"(3), of e] by auto
  moreover have "session_ok key e s w (xd_phase s w)" using ok by (simp add: ext_ok_def)
  ultimately show ?thesis using 7 by (auto intro!: ext_ok_enter [OF ok])
next
  case (8 w)
  have "length script \<noteq> 0" using g by (auto simp: guarded_script_def)
  moreover have "session_ok key e s w (xd_phase s w)" using ok by (simp add: ext_ok_def)
  ultimately show ?thesis using 8 ext_ok_leave [OF ok] by auto
next
  case (9 w)
  have w: "session_ok key e s w (xd_phase s w)" using ok by (simp add: ext_ok_def)
  show ?thesis
  proof (cases "xd_locks s key = Some w")
    case True
    with ext_ok_leave [OF ok, of w "xd_installed s"] 9 show ?thesis by simp
  next
    case False
    with bystander [OF ok False] 9 show ?thesis
      unfolding leave_def by (auto intro!: ext_ok_enter [OF ok])
  qed
qed

lemma ext_steps_ok:
  assumes "guarded_script key e script" and "(ext_step script)\<^sup>*\<^sup>* (start exts) s"
  shows "ext_ok key e s"
  using assms(2)
proof (induction rule: rtranclp_induct)
  case base
  show ?case by (simp add: ext_ok_def start_def)
next
  case (step s t)
  with ext_step_ok [OF assms(1)] show ?case by blast
qed

lemma migration_001_guarded: "guarded_script (3, 0) ''btree_gist'' up_001_temporal_kv"
  by (auto simp: guarded_script_def up_001_temporal_kv_def)

text \<open>
  C34. Migrations of different schemas do not collide. However the statements of migration 001, run for any number
  of schemas of one database at once, interleave, commit and roll back, and whichever extensions were there
  before: no session's \<^verbatim>\<open>CREATE EXTENSION\<close> meets the unique violation, and every session that has passed it sees
  the extension, committed or its own, when it creates the exclusion constraint that needs it.
\<close>

theorem extension_race_free:
  assumes "(ext_step up_001_temporal_kv)\<^sup>*\<^sup>* (start exts) s"
  shows "xd_phase s w \<noteq> Collided
    \<and> (\<forall>n. xd_phase s w = At n \<and> 2 \<le> n \<longrightarrow> ''btree_gist'' \<in> set (xd_installed s @ xd_pending s w))"
proof -
  have "ext_ok (3, 0) ''btree_gist'' s" by (rule ext_steps_ok [OF migration_001_guarded assms])
  then have "session_ok (3, 0) ''btree_gist'' s w (xd_phase s w)" by (simp add: ext_ok_def)
  then show ?thesis by (cases "xd_phase s w") auto
qed

definition sample_race :: ext_db where
  "sample_race = (start [''plpgsql''])\<lparr>xd_phase := (\<lambda>_. Outside)(0 := At 2, 1 := At 0), xd_locks := (\<lambda>_. None)((3, 0) \<mapsto> 0),
     xd_pending := (\<lambda>_. [])(0 := [''btree_gist''])\<rparr>"

text \<open>Session 0 has created the extension and not committed; session 1 waits for the lock.\<close>

lemma sample_race_reached: "(ext_step up_001_temporal_kv)\<^sup>*\<^sup>* (start [''plpgsql'']) sample_race"
proof -
  let ?S = "ext_step up_001_temporal_kv" and ?s0 = "start [''plpgsql'']"
  have len: "0 < length up_001_temporal_kv" "1 < length up_001_temporal_kv" and first: "up_001_temporal_kv ! 0 = XactLock 3 0"
    and second: "up_001_temporal_kv ! 1 = CreateExtension ''btree_gist''"
    by (simp_all add: up_001_temporal_kv_def)
  let ?s1 = "enter 0 (At 0) ?s0"
  let ?s2 = "enter 1 (At 0) ?s1"
  let ?s3 = "enter 0 (At (Suc 0)) (?s2\<lparr>xd_locks := (xd_locks ?s2)((3, 0) \<mapsto> 0)\<rparr>)"
  let ?s4 = "enter 0 (Prechecked 1 (''btree_gist'' \<in> set (xd_installed ?s3 @ xd_pending ?s3 0))) ?s3"
  let ?s5 = "enter 0 (At (Suc 1)) (?s4\<lparr>xd_pending := (xd_pending ?s4)(0 := ''btree_gist'' # xd_pending ?s4 0)\<rparr>)"
  note more_steps = rtranclp.rtrancl_into_rtrancl
  have 1: "?S\<^sup>*\<^sup>* ?s0 ?s1" by (rule r_into_rtranclp, rule begun) (simp add: start_def)
  have 2: "?S\<^sup>*\<^sup>* ?s0 ?s2" by (rule more_steps [OF 1 begun]) (simp add: start_def)
  have 3: "?S\<^sup>*\<^sup>* ?s0 ?s3" by (rule more_steps [OF 2 locked [OF _ len(1) first]]) (simp_all add: start_def)
  have 4: "?S\<^sup>*\<^sup>* ?s0 ?s4" by (rule more_steps [OF 3], rule prechecked [OF _ len(2) second, of ?s3 0]) simp
  have "?S\<^sup>*\<^sup>* ?s0 ?s5" by (rule more_steps [OF 4], rule created [OF _ second]) (simp_all add: start_def taken_by_others_def)
  moreover have "?s5 = sample_race"
    by (rule ext_db.equality) (auto simp: sample_race_def enter_def start_def)
  ultimately show ?thesis by simp
qed

theorem extension_race_free_witness:
  "xd_phase sample_race 0 = At 2 \<and> ''btree_gist'' \<in> set (xd_installed sample_race @ xd_pending sample_race 0) \<and> xd_phase sample_race 1 \<noteq> Collided"
proof -
  have "xd_phase sample_race 0 = At 2" by (simp add: sample_race_def)
  with extension_race_free [OF sample_race_reached, of 0] extension_race_free [OF sample_race_reached, of 1] show ?thesis by simp
qed

end
