(* ===== verification/ChainArchive.thy ===== *)
theory ChainArchive
  imports ArchiveSchema
begin

text \<open>
  The chain archive (\<^verbatim>\<open>src/src/postgres/chain-archive-store.ts\<close>, contract in
  \<^verbatim>\<open>src/src/interfaces/chain-archive-store.ts\<close>): content-addressed blobs with roles, the block
  tree with one canonical block per height, transactions, bridge and verifier-key observations, and
  the archive's own watermark. SHA-256 is an argument \<open>sha\<close>; what the code relies on is that a digest
  has 32 bytes.
\<close>

section \<open>Hexadecimal text\<close>

definition lower_hex :: "16 word \<Rightarrow> bool" where
  "lower_hex c \<longleftrightarrow> (0x30 \<le> c \<and> c \<le> 0x39) \<or> (0x61 \<le> c \<and> c \<le> 0x66)"

definition hex_value :: "16 word \<Rightarrow> nat option" where
  "hex_value c =
     (if 0x30 \<le> c \<and> c \<le> 0x39 then Some (unat c - 48)
      else if 0x61 \<le> c \<and> c \<le> 0x66 then Some (unat c - 87)
      else if 0x41 \<le> c \<and> c \<le> 0x46 then Some (unat c - 55)
      else None)"

definition Hex32Schema :: "jsstr \<Rightarrow> bool" where
  "Hex32Schema s \<longleftrightarrow> length s = 64 \<and> list_all lower_hex s"

text \<open>\<^verbatim>\<open>buf.toString("hex")\<close> and \<^verbatim>\<open>Buffer.from(hex, "hex")\<close>, which stops at the first bad pair.\<close>

definition bufToHex :: "bytes \<Rightarrow> jsstr" where
  "bufToHex b = concat (map (\<lambda>x. [hex_digit (unat x div 16), hex_digit (unat x mod 16)]) b)"

fun hexToBuf :: "jsstr \<Rightarrow> bytes" where
  "hexToBuf (c # d # r) =
     (case (hex_value c, hex_value d) of
        (Some x, Some y) \<Rightarrow> of_nat (16 * x + y) # hexToBuf r
      | _ \<Rightarrow> [])"
| "hexToBuf _ = []"

definition sha256Hex :: "(bytes \<Rightarrow> bytes) \<Rightarrow> bytes \<Rightarrow> jsstr" where
  "sha256Hex sha data = bufToHex (sha data)"

definition assertHex32 :: "jsstr \<Rightarrow> string \<Rightarrow> unit arun" where
  "assertHex32 s field =
     (if Hex32Schema s then eret () else ethrow (validation_error (''PgChainArchiveStore.'' @ field)))"

section \<open>Records\<close>

record block_record =
  br_net :: jsstr
  br_blockHash :: jsstr
  br_height :: rat
  br_parentHash :: jsstr
  br_stateRoot :: jsstr
  br_extrinsicsRoot :: jsstr
  br_author :: "jsstr option"
  br_headerBytes :: bytes
  br_bodyBytes :: "bytes option"
  br_isCanonical :: bool
  br_status :: jsstr
  br_finalized :: bool

record block_meta =
  bm_net :: jsstr
  bm_blockHash :: jsstr
  bm_height :: rat
  bm_parentHash :: jsstr
  bm_stateRoot :: jsstr
  bm_extrinsicsRoot :: jsstr
  bm_author :: "jsstr option"
  bm_headerBlobHash :: jsstr
  bm_bodyBlobHash :: "jsstr option"
  bm_isCanonical :: bool
  bm_status :: jsstr
  bm_finalized :: bool

record tx_record =
  tr_net :: jsstr
  tr_txHash :: jsstr
  tr_blockHeight :: rat
  tr_blockHash :: jsstr
  tr_position :: rat
  tr_kind :: jsstr
  tr_protocolVersion :: rat
  tr_result :: "jsstr option"
  tr_rawBytes :: bytes

record tx_meta =
  tm_net :: jsstr
  tm_txHash :: jsstr
  tm_blockHeight :: rat
  tm_blockHash :: jsstr
  tm_position :: rat
  tm_kind :: jsstr
  tm_protocolVersion :: rat
  tm_result :: "jsstr option"
  tm_rawBlobHash :: jsstr

record bridge_record =
  or_net :: jsstr
  or_blockHeight :: rat
  or_blockHash :: jsstr
  or_observationIndex :: rat
  or_kind :: jsstr
  or_rawBytes :: bytes

record block_bundle =
  bb_block :: block_record
  bb_transactions :: "tx_record list"
  bb_bridgeObservations :: "bridge_record list"

record vk_record =
  vk_vkBytes :: bytes
  vk_net :: jsstr
  vk_scope :: jsstr
  vk_tag :: jsstr
  vk_contractAddress :: "jsstr option"
  vk_firstSeenHeight :: rat

definition toBlockMeta :: "block_row \<Rightarrow> block_meta" where
  "toBlockMeta r =
     \<lparr>bm_net = b_net r, bm_blockHash = bufToHex (b_block_hash r), bm_height = Number_bigint (b_height r),
      bm_parentHash = bufToHex (b_parent_hash r), bm_stateRoot = bufToHex (b_state_root r),
      bm_extrinsicsRoot = bufToHex (b_extrinsics_root r), bm_author = map_option bufToHex (b_author r),
      bm_headerBlobHash = bufToHex (b_header_blob_hash r), bm_bodyBlobHash = map_option bufToHex (b_body_blob_hash r),
      bm_isCanonical = b_is_canonical r, bm_status = b_status r, bm_finalized = b_finalized r\<rparr>"

definition toTxMeta :: "tx_row \<Rightarrow> tx_meta" where
  "toTxMeta r =
     \<lparr>tm_net = x_net r, tm_txHash = bufToHex (x_tx_hash r), tm_blockHeight = Number_bigint (x_block_height r),
      tm_blockHash = bufToHex (x_block_hash r), tm_position = of_int (x_position r), tm_kind = x_kind r,
      tm_protocolVersion = of_int (x_protocol_version r), tm_result = x_result r,
      tm_rawBlobHash = bufToHex (x_raw_blob_hash r)\<rparr>"

section \<open>Writing\<close>

text \<open>
  \<open>try { return await this.sql.begin(body) } catch (err) { throw translatePostgresError(err) }\<close>.
\<close>

definition in_transaction :: "tx_faults \<Rightarrow> 'a arun \<Rightarrow> 'a arun" where
  "in_transaction fl body =
     emap_error (\<lambda>err. translatePostgresError err None) (sql_begin (f_begin fl) (f_commit fl) body)"

text \<open>
  The pair of inserts that every writer starts with, statements \<open>n\<close> and \<open>n + 1\<close> of the method: the
  blob under its own hash, then its role.
\<close>

definition insert_blob_with_role :: "(bytes \<Rightarrow> bytes) \<Rightarrow> pg_env \<Rightarrow> nat \<Rightarrow> bytes \<Rightarrow> jsstr \<Rightarrow> bytes arun" where
  "insert_blob_with_role sha env n data role =
     (let hash = hexToBuf (sha256Hex sha data) in
      ebind (stmt env n (insert_blob hash data)) (\<lambda>_.
      ebind (stmt env (Suc n) (ebind (elift (bind_text role)) (insert_role hash))) (\<lambda>_.
        eret hash)))"

definition putBlobWithRole :: "(bytes \<Rightarrow> bytes) \<Rightarrow> pg_env \<Rightarrow> tx_faults \<Rightarrow> bytes \<Rightarrow> jsstr \<Rightarrow> jsstr arun" where
  "putBlobWithRole sha env fl data role =
     in_transaction fl
       (ebind (insert_blob_with_role sha env 0 data role) (\<lambda>_. eret (sha256Hex sha data)))"

definition block_row_of :: "block_record \<Rightarrow> bytes \<Rightarrow> bytes option \<Rightarrow> jsstr \<Rightarrow> int \<Rightarrow> jsstr \<Rightarrow> block_row" where
  "block_row_of b header body net height status =
     \<lparr>b_net = net, b_block_hash = hexToBuf (br_blockHash b), b_height = height,
      b_parent_hash = hexToBuf (br_parentHash b), b_state_root = hexToBuf (br_stateRoot b),
      b_extrinsics_root = hexToBuf (br_extrinsicsRoot b),
      b_author = (case br_author b of None \<Rightarrow> None | Some x \<Rightarrow> if x = [] then None else Some (hexToBuf x)),
      b_header_blob_hash = header, b_body_blob_hash = body, b_is_canonical = br_isCanonical b,
      b_status = status, b_finalized = br_finalized b\<rparr>"

definition insertBlockRow :: "(bytes \<Rightarrow> bytes) \<Rightarrow> pg_env \<Rightarrow> block_record \<Rightarrow> (jsstr \<times> jsstr option) arun" where
  "insertBlockRow sha env b =
     ebind (insert_blob_with_role sha env 0 (br_headerBytes b) (js ''block_header'')) (\<lambda>header.
     ebind (case br_bodyBytes b of
              None \<Rightarrow> eret None
            | Some body \<Rightarrow> ebind (insert_blob_with_role sha env 2 body (js ''block_body'')) (\<lambda>h. eret (Some h))) (\<lambda>body.
     ebind (stmt env 4
              (ebind (elift (bind_text (br_net b))) (\<lambda>net.
               ebind (elift (bind_int 64 (br_height b))) (\<lambda>height.
               ebind (elift (bind_text (br_status b))) (\<lambda>status.
                 insert_block (block_row_of b header body net height status)))))) (\<lambda>_.
       eret (sha256Hex sha (br_headerBytes b), map_option (sha256Hex sha) (br_bodyBytes b)))))"

definition bind_text_opt :: "jsstr option \<Rightarrow> js_error + jsstr option" where
  "bind_text_opt s = (case s of None \<Rightarrow> Inr None | Some x \<Rightarrow> (case bind_text x of Inl e \<Rightarrow> Inl e | Inr y \<Rightarrow> Inr (Some y)))"

text \<open>One pass of the loop of \<^verbatim>\<open>insertTransactionRows\<close>: three statements.\<close>

definition insertTransactionRow :: "(bytes \<Rightarrow> bytes) \<Rightarrow> pg_env \<Rightarrow> nat \<Rightarrow> tx_record \<Rightarrow> unit arun" where
  "insertTransactionRow sha env n t =
     ebind (insert_blob_with_role sha env n (tr_rawBytes t) (js ''tx_raw'')) (\<lambda>raw.
     stmt env (n + 2)
       (ebind (elift (bind_text (tr_net t))) (\<lambda>net.
        ebind (elift (bind_int 64 (tr_blockHeight t))) (\<lambda>height.
        ebind (elift (bind_int 32 (tr_position t))) (\<lambda>position.
        ebind (elift (bind_text (tr_kind t))) (\<lambda>kind.
        ebind (elift (bind_int 32 (tr_protocolVersion t))) (\<lambda>ver.
        ebind (elift (bind_text_opt (tr_result t))) (\<lambda>result.
          insert_transaction
            \<lparr>x_net = net, x_tx_hash = hexToBuf (tr_txHash t), x_block_height = height,
             x_block_hash = hexToBuf (tr_blockHash t), x_position = position, x_kind = kind,
             x_protocol_version = ver, x_result = result, x_raw_blob_hash = raw\<rparr>))))))))"

fun insertTransactionRows :: "(bytes \<Rightarrow> bytes) \<Rightarrow> pg_env \<Rightarrow> nat \<Rightarrow> tx_record list \<Rightarrow> unit arun" where
  "insertTransactionRows sha env n [] = eret ()"
| "insertTransactionRows sha env n (t # ts) =
     ebind (insertTransactionRow sha env n t) (\<lambda>_. insertTransactionRows sha env (n + 3) ts)"

definition insertBridgeObservationRow :: "(bytes \<Rightarrow> bytes) \<Rightarrow> pg_env \<Rightarrow> nat \<Rightarrow> bridge_record \<Rightarrow> unit arun" where
  "insertBridgeObservationRow sha env n o' =
     ebind (insert_blob_with_role sha env n (or_rawBytes o') (js ''bridge_observation'')) (\<lambda>raw.
     stmt env (n + 2)
       (ebind (elift (bind_text (or_net o'))) (\<lambda>net.
        ebind (elift (bind_int 64 (or_blockHeight o'))) (\<lambda>height.
        ebind (elift (bind_int 32 (or_observationIndex o'))) (\<lambda>idx.
        ebind (elift (bind_text (or_kind o'))) (\<lambda>kind.
          insert_bridge_observation
            \<lparr>o_net = net, o_block_height = height, o_block_hash = hexToBuf (or_blockHash o'),
             o_observation_index = idx, o_kind = kind, o_raw_blob_hash = raw\<rparr>))))))"

fun insertBridgeObservationRows :: "(bytes \<Rightarrow> bytes) \<Rightarrow> pg_env \<Rightarrow> nat \<Rightarrow> bridge_record list \<Rightarrow> unit arun" where
  "insertBridgeObservationRows sha env n [] = eret ()"
| "insertBridgeObservationRows sha env n (x # xs) =
     ebind (insertBridgeObservationRow sha env n x) (\<lambda>_. insertBridgeObservationRows sha env (n + 3) xs)"

definition assert_block :: "string \<Rightarrow> block_record \<Rightarrow> unit arun" where
  "assert_block m b =
     ebind (assertHex32 (br_blockHash b) (m @ ''.blockHash'')) (\<lambda>_.
     ebind (assertHex32 (br_parentHash b) (m @ ''.parentHash'')) (\<lambda>_.
     ebind (assertHex32 (br_stateRoot b) (m @ ''.stateRoot'')) (\<lambda>_.
     ebind (assertHex32 (br_extrinsicsRoot b) (m @ ''.extrinsicsRoot'')) (\<lambda>_.
       (case br_author b of None \<Rightarrow> eret () | Some x \<Rightarrow> assertHex32 x (m @ ''.author''))))))"

definition assert_tx :: "string \<Rightarrow> tx_record \<Rightarrow> unit arun" where
  "assert_tx m t =
     ebind (assertHex32 (tr_txHash t) (m @ ''.txHash'')) (\<lambda>_. assertHex32 (tr_blockHash t) (m @ ''.blockHash''))"

definition putBlock :: "(bytes \<Rightarrow> bytes) \<Rightarrow> pg_env \<Rightarrow> tx_faults \<Rightarrow> block_record \<Rightarrow> (jsstr \<times> jsstr option) arun" where
  "putBlock sha env fl b =
     ebind (assert_block ''putBlock'' b) (\<lambda>_. in_transaction fl (insertBlockRow sha env b))"

definition putTransactions :: "(bytes \<Rightarrow> bytes) \<Rightarrow> pg_env \<Rightarrow> tx_faults \<Rightarrow> tx_record list \<Rightarrow> unit arun" where
  "putTransactions sha env fl txs =
     (if txs = [] then eret ()
      else ebind (eforeach (assert_tx ''putTransactions'') txs) (\<lambda>_.
        in_transaction fl (insertTransactionRows sha env 0 txs)))"

definition putBridgeObservations :: "(bytes \<Rightarrow> bytes) \<Rightarrow> pg_env \<Rightarrow> tx_faults \<Rightarrow> bridge_record list \<Rightarrow> unit arun" where
  "putBridgeObservations sha env fl obs =
     (if obs = [] then eret () else in_transaction fl (insertBridgeObservationRows sha env 0 obs))"

definition putBlockBundle :: "(bytes \<Rightarrow> bytes) \<Rightarrow> pg_env \<Rightarrow> tx_faults \<Rightarrow> block_bundle \<Rightarrow> (jsstr \<times> jsstr option) arun" where
  "putBlockBundle sha env fl bundle =
     (let b = bb_block bundle; txs = bb_transactions bundle; obs = bb_bridgeObservations bundle in
      ebind (assert_block ''putBlockBundle'' b) (\<lambda>_.
      ebind (eforeach (assert_tx ''putBlockBundle.transactions'') txs) (\<lambda>_.
        in_transaction fl
          (ebind (insertBlockRow sha env b) (\<lambda>result.
           ebind (if txs \<noteq> [] then insertTransactionRows sha env 5 txs else eret ()) (\<lambda>_.
           ebind (if obs \<noteq> [] then insertBridgeObservationRows sha env (5 + 3 * length txs) obs else eret ()) (\<lambda>_.
             eret result)))))))"

definition putVerifierKeyObservation :: "(bytes \<Rightarrow> bytes) \<Rightarrow> pg_env \<Rightarrow> tx_faults \<Rightarrow> vk_record \<Rightarrow> unit arun" where
  "putVerifierKeyObservation sha env fl vk =
     in_transaction fl
       (ebind (insert_blob_with_role sha env 0 (vk_vkBytes vk) (js ''verifier_key'')) (\<lambda>vkHash.
        stmt env 2
          (ebind (elift (bind_text (vk_net vk))) (\<lambda>net.
           ebind (elift (bind_text (vk_scope vk))) (\<lambda>scope.
           ebind (elift (bind_text (vk_tag vk))) (\<lambda>tag.
           ebind (elift (bind_int 64 (vk_firstSeenHeight vk))) (\<lambda>height.
             upsert_vk
               \<lparr>v_vk_hash = vkHash, v_net = net, v_scope = scope, v_tag = tag,
                v_contract_address =
                  (case vk_contractAddress vk of None \<Rightarrow> None | Some x \<Rightarrow> if x = [] then None else Some (hexToBuf x)),
                v_first_seen_height = height\<rparr>)))))))"

section \<open>Canonicity\<close>

definition setCanonical ::
  "pg_env \<Rightarrow> tx_faults \<Rightarrow> jsstr \<Rightarrow> rat \<Rightarrow> jsstr \<Rightarrow> bool option \<Rightarrow> unit arun" where
  "setCanonical env fl net height blockHash finalized =
     ebind (assertHex32 blockHash ''setCanonical.blockHash'') (\<lambda>_.
     let hash = hexToBuf blockHash in
     in_transaction fl
       (ebind (stmt env 0
          (ebind (elift (bind_text net)) (\<lambda>n.
           ebind (elift (bind_int 64 height)) (\<lambda>h.
             update_blocks_stmt
               (\<lambda>r. b_net r = n \<and> b_height r = h \<and> b_is_canonical r \<and> b_block_hash r \<noteq> hash)
               (\<lambda>r. r\<lparr>b_is_canonical := False, b_status := js ''orphaned''\<rparr>) False)))) (\<lambda>_.
        ebind (stmt env 1
          (ebind (elift (bind_text net)) (\<lambda>n.
           ebind (elift (bind_int 64 height)) (\<lambda>h.
             update_blocks_stmt
               (\<lambda>r. b_net r = n \<and> b_height r = h \<and> b_block_hash r = hash)
               (\<lambda>r. r\<lparr>b_is_canonical := True, b_status := js ''canonical'',
                      b_finalized := (case finalized of Some f \<Rightarrow> f | None \<Rightarrow> b_finalized r)\<rparr>) True)))) (\<lambda>updated.
        if updated = 0 then ethrow (StorageErr (BlockNotFoundError net \<lfloor>height\<rfloor> (Some blockHash))) else eret ()))))"

section \<open>Reading\<close>

definition reading :: "pg_env \<Rightarrow> 'a arun \<Rightarrow> 'a arun" where
  "reading env m = emap_error (\<lambda>err. translatePostgresError err None) (stmt env 0 m)"

definition at_height :: "jsstr \<Rightarrow> rat \<Rightarrow> (jsstr \<Rightarrow> int \<Rightarrow> archive \<Rightarrow> 'a) \<Rightarrow> 'a arun" where
  "at_height net height q =
     ebind (elift (bind_text net)) (\<lambda>n. ebind (elift (bind_int 64 height)) (\<lambda>h a. (Inr (q n h a), a)))"

definition getBlocksAtHeight :: "pg_env \<Rightarrow> jsstr \<Rightarrow> rat \<Rightarrow> block_meta list arun" where
  "getBlocksAtHeight env net height =
     reading env (at_height net height (\<lambda>n h a.
       map toBlockMeta (sort_key b_block_hash (filter (\<lambda>r. b_net r = n \<and> b_height r = h) (blocks a)))))"

definition getCanonicalBlockAtHeight :: "pg_env \<Rightarrow> jsstr \<Rightarrow> rat \<Rightarrow> block_meta option arun" where
  "getCanonicalBlockAtHeight env net height =
     reading env (at_height net height (\<lambda>n h a. map_option toBlockMeta (limit1 (canonical_at a n h))))"

definition getTransactionsByHash :: "pg_env \<Rightarrow> jsstr \<Rightarrow> jsstr \<Rightarrow> tx_meta list arun" where
  "getTransactionsByHash env net txHash =
     ebind (assertHex32 txHash ''getTransactionsByHash.txHash'') (\<lambda>_.
       reading env (ebind (elift (bind_text net)) (\<lambda>n a.
         (Inr (map toTxMeta (sort_key x_block_hash
            (filter (\<lambda>r. x_net r = n \<and> x_tx_hash r = hexToBuf txHash) (transactions a)))), a))))"

definition getTransactionsForBlock :: "pg_env \<Rightarrow> jsstr \<Rightarrow> jsstr \<Rightarrow> tx_meta list arun" where
  "getTransactionsForBlock env net blockHash =
     ebind (assertHex32 blockHash ''getTransactionsForBlock.blockHash'') (\<lambda>_.
       reading env (ebind (elift (bind_text net)) (\<lambda>n a.
         (Inr (map toTxMeta (sort_key x_position
            (filter (\<lambda>r. x_net r = n \<and> x_block_hash r = hexToBuf blockHash) (transactions a)))), a))))"

definition getCanonicalChainRange :: "pg_env \<Rightarrow> jsstr \<Rightarrow> rat \<Rightarrow> rat \<Rightarrow> block_meta list arun" where
  "getCanonicalChainRange env net from to =
     reading env
       (ebind (elift (bind_text net)) (\<lambda>n.
        ebind (elift (bind_int 64 from)) (\<lambda>lo.
        ebind (elift (bind_int 64 to)) (\<lambda>hi a.
          (Inr (map toBlockMeta (sort_key b_height
             (filter (\<lambda>r. b_net r = n \<and> lo \<le> b_height r \<and> b_height r \<le> hi \<and> b_is_canonical r) (blocks a)))), a)))))"

definition getBlob :: "(bytes \<Rightarrow> bytes) \<Rightarrow> pg_env \<Rightarrow> jsstr \<Rightarrow> bytes arun" where
  "getBlob sha env hash =
     ebind (assertHex32 hash ''getBlob.hash'') (\<lambda>_.
       emap_error (\<lambda>err. translatePostgresError err None)
         (ebind (stmt env 0 (\<lambda>a. (Inr (map_of (chain_blobs a) (hexToBuf hash)), a))) (\<lambda>row.
          case row of
            None \<Rightarrow> ethrow (StorageErr (BlobMissingError hash))
          | Some data \<Rightarrow>
              (let actualHash = sha256Hex sha data in
               if actualHash \<noteq> hash then ethrow (StorageErr (BlobIntegrityError hash actualHash))
               else eret data))))"

section \<open>Watermark\<close>

definition numeric_height :: "jsval \<Rightarrow> rat option" where
  "numeric_height v =
     (case v of
        JObj kvs \<Rightarrow> (case map_of kvs (js ''height'') of Some (JNum x) \<Rightarrow> Some x | _ \<Rightarrow> None)
      | _ \<Rightarrow> None)"

definition advances :: "jsval \<Rightarrow> jsval \<Rightarrow> bool" where
  "advances old new \<longleftrightarrow>
     (case (numeric_height old, numeric_height new) of (Some x, Some y) \<Rightarrow> x < y | _ \<Rightarrow> True)"

definition archive_kind :: jsstr where
  "archive_kind = js ''chain_archive''"

definition getWatermark :: "pg_env \<Rightarrow> jsstr \<Rightarrow> jsval option arun" where
  "getWatermark env key =
     reading env (ebind (elift (bind_text key)) (\<lambda>k a.
       (Inr (map_option w_value (map_of (archive_watermarks a) (archive_kind, k))), a)))"

definition setWatermark :: "pg_env \<Rightarrow> jsstr \<Rightarrow> jsval \<Rightarrow> unit arun" where
  "setWatermark env key value =
     reading env
       (ebind (elift (bind_text key)) (\<lambda>k.
        ebind (elift (bind_jsonb value)) (\<lambda>v a.
          case map_of (archive_watermarks a) (archive_kind, k) of
            Some old \<Rightarrow>
              (if advances (w_value old) v
               then (Inr (), a\<lparr>archive_watermarks :=
                  AList.update (archive_kind, k) \<lparr>w_value = v, w_updated_at = env_now env\<rparr> (archive_watermarks a)\<rparr>)
               else (Inr (), a))
          | None \<Rightarrow>
              (Inr (), a\<lparr>archive_watermarks :=
                 AList.update (archive_kind, k) \<lparr>w_value = v, w_updated_at = env_now env\<rparr> (archive_watermarks a)\<rparr>))))"

section \<open>Hexadecimal round trips\<close>

lemma unat_hex_digit: "d < 16 \<Longrightarrow> unat (hex_digit d) = (if d < 10 then 48 + d else 87 + d)"
  by (simp add: hex_digit_def unat_of_nat take_bit_nat_eq_self del: of_nat_add)

lemma hex_digit_value [simp]: "d < 16 \<Longrightarrow> hex_value (hex_digit d) = Some d"
  by (auto simp: hex_value_def word_le_nat_alt unat_hex_digit)

lemma lower_hex_digit [simp]: "d < 16 \<Longrightarrow> lower_hex (hex_digit d)"
  by (auto simp: lower_hex_def word_le_nat_alt unat_hex_digit)

lemma hex_value_lower:
  assumes "lower_hex c"
  obtains d where "d < 16" and "hex_value c = Some d" and "hex_digit d = c"
proof -
  have "(48 \<le> unat c \<and> unat c \<le> 57) \<or> (97 \<le> unat c \<and> unat c \<le> 102)"
    using assms by (auto simp: lower_hex_def word_le_nat_alt)
  then have "(if unat c \<le> 57 then unat c - 48 else unat c - 87) < 16"
    and "hex_value c = Some (if unat c \<le> 57 then unat c - 48 else unat c - 87)"
    and "unat (hex_digit (if unat c \<le> 57 then unat c - 48 else unat c - 87)) = unat c"
    by (auto simp: hex_value_def word_le_nat_alt unat_hex_digit)
  with that show thesis by (metis unsigned_word_eqI)
qed

lemma unat_byte: "unat (x :: byte) < 256"
  using unsigned_less [of x, where ?'a = nat] by simp

lemma hexToBuf_bufToHex [simp]: "hexToBuf (bufToHex b) = b"
proof (induction b)
  case Nil
  then show ?case by (simp add: bufToHex_def)
next
  case (Cons x b)
  have "unat x div 16 < 16" using unat_byte [of x] by simp
  with Cons show ?case by (simp add: bufToHex_def del: of_nat_add of_nat_mult of_nat_numeral)
qed

lemma bufToHex_Cons [simp]: "bufToHex (x # b) = hex_digit (unat x div 16) # hex_digit (unat x mod 16) # bufToHex b"
  by (simp add: bufToHex_def)

lemma bufToHex_Nil [simp]: "bufToHex [] = []"
  by (simp add: bufToHex_def)

lemma bufToHex_hexToBuf: "list_all lower_hex s \<Longrightarrow> even (length s) \<Longrightarrow> bufToHex (hexToBuf s) = s \<and> 2 * length (hexToBuf s) = length s"
proof (induction s rule: hexToBuf.induct)
  case (1 c d r)
  from 1(2) obtain x where x: "x < 16" "hex_value c = Some x" "hex_digit x = c" by (auto elim: hex_value_lower)
  from 1(2) obtain y where y: "y < 16" "hex_value d = Some y" "hex_digit y = d" by (auto elim: hex_value_lower)
  have "unat (of_nat (16 * x + y) :: byte) = 16 * x + y"
    using x y by (simp add: unat_of_nat take_bit_nat_eq_self del: of_nat_add of_nat_mult)
  with 1 x y show ?case by (simp del: of_nat_add of_nat_mult)
qed simp_all

lemma Hex32_decode:
  assumes "Hex32Schema s"
  shows "bufToHex (hexToBuf s) = s" and "length (hexToBuf s) = 32"
  using bufToHex_hexToBuf [of s] assms by (simp_all add: Hex32Schema_def)

lemma list_all_bufToHex: "list_all lower_hex (bufToHex b)"
proof (induction b)
  case (Cons x b)
  have "unat x div 16 < 16" using unat_byte [of x] by simp
  with Cons show ?case by simp
qed simp

lemma Hex32_encode: "length b = 32 \<Longrightarrow> Hex32Schema (bufToHex b)"
proof -
  have "length (bufToHex b) = 2 * length b" by (induction b) simp_all
  then show "length b = 32 \<Longrightarrow> Hex32Schema (bufToHex b)" by (simp add: Hex32Schema_def list_all_bufToHex)
qed

lemma bufToHex_inj [simp]: "bufToHex x = bufToHex y \<longleftrightarrow> x = y"
  by (metis hexToBuf_bufToHex)

lemma assertHex32_ok [simp]: "Hex32Schema s \<Longrightarrow> assertHex32 s f = eret ()"
  by (simp add: assertHex32_def)

section \<open>The invariant over every operation\<close>

definition content_addressed :: "(bytes \<Rightarrow> bytes) \<Rightarrow> archive \<Rightarrow> bool" where
  "content_addressed sha a \<longleftrightarrow> (\<forall>b \<in> set (chain_blobs a). fst b = sha (snd b))"

text \<open>What every method of the store keeps.\<close>

definition store_inv :: "(bytes \<Rightarrow> bytes) \<Rightarrow> archive \<Rightarrow> bool" where
  "store_inv sha a \<longleftrightarrow> archive_inv a \<and> content_addressed sha a"

lemma keeps_conj: "keeps P m \<Longrightarrow> keeps Q m \<Longrightarrow> keeps (\<lambda>s. P s \<and> Q s) m"
  by (simp add: keeps_def)

lemma store_inv_empty [simp]: "store_inv sha empty_archive"
  by (simp add: store_inv_def content_addressed_def)

text \<open>A computation that leaves the blobs alone keeps them content-addressed.\<close>

lemma keeps_store:
  assumes "keeps archive_inv m" and "\<And>a x a'. m a = (Inr x, a') \<Longrightarrow> chain_blobs a' = chain_blobs a"
    and "\<And>a e a'. m a = (Inl e, a') \<Longrightarrow> a' = a"
  shows "keeps (store_inv sha) m"
proof (rule keepsI)
  fix a assume "store_inv sha a"
  moreover have "chain_blobs (snd (m a)) = chain_blobs a"
  proof (cases "m a")
    case (Pair r a')
    then show ?thesis using assms(2) [of a _ a'] assms(3) [of a _ a'] by (cases r) simp_all
  qed
  ultimately show "store_inv sha (snd (m a))"
    using keepsD [OF assms(1)] by (simp add: store_inv_def content_addressed_def)
qed

lemma keeps_insert_own_blob [intro]: "keeps (store_inv sha) (insert_blob (hexToBuf (sha256Hex sha data)) data)"
proof (rule keepsI)
  fix a assume "store_inv sha a"
  then show "store_inv sha (snd (insert_blob (hexToBuf (sha256Hex sha data)) data a))"
    using keepsD [OF keeps_insert_blob, of a "sha data" data]
    by (auto simp: store_inv_def sha256Hex_def) (auto simp: insert_blob_def ebind_def run_checks_eq content_addressed_def split: option.splits)
qed


lemma insert_role_Inr:
  "insert_role h r a = (Inr u, a') \<longleftrightarrow>
     r \<in> set blob_roles
   \<and> (if (h, r) \<in> set (chain_blob_roles a) then a' = a
      else has_blob a h \<and> a' = a\<lparr>chain_blob_roles := chain_blob_roles a @ [(h, r)]\<rparr>)"
  by (auto simp: insert_role_def ebind_def run_checks_eq role_checks_def split: if_splits)

lemma insert_role_Inl: "insert_role h r a = (Inl e, a') \<Longrightarrow> a' = a"
  by (auto simp: insert_role_def ebind_def run_checks_eq split: if_splits option.splits)

lemma delete_role_Inl: "delete_role h r a = (Inl e, a') \<Longrightarrow> a' = a"
  by (auto simp: delete_role_def ebind_def chain_archive_assert_role_removable_def split: if_splits)

lemma repoint_role_Inl: "repoint_role h r h' r' a = (Inl e, a') \<Longrightarrow> a' = a"
  by (auto simp: repoint_role_def ebind_def chain_archive_assert_role_removable_def run_checks_eq
      split: if_splits option.splits)

lemma update_blocks_stmt_Inr:
  "update_blocks_stmt sel upd trig a = (Inr n, a') \<longleftrightarrow>
     (\<exists>rows. update_blocks sel upd trig [] (blocks a) = Inr (n, rows) \<and> a' = a\<lparr>blocks := rows\<rparr>)"
  by (auto simp: update_blocks_stmt_def split: sum.splits)

lemma archive_inv_watermarks [simp]: "archive_inv (a\<lparr>archive_watermarks := w\<rparr>) = archive_inv a"
  by (simp add: archive_inv_def archive_ok_defs)

lemma store_inv_watermarks [simp]: "store_inv sha (a\<lparr>archive_watermarks := w\<rparr>) = store_inv sha a"
  by (simp add: store_inv_def content_addressed_def)

lemma keeps_assertHex32 [intro]: "keeps P (assertHex32 s f)"
  by (simp add: assertHex32_def)

lemma keeps_reading [intro]: "keeps P m \<Longrightarrow> keeps P (reading env m)"
  by (auto simp: reading_def)

text \<open>
  The contract a method body relies on, whatever the property of the state: each statement it may
  issue keeps it. Every method then keeps it too, committed or rolled back.
\<close>

locale archive_writes =
  fixes sha :: "bytes \<Rightarrow> bytes" and P :: "archive \<Rightarrow> bool"
  assumes own_blob: "keeps P (insert_blob (hexToBuf (sha256Hex sha data)) data)"
    and role: "keeps P (insert_role h r)"
    and block: "keeps P (insert_block b)"
    and transaction: "keeps P (insert_transaction t)"
    and observation: "keeps P (insert_bridge_observation x)"
    and vk: "keeps P (upsert_vk v)"
    and orphan: "keeps P (update_blocks_stmt sel (\<lambda>r. r\<lparr>b_is_canonical := False, b_status := js ''orphaned''\<rparr>) False)"
    and promote: "keeps P (update_blocks_stmt sel
          (\<lambda>r. r\<lparr>b_is_canonical := True, b_status := js ''canonical'',
                 b_finalized := (case f of Some g \<Rightarrow> g | None \<Rightarrow> b_finalized r)\<rparr>) True)"
    and watermark: "P a \<Longrightarrow>
          (\<And>old. map_of (archive_watermarks a) (archive_kind, k) = Some old \<Longrightarrow> advances (w_value old) j) \<Longrightarrow>
          P (a\<lparr>archive_watermarks := AList.update (archive_kind, k) \<lparr>w_value = j, w_updated_at = now\<rparr> (archive_watermarks a)\<rparr>)"
begin

lemma blob_with_role: "keeps P (insert_blob_with_role sha env n data r)"
  unfolding insert_blob_with_role_def Let_def
  by (intro keeps_ebind keeps_stmt own_blob role keeps_elift keeps_eret)

lemma in_tx: "keeps P m \<Longrightarrow> keeps P (in_transaction fl m)"
  unfolding in_transaction_def by (intro keeps_emap_error keeps_sql_begin)

lemma block_rows: "keeps P (insertBlockRow sha env b)"
  unfolding insertBlockRow_def
  by (intro keeps_ebind keeps_stmt blob_with_role block keeps_elift keeps_eret)
    (auto split: option.splits intro!: keeps_ebind blob_with_role)

lemma transaction_rows: "keeps P (insertTransactionRows sha env n ts)"
  by (induction ts arbitrary: n)
    (auto simp: insertTransactionRow_def intro!: keeps_ebind keeps_stmt blob_with_role transaction)

lemma observation_rows: "keeps P (insertBridgeObservationRows sha env n xs)"
  by (induction xs arbitrary: n)
    (auto simp: insertBridgeObservationRow_def intro!: keeps_ebind keeps_stmt blob_with_role observation)

lemma asserts: "keeps P (assert_block m b)" "keeps P (eforeach (assert_tx m) ts)"
  by (auto simp: assert_block_def assert_tx_def split: option.splits intro!: keeps_ebind keeps_eforeach keeps_assertHex32)

lemma put_blob: "keeps P (putBlobWithRole sha env fl data r)"
  unfolding putBlobWithRole_def by (intro in_tx keeps_ebind blob_with_role keeps_eret)

lemma put_block: "keeps P (putBlock sha env fl b)"
  unfolding putBlock_def by (intro in_tx keeps_ebind block_rows asserts)

lemma put_transactions: "keeps P (putTransactions sha env fl ts)"
  unfolding putTransactions_def by (auto intro!: in_tx keeps_ebind transaction_rows asserts)

lemma put_observations: "keeps P (putBridgeObservations sha env fl xs)"
  unfolding putBridgeObservations_def by (auto intro!: in_tx observation_rows)

lemma put_bundle: "keeps P (putBlockBundle sha env fl bundle)"
  unfolding putBlockBundle_def Let_def
  by (auto intro!: in_tx keeps_ebind block_rows transaction_rows observation_rows asserts)

lemma put_vk: "keeps P (putVerifierKeyObservation sha env fl v)"
  unfolding putVerifierKeyObservation_def
  by (intro in_tx keeps_ebind keeps_stmt blob_with_role vk keeps_elift)

lemma set_canonical: "keeps P (setCanonical env fl net height hash f)"
  unfolding setCanonical_def Let_def
  by (intro in_tx keeps_ebind keeps_stmt keeps_elift keeps_assertHex32 orphan promote) auto

lemma set_watermark_keeps: "keeps P (setWatermark env key v)"
  unfolding setWatermark_def
  by (intro keeps_reading keeps_ebind keeps_elift) (auto simp: keeps_def split: option.splits intro!: watermark)

lemmas every_method =
  put_blob put_block put_transactions put_observations put_bundle put_vk set_canonical set_watermark_keeps

end

text \<open>With direct SQL on the roles beside the methods.\<close>

locale archive_statements = archive_writes +
  assumes drop_role: "keeps P (delete_role h r)"
    and move_role: "keeps P (repoint_role h r h' r')"
begin

lemmas every_statement = every_method drop_role move_role

end


interpretation store_invariant: archive_statements sha "store_inv sha"
proof
  show "keeps (store_inv sha) (insert_role h r)" for h r
    by (rule keeps_store [OF keeps_insert_role _ insert_role_Inl]) (auto simp: insert_role_Inr split: if_splits)
  show "keeps (store_inv sha) (insert_block b)" for b
    by (rule keeps_store [OF keeps_insert_block _ insert_block_Inl]) (auto simp: insert_block_Inr split: if_splits)
  show "keeps (store_inv sha) (insert_transaction t)" for t
    by (rule keeps_store [OF keeps_insert_transaction _ insert_transaction_Inl])
      (auto simp: insert_transaction_Inr split: if_splits)
  show "keeps (store_inv sha) (insert_bridge_observation x)" for x
    by (rule keeps_store [OF keeps_insert_bridge_observation _ insert_bridge_observation_Inl])
      (auto simp: insert_bridge_observation_Inr split: if_splits)
  show "keeps (store_inv sha) (upsert_vk v)" for v
    by (rule keeps_store [OF keeps_upsert_vk _ upsert_vk_Inl]) (auto simp: upsert_vk_Inr split: if_splits)
  show "keeps (store_inv sha) (update_blocks_stmt sel (\<lambda>r. r\<lparr>b_is_canonical := False, b_status := js ''orphaned''\<rparr>) False)" for sel
    by (rule keeps_store [OF keeps_update_blocks_stmt _ update_blocks_stmt_Inl])
      (auto simp: block_key_def update_blocks_stmt_Inr)
  show "keeps (store_inv sha) (update_blocks_stmt sel (\<lambda>r. r\<lparr>b_is_canonical := True, b_status := js ''canonical'',
          b_finalized := (case f of Some g \<Rightarrow> g | None \<Rightarrow> b_finalized r)\<rparr>) True)" for sel f
    by (rule keeps_store [OF keeps_update_blocks_stmt _ update_blocks_stmt_Inl])
      (auto simp: block_key_def update_blocks_stmt_Inr)
  show "keeps (store_inv sha) (delete_role h r)" for h r
    by (rule keeps_store [OF keeps_delete_role _ delete_role_Inl]) (auto dest: delete_role_Inr)
  show "keeps (store_inv sha) (repoint_role h r h' r')" for h r h' r'
    by (rule keeps_store [OF keeps_repoint_role _ repoint_role_Inl]) (auto dest: repoint_role_Inr)
qed auto

section \<open>Nothing archived is ever lost\<close>

definition same_block :: "block_row \<Rightarrow> block_row \<Rightarrow> bool" where
  "same_block r r' \<longleftrightarrow>
     r' = r\<lparr>b_is_canonical := b_is_canonical r', b_status := b_status r', b_finalized := b_finalized r'\<rparr>"

lemma same_block_refl [simp]: "same_block r r"
  by (simp add: same_block_def)

lemma same_block_trans: "same_block r s \<Longrightarrow> same_block s t \<Longrightarrow> same_block r t"
  by (cases r; cases s; cases t) (simp add: same_block_def)

text \<open>
  One archive extends another: every blob, transaction and observation is still there as it was, every
  block still has the content it had and stays finalized once it is, and a verifier key keeps its
  context with a first-seen height that only goes down.
\<close>

definition block_kept :: "block_row list \<Rightarrow> block_row \<Rightarrow> bool" where
  "block_kept rows r \<longleftrightarrow> (\<exists>r' \<in> set rows. same_block r r' \<and> (b_finalized r \<longrightarrow> b_finalized r'))"

definition vk_kept :: "vk_row list \<Rightarrow> vk_row \<Rightarrow> bool" where
  "vk_kept rows v \<longleftrightarrow> (\<exists>v' \<in> set rows. vk_key v' = vk_key v \<and> v_first_seen_height v' \<le> v_first_seen_height v)"

definition extends :: "archive \<Rightarrow> archive \<Rightarrow> bool" where
  "extends a a' \<longleftrightarrow>
     set (chain_blobs a) \<subseteq> set (chain_blobs a')
   \<and> (\<forall>r \<in> set (blocks a). block_kept (blocks a') r)
   \<and> set (transactions a) \<subseteq> set (transactions a')
   \<and> set (bridge_observations a) \<subseteq> set (bridge_observations a')
   \<and> (\<forall>v \<in> set (verifier_key_observations a). vk_kept (verifier_key_observations a') v)"

lemma kept_self [simp]: "r \<in> set rows \<Longrightarrow> block_kept rows r" "v \<in> set vs \<Longrightarrow> vk_kept vs v"
  unfolding block_kept_def vk_kept_def by (blast intro: same_block_refl)+

lemma extends_refl [simp]: "extends a a"
  by (simp add: extends_def)

lemma extends_trans:
  assumes "extends a b" and "extends b c"
  shows "extends a c"
proof -
  have "block_kept (blocks c) r" if "r \<in> set (blocks a)" for r
  proof -
    from assms(1) that obtain r' where r': "r' \<in> set (blocks b)" "same_block r r'" "b_finalized r \<longrightarrow> b_finalized r'"
      unfolding extends_def block_kept_def by blast
    from assms(2) r'(1) obtain r'' where "r'' \<in> set (blocks c)" "same_block r' r''" "b_finalized r' \<longrightarrow> b_finalized r''"
      unfolding extends_def block_kept_def by blast
    with r' show ?thesis unfolding block_kept_def using same_block_trans by blast
  qed
  moreover have "vk_kept (verifier_key_observations c) v" if "v \<in> set (verifier_key_observations a)" for v
  proof -
    from assms(1) that obtain v' where v': "v' \<in> set (verifier_key_observations b)" "vk_key v' = vk_key v"
      "v_first_seen_height v' \<le> v_first_seen_height v" unfolding extends_def vk_kept_def by blast
    from assms(2) v'(1) obtain v'' where "v'' \<in> set (verifier_key_observations c)" "vk_key v'' = vk_key v'"
      "v_first_seen_height v'' \<le> v_first_seen_height v'" unfolding extends_def vk_kept_def by blast
    with v' show ?thesis unfolding vk_kept_def by (metis order_trans)
  qed
  ultimately show ?thesis using assms unfolding extends_def by blast
qed

lemma keeps_extends:
  assumes "\<And>a x a'. m a = (Inr x, a') \<Longrightarrow> extends a a'" and "\<And>a e a'. m a = (Inl e, a') \<Longrightarrow> a' = a"
  shows "keeps (extends a0) m"
proof (rule keepsI)
  fix a assume a: "extends a0 a"
  have "extends a (snd (m a))"
  proof (cases "m a")
    case (Pair r a')
    then show ?thesis using assms(1) [of a _ a'] assms(2) [of a _ a'] by (cases r) simp_all
  qed
  with a show "extends a0 (snd (m a))" by (rule extends_trans)
qed

lemma extends_merge_vk: "extends a (a\<lparr>verifier_key_observations := merge_vk r (verifier_key_observations a)\<rparr>)"
proof -
  have "vk_kept (merge_vk r (verifier_key_observations a)) v" if v: "v \<in> set (verifier_key_observations a)" for v
    unfolding vk_kept_def
  proof (rule bexI)
    let ?v' = "if vk_key v = vk_key r then v\<lparr>v_first_seen_height := min (v_first_seen_height v) (v_first_seen_height r)\<rparr> else v"
    show "?v' \<in> set (merge_vk r (verifier_key_observations a))" using v unfolding merge_vk_def by auto
    show "vk_key ?v' = vk_key v \<and> v_first_seen_height ?v' \<le> v_first_seen_height v" by (simp add: vk_key_def)
  qed
  then show ?thesis by (simp add: extends_def)
qed

lemma extends_update:
  assumes "update_blocks_stmt sel upd trig a = (Inr n, a')" and "\<And>r. same_block r (upd r)"
    and "\<And>r. \<not> trig \<Longrightarrow> b_finalized (upd r) = b_finalized r"
  shows "extends a a'"
proof -
  from assms(1) obtain rows where run: "update_blocks sel upd trig [] (blocks a) = Inr (n, rows)" and a': "a' = a\<lparr>blocks := rows\<rparr>"
    by (auto simp: update_blocks_stmt_Inr)
  note rows = update_blocks_Inr [OF run]
  have "block_kept rows r" if "r \<in> set (blocks a)" for r
    unfolding block_kept_def using rows that assms(2,3) by (intro bexI [of _ "if sel r then upd r else r"]) auto
  then show ?thesis unfolding a' by (simp add: extends_def)
qed

interpretation append_only: archive_statements sha "extends a0"
proof
  show "keeps (extends a0) (insert_blob (hexToBuf (sha256Hex sha data)) data)" for data
    by (rule keeps_extends) (auto simp: insert_blob_def ebind_def run_checks_eq extends_def split: if_splits option.splits)
  show "keeps (extends a0) (insert_role h r)" for h r
    by (rule keeps_extends [OF _ insert_role_Inl]) (auto simp: insert_role_Inr extends_def split: if_splits)
  show "keeps (extends a0) (insert_block b)" for b
    by (rule keeps_extends [OF _ insert_block_Inl]) (auto simp: insert_block_Inr extends_def split: if_splits)
  show "keeps (extends a0) (insert_transaction t)" for t
    by (rule keeps_extends [OF _ insert_transaction_Inl]) (auto simp: insert_transaction_Inr extends_def split: if_splits)
  show "keeps (extends a0) (insert_bridge_observation x)" for x
    by (rule keeps_extends [OF _ insert_bridge_observation_Inl])
      (auto simp: insert_bridge_observation_Inr extends_def split: if_splits)
  show "keeps (extends a0) (upsert_vk v)" for v
    by (rule keeps_extends [OF _ upsert_vk_Inl])
      (auto simp: upsert_vk_Inr extends_merge_vk split: if_splits; auto simp: extends_def)
  show "keeps (extends a0) (update_blocks_stmt sel (\<lambda>r. r\<lparr>b_is_canonical := False, b_status := js ''orphaned''\<rparr>) False)" for sel
    by (rule keeps_extends [OF _ update_blocks_stmt_Inl], erule extends_update) (simp_all add: same_block_def)
  show "keeps (extends a0) (update_blocks_stmt sel (\<lambda>r. r\<lparr>b_is_canonical := True, b_status := js ''canonical'',
          b_finalized := (case f of Some g \<Rightarrow> g | None \<Rightarrow> b_finalized r)\<rparr>) True)" for sel f
    by (rule keeps_extends [OF _ update_blocks_stmt_Inl], erule extends_update) (simp_all add: same_block_def)
  show "keeps (extends a0) (delete_role h r)" for h r
    by (rule keeps_extends [OF _ delete_role_Inl]) (auto dest!: delete_role_Inr simp: extends_def)
  show "keeps (extends a0) (repoint_role h r h' r')" for h r h' r'
    by (rule keeps_extends [OF _ repoint_role_Inl]) (auto dest!: repoint_role_Inr simp: extends_def)
qed (auto simp: extends_def)

section \<open>Sequences of calls\<close>

datatype archive_call =
    PutBlob bytes jsstr
  | PutBlock block_record
  | PutTransactions "tx_record list"
  | PutObservations "bridge_record list"
  | PutBundle block_bundle
  | PutVk vk_record
  | SetCanonical jsstr rat jsstr "bool option"
  | SetWatermark jsstr jsval
  | DeleteRole bytes jsstr
  | RepointRole bytes jsstr bytes jsstr

definition evoid :: "'a arun \<Rightarrow> unit arun" where
  "evoid m = ebind m (\<lambda>_. eret ())"

lemma keeps_evoid: "keeps P m \<Longrightarrow> keeps P (evoid m)"
  unfolding evoid_def by (intro keeps_ebind keeps_eret)

text \<open>
  A writing call of any kind, under whatever the server and the network do to its statements; the last
  two are direct SQL on \<^verbatim>\<open>chain_blob_roles\<close>, which the removal guard answers.
\<close>

fun archive_exec :: "(bytes \<Rightarrow> bytes) \<Rightarrow> pg_env \<times> tx_faults \<times> archive_call \<Rightarrow> unit arun" where
  "archive_exec sha (env, fl, PutBlob data r) = evoid (putBlobWithRole sha env fl data r)"
| "archive_exec sha (env, fl, PutBlock b) = evoid (putBlock sha env fl b)"
| "archive_exec sha (env, fl, PutTransactions ts) = putTransactions sha env fl ts"
| "archive_exec sha (env, fl, PutObservations xs) = putBridgeObservations sha env fl xs"
| "archive_exec sha (env, fl, PutBundle b) = evoid (putBlockBundle sha env fl b)"
| "archive_exec sha (env, fl, PutVk v) = putVerifierKeyObservation sha env fl v"
| "archive_exec sha (env, fl, SetCanonical n h b f) = setCanonical env fl n h b f"
| "archive_exec sha (env, fl, SetWatermark k v) = setWatermark env k v"
| "archive_exec sha (env, fl, DeleteRole h r) = delete_role h r"
| "archive_exec sha (env, fl, RepointRole h r h' r') = repoint_role h r h' r'"

lemma archive_exec_inv: "store_inv sha a \<Longrightarrow> store_inv sha (snd (archive_exec sha c a))"
  by (cases "(sha, c)" rule: archive_exec.cases) (auto intro!: keepsD keeps_evoid store_invariant.every_statement)

lemma archive_exec_extends: "extends a0 a \<Longrightarrow> extends a0 (snd (archive_exec sha c a))"
  by (cases "(sha, c)" rule: archive_exec.cases) (auto intro!: keepsD keeps_evoid append_only.every_statement)

end
