(* ===== verification/ArchiveProperties.thy ===== *)
theory ArchiveProperties
  imports ChainArchive
begin

text \<open>
  What the chain archive guarantees: its invariant over every sequence of calls, that nothing archived
  is lost and no finality undone, the exact outcome of a canonicity switch, atomic and repeatable
  ingestion of a block, verified blob reads and the cursor that never moves back.
\<close>

section \<open>The canonicity switch\<close>

lemma in_transaction_ok:
  "in_transaction no_faults m a =
     (case m a of (Inl e, _) \<Rightarrow> (Inl (translatePostgresError e None), a) | (Inr x, a') \<Rightarrow> (Inr x, a'))"
  by (simp add: in_transaction_def sql_begin_def no_faults_def emap_error_def split: prod.splits sum.splits)

definition orphan_row :: "block_row \<Rightarrow> block_row" where
  "orphan_row r = r\<lparr>b_is_canonical := False, b_status := js ''orphaned''\<rparr>"

definition promote_row :: "bool option \<Rightarrow> block_row \<Rightarrow> block_row" where
  "promote_row f r =
     r\<lparr>b_is_canonical := True, b_status := js ''canonical'', b_finalized := (case f of Some g \<Rightarrow> g | None \<Rightarrow> b_finalized r)\<rparr>"

text \<open>The rival: another canonical block at the height.\<close>

definition rival :: "jsstr \<Rightarrow> int \<Rightarrow> bytes \<Rightarrow> block_row \<Rightarrow> bool" where
  "rival net h hash r \<longleftrightarrow> b_net r = net \<and> b_height r = h \<and> b_is_canonical r \<and> b_block_hash r \<noteq> hash"

lemma unique_split:
  assumes "r \<in> set rs" and "sel r" and "distinct rs" and "\<And>q. q \<in> set rs \<Longrightarrow> sel q \<Longrightarrow> q = r"
  obtains xs ys where "rs = xs @ r # ys" and "\<forall>q \<in> set xs. \<not> sel q" and "\<forall>q \<in> set ys. \<not> sel q"
proof -
  obtain xs ys where rs: "rs = xs @ r # ys" using assms(1) by (meson split_list)
  with assms(3) have "r \<notin> set xs" "r \<notin> set ys" by auto
  with rs assms(4) show thesis by (intro that [of xs ys]) auto
qed

lemma find_orphan_check:
  assumes "checked (block_checks r)"
  shows "find (\<lambda>c. \<not> snd c) (block_checks (orphan_row r)) = (if b_finalized r then Some (''blocks_check1'', False) else None)"
  using assms by (simp add: block_checks_def orphan_row_def)

lemma find_promote_check:
  assumes "checked (block_checks r)"
  shows "find (\<lambda>c. \<not> snd c) (block_checks (promote_row f r)) = None"
  using assms by (simp add: block_checks_def promote_row_def)

lemma orphan_rival:
  assumes "distinct rows" and "\<forall>r \<in> set rows. checked (block_checks r)" and "one_canonical rows"
  shows "\<exists>n. update_blocks (rival net h hash) orphan_row False [] rows =
     (if \<exists>q \<in> set rows. rival net h hash q \<and> b_finalized q then Inl (pg_error ''23514'' (Some ''blocks_check1''))
      else Inr (n, map (\<lambda>r. if rival net h hash r then orphan_row r else r) rows))"
proof (cases "\<exists>q \<in> set rows. rival net h hash q")
  case False
  then have "map (\<lambda>r. if rival net h hash r then orphan_row r else r) rows = rows" by (intro map_idI) auto
  with False show ?thesis by (auto simp: update_blocks_none)
next
  case True
  then obtain q where q: "q \<in> set rows" "rival net h hash q" by blast
  have uniq: "p = q" if "p \<in> set rows" "rival net h hash p" for p
    using assms(3) q that unfolding one_canonical_def rival_def by simp
  obtain xs ys where rows: "rows = xs @ q # ys" and xs: "\<forall>p \<in> set xs. \<not> rival net h hash p" and ys: "\<forall>p \<in> set ys. \<not> rival net h hash p"
    using unique_split [of q rows "rival net h hash"] q assms(1) uniq by blast
  have nc: "\<not> b_is_canonical (orphan_row q)" by (simp add: orphan_row_def)
  have fin: "(\<exists>p \<in> set rows. rival net h hash p \<and> b_finalized p) = b_finalized q" using uniq q by blast
  have m: "map (\<lambda>r. if rival net h hash r then orphan_row r else r) rows = xs @ orphan_row q # ys"
    using q(2) xs ys unfolding rows by (simp add: map_idI)
  show ?thesis
    unfolding fin m unfolding rows
    using update_blocks_one [OF xs q(2) ys, of orphan_row False "[]"] find_orphan_check [of q] assms(2) q(1) nc
    by (auto split: option.splits)
qed

lemma promote_target:
  assumes "distinct (map block_key rows)" and "\<forall>r \<in> set rows. checked (block_checks r)"
    and "\<forall>r \<in> set rows. \<not> rival net h hash r"
  shows "update_blocks (\<lambda>r. b_net r = net \<and> b_height r = h \<and> b_block_hash r = hash) (promote_row f) True [] rows =
     (case find (\<lambda>r. block_key r = (net, h, hash)) rows of
        None \<Rightarrow> Inr (0, rows)
      | Some r \<Rightarrow>
          (if b_finalized r \<and> f = Some False then Inl (pg_error ''23514'' (Some ''blocks_finalized_monotonic''))
           else Inr (1, map (\<lambda>r. if block_key r = (net, h, hash) then promote_row f r else r) rows)))"
proof (cases "find (\<lambda>r. block_key r = (net, h, hash)) rows")
  case None
  then have "\<forall>r \<in> set rows. \<not> (b_net r = net \<and> b_height r = h \<and> b_block_hash r = hash)"
    unfolding find_None_iff block_key_def by blast
  with None show ?thesis by (simp add: update_blocks_none)
next
  case (Some r)
  let ?sel = "\<lambda>r. b_net r = net \<and> b_height r = h \<and> b_block_hash r = hash"
  from Some have r: "r \<in> set rows" "?sel r" by (auto elim!: find_SomeE simp: block_key_def)
  have key: "block_key q = (net, h, hash) \<longleftrightarrow> ?sel q" for q by (auto simp: block_key_def)
  have uniq: "q = r" if "q \<in> set rows" "?sel q" for q
    using assms(1) r that inj_onD [of block_key "set rows" q r] by (simp add: distinct_map block_key_def)
  have d: "distinct rows" using assms(1) by (simp add: distinct_map)
  obtain xs ys where rows: "rows = xs @ r # ys" and xs: "\<forall>q \<in> set xs. \<not> ?sel q" and ys: "\<forall>q \<in> set ys. \<not> ?sel q"
    using unique_split [of r rows ?sel] r uniq d by blast
  have others: "\<not> list_ex (\<lambda>q. b_net q = b_net (promote_row f r) \<and> b_height q = b_height (promote_row f r) \<and> b_is_canonical q) (xs @ ys)"
    using assms(3) r xs ys unfolding rows by (auto simp: list_ex_iff rival_def promote_row_def)
  have m: "map (\<lambda>r. if block_key r = (net, h, hash) then promote_row f r else r) rows = xs @ promote_row f r # ys"
  proof -
    have "map (\<lambda>r. if ?sel r then promote_row f r else r) xs = xs" by (rule map_idI) (use xs in auto)
    moreover have "map (\<lambda>r. if ?sel r then promote_row f r else r) ys = ys" by (rule map_idI) (use ys in auto)
    ultimately show ?thesis using r(2) unfolding rows key by simp
  qed
  have mono: "blocks_enforce_finalized_monotonic r (promote_row f r) =
      (if b_finalized r \<and> f = Some False then Inl (pg_error ''23514'' (Some ''blocks_finalized_monotonic'')) else Inr ())"
    by (auto simp: blocks_enforce_finalized_monotonic_def promote_row_def split: option.splits)
  show ?thesis
    using update_blocks_one [OF xs r(2) ys, of "promote_row f" True "[]"] find_promote_check [of r f] assms(2) r(1) others
    unfolding Some m unfolding rows [symmetric] mono by (simp del: list_ex_append)
qed

lemma rival_orphan [simp]: "\<not> rival net h hash (orphan_row r)"
  by (simp add: rival_def orphan_row_def)

lemma block_key_orphan [simp]: "block_key (orphan_row r) = block_key r"
  by (simp add: block_key_def orphan_row_def)

lemma rival_key: "rival net h hash r \<Longrightarrow> block_key r \<noteq> (net, h, hash)"
  by (simp add: block_key_def rival_def)

lemma find_after_orphan:
  "find (\<lambda>r. block_key r = (net, h, hash)) (map (\<lambda>r. if rival net h hash r then orphan_row r else r) rows)
   = find (\<lambda>r. block_key r = (net, h, hash)) rows"
  by (induction rows) (simp_all add: rival_key)

text \<open>
  The reference: what a switch to one block does to the rows of the table.
\<close>

definition switched :: "jsstr \<Rightarrow> int \<Rightarrow> bytes \<Rightarrow> bool option \<Rightarrow> block_row \<Rightarrow> block_row" where
  "switched net h hash f r =
     (if block_key r = (net, h, hash) then promote_row f r
      else if rival net h hash r then orphan_row r else r)"

definition setCanonical_spec :: "jsstr \<Rightarrow> int \<Rightarrow> jsstr \<Rightarrow> bool option \<Rightarrow> unit arun" where
  "setCanonical_spec net h blockHash f a =
     (let hash = hexToBuf blockHash in
      if list_ex (\<lambda>r. rival net h hash r \<and> b_finalized r) (blocks a)
      then (Inl (StorageErr (ChainArchiveCheckViolationError [] ''blocks_check1'')), a)
      else case find (\<lambda>r. block_key r = (net, h, hash)) (blocks a) of
        None \<Rightarrow> (Inl (StorageErr (BlockNotFoundError net h (Some blockHash))), a)
      | Some r \<Rightarrow>
          (if b_finalized r \<and> f = Some False
           then (Inl (StorageErr (ChainArchiveInvariantError [] ''blocks_finalized_monotonic'')), a)
           else (Inr (), a\<lparr>blocks := map (switched net h hash f) (blocks a)\<rparr>)))"

lemma translate_archive_codes [simp]:
  "translate_code ''23514'' (Some ''blocks_check1'') m ctx = ChainArchiveCheckViolationError m ''blocks_check1''"
  "translate_code ''23514'' (Some ''blocks_finalized_monotonic'') m ctx = ChainArchiveInvariantError m ''blocks_finalized_monotonic''"
  by (simp_all add: translate_code_def CONNECTION_FAILURE_CODES_def isChainArchiveCheckConstraintName_def
      CHAIN_ARCHIVE_INVARIANT_CONSTRAINT_NAMES_def CHAIN_ARCHIVE_CHECK_TABLE_PREFIXES_def starts_with_def)

lemma setCanonical_exact:
  assumes inv: "archive_inv a" and "Hex32Schema blockHash" and net: "bind_text net = Inr net"
    and height: "bind_int 64 height = Inr h" and "env_faults env = (\<lambda>_. None)"
  shows "setCanonical env no_faults net height blockHash f a = setCanonical_spec net h blockHash f a"
proof -
  let ?hash = "hexToBuf blockHash"
  let ?rows = "map (\<lambda>r. if rival net h ?hash r then orphan_row r else r) (blocks a)"
  have inv': "distinct (map block_key (blocks a))" "\<forall>r \<in> set (blocks a). checked (block_checks r)" "one_canonical (blocks a)"
    using inv by (auto simp: archive_inv_def blocks_ok_def block_ok_def)
  then have "distinct (blocks a)" by (simp add: distinct_map)
  from orphan_rival [OF this inv'(2,3), of net h ?hash] obtain n where
    step1: "update_blocks (rival net h ?hash) orphan_row False [] (blocks a) =
     (if list_ex (\<lambda>q. rival net h ?hash q \<and> b_finalized q) (blocks a) then Inl (pg_error ''23514'' (Some ''blocks_check1''))
      else Inr (n, ?rows))" unfolding list_ex_iff by blast
  have fl: "\<lfloor>height\<rfloor> = h" using height by (simp add: bind_int_def split: if_splits)
  have keys: "map block_key ?rows = map block_key (blocks a)" by simp
  have run: "setCanonical env no_faults net height blockHash f a =
     in_transaction no_faults (ebind (update_blocks_stmt (rival net h ?hash) orphan_row False) (\<lambda>_.
       ebind (update_blocks_stmt (\<lambda>r. b_net r = net \<and> b_height r = h \<and> b_block_hash r = ?hash) (promote_row f) True) (\<lambda>n.
         if n = 0 then ethrow (StorageErr (BlockNotFoundError net \<lfloor>height\<rfloor> (Some blockHash))) else eret ()))) a"
    using assms(2,3,4,5)
    by (simp add: setCanonical_def Let_def rival_def [abs_def] orphan_row_def [abs_def] promote_row_def [abs_def])
  show ?thesis
  proof (cases "list_ex (\<lambda>q. rival net h ?hash q \<and> b_finalized q) (blocks a)")
    case True
    with step1 show ?thesis
      unfolding run in_transaction_ok by (simp add: setCanonical_spec_def Let_def ebind_def update_blocks_stmt_def)
  next
    case False
    have "\<forall>r \<in> set ?rows. checked (block_checks r)"
    proof (safe, unfold set_map, elim imageE)
      fix r q assume q: "r = (if rival net h ?hash q then orphan_row q else q)" "q \<in> set (blocks a)"
      with False inv'(2) have "checked (block_checks q)" "rival net h ?hash q \<longrightarrow> \<not> b_finalized q" by (auto simp: list_ex_iff)
      then show "checked (block_checks r)" using find_orphan_check [of q] find_unchecked [of "block_checks (orphan_row q)"] by (auto simp: q(1))
    qed
    moreover have "\<forall>r \<in> set ?rows. \<not> rival net h ?hash r" by auto
    ultimately have step2: "update_blocks (\<lambda>r. b_net r = net \<and> b_height r = h \<and> b_block_hash r = ?hash) (promote_row f) True [] ?rows =
     (case find (\<lambda>r. block_key r = (net, h, ?hash)) ?rows of
        None \<Rightarrow> Inr (0, ?rows)
      | Some r \<Rightarrow>
          (if b_finalized r \<and> f = Some False then Inl (pg_error ''23514'' (Some ''blocks_finalized_monotonic''))
           else Inr (1, map (\<lambda>r. if block_key r = (net, h, ?hash) then promote_row f r else r) ?rows)))"
      using promote_target [of ?rows net h ?hash f] inv'(1) unfolding keys by blast
    have sw: "map (\<lambda>r. if block_key r = (net, h, ?hash) then promote_row f r else r) ?rows = map (switched net h ?hash f) (blocks a)"
      by (simp add: switched_def rival_key)
    show ?thesis
      using step1 step2 False fl unfolding find_after_orphan sw
      unfolding run in_transaction_ok
      by (simp add: setCanonical_spec_def Let_def ebind_def update_blocks_stmt_def split: option.splits)
  qed
qed

section \<open>Ingesting again\<close>

text \<open>What a re-run of a write looks at: keys, slots and roles, never contents.\<close>

definition covers :: "archive \<Rightarrow> archive \<Rightarrow> bool" where
  "covers a a' \<longleftrightarrow>
     (\<forall>h. has_blob a h \<longrightarrow> has_blob a' h) \<and> set (chain_blob_roles a) \<subseteq> set (chain_blob_roles a')
   \<and> (\<forall>k. has_block a k \<longrightarrow> has_block a' k)
   \<and> tx_key ` set (transactions a) \<subseteq> tx_key ` set (transactions a')
   \<and> tx_slot ` set (transactions a) \<subseteq> tx_slot ` set (transactions a')
   \<and> obs_key ` set (bridge_observations a) \<subseteq> obs_key ` set (bridge_observations a')"

lemma covers_refl [simp]: "covers a a"
  by (simp add: covers_def)

lemma covers_trans: "covers a b \<Longrightarrow> covers b c \<Longrightarrow> covers a c"
  unfolding covers_def by (meson subset_trans)

lemma covers_role: "covers a a' \<Longrightarrow> has_role a h r \<Longrightarrow> has_role a' h r"
  by (auto simp: covers_def has_role_def)

lemma covers_block: "covers a a' \<Longrightarrow> has_block a k \<Longrightarrow> has_block a' k"
  unfolding covers_def by blast

lemma keeps_covers:
  assumes "\<And>a x a'. m a = (Inr x, a') \<Longrightarrow> covers a a'" and "\<And>a e a'. m a = (Inl e, a') \<Longrightarrow> a' = a"
  shows "keeps (covers a0) m"
proof (rule keepsI)
  fix a assume a: "covers a0 a"
  have "covers a (snd (m a))"
  proof (cases "m a")
    case (Pair r a')
    then show ?thesis using assms(1) [of a _ a'] assms(2) [of a _ a'] by (cases r) simp_all
  qed
  with a show "covers a0 (snd (m a))" by (rule covers_trans)
qed

lemma covers_update:
  assumes "update_blocks_stmt sel upd trig a = (Inr n, a')" and "\<And>r. block_key (upd r) = block_key r"
  shows "covers a a'"
proof -
  from assms(1) obtain rows where run: "update_blocks sel upd trig [] (blocks a) = Inr (n, rows)" and a': "a' = a\<lparr>blocks := rows\<rparr>"
    by (auto simp: update_blocks_stmt_Inr)
  from update_blocks_Inr [OF run] assms(2) have "map block_key rows = map block_key (blocks a)" by (simp add: comp_def)
  then have "has_block a' k = has_block a k" for k by (simp add: has_block_def a' del: set_map flip: set_map)
  then show ?thesis by (simp add: covers_def a')
qed

lemma insert_blob_Inr:
  "insert_blob h data a = (Inr u, a') \<longleftrightarrow>
     length h = 32 \<and> a' = (if has_blob a h then a else a\<lparr>chain_blobs := chain_blobs a @ [(h, data)]\<rparr>)"
  by (auto simp: insert_blob_def ebind_def run_checks_eq blob_checks_def split: if_splits)

lemma insert_blob_Inl: "insert_blob h data a = (Inl e, a') \<Longrightarrow> a' = a"
  by (auto simp: insert_blob_def ebind_def run_checks_eq split: if_splits option.splits)

lemma covers_inserts:
  "insert_blob h data a = (Inr u, a') \<Longrightarrow> covers a a'"
  "insert_role h r a = (Inr u, a') \<Longrightarrow> covers a a'"
  "insert_block b a = (Inr u, a') \<Longrightarrow> covers a a'"
  "insert_transaction t a = (Inr u, a') \<Longrightarrow> covers a a'"
  "insert_bridge_observation x a = (Inr u, a') \<Longrightarrow> covers a a'"
  "upsert_vk v a = (Inr u, a') \<Longrightarrow> covers a a'"
  by (auto simp: insert_blob_Inr insert_role_Inr insert_block_Inr insert_transaction_Inr insert_bridge_observation_Inr
      upsert_vk_Inr covers_def split: if_splits)

interpretation ingestion: archive_writes sha "covers a0"
proof
  show "keeps (covers a0) (update_blocks_stmt sel (\<lambda>r. r\<lparr>b_is_canonical := False, b_status := js ''orphaned''\<rparr>) False)" for sel
    by (rule keeps_covers [OF _ update_blocks_stmt_Inl], erule covers_update) (simp add: block_key_def)
  show "keeps (covers a0) (update_blocks_stmt sel (\<lambda>r. r\<lparr>b_is_canonical := True, b_status := js ''canonical'',
          b_finalized := (case f of Some g \<Rightarrow> g | None \<Rightarrow> b_finalized r)\<rparr>) True)" for sel f
    by (rule keeps_covers [OF _ update_blocks_stmt_Inl], erule covers_update) (simp add: block_key_def)
qed (auto intro!: keeps_covers dest: covers_inserts insert_blob_Inl insert_role_Inl insert_block_Inl insert_transaction_Inl
      insert_bridge_observation_Inl upsert_vk_Inl simp: covers_def)

text \<open>
  \<open>redo m m'\<close>: once \<open>m\<close> has succeeded, running \<open>m'\<close> in any archive that still covers the outcome returns
  the same result and changes nothing. It composes along a method body.
\<close>

definition redo :: "'a arun \<Rightarrow> 'a arun \<Rightarrow> bool" where
  "redo m m' \<longleftrightarrow> (\<forall>a x a'. m a = (Inr x, a') \<longrightarrow> covers a a' \<and> (\<forall>b. covers a' b \<longrightarrow> m' b = (Inr x, b)))"

lemma redo_ebind:
  assumes "redo m m'" and "\<And>x. redo (f x) (f' x)"
  shows "redo (ebind m f) (ebind m' f')"
  unfolding redo_def
proof (intro allI impI)
  fix a y a' assume "ebind m f a = (Inr y, a')"
  then obtain x a1 where 1: "m a = (Inr x, a1)" and 2: "f x a1 = (Inr y, a')" by (elim ebind_InrE)
  from 1 assms(1) have c1: "covers a a1" and m': "\<And>b. covers a1 b \<Longrightarrow> m' b = (Inr x, b)" by (auto simp: redo_def)
  from 2 assms(2) have c2: "covers a1 a'" and f': "\<And>b. covers a' b \<Longrightarrow> f' x b = (Inr y, b)" by (auto simp: redo_def)
  have "ebind m' f' b = (Inr y, b)" if "covers a' b" for b
    using m' [OF covers_trans [OF c2 that]] f' [OF that] by (simp add: ebind_def)
  with covers_trans [OF c1 c2] show "covers a a' \<and> (\<forall>b. covers a' b \<longrightarrow> ebind m' f' b = (Inr y, b))" by blast
qed

lemma redo_eret [simp]: "redo (eret x) (eret x)"
  by (simp add: redo_def)

lemma redo_elift [simp]: "redo (elift r) (elift r)"
  by (simp add: redo_def)

lemma redo_Pair [simp]: "redo (Pair (Inr x)) (Pair (Inr x))"
  by (simp add: redo_def)

lemma redo_stmt: "redo m m' \<Longrightarrow> env_faults env' = (\<lambda>_. None) \<Longrightarrow> redo (stmt env n m) (stmt env' n' m')"
  by (auto simp: redo_def stmt_Inr)

lemma redo_inserts:
  "redo (insert_blob h data) (insert_blob h data)"
  "redo (insert_role h r) (insert_role h r)"
  "redo (insert_block b) (insert_block b)"
  "redo (insert_transaction t) (insert_transaction t)"
  "redo (insert_bridge_observation x) (insert_bridge_observation x)"
proof -
  show "redo (insert_blob h data) (insert_blob h data)"
    by (auto simp: redo_def insert_blob_Inr covers_inserts) (auto simp: covers_def)
  show "redo (insert_role h r) (insert_role h r)"
    by (auto simp: redo_def insert_role_Inr split: if_splits) (auto simp: covers_def)
  show "redo (insert_block b) (insert_block b)"
  proof -
    have "insert_block b a'' = (Inr u, a'')" if "insert_block b a = (Inr u, a')" and "covers a' a''" for a u a' a''
    proof -
      from that(1) have "block_ok a b" and "has_block a' (block_key b)" by (auto simp: insert_block_Inr split: if_splits)
      moreover from covers_trans [OF covers_inserts(3) [OF that(1)] that(2)] have "covers a a''" .
      ultimately have "block_ok a'' b" "has_block a'' (block_key b)"
        using that(2) by (auto simp: block_ok_def intro: covers_role covers_block)
      then show ?thesis by (simp add: insert_block_Inr)
    qed
    with covers_inserts(3) show ?thesis unfolding redo_def by blast
  qed
  show "redo (insert_transaction t) (insert_transaction t)"
    unfolding redo_def
    by (auto simp: insert_transaction_Inr covers_role split: if_splits) (auto simp: covers_def has_role_def)
  show "redo (insert_bridge_observation x) (insert_bridge_observation x)"
    unfolding redo_def
    by (auto simp: insert_bridge_observation_Inr covers_role split: if_splits) (auto simp: covers_def has_role_def)
qed


lemma redo_blob_with_role:
  "env_faults env' = (\<lambda>_. None) \<Longrightarrow> redo (insert_blob_with_role sha env n data r) (insert_blob_with_role sha env' n data r)"
  unfolding insert_blob_with_role_def Let_def by (intro redo_ebind redo_stmt redo_inserts redo_elift redo_eret)

lemma redo_block_row:
  "env_faults env' = (\<lambda>_. None) \<Longrightarrow> redo (insertBlockRow sha env b) (insertBlockRow sha env' b)"
  unfolding insertBlockRow_def
  by (cases "br_bodyBytes b"; simp only: option.case;
      intro redo_ebind redo_stmt redo_inserts redo_blob_with_role redo_elift redo_eret; assumption)

lemma redo_transaction_rows:
  "env_faults env' = (\<lambda>_. None) \<Longrightarrow> redo (insertTransactionRows sha env n ts) (insertTransactionRows sha env' n ts)"
proof (induction ts arbitrary: n)
  case (Cons t ts)
  then show ?case unfolding insertTransactionRows.simps insertTransactionRow_def
    by (intro redo_ebind redo_stmt redo_inserts redo_blob_with_role redo_elift; blast)
qed simp

lemma redo_observation_rows:
  "env_faults env' = (\<lambda>_. None) \<Longrightarrow> redo (insertBridgeObservationRows sha env n xs) (insertBridgeObservationRows sha env' n xs)"
proof (induction xs arbitrary: n)
  case (Cons x xs)
  then show ?case unfolding insertBridgeObservationRows.simps insertBridgeObservationRow_def
    by (intro redo_ebind redo_stmt redo_inserts redo_blob_with_role redo_elift; blast)
qed simp

lemma in_transaction_Inr:
  "in_transaction fl m a = (Inr x, a') \<longleftrightarrow> f_begin fl = None \<and> f_commit fl = None \<and> m a = (Inr x, a')"
  by (simp add: in_transaction_def sql_begin_Inr)

lemma in_transaction_Inl: "in_transaction fl m a = (Inl e, a') \<Longrightarrow> a' = a"
  by (auto simp: in_transaction_def emap_error_Inl dest: sql_begin_atomic)

lemma redo_in_transaction: "redo m m' \<Longrightarrow> redo (in_transaction fl m) (in_transaction no_faults m')"
  by (auto simp: redo_def in_transaction_Inr no_faults_def)

lemma redo_assert: "redo (assert_block m b) (assert_block m b)" "redo (eforeach (assert_tx m) ts) (eforeach (assert_tx m) ts)"
proof -
  have h: "redo (assertHex32 s f) (assertHex32 s f)" for s f by (simp add: assertHex32_def redo_def)
  show "redo (assert_block m b) (assert_block m b)"
    unfolding assert_block_def by (cases "br_author b") (auto intro!: redo_ebind h)
  show "redo (eforeach (assert_tx m) ts) (eforeach (assert_tx m) ts)"
    by (induction ts) (auto simp: assert_tx_def intro!: redo_ebind h)
qed

lemma redo_bundle:
  assumes "env_faults env' = (\<lambda>_. None)"
  shows "redo (putBlockBundle sha env fl bundle) (putBlockBundle sha env' no_faults bundle)"
  unfolding putBlockBundle_def Let_def using assms
  by (auto intro!: redo_ebind redo_in_transaction redo_block_row redo_transaction_rows redo_observation_rows redo_assert)

lemma asserts_state:
  "assert_block m b a = (r, a') \<Longrightarrow> a' = a" "eforeach (assert_tx m) ts a = (q, a') \<Longrightarrow> a' = a"
proof -
  have b: "keeps (\<lambda>x. x = a) (assert_block m b)"
    unfolding assert_block_def by (cases "br_author b") (auto intro!: keeps_ebind keeps_assertHex32)
  have t: "keeps (\<lambda>x. x = a) (eforeach (assert_tx m) ts)"
    by (intro keeps_eforeach) (auto simp: assert_tx_def intro!: keeps_ebind keeps_assertHex32)
  show "assert_block m b a = (r, a') \<Longrightarrow> a' = a" using keepsD [OF b] by simp
  show "eforeach (assert_tx m) ts a = (q, a') \<Longrightarrow> a' = a" using keepsD [OF t] by simp
qed

lemma putBlockBundle_Inl: "putBlockBundle sha env fl bundle a = (Inl e, a') \<Longrightarrow> a' = a"
  unfolding putBlockBundle_def Let_def by (elim ebind_InlE) (auto dest!: in_transaction_Inl asserts_state)

text \<open>The store's own writes, as opposed to direct SQL on the roles.\<close>

fun own_call :: "archive_call \<Rightarrow> bool" where
  "own_call (DeleteRole _ _) = False"
| "own_call (RepointRole _ _ _ _) = False"
| "own_call _ = True"

lemma archive_exec_covers: "covers a0 a \<Longrightarrow> own_call (snd (snd c)) \<Longrightarrow> covers a0 (snd (archive_exec sha c a))"
  by (cases "(sha, c)" rule: archive_exec.cases) (auto intro!: keepsD keeps_evoid ingestion.every_method)

section \<open>Consequences of the invariant\<close>

lemma canonical_at_length:
  assumes "archive_inv a"
  shows "length (canonical_at a net h) \<le> 1"
proof -
  have d: "distinct (blocks a)" using assms by (simp add: archive_inv_def blocks_ok_def distinct_map)
  have "distinct (canonical_at a net h)" using d by (simp add: canonical_at_def)
  moreover have "x = y" if "x \<in> set (canonical_at a net h)" "y \<in> set (canonical_at a net h)" for x y
    using assms that unfolding archive_inv_def blocks_ok_def one_canonical_def canonical_at_def by simp
  then have "\<not> (\<exists>x y zs. canonical_at a net h = x # y # zs \<and> x \<noteq> y)" by (metis list.set_intros)
  ultimately show ?thesis
    by (metis One_nat_def Suc_le_mono distinct_length_2_or_more le0 length_Cons list.size(3) neq_Nil_conv)
qed

lemma role_has_blob: "archive_inv a \<Longrightarrow> has_role a h r \<Longrightarrow> has_blob a h"
  unfolding archive_inv_def roles_ok_def has_role_def by force

lemma keeps_setCanonical: "keeps archive_inv (setCanonical env fl net height hash f)"
  unfolding setCanonical_def Let_def in_transaction_def
  by (intro keeps_ebind keeps_emap_error keeps_sql_begin keeps_stmt keeps_elift keeps_assertHex32
      keeps_update_blocks_stmt) (auto simp: block_key_def)

lemma blob_lookup:
  assumes "store_inv sha a" and "has_blob a h"
  shows "\<exists>d. map_of (chain_blobs a) h = Some d \<and> sha d = h"
proof -
  from assms(2) obtain d where "map_of (chain_blobs a) h = Some d"
    by (metis has_blob_def List.member_iff map_of_eq_None_iff not_Some_eq set_map)
  moreover from map_of_SomeD [OF this] assms(1) have "sha d = h"
    by (force simp: store_inv_def content_addressed_def)
  ultimately show ?thesis by blast
qed

lemma getBlob_stored:
  assumes "store_inv sha a" and "Hex32Schema hash" and "env_faults env = (\<lambda>_. None)"
  shows "getBlob sha env hash a =
     (case map_of (chain_blobs a) (hexToBuf hash) of
        None \<Rightarrow> (Inl (StorageErr (BlobMissingError hash)), a)
      | Some d \<Rightarrow> (Inr d, a))"
proof (cases "map_of (chain_blobs a) (hexToBuf hash)")
  case None
  with assms(2,3) show ?thesis by (simp add: getBlob_def ebind_def emap_error_def)
next
  case (Some d)
  from map_of_SomeD [OF Some] assms(1) have "sha d = hexToBuf hash"
    by (force simp: store_inv_def content_addressed_def)
  then have "sha256Hex sha d = hash" using Hex32_decode(1) [OF assms(2)] by (simp add: sha256Hex_def)
  with Some assms(2,3) show ?thesis by (simp add: getBlob_def ebind_def emap_error_def)
qed

lemma putBlob_stores:
  assumes "putBlobWithRole sha env fl data role a = (Inr h, a')"
  shows "has_blob a' (sha data) \<and> length (sha data) = 32"
  using assms
  by (auto simp: putBlobWithRole_def in_transaction_Inr insert_blob_with_role_def Let_def sha256Hex_def stmt_Inr
      insert_blob_Inr insert_role_Inr elim!: ebind_InrE split: if_splits)

section \<open>When ingestion succeeds\<close>

definition digest32 :: "(bytes \<Rightarrow> bytes) \<Rightarrow> bool" where
  "digest32 sha \<longleftrightarrow> (\<forall>x. length (sha x) = 32)"

definition with_blob :: "(bytes \<Rightarrow> bytes) \<Rightarrow> bytes \<Rightarrow> jsstr \<Rightarrow> archive \<Rightarrow> archive" where
  "with_blob sha data r a =
     a\<lparr>chain_blobs := (if has_blob a (sha data) then chain_blobs a else chain_blobs a @ [(sha data, data)]),
       chain_blob_roles := (if (sha data, r) \<in> set (chain_blob_roles a) then chain_blob_roles a
                            else chain_blob_roles a @ [(sha data, r)])\<rparr>"

lemma with_blob_simps [simp]:
  "blocks (with_blob sha data r a) = blocks a" "transactions (with_blob sha data r a) = transactions a"
  "bridge_observations (with_blob sha data r a) = bridge_observations a"
  "archive_watermarks (with_blob sha data r a) = archive_watermarks a"
  "has_blob (with_blob sha data r a) (sha data)" "has_role (with_blob sha data (js s) a) (sha data) s"
  "has_block (with_blob sha data r a) k = has_block a k" "canonical_at (with_blob sha data r a) n h = canonical_at a n h"
  by (auto simp: with_blob_def has_blob_def has_role_def has_block_def canonical_at_def)

lemma covers_with_blob: "covers a (with_blob sha data r a)"
proof -
  have "has_blob (with_blob sha data r a) h" if "has_blob a h" for h using that by (simp add: has_blob_def with_blob_def)
  moreover have "set (chain_blob_roles a) \<subseteq> set (chain_blob_roles (with_blob sha data r a))" by (auto simp: with_blob_def)
  ultimately show ?thesis by (simp add: covers_def)
qed

lemma insert_blob_with_role_ok:
  assumes "digest32 sha" and "env_faults env = (\<lambda>_. None)" and "bind_text r = Inr r" and "r \<in> set blob_roles"
  shows "insert_blob_with_role sha env n data r a = (Inr (sha data), with_blob sha data r a)"
proof -
  have "insert_blob (sha data) data a =
      (Inr (), a\<lparr>chain_blobs := (if has_blob a (sha data) then chain_blobs a else chain_blobs a @ [(sha data, data)])\<rparr>)"
    using assms(1) by (simp add: insert_blob_Inr digest32_def)
  moreover have "insert_role (sha data) r (a\<lparr>chain_blobs := (if has_blob a (sha data) then chain_blobs a else chain_blobs a @ [(sha data, data)])\<rparr>)
      = (Inr (), with_blob sha data r a)"
    using assms(4) by (auto simp: insert_role_Inr with_blob_def has_blob_def)
  ultimately show ?thesis
    using assms(2,3) by (simp add: insert_blob_with_role_def Let_def sha256Hex_def ebind_def)
qed

text \<open>The roles the store writes are legal and stored as they are.\<close>

lemma store_roles [simp]:
  "bind_text (js ''block_header'') = Inr (js ''block_header'')" "bind_text (js ''block_body'') = Inr (js ''block_body'')"
  "bind_text (js ''tx_raw'') = Inr (js ''tx_raw'')" "bind_text (js ''bridge_observation'') = Inr (js ''bridge_observation'')"
  "js ''block_header'' \<in> set blob_roles" "js ''block_body'' \<in> set blob_roles" "js ''tx_raw'' \<in> set blob_roles"
  "js ''bridge_observation'' \<in> set blob_roles"
  by code_simp+

text \<open>A well-formed bundle of the block \<open>(net, h, hash)\<close>: what the records must satisfy for the server to take them.\<close>

definition block_fits :: "jsstr \<Rightarrow> int \<Rightarrow> bytes \<Rightarrow> block_record \<Rightarrow> bool" where
  "block_fits net h hash b \<longleftrightarrow>
     list_all Hex32Schema [br_blockHash b, br_parentHash b, br_stateRoot b, br_extrinsicsRoot b]
   \<and> (\<forall>x. br_author b = Some x \<longrightarrow> Hex32Schema x)
   \<and> bind_text (br_net b) = Inr net \<and> bind_int 64 (br_height b) = Inr h \<and> 0 \<le> h \<and> hash = hexToBuf (br_blockHash b)
   \<and> bind_text (br_status b) = Inr (br_status b)
   \<and> br_status b \<in> set (map js [''seen'', ''canonical'', ''orphaned'', ''pruned''])
   \<and> (br_status b = js ''canonical'') = br_isCanonical b \<and> (br_finalized b \<longrightarrow> br_isCanonical b)"

definition tx_fits :: "jsstr \<Rightarrow> int \<Rightarrow> bytes \<Rightarrow> tx_record \<Rightarrow> bool" where
  "tx_fits net h hash t \<longleftrightarrow>
     Hex32Schema (tr_txHash t) \<and> Hex32Schema (tr_blockHash t) \<and> hexToBuf (tr_blockHash t) = hash
   \<and> bind_text (tr_net t) = Inr net \<and> bind_int 64 (tr_blockHeight t) = Inr h
   \<and> (\<exists>p. bind_int 32 (tr_position t) = Inr p \<and> 0 \<le> p) \<and> (\<exists>v. bind_int 32 (tr_protocolVersion t) = Inr v \<and> 0 \<le> v)
   \<and> bind_text (tr_kind t) = Inr (tr_kind t) \<and> tr_kind t \<in> set (map js [''regular'', ''system'']) \<and> tr_result t = None"

definition obs_fits :: "jsstr \<Rightarrow> int \<Rightarrow> bytes \<Rightarrow> bridge_record \<Rightarrow> bool" where
  "obs_fits net h hash x \<longleftrightarrow>
     hexToBuf (or_blockHash x) = hash \<and> length hash = 32 \<and> bind_text (or_net x) = Inr net \<and> bind_int 64 (or_blockHeight x) = Inr h
   \<and> (\<exists>i. bind_int 32 (or_observationIndex x) = Inr i \<and> 0 \<le> i) \<and> bind_text (or_kind x) = Inr (or_kind x)
   \<and> or_kind x \<in> set (map js [''cnight_registration'', ''system_parameters_d'', ''spo_registration'', ''other''])"

lemma insertBlockRow_ok:
  assumes "digest32 sha" and "env_faults env = (\<lambda>_. None)" and "block_fits net h hash b"
    and "has_block a (net, h, hash) \<or> (br_isCanonical b \<longrightarrow> canonical_at a net h = [])"
  shows "\<exists>a' r. insertBlockRow sha env b a = (Inr (sha256Hex sha (br_headerBytes b), map_option (sha256Hex sha) (br_bodyBytes b)), a')
    \<and> covers a a' \<and> has_block a' (net, h, hash) \<and> transactions a' = transactions a \<and> archive_watermarks a' = archive_watermarks a
    \<and> blocks a' = (if has_block a (net, h, hash) then blocks a else blocks a @ [r])
    \<and> block_key r = (net, h, hash) \<and> b_is_canonical r = br_isCanonical b \<and> b_finalized r = br_finalized b"
proof -
  let ?a1 = "with_blob sha (br_headerBytes b) (js ''block_header'') a"
  let ?a2 = "case br_bodyBytes b of None \<Rightarrow> ?a1 | Some body \<Rightarrow> with_blob sha body (js ''block_body'') ?a1"
  let ?r = "block_row_of b (sha (br_headerBytes b)) (map_option sha (br_bodyBytes b)) net h (br_status b)"
  have len: "length (hexToBuf s) = 32" if "Hex32Schema s" for s using Hex32_decode(2) [OF that] .
  have key: "block_key ?r = (net, h, hash)" using assms(3) by (simp add: block_row_of_def block_key_def block_fits_def)
  have c: "covers ?a1 ?a2" using covers_with_blob by (auto split: option.splits)
  have chk: "checked (block_checks ?r)"
    using assms(3) len by (auto simp: block_checks_def block_row_of_def block_fits_def)
  have ok: "block_ok ?a2 ?r"
    using chk covers_role [OF c, of "sha (br_headerBytes b)" "''block_header''"]
    by (auto simp: block_ok_def block_row_of_def split: option.splits)
  have blobs: "has_blob ?a2 (sha (br_headerBytes b))" "\<And>d. br_bodyBytes b = Some d \<Longrightarrow> has_blob ?a2 (sha d)"
    using c by (auto simp: covers_def)
  have same: "blocks ?a2 = blocks a" "has_block ?a2 k = has_block a k" "canonical_at ?a2 n i = canonical_at a n i"
    "transactions ?a2 = transactions a" "archive_watermarks ?a2 = archive_watermarks a" for k n i
    by (simp_all split: option.splits)
  let ?a3 = "if has_block a (net, h, hash) then ?a2 else ?a2\<lparr>blocks := blocks a @ [?r]\<rparr>"
  have flds: "b_header_blob_hash ?r = sha (br_headerBytes b)" "b_body_blob_hash ?r = map_option sha (br_bodyBytes b)"
    "b_net ?r = net" "b_height ?r = h" "b_is_canonical ?r = br_isCanonical b" "b_finalized ?r = br_finalized b"
    by (simp_all add: block_row_of_def)
  have ins: "insert_block ?r ?a2 = (Inr (), ?a3)"
    using ok assms(4) blobs unfolding insert_block_Inr key same flds by (auto split: if_splits)
  have run: "insertBlockRow sha env b a = (Inr (sha256Hex sha (br_headerBytes b), map_option (sha256Hex sha) (br_bodyBytes b)), ?a3)"
    using assms(2,3) ins
    by (cases "br_bodyBytes b")
      (simp_all add: insertBlockRow_def ebind_def insert_blob_with_role_ok [OF assms(1,2)] block_fits_def)
  have "covers a ?a3"
    using covers_trans [OF covers_trans [OF covers_with_blob c] covers_inserts(3) [OF ins]] .
  moreover have "has_block ?a3 (net, h, hash)" using key by (simp add: has_block_def same)
  moreover have "transactions ?a3 = transactions a" "archive_watermarks ?a3 = archive_watermarks a"
    "blocks ?a3 = (if has_block a (net, h, hash) then blocks a else blocks a @ [?r])" by (simp_all add: same)
  ultimately show ?thesis using run key flds(5,6) by blast
qed

lemma insertTransactionRows_ok:
  assumes "digest32 sha" and "env_faults env = (\<lambda>_. None)" and "list_all (tx_fits net h hash) ts"
    and "has_block a (net, h, hash)" and "0 \<le> h"
  shows "\<exists>a'. insertTransactionRows sha env n ts a = (Inr (), a') \<and> blocks a' = blocks a \<and> archive_watermarks a' = archive_watermarks a"
  using assms(3,4)
proof (induction ts arbitrary: n a)
  case Nil
  then show ?case by simp
next
  case (Cons t ts)
  let ?a1 = "with_blob sha (tr_rawBytes t) (js ''tx_raw'') a"
  from Cons.prems(1) obtain p v where fit: "tx_fits net h hash t" and pv: "bind_int 32 (tr_position t) = Inr p" "0 \<le> p"
    "bind_int 32 (tr_protocolVersion t) = Inr v" "0 \<le> v" by (auto simp: tx_fits_def)
  let ?r = "\<lparr>x_net = net, x_tx_hash = hexToBuf (tr_txHash t), x_block_height = h, x_block_hash = hash, x_position = p,
             x_kind = tr_kind t, x_protocol_version = v, x_result = None, x_raw_blob_hash = sha (tr_rawBytes t)\<rparr>"
  have "0 \<le> h" "length hash = 32" "length (hexToBuf (tr_txHash t)) = 32"
    using fit Hex32_decode(2) [of "tr_txHash t"] Hex32_decode(2) [of "tr_blockHash t"] assms(5)
    by (auto simp: tx_fits_def)
  then have "checked (tx_checks ?r)" using fit pv by (auto simp: tx_checks_def tx_fits_def)
  moreover have "has_block ?a1 (tx_block ?r)" using Cons.prems(2) by (simp add: tx_block_def)
  ultimately obtain a2 where ins: "insert_transaction ?r ?a1 = (Inr (), a2)" and a2: "a2 = ?a1 \<or> a2 = ?a1\<lparr>transactions := transactions ?a1 @ [?r]\<rparr>"
    by (cases "tx_key ?r \<in> set (map tx_key (transactions ?a1)) \<or> tx_slot ?r \<in> set (map tx_slot (transactions ?a1))")
      (auto simp: insert_transaction_Inr)
  have run: "insertTransactionRow sha env n t a = (Inr (), a2)"
    using fit pv ins assms(2)
    by (simp add: insertTransactionRow_def ebind_def insert_blob_with_role_ok [OF assms(1,2)] tx_fits_def bind_text_opt_def)
  have "has_block a2 (net, h, hash)" "blocks a2 = blocks a" "archive_watermarks a2 = archive_watermarks a"
    using a2 Cons.prems(2) by auto
  with Cons.IH [of a2 "n + 3"] Cons.prems(1) run show ?case by (auto simp: ebind_def)
qed

lemma insertBridgeObservationRows_ok:
  assumes "digest32 sha" and "env_faults env = (\<lambda>_. None)" and "list_all (obs_fits net h hash) xs"
    and "has_block a (net, h, hash)" and "0 \<le> h"
  shows "\<exists>a'. insertBridgeObservationRows sha env n xs a = (Inr (), a') \<and> blocks a' = blocks a \<and> archive_watermarks a' = archive_watermarks a"
  using assms(3,4)
proof (induction xs arbitrary: n a)
  case Nil
  then show ?case by simp
next
  case (Cons x xs)
  let ?a1 = "with_blob sha (or_rawBytes x) (js ''bridge_observation'') a"
  from Cons.prems(1) obtain i where fit: "obs_fits net h hash x" and i: "bind_int 32 (or_observationIndex x) = Inr i" "0 \<le> i"
    by (auto simp: obs_fits_def)
  let ?r = "\<lparr>o_net = net, o_block_height = h, o_block_hash = hash, o_observation_index = i, o_kind = or_kind x,
             o_raw_blob_hash = sha (or_rawBytes x)\<rparr>"
  have "checked (obs_checks ?r)" using fit i assms(5) by (auto simp: obs_checks_def obs_fits_def)
  moreover have "has_block ?a1 (obs_block ?r)" using Cons.prems(2) by (simp add: obs_block_def)
  ultimately obtain a2 where ins: "insert_bridge_observation ?r ?a1 = (Inr (), a2)"
    and a2: "a2 = ?a1 \<or> a2 = ?a1\<lparr>bridge_observations := bridge_observations ?a1 @ [?r]\<rparr>"
    by (cases "obs_key ?r \<in> set (map obs_key (bridge_observations ?a1))") (auto simp: insert_bridge_observation_Inr)
  have run: "insertBridgeObservationRow sha env n x a = (Inr (), a2)"
    using fit i ins assms(2)
    by (simp add: insertBridgeObservationRow_def ebind_def insert_blob_with_role_ok [OF assms(1,2)] obs_fits_def)
  have "has_block a2 (net, h, hash)" "blocks a2 = blocks a" "archive_watermarks a2 = archive_watermarks a"
    using a2 Cons.prems(2) by auto
  with Cons.IH [of a2 "n + 3"] Cons.prems(1) run show ?case by (auto simp: ebind_def)
qed

definition bundle_fits :: "jsstr \<Rightarrow> int \<Rightarrow> bytes \<Rightarrow> block_bundle \<Rightarrow> bool" where
  "bundle_fits net h hash bundle \<longleftrightarrow>
     block_fits net h hash (bb_block bundle) \<and> list_all (tx_fits net h hash) (bb_transactions bundle)
   \<and> list_all (obs_fits net h hash) (bb_bridgeObservations bundle)"

lemma asserts_ok:
  "block_fits net h hash b \<Longrightarrow> assert_block m b a = (Inr (), a)"
  "list_all (tx_fits net h hash) ts \<Longrightarrow> eforeach (assert_tx m') ts a = (Inr (), a)"
proof -
  show "block_fits net h hash b \<Longrightarrow> assert_block m b a = (Inr (), a)"
    by (cases "br_author b") (simp_all add: assert_block_def block_fits_def ebind_def)
  show "list_all (tx_fits net h hash) ts \<Longrightarrow> eforeach (assert_tx m') ts a = (Inr (), a)"
    by (induction ts) (simp_all add: assert_tx_def tx_fits_def ebind_def)
qed

lemma putBlockBundle_ok:
  assumes "digest32 sha" and "env_faults env = (\<lambda>_. None)" and fits: "bundle_fits net h hash bundle"
    and "has_block a (net, h, hash) \<or> (br_isCanonical (bb_block bundle) \<longrightarrow> canonical_at a net h = [])"
  shows "\<exists>a' r. putBlockBundle sha env no_faults bundle a =
        (Inr (sha256Hex sha (br_headerBytes (bb_block bundle)), map_option (sha256Hex sha) (br_bodyBytes (bb_block bundle))), a')
    \<and> archive_watermarks a' = archive_watermarks a
    \<and> blocks a' = (if has_block a (net, h, hash) then blocks a else blocks a @ [r])
    \<and> block_key r = (net, h, hash) \<and> b_is_canonical r = br_isCanonical (bb_block bundle)
    \<and> b_finalized r = br_finalized (bb_block bundle)"
proof -
  from fits have f: "block_fits net h hash (bb_block bundle)" "list_all (tx_fits net h hash) (bb_transactions bundle)"
    "list_all (obs_fits net h hash) (bb_bridgeObservations bundle)" "0 \<le> h" by (auto simp: bundle_fits_def block_fits_def)
  from insertBlockRow_ok [OF assms(1,2) f(1) assms(4)] obtain a1 r where
    1: "insertBlockRow sha env (bb_block bundle) a =
        (Inr (sha256Hex sha (br_headerBytes (bb_block bundle)), map_option (sha256Hex sha) (br_bodyBytes (bb_block bundle))), a1)"
    and b1: "has_block a1 (net, h, hash)" "archive_watermarks a1 = archive_watermarks a"
      "blocks a1 = (if has_block a (net, h, hash) then blocks a else blocks a @ [r])" "block_key r = (net, h, hash)"
      "b_is_canonical r = br_isCanonical (bb_block bundle)" "b_finalized r = br_finalized (bb_block bundle)" by blast
  from insertTransactionRows_ok [OF assms(1,2) f(2) b1(1) f(4), of 5] obtain a2 where
    2: "insertTransactionRows sha env 5 (bb_transactions bundle) a1 = (Inr (), a2)"
    and b2: "blocks a2 = blocks a1" "archive_watermarks a2 = archive_watermarks a1" by blast
  have "has_block a2 (net, h, hash)" using b1(1) b2(1) by (simp add: has_block_def)
  from insertBridgeObservationRows_ok [OF assms(1,2) f(3) this f(4), of "5 + 3 * length (bb_transactions bundle)"] obtain a3 where
    3: "insertBridgeObservationRows sha env (5 + 3 * length (bb_transactions bundle)) (bb_bridgeObservations bundle) a2 = (Inr (), a3)"
    and b3: "blocks a3 = blocks a2" "archive_watermarks a3 = archive_watermarks a2" by blast
  have "putBlockBundle sha env no_faults bundle a =
     (Inr (sha256Hex sha (br_headerBytes (bb_block bundle)), map_option (sha256Hex sha) (br_bodyBytes (bb_block bundle))), a3)"
    using 1 2 3 by (cases "bb_transactions bundle = []"; cases "bb_bridgeObservations bundle = []")
      (simp_all add: putBlockBundle_def Let_def asserts_ok(1) [OF f(1)] asserts_ok(2) [OF f(2)] in_transaction_ok ebind_def)
  with b1 b2 b3 show ?thesis by auto
qed

section \<open>Sample data\<close>

text \<open>A stand-in for SHA-256 with the one property the store needs: 32 bytes.\<close>

definition pad_hash :: "bytes \<Rightarrow> bytes" where
  "pad_hash x = take 32 (x @ replicate 32 0)"

lemma pad_hash_ok [simp]: "length (pad_hash x) = 32" "digest32 pad_hash"
  by (auto simp: pad_hash_def digest32_def min_def)

definition sample_hash :: "byte \<Rightarrow> jsstr" where
  "sample_hash n = bufToHex (replicate 32 n)"

lemma sample_hash_simps [simp]: "Hex32Schema (sample_hash n)" "hexToBuf (sample_hash n) = replicate 32 n"
  by (simp_all add: sample_hash_def Hex32_encode)

definition sample_bundle :: block_bundle where
  "sample_bundle =
     \<lparr>bb_block =
        \<lparr>br_net = js ''net'', br_blockHash = sample_hash 1, br_height = 7, br_parentHash = sample_hash 0,
         br_stateRoot = sample_hash 0, br_extrinsicsRoot = sample_hash 0, br_author = None, br_headerBytes = [1],
         br_bodyBytes = Some [1, 2], br_isCanonical = True, br_status = js ''canonical'', br_finalized = False\<rparr>,
      bb_transactions =
        [\<lparr>tr_net = js ''net'', tr_txHash = sample_hash 9, tr_blockHeight = 7, tr_blockHash = sample_hash 1, tr_position = 0,
          tr_kind = js ''regular'', tr_protocolVersion = 1, tr_result = None, tr_rawBytes = [3, 4]\<rparr>],
      bb_bridgeObservations =
        [\<lparr>or_net = js ''net'', or_blockHeight = 7, or_blockHash = sample_hash 1, or_observationIndex = 0,
          or_kind = js ''other'', or_rawBytes = [5]\<rparr>]\<rparr>"

lemma sample_texts:
  "bind_text (js ''net'') = Inr (js ''net'')" "bind_text (js ''canonical'') = Inr (js ''canonical'')"
  "bind_text (js ''regular'') = Inr (js ''regular'')" "bind_text (js ''other'') = Inr (js ''other'')"
  "bind_int 64 7 = Inr 7" "bind_int 32 0 = Inr 0" "bind_int 32 1 = Inr 1"
  by code_simp+

lemma sample_bundle_fits: "bundle_fits (js ''net'') 7 (replicate 32 1) sample_bundle"
  by (simp add: bundle_fits_def sample_bundle_def block_fits_def tx_fits_def obs_fits_def sample_texts)

text \<open>Two competing blocks at one height, the first of them canonical.\<close>

definition sample_row :: "byte \<Rightarrow> bool \<Rightarrow> block_row" where
  "sample_row n can =
     \<lparr>b_net = js ''net'', b_block_hash = replicate 32 n, b_height = 7, b_parent_hash = replicate 32 0,
      b_state_root = replicate 32 0, b_extrinsics_root = replicate 32 0, b_author = None,
      b_header_blob_hash = pad_hash [n], b_body_blob_hash = None, b_is_canonical = can,
      b_status = js (if can then ''canonical'' else ''seen''), b_finalized = False\<rparr>"

definition sample_archive :: archive where
  "sample_archive = empty_archive
     \<lparr>chain_blobs := [(pad_hash [1], [1]), (pad_hash [2], [2])],
      chain_blob_roles := [(pad_hash [1], js ''block_header''), (pad_hash [2], js ''block_header'')],
      blocks := [sample_row 1 True, sample_row 2 False]\<rparr>"

lemma pad_hash_neq: "pad_hash [1] \<noteq> pad_hash [2]"
  by (simp add: pad_hash_def)

lemma sample_archive_inv: "store_inv pad_hash sample_archive"
  using pad_hash_neq
  by (auto simp: store_inv_def content_addressed_def archive_inv_def archive_ok_defs sample_archive_def one_canonical_def
      sample_row_def has_blob_def has_role_def block_key_def block_checks_def)

definition sample_calls :: "(pg_env \<times> tx_faults \<times> archive_call) list" where
  "sample_calls =
     [(quiet 5 1, no_faults, PutBundle sample_bundle),
      (quiet 6 2, no_faults, PutVk \<lparr>vk_vkBytes = [8], vk_net = js ''net'', vk_scope = js ''protocol'', vk_tag = [],
         vk_contractAddress = None, vk_firstSeenHeight = 7\<rparr>),
      (quiet 7 3, no_faults, SetCanonical (js ''net'') 7 (sample_hash 1) (Some True))]"

section \<open>Properties\<close>

text \<open>
  C19. The archive's integrity: whatever calls are made, in whatever order, with whatever faults of the
  server and the network, and with direct attempts to remove or repoint blob roles among them, the
  archive stays well-formed: keys are unique, at most one block per height is canonical, a finalized
  block is canonical, every referenced blob exists and carries the role of the referencing column,
  every transaction and observation belongs to an archived block, and every blob is stored under its
  own hash.
\<close>

theorem archive_integrity:
  assumes "run_calls (archive_exec sha) cs empty_archive = (rs, a)"
  shows "archive_inv a \<and> content_addressed sha a
    \<and> (\<forall>net h. length (canonical_at a net h) \<le> 1)
    \<and> (\<forall>r \<in> set (blocks a). b_finalized r \<longrightarrow> b_is_canonical r)
    \<and> (\<forall>r \<in> set (transactions a). has_block a (tx_block r) \<and> has_role a (x_raw_blob_hash r) ''tx_raw''
          \<and> has_blob a (x_raw_blob_hash r))"
proof -
  have "store_inv sha a"
    by (rule run_calls_invariant [where I = "store_inv sha", OF _ _ assms]) (auto intro: archive_exec_inv)
  then have inv: "archive_inv a" "content_addressed sha a" by (simp_all add: store_inv_def)
  have "length (canonical_at a net h) \<le> 1" for net h
    by (rule canonical_at_length [OF inv(1)])
  moreover have "b_finalized r \<longrightarrow> b_is_canonical r" if "r \<in> set (blocks a)" for r
    using inv(1) that by (auto simp: archive_inv_def blocks_ok_def block_ok_def block_checks_def)
  moreover have "has_block a (tx_block r) \<and> has_role a (x_raw_blob_hash r) ''tx_raw'' \<and> has_blob a (x_raw_blob_hash r)"
    if "r \<in> set (transactions a)" for r
    using inv(1) that role_has_blob [OF inv(1)] by (auto simp: archive_inv_def txs_ok_def tx_ok_def)
  ultimately show ?thesis using inv by blast
qed

theorem archive_integrity_witness:
  "archive_inv (snd (run_calls (archive_exec pad_hash) sample_calls empty_archive))
   \<and> blocks (snd (run_calls (archive_exec pad_hash) (take 1 sample_calls) empty_archive)) \<noteq> []"
proof -
  from putBlockBundle_ok [OF pad_hash_ok(2) _ sample_bundle_fits, of "quiet 5 1" empty_archive]
  obtain a' r where "putBlockBundle pad_hash (quiet 5 1) no_faults sample_bundle empty_archive = (Inr r, a')" "blocks a' \<noteq> []"
    by (auto simp: has_block_def canonical_at_def)
  then have "blocks (snd (run_calls (archive_exec pad_hash) (take 1 sample_calls) empty_archive)) \<noteq> []"
    by (simp add: sample_calls_def evoid_def ebind_def)
  with archive_integrity [OF prod.collapse [symmetric], of pad_hash sample_calls] show ?thesis by blast
qed

text \<open>
  C22. Append-only: later calls, successful or not, never remove or alter a blob, a transaction or an
  observation, never change the content of an archived block, and never undo finality: a finalized
  block stays finalized and canonical for ever; the first-seen height of a verifier key only decreases.
\<close>

theorem archive_append_only:
  assumes "store_inv sha a" and "run_calls (archive_exec sha) cs a = (rs, a')"
  shows "set (chain_blobs a) \<subseteq> set (chain_blobs a') \<and> set (transactions a) \<subseteq> set (transactions a')
    \<and> set (bridge_observations a) \<subseteq> set (bridge_observations a')
    \<and> (\<forall>r \<in> set (blocks a). \<exists>r' \<in> set (blocks a'). same_block r r' \<and> (b_finalized r \<longrightarrow> b_finalized r' \<and> b_is_canonical r'))
    \<and> (\<forall>v \<in> set (verifier_key_observations a). \<exists>v' \<in> set (verifier_key_observations a').
         vk_key v' = vk_key v \<and> v_first_seen_height v' \<le> v_first_seen_height v)"
proof -
  have "store_inv sha a'"
    by (rule run_calls_invariant [where I = "store_inv sha", OF _ assms]) (auto intro: archive_exec_inv)
  then have can: "b_finalized r \<Longrightarrow> b_is_canonical r" if "r \<in> set (blocks a')" for r
    using that by (auto simp: store_inv_def archive_inv_def blocks_ok_def block_ok_def block_checks_def)
  have "extends a a'"
    by (rule run_calls_invariant [where I = "extends a", OF _ _ assms(2)]) (auto intro: archive_exec_extends)
  then show ?thesis unfolding extends_def block_kept_def vk_kept_def using can by blast
qed

theorem archive_append_only_witness:
  "set (chain_blobs sample_archive)
     \<subseteq> set (chain_blobs (snd (run_calls (archive_exec pad_hash) sample_calls sample_archive)))
   \<and> chain_blobs sample_archive \<noteq> []"
proof -
  have "chain_blobs sample_archive \<noteq> []" by (simp add: sample_archive_def)
  with archive_append_only [OF sample_archive_inv prod.collapse [symmetric], of sample_calls] show ?thesis by blast
qed

text \<open>
  C21. The canonicity switch, completely: on a well-formed archive with a responsive server,
  \<^verbatim>\<open>setCanonical\<close> refuses to displace a finalized rival, reports a missing block, refuses to
  un-finalize, and otherwise makes exactly the given block canonical at the height, orphans the previous
  one and touches nothing else; every refusal leaves the archive as it was.
\<close>

theorem setCanonical_refines:
  assumes "archive_inv a" and "Hex32Schema blockHash" and "bind_text net = Inr net"
    and "bind_int 64 height = Inr h" and "env_faults env = (\<lambda>_. None)"
  shows "setCanonical env no_faults net height blockHash f a = setCanonical_spec net h blockHash f a
    \<and> (\<forall>a'. setCanonical env no_faults net height blockHash f a = (Inr (), a') \<longrightarrow>
         archive_inv a' \<and> map block_key (canonical_at a' net h) = [(net, h, hexToBuf blockHash)])"
proof -
  have "map block_key (canonical_at a' net h) = [(net, h, hexToBuf blockHash)]" and inv': "archive_inv a'"
    if run: "setCanonical env no_faults net height blockHash f a = (Inr (), a')" for a'
  proof -
    from keepsD [OF keeps_setCanonical assms(1)] run show inv': "archive_inv a'" by (metis snd_conv)
    from run setCanonical_exact [OF assms] obtain r where
      r: "r \<in> set (blocks a)" "block_key r = (net, h, hexToBuf blockHash)"
      and a': "a' = a\<lparr>blocks := map (switched net h (hexToBuf blockHash) f) (blocks a)\<rparr>"
      by (auto simp: setCanonical_spec_def Let_def elim!: find_SomeE split: if_splits option.splits)
    have "promote_row f r \<in> set (canonical_at a' net h)"
      using r unfolding canonical_at_def a' by (force simp: switched_def promote_row_def block_key_def)
    with canonical_at_length [OF inv', of net h] have "canonical_at a' net h = [promote_row f r]"
      by (cases "canonical_at a' net h") auto
    with r(2) show "map block_key (canonical_at a' net h) = [(net, h, hexToBuf blockHash)]"
      by (simp add: promote_row_def block_key_def)
  qed
  with setCanonical_exact [OF assms] show ?thesis by blast
qed

theorem setCanonical_refines_witness:
  "setCanonical (quiet 7 3) no_faults (js ''net'') 7 (sample_hash 2) (Some True) sample_archive
     = setCanonical_spec (js ''net'') 7 (sample_hash 2) (Some True) sample_archive
   \<and> fst (setCanonical_spec (js ''net'') 7 (sample_hash 2) (Some True) sample_archive) = Inr ()
   \<and> map block_key (canonical_at (snd (setCanonical (quiet 7 3) no_faults (js ''net'') 7 (sample_hash 2) (Some True) sample_archive)) (js ''net'') 7)
       = [(js ''net'', 7, replicate 32 2)]"
proof -
  have inv: "archive_inv sample_archive" using sample_archive_inv by (simp add: store_inv_def)
  have ok: "fst (setCanonical_spec (js ''net'') 7 (sample_hash 2) (Some True) sample_archive) = Inr ()"
    by (simp add: setCanonical_spec_def Let_def sample_archive_def sample_row_def rival_def block_key_def)
  from setCanonical_refines [OF inv sample_hash_simps(1) sample_texts(1,5), of "quiet 7 3" 2 "Some True"] ok show ?thesis
    by (metis prod.collapse quiet_simps(4) sample_hash_simps(2))
qed





section \<open>The archive's cursor\<close>

definition height_value :: "rat \<Rightarrow> jsval" where
  "height_value h = JObj [(js ''height'', JNum h)]"

lemma bind_height_value [simp]: "bind_jsonb (height_value h) = Inr (height_value h)"
proof -
  have "\<not> hasPostgresUnsafeText (js ''height'')" by code_simp
  then show ?thesis by (intro bind_jsonb_ok) (simp_all add: height_value_def)
qed

lemma numeric_height_value [simp]: "numeric_height (height_value h) = Some h"
  by (simp add: numeric_height_def height_value_def)

definition cursor_height :: "archive \<Rightarrow> jsstr \<Rightarrow> rat option" where
  "cursor_height a key =
     (case map_of (archive_watermarks a) (archive_kind, key) of None \<Rightarrow> None | Some w \<Rightarrow> numeric_height (w_value w))"

text \<open>Either no cursor yet, or one of the \<open>{ height }\<close> form.\<close>

definition height_cursor :: "archive \<Rightarrow> jsstr \<Rightarrow> bool" where
  "height_cursor a key \<longleftrightarrow> map_of (archive_watermarks a) (archive_kind, key) = None \<or> cursor_height a key \<noteq> None"

definition raised :: "rat \<Rightarrow> rat option \<Rightarrow> rat option" where
  "raised h x = Some (case x of None \<Rightarrow> h | Some y \<Rightarrow> max y h)"

lemma setWatermark_height:
  assumes "bind_text key = Inr key" and "height_cursor a key"
  shows "fst (setWatermark env key (height_value h) a) = Inr () \<Longrightarrow>
           cursor_height (snd (setWatermark env key (height_value h) a)) key = raised h (cursor_height a key)"
    and "fst (setWatermark env key (height_value h) a) = Inl e \<Longrightarrow> snd (setWatermark env key (height_value h) a) = a"
    and "height_cursor (snd (setWatermark env key (height_value h) a)) key"
    and "env_faults env 0 = None \<Longrightarrow> fst (setWatermark env key (height_value h) a) = Inr ()"
  using assms
  by (auto simp: setWatermark_def reading_def emap_error_def stmt_def ebind_def cursor_height_def height_cursor_def
      raised_def advances_def max_def split: option.splits)

text \<open>
  The cursor never moves back: after any sequence of height writes, of which any may have failed, the
  stored height is the greatest of the one before and those that were accepted, whatever the order in
  which overlapping sync runs finish; so it never decreases.
\<close>

lemma watermark_monotone:
  assumes "bind_text key = Inr key" and "height_cursor a key"
    and "run_calls (\<lambda>(env, h). setWatermark env key (height_value h)) cs a = (rs, a')"
  shows "cursor_height a' key
         = fold (\<lambda>(c, r) x. if r = Inr () then raised (snd c) x else x) (zip cs rs) (cursor_height a key)
    \<and> (\<forall>x. cursor_height a key = Some x \<longrightarrow> (\<exists>y \<ge> x. cursor_height a' key = Some y))"
  using assms(2,3)
proof (induction cs arbitrary: a rs)
  case Nil
  then show ?case by auto
next
  case (Cons c cs)
  let ?s = "setWatermark (fst c) key (height_value (snd c)) a"
  obtain rs1 where rs: "rs = fst ?s # rs1" and run: "run_calls (\<lambda>(env, h). setWatermark env key (height_value h)) cs (snd ?s) = (rs1, a')"
    using Cons.prems(2) by (auto split: prod.splits)
  note step = setWatermark_height [OF assms(1) Cons.prems(1), of "fst c" "snd c"]
  note IH = Cons.IH [OF step(3) run]
  show ?case
  proof (cases "fst ?s")
    case (Inl e)
    with step(2) have e: "snd ?s = a" by simp
    note IH = IH [unfolded e]
    show ?thesis
    proof
      show "cursor_height a' key = fold (\<lambda>(c, r) x. if r = Inr () then raised (snd c) x else x) (zip (c # cs) rs) (cursor_height a key)"
        using IH [THEN conjunct1] Inl by (simp add: rs)
    qed (rule IH [THEN conjunct2])
  next
    case (Inr u)
    with step(1) have c: "cursor_height (snd ?s) key = raised (snd c) (cursor_height a key)" by simp
    moreover have "\<exists>y \<ge> x. cursor_height a' key = Some y" if "cursor_height a key = Some x" for x
    proof -
      have "cursor_height (snd ?s) key = Some (max x (snd c))" using c that by (simp add: raised_def)
      with IH obtain y where "max x (snd c) \<le> y" "cursor_height a' key = Some y" by blast
      then show ?thesis by (intro exI [of _ y]) simp
    qed
    ultimately show ?thesis using IH Inr by (simp add: rs)
  qed
qed

end
