(* ===== verification/SyncService.thy ===== *)
theory SyncService
  imports ArchiveProperties
begin

text \<open>
  The ingestion service (\<^verbatim>\<open>src/chain-archive-sync\<close>): the reply handling of the node and
  indexer clients, the canonical bytes of a header and a block body, the cross-check of the two data
  sources, one block's ingestion and the resumable loop \<^verbatim>\<open>syncOnce\<close>. The node and the indexer
  are arguments: what each request is answered with, or how it fails.
\<close>

section \<open>Replies over HTTP\<close>

text \<open>
  What \<^verbatim>\<open>fetch\<close> and the body of its response amount to: no response (a network failure or the
  timeout), a status that is not a success, a body that is not JSON, a body that reports an error, or
  the value. The clients take the value as the declared type without a check, so the type is the model's.
\<close>

datatype 'a reply = NoResponse | BadStatus nat | NotJson | ErrorBody | Reply 'a

definition rpc_error :: "string \<Rightarrow> js_error" where
  "rpc_error kind = plain_error kind"

fun node_call :: "'a reply \<Rightarrow> js_error + 'a" where
  "node_call NoResponse = Inl (rpc_error ''NodeRpcError'')"
| "node_call (BadStatus _) = Inl (rpc_error ''NodeRpcError'')"
| "node_call NotJson = Inl (rpc_error ''NodeRpcParseError'')"
| "node_call ErrorBody = Inl (rpc_error ''NodeRpcError'')"
| "node_call (Reply x) = Inr x"

fun indexer_query :: "'a reply \<Rightarrow> js_error + 'a" where
  "indexer_query NoResponse = Inl (rpc_error ''IndexerClientError'')"
| "indexer_query (BadStatus _) = Inl (rpc_error ''IndexerClientError'')"
| "indexer_query NotJson = Inl (rpc_error ''IndexerClientParseError'')"
| "indexer_query ErrorBody = Inl (rpc_error ''IndexerClientError'')"
| "indexer_query (Reply x) = Inr x"

section \<open>What the node and the indexer say\<close>

record substrate_header =
  hd_parentHash :: jsstr
  hd_number :: jsstr
  hd_stateRoot :: jsstr
  hd_extrinsicsRoot :: jsstr
  hd_logs :: "jsstr list"

record substrate_block =
  sb_header :: substrate_header
  sb_extrinsics :: "jsstr list"

record indexer_tx =
  it_hash :: jsstr
  it_protocolVersion :: rat
  it_raw :: jsstr

record indexer_block =
  ib_hash :: jsstr
  ib_transactions :: "indexer_tx list"
  ib_numPermissionedCandidates :: rat
  ib_numRegisteredCandidates :: rat

record sources =
  nd_getBlockHash :: "rat \<Rightarrow> jsstr reply"
  nd_getHeader :: "jsstr \<Rightarrow> substrate_header reply"
  nd_getBlock :: "jsstr \<Rightarrow> substrate_block reply"
  nd_getFinalizedHead :: "jsstr reply"
  ix_getBlockByHeight :: "rat \<Rightarrow> indexer_block option reply"

text \<open>\<^verbatim>\<open>parseInt(s, 16)\<close>: an optional sign and \<^verbatim>\<open>0x\<close>, then the longest run of hex digits; \<open>None\<close> is NaN.\<close>

fun hex_prefix :: "nat \<Rightarrow> jsstr \<Rightarrow> nat" where
  "hex_prefix acc [] = acc"
| "hex_prefix acc (c # cs) = (case hex_value c of None \<Rightarrow> acc | Some d \<Rightarrow> hex_prefix (16 * acc + d) cs)"

definition unsigned_hex :: "jsstr \<Rightarrow> int option" where
  "unsigned_hex s =
     (let t = (if starts_with s (js ''0x'') \<or> starts_with s (js ''0X'') then drop 2 s else s) in
      case t of
        [] \<Rightarrow> None
      | c # _ \<Rightarrow> (case hex_value c of None \<Rightarrow> None | Some _ \<Rightarrow> Some (int (hex_prefix 0 t))))"

definition js_space :: "16 word \<Rightarrow> bool" where
  "js_space c \<longleftrightarrow>
     List.member [0x09, 0x0A, 0x0B, 0x0C, 0x0D, 0x20, 0xA0, 0x1680, 0x2028, 0x2029, 0x202F, 0x205F, 0x3000, 0xFEFF] c
   \<or> (0x2000 \<le> c \<and> c \<le> 0x200A)"

definition isSafeInteger :: "int \<Rightarrow> bool" where
  "isSafeInteger h \<longleftrightarrow> \<bar>h\<bar> \<le> 9007199254740991"

definition parse_hex :: "jsstr \<Rightarrow> int option" where
  "parse_hex s =
     (let t = dropWhile js_space s in
      if starts_with t (js ''-'') then map_option uminus (unsigned_hex (drop 1 t))
      else if starts_with t (js ''+'') then unsigned_hex (drop 1 t)
      else unsigned_hex t)"

definition getHeightOf :: "sources \<Rightarrow> jsstr \<Rightarrow> js_error + rat" where
  "getHeightOf src blockHash =
     (case node_call (nd_getHeader src blockHash) of
        Inl e \<Rightarrow> Inl e
      | Inr header \<Rightarrow>
          (case parse_hex (hd_number header) of
             None \<Rightarrow> Inl (rpc_error ''NodeRpcInvalidHeightError'')
           | Some h \<Rightarrow>
               (if isSafeInteger h then Inr (of_int h) else Inl (rpc_error ''NodeRpcInvalidHeightError''))))"

section \<open>Canonical bytes\<close>

text \<open>
  Members in the order of their names (by UTF-16 code unit) at every level; everything else as
  \<^verbatim>\<open>JSON.stringify\<close>. The argument is parsed JSON: null, a boolean, a number, a string, an array or
  an object; the other constructors of \<open>jsval\<close> do not reach it.
\<close>

fun stableStringify :: "(rat \<Rightarrow> jsstr) \<Rightarrow> jsval \<Rightarrow> jsstr" where
  "stableStringify num (JArr xs) = 0x5B # join (map (stableStringify num) xs) @ [0x5D]"
| "stableStringify num (JObj kvs) =
     0x7B # join (map (\<lambda>(k, t). JSON_quote k @ 0x3A # t)
              (sort_key fst (map (\<lambda>(k, v). (k, stableStringify num v)) kvs))) @ [0x7D]"
| "stableStringify num v = JSON_text num v"

definition header_value :: "substrate_header \<Rightarrow> jsval" where
  "header_value h =
     JObj [(js ''parentHash'', JStr (hd_parentHash h)), (js ''number'', JStr (hd_number h)),
           (js ''stateRoot'', JStr (hd_stateRoot h)), (js ''extrinsicsRoot'', JStr (hd_extrinsicsRoot h)),
           (js ''digest'', JObj [(js ''logs'', JArr (map JStr (hd_logs h)))])]"

definition headerBytes :: "(rat \<Rightarrow> jsstr) \<Rightarrow> substrate_header \<Rightarrow> bytes" where
  "headerBytes num h = TextEncoder_encode (stableStringify num (header_value h))"

definition extrinsicsBytes :: "(rat \<Rightarrow> jsstr) \<Rightarrow> jsstr list \<Rightarrow> bytes" where
  "extrinsicsBytes num xs = TextEncoder_encode (stableStringify num (JArr (map JStr xs)))"

definition hexNoPrefix :: "jsstr \<Rightarrow> jsstr" where
  "hexNoPrefix hex = (if starts_with hex (js ''0x'') then drop 2 hex else hex)"

definition SYSTEM_TX_TAG :: string where
  "SYSTEM_TX_TAG = ''midnight:system-transaction''"

section \<open>The service\<close>

record sync_state =
  sy_archive :: archive
  sy_lastDParameterJson :: "jsstr option"

type_synonym 'a sync = "(js_error, sync_state, 'a) exec"

definition on_archive :: "'a arun \<Rightarrow> 'a sync" where
  "on_archive m s = (case m (sy_archive s) of (r, a) \<Rightarrow> (r, s\<lparr>sy_archive := a\<rparr>))"

definition watermarkKey :: "jsstr \<Rightarrow> jsstr" where
  "watermarkKey net = js ''sync_cursor:'' @ net"

definition getSyncedHeight :: "pg_env \<Rightarrow> jsstr \<Rightarrow> rat option sync" where
  "getSyncedHeight env net =
     ebind (on_archive (getWatermark env (watermarkKey net))) (\<lambda>wm.
       eret (case wm of None \<Rightarrow> None | Some v \<Rightarrow> numeric_height v))"

definition js_includes :: "jsstr \<Rightarrow> jsstr \<Rightarrow> bool" where
  "js_includes s t \<longleftrightarrow> list_ex (\<lambda>i. starts_with (drop i s) t) [0..<Suc (length s)]"

definition tx_kind :: "bytes \<Rightarrow> jsstr" where
  "tx_kind raw = js (if take (length SYSTEM_TX_TAG) raw = map of_char SYSTEM_TX_TAG then ''system'' else ''regular'')"

definition transaction_record ::
  "jsstr \<Rightarrow> rat \<Rightarrow> jsstr \<Rightarrow> jsstr list \<Rightarrow> nat \<times> indexer_tx \<Rightarrow> js_error + tx_record" where
  "transaction_record net height blockHash nodeExtrinsicHexes ptx =
     (let tx = snd ptx; rawHex = hexNoPrefix (it_raw tx); rawBytes = hexToBuf rawHex; kind = tx_kind rawBytes in
      if kind = js ''regular'' \<and> \<not> list_ex (\<lambda>e. js_includes e rawHex) nodeExtrinsicHexes
      then Inl (plain_error ''indexer-reported transaction raw bytes not found'')
      else Inr \<lparr>tr_net = net, tr_txHash = hexNoPrefix (it_hash tx), tr_blockHeight = height, tr_blockHash = blockHash,
        tr_position = of_nat (fst ptx), tr_kind = kind, tr_protocolVersion = it_protocolVersion tx, tr_result = None,
        tr_rawBytes = rawBytes\<rparr>)"

definition buildTransactionRecords ::
  "jsstr \<Rightarrow> rat \<Rightarrow> jsstr \<Rightarrow> jsstr list \<Rightarrow> indexer_block \<Rightarrow> js_error + tx_record list" where
  "buildTransactionRecords net height blockHash nodeExtrinsics ib =
     (if hexNoPrefix (ib_hash ib) \<noteq> blockHash then Inl (plain_error ''indexer/node block-hash mismatch'')
      else map_throw (transaction_record net height blockHash (map hexNoPrefix nodeExtrinsics))
             (zip [0..<length (ib_transactions ib)] (ib_transactions ib)))"

definition d_parameter_json :: "(rat \<Rightarrow> jsstr) \<Rightarrow> indexer_block \<Rightarrow> jsstr" where
  "d_parameter_json num ib =
     JSON_text num (JObj [(js ''numPermissionedCandidates'', JNum (ib_numPermissionedCandidates ib)),
                          (js ''numRegisteredCandidates'', JNum (ib_numRegisteredCandidates ib))])"

definition buildBridgeObservationRecords ::
  "(rat \<Rightarrow> jsstr) \<Rightarrow> jsstr \<Rightarrow> rat \<Rightarrow> jsstr \<Rightarrow> indexer_block \<Rightarrow> jsstr option \<Rightarrow> bridge_record list \<times> jsstr option" where
  "buildBridgeObservationRecords num net height blockHash ib last_json =
     (let json = d_parameter_json num ib in
      if Some json = last_json then ([], None)
      else ([\<lparr>or_net = net, or_blockHeight = height, or_blockHash = blockHash, or_observationIndex = 0,
              or_kind = js ''system_parameters_d'', or_rawBytes = TextEncoder_encode json\<rparr>], Some json))"

definition block_of ::
  "(rat \<Rightarrow> jsstr) \<Rightarrow> jsstr \<Rightarrow> rat \<Rightarrow> jsstr \<Rightarrow> substrate_block \<Rightarrow> block_record" where
  "block_of num net height blockHash blk =
     (let header = sb_header blk in
      \<lparr>br_net = net, br_blockHash = blockHash, br_height = height, br_parentHash = hexNoPrefix (hd_parentHash header),
       br_stateRoot = hexNoPrefix (hd_stateRoot header), br_extrinsicsRoot = hexNoPrefix (hd_extrinsicsRoot header),
       br_author = None, br_headerBytes = headerBytes num header, br_bodyBytes = Some (extrinsicsBytes num (sb_extrinsics blk)),
       br_isCanonical = True, br_status = js ''canonical'', br_finalized = True\<rparr>)"

text \<open>Everything the block needs is fetched and checked before the first write.\<close>

definition fetch_bundle ::
  "(rat \<Rightarrow> jsstr) \<Rightarrow> sources \<Rightarrow> jsstr \<Rightarrow> rat \<Rightarrow> jsstr option \<Rightarrow> js_error + block_bundle \<times> jsstr option" where
  "fetch_bundle num src net height last_json =
     (case node_call (nd_getBlockHash src height) of Inl e \<Rightarrow> Inl e | Inr raw \<Rightarrow>
      let blockHash = hexNoPrefix raw in
      case node_call (nd_getBlock src (js ''0x'' @ blockHash)) of Inl e \<Rightarrow> Inl e | Inr blk \<Rightarrow>
      case indexer_query (ix_getBlockByHeight src height) of Inl e \<Rightarrow> Inl e
      | Inr None \<Rightarrow> Inl (plain_error ''indexer has not yet synced height'')
      | Inr (Some ib) \<Rightarrow>
          (case buildTransactionRecords net height blockHash (sb_extrinsics blk) ib of Inl e \<Rightarrow> Inl e
           | Inr txs \<Rightarrow>
               (case buildBridgeObservationRecords num net height blockHash ib last_json of (obs, new_json) \<Rightarrow>
                  Inr (\<lparr>bb_block = block_of num net height blockHash blk, bb_transactions = txs, bb_bridgeObservations = obs\<rparr>,
                       new_json))))"

definition ingestOneBlock ::
  "(rat \<Rightarrow> jsstr) \<Rightarrow> (bytes \<Rightarrow> bytes) \<Rightarrow> sources \<Rightarrow> pg_env \<Rightarrow> tx_faults \<Rightarrow> jsstr \<Rightarrow> rat \<Rightarrow> unit sync" where
  "ingestOneBlock num sha src env fl net height s =
     (case fetch_bundle num src net height (sy_lastDParameterJson s) of
        Inl e \<Rightarrow> (Inl e, s)
      | Inr (bundle, new_json) \<Rightarrow>
          ebind (on_archive (putBlockBundle sha env fl bundle)) (\<lambda>_ s.
            (Inr (), case new_json of None \<Rightarrow> s | Some j \<Rightarrow> s\<lparr>sy_lastDParameterJson := Some j\<rparr>)) s)"

text \<open>
  What happens around the statements of one call of \<^verbatim>\<open>syncOnce\<close>: reading the cursor, and at each
  height the ingestion's statements and the cursor's write.
\<close>

record sync_env =
  se_read :: pg_env
  se_ingest :: "rat \<Rightarrow> pg_env"
  se_faults :: "rat \<Rightarrow> tx_faults"
  se_cursor :: "rat \<Rightarrow> pg_env"

text \<open>
  The loop over heights. The upper bound is a safe integer, so \<^verbatim>\<open>height++\<close> is exact and the loop
  ends; its measure is the number of heights left.
\<close>

function ingest_loop ::
  "(rat \<Rightarrow> jsstr) \<Rightarrow> (bytes \<Rightarrow> bytes) \<Rightarrow> sources \<Rightarrow> sync_env \<Rightarrow> jsstr \<Rightarrow> rat \<Rightarrow> rat \<Rightarrow> nat sync" where
  "ingest_loop num sha src se net height endHeight =
     (if height \<le> endHeight then
        ebind (ingestOneBlock num sha src (se_ingest se height) (se_faults se height) net height) (\<lambda>_.
        ebind (on_archive (setWatermark (se_cursor se height) (watermarkKey net) (JObj [(js ''height'', JNum height)]))) (\<lambda>_.
        ebind (ingest_loop num sha src se net (height + 1) endHeight) (\<lambda>n. eret (Suc n))))
      else eret 0)"
  by pat_completeness auto
termination
proof (relation "measure (\<lambda>(num, sha, src, se, net, h, e). nat (\<lfloor>e - h\<rfloor> + 1))", goal_cases)
  case (2 num sha src se net h e)
  have "\<lfloor>e - (h + 1)\<rfloor> = \<lfloor>e - h\<rfloor> - 1" by linarith
  moreover have "0 \<le> \<lfloor>e - h\<rfloor>" using 2 by simp
  ultimately show ?case by simp
qed simp

declare ingest_loop.simps [simp del]

record sync_result =
  sr_ingestedBlocks :: nat
  sr_fromHeight :: "rat option"
  sr_toHeight :: "rat option"
  sr_targetTipHeight :: rat

definition syncOnce ::
  "(rat \<Rightarrow> jsstr) \<Rightarrow> (bytes \<Rightarrow> bytes) \<Rightarrow> sources \<Rightarrow> sync_env \<Rightarrow> jsstr \<Rightarrow> rat option \<Rightarrow> sync_result sync" where
  "syncOnce num sha src se net maxBlocks_opt =
     (let maxBlocks = (case maxBlocks_opt of None \<Rightarrow> 100 | Some n \<Rightarrow> n) in
      ebind (elift (node_call (nd_getFinalizedHead src))) (\<lambda>finalizedHash.
      ebind (elift (getHeightOf src finalizedHash)) (\<lambda>targetTipHeight.
      ebind (getSyncedHeight (se_read se) net) (\<lambda>synced.
      let startHeight = (case synced of None \<Rightarrow> 0 | Some h \<Rightarrow> h + 1) in
      if startHeight > targetTipHeight
      then eret \<lparr>sr_ingestedBlocks = 0, sr_fromHeight = None, sr_toHeight = None, sr_targetTipHeight = targetTipHeight\<rparr>
      else
        let endHeight = min targetTipHeight (startHeight + maxBlocks - 1) in
        ebind (ingest_loop num sha src se net startHeight endHeight) (\<lambda>ingested.
          eret \<lparr>sr_ingestedBlocks = ingested, sr_fromHeight = Some startHeight, sr_toHeight = Some endHeight,
                 sr_targetTipHeight = targetTipHeight\<rparr>)))))"


section \<open>Canonical text\<close>

fun sorted_members :: "jsval \<Rightarrow> jsval" where
  "sorted_members (JArr xs) = JArr (map sorted_members xs)"
| "sorted_members (JObj kvs) = JObj (sort_key fst (map (\<lambda>(k, v). (k, sorted_members v)) kvs))"
| "sorted_members v = v"

lemma sort_key_map_values:
  "sort_key fst (map (\<lambda>(k, v). (k, f v)) kvs) = map (\<lambda>(k, v). (k, f v)) (sort_key fst kvs)"
proof -
  have ins: "insort_key fst (k, f v) (map (\<lambda>(k, v). (k, f v)) xs) = map (\<lambda>(k, v). (k, f v)) (insort_key fst (k, v) xs)" for k v xs
    by (induction xs) auto
  show ?thesis by (induction kvs) (auto simp: ins)
qed

lemma stableStringify_sorted: "stableStringify num v = JSON_text num (sorted_members v)"
proof (induction v rule: sorted_members.induct)
  case (1 xs)
  then have "map (stableStringify num) xs = map (JSON_text num) (map sorted_members xs)" by simp
  then show ?case by (simp only: stableStringify.simps sorted_members.simps JSON_text.simps)
next
  case (2 kvs)
  then have eq: "map (\<lambda>(k, v). (k, stableStringify num v)) kvs
      = map (\<lambda>(k, v). (k, JSON_text num v)) (map (\<lambda>(k, v). (k, sorted_members v)) kvs)" by auto
  show ?case
    by (simp only: stableStringify.simps sorted_members.simps JSON_text.simps eq sort_key_map_values [of "JSON_text num"])
      (simp add: comp_def split_def)
qed simp_all

text \<open>The same value up to the order of members, at any depth; no name twice in an object.\<close>

inductive shuffled :: "jsval \<Rightarrow> jsval \<Rightarrow> bool" where
  same: "shuffled v v"
| array: "list_all2 shuffled xs ys \<Longrightarrow> shuffled (JArr xs) (JArr ys)"
| members: "distinct (map fst kvs) \<Longrightarrow> distinct (map fst kvs') \<Longrightarrow> set (map fst kvs) = set (map fst kvs') \<Longrightarrow>
     (\<And>k v v'. (k, v) \<in> set kvs \<Longrightarrow> (k, v') \<in> set kvs' \<Longrightarrow> shuffled v v') \<Longrightarrow> shuffled (JObj kvs) (JObj kvs')"

lemma members_subset:
  assumes "fst ` set a \<subseteq> fst ` set b" and "\<And>k v v'. (k, v) \<in> set a \<Longrightarrow> (k, v') \<in> set b \<Longrightarrow> f v = f v'"
  shows "set (map (\<lambda>(k, v). (k, f v)) a) \<subseteq> set (map (\<lambda>(k, v). (k, f v)) b)"
proof (clarsimp)
  fix k v assume kv: "(k, v) \<in> set a"
  with assms(1) obtain v' where v': "(k, v') \<in> set b" by force
  from assms(2) [OF kv v'] v' show "(k, f v) \<in> (\<lambda>(k, v). (k, f v)) ` set b" by force
qed

lemma same_members:
  assumes "fst ` set a = fst ` set b" and "\<And>k v v'. (k, v) \<in> set a \<Longrightarrow> (k, v') \<in> set b \<Longrightarrow> f v = f v'"
  shows "set (map (\<lambda>(k, v). (k, f v)) a) = set (map (\<lambda>(k, v). (k, f v)) b)"
proof
  show "set (map (\<lambda>(k, v). (k, f v)) a) \<subseteq> set (map (\<lambda>(k, v). (k, f v)) b)"
    using assms by (intro members_subset) auto
  show "set (map (\<lambda>(k, v). (k, f v)) b) \<subseteq> set (map (\<lambda>(k, v). (k, f v)) a)"
    by (rule members_subset) (use assms(1) in blast, use assms(2) in metis)
qed

lemma shuffled_sorted: "shuffled v w \<Longrightarrow> sorted_members v = sorted_members w"
proof (induction rule: shuffled.induct)
  case (array xs ys)
  then have "map sorted_members xs = map sorted_members ys" by (induction rule: list_all2_induct) simp_all
  then show ?case by simp
next
  case (members kvs kvs')
  let ?f = "map (\<lambda>(k, v). (k, sorted_members v))"
  have d: "distinct (map fst (?f kvs))" "distinct (map fst (?f kvs'))" using members(1,2) by (simp_all add: comp_def split_def)
  have "sort_key fst (?f kvs) = sort_key fst (?f kvs')"
  proof (rule map_sorted_distinct_set_unique [of fst])
    have eq: "set (?f kvs) = set (?f kvs')" by (rule same_members) (use members(3,5) in \<open>simp_all\<close>)
    then show "set (sort_key fst (?f kvs)) = set (sort_key fst (?f kvs'))" by simp
    show "inj_on fst (set (sort_key fst (?f kvs)) \<union> set (sort_key fst (?f kvs')))"
      using distinct_map [THEN iffD1, OF d(2)] by (simp only: set_sort eq Un_absorb)
  qed (use d in \<open>simp_all only: distinct_map [of fst] distinct_sort set_sort sorted_sort_key\<close>)
  then show ?case by simp
qed simp

end
