(* ===== verification/SyncProperties.thy ===== *)
theory SyncProperties
  imports SyncService
begin

text \<open>
  What the ingestion service guarantees: the cursor never passes what is archived, however runs overlap
  (a step relation over the store calls of any number of instances), and with agreeing sources the
  service reaches the finalized head.
\<close>

section \<open>What a committed ingestion leaves\<close>

lemma fetch_bundle_block:
  assumes "fetch_bundle num src net height j = Inr (bd, j')"
  obtains raw blk where "bb_block bd = block_of num net height (hexNoPrefix raw) blk" and "nd_getBlockHash src height = Reply raw"
  using assms
  by (cases "nd_getBlockHash src height")
    (auto simp: fetch_bundle_def Let_def split: sum.splits option.splits prod.splits)

lemma keeps_rows:
  "keeps (\<lambda>a. blocks a = B \<and> archive_watermarks a = W) (insert_blob h d)"
  "keeps (\<lambda>a. blocks a = B \<and> archive_watermarks a = W) (insert_role h r)"
  "keeps (\<lambda>a. blocks a = B \<and> archive_watermarks a = W) (insert_transaction t)"
  "keeps (\<lambda>a. blocks a = B \<and> archive_watermarks a = W) (insert_bridge_observation x)"
  by (rule keeps_success;
      auto simp: insert_blob_Inr insert_role_Inr insert_transaction_Inr insert_bridge_observation_Inr
        dest: insert_blob_Inl insert_role_Inl insert_transaction_Inl insert_bridge_observation_Inl split: if_splits)+

lemma keeps_rows_blob: "keeps (\<lambda>a. blocks a = B \<and> archive_watermarks a = W) (insert_blob_with_role sha env n d r)"
  unfolding insert_blob_with_role_def Let_def by (intro keeps_ebind keeps_stmt keeps_rows keeps_elift keeps_eret)

lemma keeps_rows_transactions: "keeps (\<lambda>a. blocks a = B \<and> archive_watermarks a = W) (insertTransactionRows sha env n ts)"
  by (induction ts arbitrary: n) (auto simp: insertTransactionRow_def intro!: keeps_ebind keeps_stmt keeps_rows keeps_rows_blob)

lemma keeps_rows_observations: "keeps (\<lambda>a. blocks a = B \<and> archive_watermarks a = W) (insertBridgeObservationRows sha env n xs)"
  by (induction xs arbitrary: n) (auto simp: insertBridgeObservationRow_def intro!: keeps_ebind keeps_stmt keeps_rows keeps_rows_blob)

lemma insertBlockRow_effect:
  assumes "insertBlockRow sha env b a = (Inr x, a')"
  shows "\<exists>net h hdr body st. bind_text (br_net b) = Inr net \<and> bind_int 64 (br_height b) = Inr h
    \<and> has_block a' (net, h, hexToBuf (br_blockHash b)) \<and> archive_watermarks a' = archive_watermarks a
    \<and> (blocks a' = blocks a \<or> blocks a' = blocks a @ [block_row_of b hdr body net h st])"
proof -
  from assms obtain hdr a1 body a2 net h st u where
    1: "insert_blob_with_role sha env 0 (br_headerBytes b) (js ''block_header'') a = (Inr hdr, a1)"
    and 2: "(case br_bodyBytes b of None \<Rightarrow> eret None
            | Some d \<Rightarrow> ebind (insert_blob_with_role sha env 2 d (js ''block_body'')) (\<lambda>h. eret (Some h))) a1 = (Inr body, a2)"
    and 3: "bind_text (br_net b) = Inr net" "bind_int 64 (br_height b) = Inr h"
      "insert_block (block_row_of b hdr body net h st) a2 = (Inr u, a')"
    unfolding insertBlockRow_def by (auto simp: stmt_Inr elim!: ebind_InrE)
  have "blocks a1 = blocks a \<and> archive_watermarks a1 = archive_watermarks a"
    using keepsD [OF keeps_rows_blob [of "blocks a" "archive_watermarks a"], of a] 1 by (metis snd_conv)
  moreover have "blocks a2 = blocks a1 \<and> archive_watermarks a2 = archive_watermarks a1"
    using 2 keepsD [OF keeps_rows_blob [of "blocks a1" "archive_watermarks a1"], of a1]
    by (auto split: option.splits elim!: ebind_InrE) (metis snd_conv)+
  moreover have "has_block a' (net, h, hexToBuf (br_blockHash b))"
    using 3(3) by (auto simp: insert_block_Inr block_key_def block_row_of_def has_block_def split: if_splits)
  ultimately show ?thesis using 3 by (auto simp: insert_block_Inr split: if_splits)
qed

lemma putBlockBundle_effect:
  assumes "putBlockBundle sha env fl bd a = (Inr x, a')"
  shows "\<exists>net h hdr body st. bind_text (br_net (bb_block bd)) = Inr net \<and> bind_int 64 (br_height (bb_block bd)) = Inr h
    \<and> has_block a' (net, h, hexToBuf (br_blockHash (bb_block bd))) \<and> archive_watermarks a' = archive_watermarks a
    \<and> (blocks a' = blocks a \<or> blocks a' = blocks a @ [block_row_of (bb_block bd) hdr body net h st])"
proof -
  from assms obtain a1 a2 where 1: "insertBlockRow sha env (bb_block bd) a = (Inr x, a1)"
    and 2: "(if bb_transactions bd \<noteq> [] then insertTransactionRows sha env 5 (bb_transactions bd) else eret ()) a1 = (Inr (), a2)"
    and 3: "(if bb_bridgeObservations bd \<noteq> [] then insertBridgeObservationRows sha env (5 + 3 * length (bb_transactions bd)) (bb_bridgeObservations bd) else eret ()) a2 = (Inr (), a')"
    unfolding putBlockBundle_def Let_def
    by (auto simp: in_transaction_Inr elim!: ebind_InrE dest!: asserts_state)
  have "blocks a2 = blocks a1 \<and> archive_watermarks a2 = archive_watermarks a1"
    using 2 keepsD [OF keeps_rows_transactions [of "blocks a1" "archive_watermarks a1"], of a1]
    by (auto split: if_splits) (metis snd_conv)+
  moreover have "blocks a' = blocks a2 \<and> archive_watermarks a' = archive_watermarks a2"
    using 3 keepsD [OF keeps_rows_observations [of "blocks a2" "archive_watermarks a2"], of a2]
    by (auto split: if_splits) (metis snd_conv)+
  ultimately have "blocks a' = blocks a1" "archive_watermarks a' = archive_watermarks a1" by simp_all
  with insertBlockRow_effect [OF 1] show ?thesis by (auto simp: has_block_def)
qed

section \<open>The cursor is never ahead of the archive\<close>

definition archived :: "jsstr \<Rightarrow> int \<Rightarrow> archive \<Rightarrow> bool" where
  "archived net i a \<longleftrightarrow> (\<exists>r \<in> set (blocks a). b_net r = net \<and> b_height r = i \<and> b_is_canonical r \<and> b_finalized r)"

definition archived_below :: "jsstr \<Rightarrow> rat \<Rightarrow> archive \<Rightarrow> bool" where
  "archived_below net x a \<longleftrightarrow> (\<forall>i. 0 \<le> i \<longrightarrow> of_int i < x \<longrightarrow> archived net i a)"

text \<open>An archive whose chain is written by instances of this service alone.\<close>

definition sync_ok :: "(bytes \<Rightarrow> bytes) \<Rightarrow> jsstr \<Rightarrow> archive \<Rightarrow> bool" where
  "sync_ok sha net a \<longleftrightarrow>
     store_inv sha a \<and> (\<forall>r \<in> set (blocks a). b_net r = net \<longrightarrow> b_finalized r) \<and> height_cursor a (watermarkKey net)
   \<and> (\<forall>x. cursor_height a (watermarkKey net) = Some x \<longrightarrow> archived_below net (x + 1) a)"

lemma cursor_height_watermarks:
  "archive_watermarks a' = archive_watermarks a \<Longrightarrow> cursor_height a' k = cursor_height a k \<and> height_cursor a' k = height_cursor a k"
  by (simp add: cursor_height_def height_cursor_def)

lemma archived_mono: "set (blocks a) \<subseteq> set (blocks a') \<Longrightarrow> archived net i a \<Longrightarrow> archived net i a'"
  unfolding archived_def by blast

lemma archived_below_mono: "set (blocks a) \<subseteq> set (blocks a') \<Longrightarrow> archived_below net x a \<Longrightarrow> archived_below net x a'"
  unfolding archived_below_def using archived_mono by blast

lemma archived_below_Suc:
  "archived_below net (of_int n) a \<Longrightarrow> archived net n a \<Longrightarrow> archived_below net (of_int n + 1) a"
proof -
  assume *: "archived_below net (of_int n) a" "archived net n a"
  show ?thesis unfolding archived_below_def
  proof (intro allI impI)
    fix i :: int assume "0 \<le> i" "of_int i < of_int n + (1 :: rat)"
    then have "i < n \<or> i = n" by linarith
    with * \<open>0 \<le> i\<close> show "archived net i a" by (auto simp: archived_below_def)
  qed
qed

lemma ingest_effect:
  assumes run: "ingestOneBlock num sha src env fl net height s = (Inr (), s')" and net: "bind_text net = Inr net"
    and ok: "sync_ok sha net (sy_archive s)"
  shows "\<exists>n. height = of_int n \<and> archived net n (sy_archive s') \<and> sync_ok sha net (sy_archive s')
    \<and> set (blocks (sy_archive s)) \<subseteq> set (blocks (sy_archive s'))
    \<and> cursor_height (sy_archive s') (watermarkKey net) = cursor_height (sy_archive s) (watermarkKey net)"
proof -
  let ?a = "sy_archive s" and ?a' = "sy_archive s'"
  from run obtain bd j x where fetch: "fetch_bundle num src net height (sy_lastDParameterJson s) = Inr (bd, j)"
    and put: "putBlockBundle sha env fl bd ?a = (Inr x, ?a')"
    by (auto simp: ingestOneBlock_def on_archive_def elim!: ebind_InrE split: sum.splits prod.splits option.splits)
  from fetch obtain raw blk where blk: "bb_block bd = block_of num net height (hexNoPrefix raw) blk"
    by (rule fetch_bundle_block)
  from putBlockBundle_effect [OF put] blk net obtain h hdr body st where
    h: "bind_int 64 height = Inr h" and blk': "has_block ?a' (net, h, hexToBuf (hexNoPrefix raw))"
    and wm: "archive_watermarks ?a' = archive_watermarks ?a"
    and rows: "blocks ?a' = blocks ?a \<or> blocks ?a' = blocks ?a @ [block_row_of (bb_block bd) hdr body net h st]"
    by (auto simp: block_of_def Let_def)
  have n: "height = of_int h" using h by (simp add: bind_int_def split: if_splits)
  have sub: "set (blocks ?a) \<subseteq> set (blocks ?a')" using rows by auto
  have inv': "store_inv sha ?a'" using keepsD [OF store_invariant.put_bundle, of sha ?a] put ok by (metis snd_conv sync_ok_def)
  have "b_finalized (block_row_of (bb_block bd) hdr body net h st)" by (simp add: blk block_row_of_def block_of_def Let_def)
  with ok rows have fin: "\<forall>r \<in> set (blocks ?a'). b_net r = net \<longrightarrow> b_finalized r" by (auto simp: sync_ok_def)
  from blk' obtain r where r: "r \<in> set (blocks ?a')" "b_net r = net" "b_height r = h"
    by (auto simp: has_block_def block_key_def)
  with fin inv' have "b_finalized r" "b_is_canonical r"
    by (auto simp: store_inv_def archive_inv_def blocks_ok_def block_ok_def block_checks_def)
  with r have arch: "archived net h ?a'" unfolding archived_def by blast
  have "sync_ok sha net ?a'"
    using ok inv' fin archived_below_mono [OF sub] cursor_height_watermarks [OF wm] by (simp add: sync_ok_def)
  with n arch sub cursor_height_watermarks [OF wm] show ?thesis by blast
qed

lemma ingest_failed:
  assumes "ingestOneBlock num sha src env fl net height s = (Inl e, s')"
  shows "s' = s"
  using assms
  by (auto simp: ingestOneBlock_def on_archive_def elim!: ebind_InlE dest!: putBlockBundle_Inl split: sum.splits prod.splits)

lemma height_literal: "JObj [(js ''height'', JNum h)] = height_value h"
  by (simp add: height_value_def)

lemma setWatermark_blocks: "blocks (snd (setWatermark env k v a)) = blocks a"
  by (auto simp: setWatermark_def reading_def emap_error_def stmt_def ebind_def split: option.splits sum.splits)

lemma cursor_write_ok:
  assumes ok: "sync_ok sha net a" and key: "bind_text (watermarkKey net) = Inr (watermarkKey net)" and below: "archived_below net (h + 1) a"
  shows "sync_ok sha net (snd (setWatermark env (watermarkKey net) (height_value h) a))"
proof -
  let ?a' = "snd (setWatermark env (watermarkKey net) (height_value h) a)"
  have hc: "height_cursor a (watermarkKey net)" using ok by (simp add: sync_ok_def)
  note w = setWatermark_height [OF key hc, of env h]
  have inv: "store_inv sha ?a'" using keepsD [OF store_invariant.set_watermark_keeps] ok by (simp add: sync_ok_def)
  have sub: "blocks ?a' = blocks a" by (rule setWatermark_blocks)
  have "archived_below net (x + 1) ?a'" if "cursor_height ?a' (watermarkKey net) = Some x" for x
  proof (cases "fst (setWatermark env (watermarkKey net) (height_value h) a)")
    case (Inl e)
    with w(2) that ok show ?thesis by (simp add: sync_ok_def)
  next
    case (Inr u)
    with w(1) that have "x = h \<or> cursor_height a (watermarkKey net) = Some x"
      by (auto simp: raised_def max_def split: option.splits if_splits)
    then have "archived_below net (x + 1) a" using below ok by (auto simp: sync_ok_def)
    then show ?thesis by (simp add: archived_below_def archived_def sub)
  qed
  with inv sub ok w(3) show ?thesis by (simp add: sync_ok_def)
qed

section \<open>Overlapping runs\<close>

text \<open>
  Several service instances on one archive, each between two of its store calls. An instance at rest
  reads the cursor and fixes its range; one at a height ingests the block, then writes the cursor, then
  moves on; any failure ends its run. Every request may be answered differently each time.
\<close>

datatype phase = Idle | Ingesting rat rat | Ingested rat rat

record fleet =
  ft_archive :: archive
  ft_phase :: "nat \<Rightarrow> phase"
  ft_memory :: "nat \<Rightarrow> jsstr option"

definition seen_by :: "fleet \<Rightarrow> nat \<Rightarrow> sync_state" where
  "seen_by f w = \<lparr>sy_archive = ft_archive f, sy_lastDParameterJson = ft_memory f w\<rparr>"

definition moved :: "fleet \<Rightarrow> nat \<Rightarrow> phase \<Rightarrow> sync_state \<Rightarrow> fleet" where
  "moved f w p s =
     \<lparr>ft_archive = sy_archive s, ft_phase = (ft_phase f)(w := p), ft_memory = (ft_memory f)(w := sy_lastDParameterJson s)\<rparr>"

definition first_height :: "rat option \<Rightarrow> rat" where
  "first_height synced = (case synced of None \<Rightarrow> 0 | Some h \<Rightarrow> h + 1)"

inductive sync_step :: "(rat \<Rightarrow> jsstr) \<Rightarrow> (bytes \<Rightarrow> bytes) \<Rightarrow> jsstr \<Rightarrow> fleet \<Rightarrow> fleet \<Rightarrow> bool"
  for num sha net where
  begin_run:
    "ft_phase f w = Idle \<Longrightarrow> getSyncedHeight env net (seen_by f w) = (Inr synced, s) \<Longrightarrow>
     sync_step num sha net f (moved f w (Ingesting (first_height synced) endHeight) s)"
| ingest:
    "ft_phase f w = Ingesting h e \<Longrightarrow> h \<le> e \<Longrightarrow> ingestOneBlock num sha src env fl net h (seen_by f w) = (r, s) \<Longrightarrow>
     sync_step num sha net f (moved f w (case r of Inl _ \<Rightarrow> Idle | Inr _ \<Rightarrow> Ingested h e) s)"
| write_cursor:
    "ft_phase f w = Ingested h e \<Longrightarrow>
     on_archive (setWatermark env (watermarkKey net) (JObj [(js ''height'', JNum h)])) (seen_by f w) = (r, s) \<Longrightarrow>
     sync_step num sha net f (moved f w (case r of Inl _ \<Rightarrow> Idle | Inr _ \<Rightarrow> Ingesting (h + 1) e) s)"
| end_run:
    "ft_phase f w = Ingesting h e \<Longrightarrow> e < h \<Longrightarrow> sync_step num sha net f (moved f w Idle (seen_by f w))"
| restart:
    "sync_step num sha net f (moved f w Idle ((seen_by f w)\<lparr>sy_lastDParameterJson := None\<rparr>))"

inductive_cases sync_stepE: "sync_step num sha net f f'"

lemma moved_simps [simp]:
  "ft_archive (moved f w p s) = sy_archive s" "ft_phase (moved f w p s) = (ft_phase f)(w := p)"
  "seen_by (moved f w p s) w = s" "moved (moved f w p s) w p' s' = moved f w p' s'"
  "sy_archive (seen_by f w) = ft_archive f"
  by (simp_all add: moved_def seen_by_def)

lemma moved_self: "ft_phase f w = p \<Longrightarrow> moved f w p (seen_by f w) = f"
  by (cases f) (auto simp: moved_def seen_by_def fun_upd_idem)

lemma getSyncedHeight_reads:
  assumes "getSyncedHeight env net s = (r, s')"
  shows "s' = s"
  using assms
  by (cases s) (auto simp: getSyncedHeight_def on_archive_def getWatermark_def reading_def emap_error_def stmt_def ebind_def
      split: option.splits sum.splits prod.splits)

lemma getSyncedHeight_cursor:
  assumes "getSyncedHeight env net s = (Inr synced, s')" and "bind_text (watermarkKey net) = Inr (watermarkKey net)"
  shows "synced = cursor_height (sy_archive s) (watermarkKey net)"
  using assms
  by (auto simp: getSyncedHeight_def on_archive_def getWatermark_def reading_def emap_error_def stmt_def ebind_def cursor_height_def
      split: option.splits sum.splits prod.splits)

text \<open>One call of \<^verbatim>\<open>syncOnce\<close> is a sequence of these steps.\<close>

lemma ingest_loop_steps:
  assumes "ingest_loop num sha src se net h e s = (r, s')" and "ft_phase f w = Ingesting h e" and "seen_by f w = s"
  shows "(sync_step num sha net)\<^sup>*\<^sup>* f (moved f w Idle s')"
  using assms
proof (induction num sha src se net h e arbitrary: s r s' f rule: ingest_loop.induct)
  case (1 num sha src se net h e)
  let ?ing = "ingestOneBlock num sha src (se_ingest se h) (se_faults se h) net h"
  let ?cur = "on_archive (setWatermark (se_cursor se h) (watermarkKey net) (JObj [(js ''height'', JNum h)]))"
  show ?case
  proof (cases "h \<le> e")
    case False
    with 1 have "s' = s" by (simp add: ingest_loop.simps [of num sha src se net h e])
    with 1 False end_run [of f w h e] show ?thesis by auto
  next
    case True
    obtain r1 s1 where i: "?ing s = (r1, s1)" by fastforce
    have st1: "sync_step num sha net f (moved f w (case r1 of Inl _ \<Rightarrow> Idle | Inr _ \<Rightarrow> Ingested h e) s1)"
      using ingest [of f w h e] 1 True i by blast
    show ?thesis
    proof (cases r1)
      case (Inl x)
      with i True 1 have "s' = s1" by (simp add: ingest_loop.simps [of num sha src se net h e] ebind_def)
      with st1 Inl show ?thesis by auto
    next
      case (Inr u)
      let ?f1 = "moved f w (Ingested h e) s1"
      obtain r2 s2 where c: "?cur s1 = (r2, s2)" by fastforce
      have st2: "sync_step num sha net ?f1 (moved f w (case r2 of Inl _ \<Rightarrow> Idle | Inr _ \<Rightarrow> Ingesting (h + 1) e) s2)"
        using write_cursor [of ?f1 w h e "se_cursor se h" net r2 s2 num sha] c by simp
      have f1: "sync_step num sha net f ?f1" using st1 Inr by simp
      show ?thesis
      proof (cases r2)
        case (Inl x)
        with i c True Inr 1 have "s' = s2" by (simp add: ingest_loop.simps [of num sha src se net h e] ebind_def)
        with f1 st2 Inl show ?thesis by (auto intro: converse_rtranclp_into_rtranclp)
      next
        case (Inr v)
        obtain r3 where l: "ingest_loop num sha src se net (h + 1) e s2 = (r3, s')"
          using 1(2) i c True Inr \<open>r1 = Inr u\<close>
          by (simp add: ingest_loop.simps [of num sha src se net h e] ebind_def split: prod.splits sum.splits)
        have "(sync_step num sha net)\<^sup>*\<^sup>* (moved f w (Ingesting (h + 1) e) s2) (moved (moved f w (Ingesting (h + 1) e) s2) w Idle s')"
          by (rule 1(1) [OF True l]) simp_all
        with f1 st2 Inr show ?thesis by (auto intro: converse_rtranclp_into_rtranclp)
      qed
    qed
  qed
qed

lemma syncOnce_steps:
  assumes run: "syncOnce num sha src se net mb (seen_by f w) = (r, s')" and idle: "ft_phase f w = Idle"
  shows "(sync_step num sha net)\<^sup>*\<^sup>* f (moved f w Idle s')"
proof -
  have stay: "s' = seen_by f w \<Longrightarrow> (sync_step num sha net)\<^sup>*\<^sup>* f (moved f w Idle s')" using moved_self [OF idle] by simp
  consider "s' = seen_by f w"
    | synced s1 e r1 where "getSyncedHeight (se_read se) net (seen_by f w) = (Inr synced, s1)"
        "ingest_loop num sha src se net (first_height synced) e s1 = (r1, s')"
    using run
    by (auto simp: syncOnce_def Let_def ebind_def first_height_def dest: getSyncedHeight_reads split: sum.splits prod.splits if_splits)
  then show ?thesis
  proof cases
    case (2 synced s1 e r1)
    have "sync_step num sha net f (moved f w (Ingesting (first_height synced) e) s1)" by (rule begin_run [OF idle 2(1)])
    moreover have "(sync_step num sha net)\<^sup>*\<^sup>* (moved f w (Ingesting (first_height synced) e) s1)
        (moved (moved f w (Ingesting (first_height synced) e) s1) w Idle s')"
      by (rule ingest_loop_steps [OF 2(2)]) simp_all
    ultimately show ?thesis by (auto intro: converse_rtranclp_into_rtranclp)
  qed (rule stay)
qed

fun reached :: "jsstr \<Rightarrow> archive \<Rightarrow> phase \<Rightarrow> bool" where
  "reached net a Idle \<longleftrightarrow> True"
| "reached net a (Ingesting h e) \<longleftrightarrow> archived_below net h a"
| "reached net a (Ingested h e) \<longleftrightarrow> archived_below net (h + 1) a"

lemma reached_mono: "set (blocks a) \<subseteq> set (blocks a') \<Longrightarrow> reached net a p \<Longrightarrow> reached net a' p"
  using archived_below_mono by (cases p) auto

definition fleet_ok :: "(bytes \<Rightarrow> bytes) \<Rightarrow> jsstr \<Rightarrow> fleet \<Rightarrow> bool" where
  "fleet_ok sha net f \<longleftrightarrow> sync_ok sha net (ft_archive f) \<and> (\<forall>w. reached net (ft_archive f) (ft_phase f w))"

lemma fleet_okD: "fleet_ok sha net f \<Longrightarrow> sync_ok sha net (ft_archive f)" "fleet_ok sha net f \<Longrightarrow> reached net (ft_archive f) (ft_phase f w)"
  by (simp_all add: fleet_ok_def)

lemma fleet_ok_moved:
  assumes "fleet_ok sha net f" and "sync_ok sha net (sy_archive s)" and "set (blocks (ft_archive f)) \<subseteq> set (blocks (sy_archive s))"
    and "reached net (sy_archive s) p"
  shows "fleet_ok sha net (moved f w p s)"
  using assms reached_mono [OF assms(3)] by (simp add: fleet_ok_def)

lemma begin_run_ok:
  assumes ok: "sync_ok sha net (sy_archive s)" and "getSyncedHeight env net s = (Inr synced, s')"
    and "bind_text (watermarkKey net) = Inr (watermarkKey net)"
  shows "archived_below net (first_height synced) (sy_archive s)"
  using ok getSyncedHeight_cursor [OF assms(2,3)]
  by (auto simp: first_height_def sync_ok_def archived_below_def split: option.splits)

definition keyable :: "jsstr \<Rightarrow> bool" where
  "keyable net \<longleftrightarrow> bind_text net = Inr net \<and> bind_text (watermarkKey net) = Inr (watermarkKey net)"

lemma sync_step_keeps:
  assumes "sync_step num sha net f f'" and "fleet_ok sha net f" and key: "keyable net"
  shows "fleet_ok sha net f' \<and> set (blocks (ft_archive f)) \<subseteq> set (blocks (ft_archive f'))"
  using assms(1,2)
proof (induction rule: sync_step.induct)
  case (begin_run f w env synced s e)
  have s: "s = seen_by f w" using begin_run(2) by (rule getSyncedHeight_reads)
  have "archived_below net (first_height synced) (ft_archive f)"
    using begin_run_ok [of sha net "seen_by f w"] begin_run(2) fleet_okD(1) [OF begin_run(3)] key by (simp add: keyable_def)
  then show ?case using begin_run(3) fleet_okD(1) [OF begin_run(3)] by (simp add: s fleet_ok_moved)
next
  case (ingest f w h e src env fl r s)
  note ok = fleet_okD(1) [OF ingest(4)]
  show ?case
  proof (cases r)
    case (Inl x)
    with ingest(3) have "s = seen_by f w" using ingest_failed by blast
    then show ?thesis using Inl ok ingest(4) by (simp add: fleet_ok_moved)
  next
    case (Inr u)
    with ingest(3) ingest_effect [of num sha src env fl net h "seen_by f w" s] ok key obtain n where
      n: "h = of_int n" "archived net n (sy_archive s)" "sync_ok sha net (sy_archive s)"
      "set (blocks (ft_archive f)) \<subseteq> set (blocks (sy_archive s))" by (auto simp: keyable_def)
    have "archived_below net h (sy_archive s)"
      using archived_below_mono [OF n(4)] fleet_okD(2) [OF ingest(4), of w] ingest(1) by simp
    then have "archived_below net (h + 1) (sy_archive s)" using archived_below_Suc n(2) by (simp add: n(1))
    then show ?thesis using Inr n(3,4) ingest(4) by (simp add: fleet_ok_moved)
  qed
next
  case (write_cursor f w h e env r s)
  have s: "sy_archive s = snd (setWatermark env (watermarkKey net) (height_value h) (ft_archive f))"
    using write_cursor(2) by (auto simp: on_archive_def height_literal split: prod.splits)
  have below: "archived_below net (h + 1) (ft_archive f)" using fleet_okD(2) [OF write_cursor(3), of w] write_cursor(1) by simp
  have "sync_ok sha net (sy_archive s)"
    unfolding s using fleet_okD(1) [OF write_cursor(3)] key below by (intro cursor_write_ok) (simp_all add: keyable_def)
  moreover have b: "blocks (sy_archive s) = blocks (ft_archive f)" by (simp add: s setWatermark_blocks)
  moreover have "archived_below net (h + 1) (sy_archive s)" using below b by (simp add: archived_below_def archived_def)
  ultimately show ?case using write_cursor(3) by (cases r) (simp_all add: fleet_ok_moved)
next
  case (end_run f w h e)
  then show ?case using fleet_okD(1) by (simp add: fleet_ok_moved)
next
  case (restart f w)
  then show ?case using fleet_okD(1) by (simp add: fleet_ok_moved)
qed

lemma sync_steps_keep:
  assumes "(sync_step num sha net)\<^sup>*\<^sup>* f f'" and "fleet_ok sha net f" and "keyable net"
  shows "fleet_ok sha net f' \<and> set (blocks (ft_archive f)) \<subseteq> set (blocks (ft_archive f'))"
  using assms by (induction rule: rtranclp_induct) (use sync_step_keeps in blast)+

section \<open>Progress\<close>

text \<open>
  At a height the two sources agree: the node's block and the indexer's view of it have the same hash,
  every hash and root is 32 bytes of lowercase hex, and each regular transaction is carried by one of the
  node's extrinsics.
\<close>

definition consistent_tx :: "substrate_block \<Rightarrow> indexer_tx \<Rightarrow> bool" where
  "consistent_tx blk t \<longleftrightarrow>
     Hex32Schema (hexNoPrefix (it_hash t)) \<and> it_protocolVersion t \<in> of_int ` {0..<2 ^ 31}
   \<and> (tx_kind (hexToBuf (hexNoPrefix (it_raw t))) = js ''system''
      \<or> (\<exists>e \<in> set (sb_extrinsics blk). js_includes (hexNoPrefix e) (hexNoPrefix (it_raw t))))"

definition consistent_block :: "jsstr \<Rightarrow> substrate_block \<Rightarrow> indexer_block \<Rightarrow> bool" where
  "consistent_block b blk ib \<longleftrightarrow>
     Hex32Schema b \<and> hexNoPrefix (ib_hash ib) = b \<and> Hex32Schema (hexNoPrefix (hd_parentHash (sb_header blk)))
   \<and> Hex32Schema (hexNoPrefix (hd_stateRoot (sb_header blk))) \<and> Hex32Schema (hexNoPrefix (hd_extrinsicsRoot (sb_header blk)))
   \<and> length (ib_transactions ib) < 2 ^ 31 \<and> list_all (consistent_tx blk) (ib_transactions ib)"

definition consistent_at :: "sources \<Rightarrow> (int \<Rightarrow> jsstr) \<Rightarrow> int \<Rightarrow> bool" where
  "consistent_at src chain i \<longleftrightarrow>
     nd_getBlockHash src (of_int i) = Reply (js ''0x'' @ chain i)
   \<and> (\<exists>blk ib. nd_getBlock src (js ''0x'' @ chain i) = Reply blk \<and> ix_getBlockByHeight src (of_int i) = Reply (Some ib)
        \<and> consistent_block (chain i) blk ib)"

lemma hexNoPrefix_0x [simp]: "hexNoPrefix (js ''0x'' @ b) = b"
  by (simp add: hexNoPrefix_def starts_with_def js_def)

lemma bind_int_of_int [simp]: "0 \<le> i \<Longrightarrow> i < 2 ^ 53 \<Longrightarrow> i < 2 ^ (w - 1) \<Longrightarrow> bind_int w (of_int i) = Inr i"
  by (simp add: bind_int_def)

lemma sync_texts:
  "bind_text (js ''canonical'') = Inr (js ''canonical'')" "bind_text (js ''regular'') = Inr (js ''regular'')"
  "bind_text (js ''system'') = Inr (js ''system'')" "bind_text (js ''system_parameters_d'') = Inr (js ''system_parameters_d'')"
  by (code_simp, code_simp, code_simp, code_simp)

lemma tx_kind_cases: "tx_kind raw = js ''system'' \<or> tx_kind raw = js ''regular''"
  by (simp add: tx_kind_def)

lemma transaction_record_ok:
  assumes "consistent_tx blk t" and "Hex32Schema b" and "bind_text net = Inr net" and "0 \<le> i" and "i < 2 ^ 53" and "p < 2 ^ 31"
  shows "\<exists>r. transaction_record net (of_int i) b (map hexNoPrefix (sb_extrinsics blk)) (p, t) = Inr r \<and> tx_fits net i (hexToBuf b) r"
proof -
  from assms(1) obtain v where v: "it_protocolVersion t = of_int v" "0 \<le> v" "v < 2 ^ 31" by (auto simp: consistent_tx_def)
  have "bind_int 32 (of_nat p) = Inr (int p)" using bind_int_of_int [of "int p" 32] assms(6) by simp
  with assms v tx_kind_cases [of "hexToBuf (hexNoPrefix (it_raw t))"] show ?thesis
    by (auto simp: transaction_record_def Let_def consistent_tx_def list_ex_iff tx_fits_def sync_texts)
qed

lemma buildTransactionRecords_ok:
  assumes "consistent_block b blk ib" and "bind_text net = Inr net" and "0 \<le> i" and "i < 2 ^ 53"
  shows "\<exists>ts. buildTransactionRecords net (of_int i) b (sb_extrinsics blk) ib = Inr ts \<and> list_all (tx_fits net i (hexToBuf b)) ts"
proof -
  let ?f = "transaction_record net (of_int i) b (map hexNoPrefix (sb_extrinsics blk))"
  let ?xs = "zip [0..<length (ib_transactions ib)] (ib_transactions ib)"
  have "\<exists>r. ?f x = Inr r \<and> tx_fits net i (hexToBuf b) r" if "x \<in> set ?xs" for x
  proof -
    from that have "fst x < 2 ^ 31" "consistent_tx blk (snd x)"
      using assms(1) by (auto simp: consistent_block_def list_all_iff set_zip)
    then show ?thesis using transaction_record_ok [of blk "snd x" b net i "fst x"] assms by (simp add: consistent_block_def)
  qed
  then obtain g where g: "\<And>x. x \<in> set ?xs \<Longrightarrow> ?f x = Inr (g x) \<and> tx_fits net i (hexToBuf b) (g x)" by metis
  then have "map_throw ?f ?xs = Inr (map g ?xs)" by (intro map_throw_Inr) simp
  moreover have "list_all (tx_fits net i (hexToBuf b)) (map g ?xs)" using g by (auto simp: list_all_iff)
  ultimately show ?thesis using assms(1) by (simp add: buildTransactionRecords_def consistent_block_def)
qed

lemma observations_fit:
  assumes "buildBridgeObservationRecords num net (of_int i) b ib j = (obs, j')"
    and "Hex32Schema b" and "bind_text net = Inr net" and "0 \<le> i" and "i < 2 ^ 53"
  shows "list_all (obs_fits net i (hexToBuf b)) obs"
  using assms bind_int_of_int [of 0 32] Hex32_decode(2) [OF assms(2)]
  by (auto simp: buildBridgeObservationRecords_def Let_def obs_fits_def sync_texts split: if_splits)

lemma fetch_bundle_ok:
  assumes "consistent_at src chain i" and "bind_text net = Inr net" and "0 \<le> i" and "i < 2 ^ 53"
  shows "\<exists>bd j'. fetch_bundle num src net (of_int i) j = Inr (bd, j') \<and> bundle_fits net i (hexToBuf (chain i)) bd
    \<and> br_isCanonical (bb_block bd)"
proof -
  from assms(1) obtain blk ib where src: "nd_getBlockHash src (of_int i) = Reply (js ''0x'' @ chain i)"
    "nd_getBlock src (js ''0x'' @ chain i) = Reply blk" "ix_getBlockByHeight src (of_int i) = Reply (Some ib)"
    and c: "consistent_block (chain i) blk ib" by (auto simp: consistent_at_def)
  from buildTransactionRecords_ok [OF c assms(2-4)] obtain ts where
    ts: "buildTransactionRecords net (of_int i) (chain i) (sb_extrinsics blk) ib = Inr ts" "list_all (tx_fits net i (hexToBuf (chain i))) ts" by blast
  obtain obs j' where obs: "buildBridgeObservationRecords num net (of_int i) (chain i) ib j = (obs, j')" by fastforce
  have "list_all (obs_fits net i (hexToBuf (chain i))) obs"
    using observations_fit [OF obs _ assms(2-4)] c by (simp add: consistent_block_def)
  moreover have "block_fits net i (hexToBuf (chain i)) (block_of num net (of_int i) (chain i) blk)"
    using c assms(2-4) by (simp add: block_fits_def block_of_def Let_def consistent_block_def sync_texts)
  ultimately show ?thesis using src ts obs by (simp add: fetch_bundle_def Let_def bundle_fits_def block_of_def)
qed

definition agrees :: "jsstr \<Rightarrow> (int \<Rightarrow> jsstr) \<Rightarrow> archive \<Rightarrow> bool" where
  "agrees net chain a \<longleftrightarrow>
     (\<forall>r \<in> set (blocks a). b_net r = net \<longrightarrow> b_is_canonical r \<longrightarrow> b_block_hash r = hexToBuf (chain (b_height r)))"

lemma agrees_free:
  assumes "agrees net chain a"
  shows "has_block a (net, i, hexToBuf (chain i)) \<or> canonical_at a net i = []"
  using assms by (auto simp: agrees_def has_block_def block_key_def canonical_at_def filter_empty_conv)

lemma ingest_ok:
  assumes "consistent_at src chain i" and "bind_text net = Inr net" and "0 \<le> i" and "i < 2 ^ 53"
    and "agrees net chain (sy_archive s)" and "digest32 sha" and "env_faults env = (\<lambda>_. None)"
  shows "\<exists>s'. ingestOneBlock num sha src env no_faults net (of_int i) s = (Inr (), s') \<and> agrees net chain (sy_archive s')
    \<and> archive_watermarks (sy_archive s') = archive_watermarks (sy_archive s)"
proof -
  let ?a = "sy_archive s"
  from fetch_bundle_ok [OF assms(1-4), of num "sy_lastDParameterJson s"] obtain bd j' where
    f: "fetch_bundle num src net (of_int i) (sy_lastDParameterJson s) = Inr (bd, j')"
    and fits: "bundle_fits net i (hexToBuf (chain i)) bd" by blast
  have "has_block ?a (net, i, hexToBuf (chain i)) \<or> (br_isCanonical (bb_block bd) \<longrightarrow> canonical_at ?a net i = [])"
    using agrees_free [OF assms(5)] by blast
  from putBlockBundle_ok [OF assms(6,7) fits this] obtain x a' r where
    p: "putBlockBundle sha env no_faults bd ?a = (Inr x, a')" "archive_watermarks a' = archive_watermarks ?a"
      "blocks a' = (if has_block ?a (net, i, hexToBuf (chain i)) then blocks ?a else blocks ?a @ [r])"
      "block_key r = (net, i, hexToBuf (chain i))" by blast
  have "agrees net chain a'" using assms(5) p(3,4) by (auto simp: agrees_def block_key_def split: if_splits)
  with f p(1,2) show ?thesis
    by (cases j') (simp_all add: ingestOneBlock_def on_archive_def ebind_def)
qed

abbreviation cursor_of :: "jsstr \<Rightarrow> sync_state \<Rightarrow> rat" where
  "cursor_of net s \<equiv> first_height (cursor_height (sy_archive s) (watermarkKey net))"

lemma cursor_write_next:
  assumes "keyable net" and "height_cursor (sy_archive s) (watermarkKey net)" and "env_faults env = (\<lambda>_. None)"
    and "cursor_of net s = of_int n"
  shows "\<exists>s'. on_archive (setWatermark env (watermarkKey net) (JObj [(js ''height'', JNum (of_int n))])) s = (Inr (), s')
    \<and> cursor_of net s' = of_int (n + 1) \<and> height_cursor (sy_archive s') (watermarkKey net) \<and> blocks (sy_archive s') = blocks (sy_archive s)"
proof -
  let ?w = "setWatermark env (watermarkKey net) (height_value (of_int n)) (sy_archive s)"
  have key: "bind_text (watermarkKey net) = Inr (watermarkKey net)" using assms(1) by (simp add: keyable_def)
  note w = setWatermark_height [OF key assms(2), of env "of_int n"]
  have ok: "fst ?w = Inr ()" using w(4) assms(3) by simp
  have "first_height (raised (of_int n) (cursor_height (sy_archive s) (watermarkKey net))) = of_int n + 1"
    using assms(4) by (auto simp: first_height_def raised_def max_def split: option.splits)
  with w(1) [OF ok] have "first_height (cursor_height (snd ?w) (watermarkKey net)) = of_int (n + 1)" by simp
  then show ?thesis using ok w(3) setWatermark_blocks [of env "watermarkKey net" "height_value (of_int n)" "sy_archive s"]
    by (cases ?w) (simp add: on_archive_def height_literal)
qed

definition quiet_run :: "sync_env \<Rightarrow> bool" where
  "quiet_run se \<longleftrightarrow>
     env_faults (se_read se) = (\<lambda>_. None)
   \<and> (\<forall>h. env_faults (se_ingest se h) = (\<lambda>_. None) \<and> se_faults se h = no_faults \<and> env_faults (se_cursor se h) = (\<lambda>_. None))"

definition ready :: "jsstr \<Rightarrow> (int \<Rightarrow> jsstr) \<Rightarrow> int \<Rightarrow> sync_state \<Rightarrow> bool" where
  "ready net chain n s \<longleftrightarrow>
     agrees net chain (sy_archive s) \<and> height_cursor (sy_archive s) (watermarkKey net) \<and> cursor_of net s = of_int n"

lemma ingest_loop_ok:
  assumes src: "\<forall>i. 0 \<le> i \<longrightarrow> i \<le> e \<longrightarrow> consistent_at src chain i" and "keyable net" and "digest32 sha" and "quiet_run se"
    and "e < 2 ^ 53" and "0 \<le> n" and "n \<le> e + 1" and "ready net chain n s"
  shows "\<exists>s'. ingest_loop num sha src se net (of_int n) (of_int e) s = (Inr (nat (e + 1 - n)), s') \<and> ready net chain (e + 1) s'"
  using assms(6-8)
proof (induction "nat (e + 1 - n)" arbitrary: n s)
  case 0
  then have "n = e + 1" by simp
  with 0 show ?case by (simp add: ingest_loop.simps [of num sha src se net "of_int e + 1"])
next
  case (Suc k)
  then have n: "0 \<le> n" "n \<le> e" "n < 2 ^ 53" using assms(5) by simp_all
  have q: "env_faults (se_ingest se (of_int n)) = (\<lambda>_. None)" "se_faults se (of_int n) = no_faults"
    "env_faults (se_cursor se (of_int n)) = (\<lambda>_. None)" using assms(4) by (simp_all add: quiet_run_def)
  have net: "bind_text net = Inr net" using assms(2) by (simp add: keyable_def)
  have r: "agrees net chain (sy_archive s)" "height_cursor (sy_archive s) (watermarkKey net)" "cursor_of net s = of_int n"
    using Suc.prems(3) by (simp_all add: ready_def)
  from ingest_ok [OF src [rule_format, OF n(1,2)] net n(1,3) r(1) assms(3) q(1), of num] obtain s1 where
    1: "ingestOneBlock num sha src (se_ingest se (of_int n)) no_faults net (of_int n) s = (Inr (), s1)"
      "agrees net chain (sy_archive s1)" "archive_watermarks (sy_archive s1) = archive_watermarks (sy_archive s)" by blast
  note c = cursor_height_watermarks [OF 1(3), of "watermarkKey net"]
  from cursor_write_next [OF assms(2) _ q(3), of s1 n] r c obtain s2 where
    2: "on_archive (setWatermark (se_cursor se (of_int n)) (watermarkKey net) (JObj [(js ''height'', JNum (of_int n))])) s1 = (Inr (), s2)"
      "cursor_of net s2 = of_int (n + 1)" "height_cursor (sy_archive s2) (watermarkKey net)" "blocks (sy_archive s2) = blocks (sy_archive s1)"
    by auto
  have "ready net chain (n + 1) s2" using 1(2) 2(2-4) by (simp add: ready_def agrees_def)
  moreover have "k = nat (e + 1 - (n + 1))" using Suc.hyps(2) n by simp
  ultimately obtain s3 where
    3: "ingest_loop num sha src se net (of_int (n + 1)) (of_int e) s2 = (Inr (nat (e + 1 - (n + 1))), s3)" "ready net chain (e + 1) s3"
    using Suc.hyps(1) [of "n + 1" s2] n by auto
  have "nat (e + 1 - n) = Suc (nat (e + 1 - (n + 1)))" using n by simp
  with 1(1) 2(1) 3 n q(2) show ?case by (simp add: ingest_loop.simps [of _ _ _ _ _ "of_int n"] ebind_def)
qed

text \<open>The node reports a finalized head whose height is \<open>t\<close>.\<close>

definition finalized_at :: "sources \<Rightarrow> int \<Rightarrow> bool" where
  "finalized_at src t \<longleftrightarrow>
     (\<exists>fh hdr. nd_getFinalizedHead src = Reply fh \<and> nd_getHeader src fh = Reply hdr \<and> parse_hex (hd_number hdr) = Some t)
   \<and> isSafeInteger t"

lemma getSyncedHeight_ok:
  assumes "keyable net" and "env_faults env = (\<lambda>_. None)"
  shows "getSyncedHeight env net s = (Inr (cursor_height (sy_archive s) (watermarkKey net)), s)"
  using assms
  by (auto simp: keyable_def getSyncedHeight_def on_archive_def getWatermark_def reading_def emap_error_def stmt_def ebind_def
      cursor_height_def split: option.splits)

definition sync_consistent :: "sources \<Rightarrow> (int \<Rightarrow> jsstr) \<Rightarrow> int \<Rightarrow> bool" where
  "sync_consistent src chain t \<longleftrightarrow> finalized_at src t \<and> (\<forall>i. 0 \<le> i \<longrightarrow> i \<le> t \<longrightarrow> consistent_at src chain i)"

lemma syncOnce_ok:
  assumes src: "sync_consistent src chain t" and "keyable net" and "digest32 sha" and "quiet_run se"
    and "0 \<le> n" and "ready net chain n s" and "1 \<le> m"
  shows "\<exists>x s'. syncOnce num sha src se net (Some (of_int m)) s = (Inr x, s')
    \<and> sr_ingestedBlocks x = nat (min (t + 1) (n + m) - n) \<and> ready net chain (max n (min (t + 1) (n + m))) s'"
proof -
  from src obtain fh hdr where f: "nd_getFinalizedHead src = Reply fh" "nd_getHeader src fh = Reply hdr"
    "parse_hex (hd_number hdr) = Some t" "isSafeInteger t" by (auto simp: sync_consistent_def finalized_at_def)
  then have head: "getHeightOf src fh = Inr (of_int t)" by (simp add: getHeightOf_def)
  have t: "t < 2 ^ 53" using f(4) by (simp add: isSafeInteger_def)
  have read: "getSyncedHeight (se_read se) net s = (Inr (cursor_height (sy_archive s) (watermarkKey net)), s)"
    using assms(2,4) by (intro getSyncedHeight_ok) (simp_all add: quiet_run_def)
  have c: "(case cursor_height (sy_archive s) (watermarkKey net) of None \<Rightarrow> 0 | Some h \<Rightarrow> h + 1) = of_int n"
    using assms(6) by (simp add: ready_def first_height_def)
  show ?thesis
  proof (cases "t < n")
    case True
    then have "max n (min (t + 1) (n + m)) = n" "nat (min (t + 1) (n + m) - n) = 0" by linarith+
    with True f(1) head read c assms(6) show ?thesis by (simp add: syncOnce_def Let_def ebind_def)
  next
    case False
    let ?e = "min t (n + m - 1)"
    have e: "?e < 2 ^ 53" "n \<le> ?e + 1" "\<forall>i. 0 \<le> i \<longrightarrow> i \<le> ?e \<longrightarrow> consistent_at src chain i"
      using t False assms(7) src by (auto simp: sync_consistent_def)
    from ingest_loop_ok [OF e(3) assms(2-4) e(1) assms(5) e(2) assms(6)] obtain s' where
      l: "ingest_loop num sha src se net (of_int n) (of_int ?e) s = (Inr (nat (?e + 1 - n)), s')" "ready net chain (?e + 1) s'" by blast
    have "min (of_int t) (of_int n + of_int m - 1) = (of_int ?e :: rat)" by (simp add: of_int_min)
    moreover have "?e + 1 = min (t + 1) (n + m)" "max n (min (t + 1) (n + m)) = min (t + 1) (n + m)" using False assms(7) by linarith+
    ultimately show ?thesis using False f(1) head read c l by (simp add: syncOnce_def Let_def ebind_def)
  qed
qed

lemma syncOnce_keeps_ok:
  assumes "syncOnce num sha src se net mb s = (r, s')" and "sync_ok sha net (sy_archive s)" and "keyable net"
  shows "sync_ok sha net (sy_archive s')"
proof -
  let ?f = "\<lparr>ft_archive = sy_archive s, ft_phase = (\<lambda>_. Idle), ft_memory = (\<lambda>_. sy_lastDParameterJson s)\<rparr>"
  have "seen_by ?f 0 = s" by (simp add: seen_by_def)
  with assms(1) have "(sync_step num sha net)\<^sup>*\<^sup>* ?f (moved ?f 0 Idle s')" by (intro syncOnce_steps) simp_all
  moreover have "fleet_ok sha net ?f" using assms(2) by (simp add: fleet_ok_def)
  ultimately have "fleet_ok sha net (moved ?f 0 Idle s')" using sync_steps_keep assms(3) by blast
  then show ?thesis by (simp add: fleet_ok_def)
qed

lemma syncOnce_calls:
  assumes "sync_consistent src chain t" and "keyable net" and "digest32 sha" and "1 \<le> m" and "list_all quiet_run ses"
    and "0 \<le> n" and "ready net chain n s" and "sync_ok sha net (sy_archive s)"
    and "run_calls (\<lambda>se. syncOnce num sha src se net (Some (of_int m))) ses s = (rs, s')"
  shows "list_all (\<lambda>r. \<not> isl r) rs \<and> ready net chain (max n (min (t + 1) (n + int (length ses) * m))) s' \<and> sync_ok sha net (sy_archive s')"
  using assms(5-9)
proof (induction ses arbitrary: n s rs)
  case Nil
  have "max n (min (t + 1) n) = n" by simp
  with Nil show ?case by simp
next
  case (Cons se ses)
  from syncOnce_ok [OF assms(1-3) _ Cons.prems(2,3) assms(4), of se num] Cons.prems(1) obtain x s1 where
    1: "syncOnce num sha src se net (Some (of_int m)) s = (Inr x, s1)" "ready net chain (max n (min (t + 1) (n + m))) s1" by auto
  have 2: "sync_ok sha net (sy_archive s1)" using syncOnce_keeps_ok [OF 1(1) Cons.prems(4) assms(2)] .
  let ?n = "max n (min (t + 1) (n + m))"
  from Cons.prems(5) 1(1) obtain rs1 where rs: "rs = Inr x # rs1"
    "run_calls (\<lambda>se. syncOnce num sha src se net (Some (of_int m))) ses s1 = (rs1, s')" by (auto split: prod.splits)
  have IH: "list_all (\<lambda>r. \<not> isl r) rs1 \<and> ready net chain (max ?n (min (t + 1) (?n + int (length ses) * m))) s' \<and> sync_ok sha net (sy_archive s')"
    using Cons.IH [OF _ _ 1(2) 2 rs(2)] Cons.prems(1,2) by simp
  have p: "0 \<le> int (length ses) * m" using assms(4) by simp
  have "max ?n (min (t + 1) (?n + int (length ses) * m)) = max n (min (t + 1) (n + (m + int (length ses) * m)))"
    using p assms(4) by linarith
  with IH rs(1) show ?case by (simp add: algebra_simps)
qed

lemma archive_inv_header:
  assumes "archive_inv a" and "r \<in> set (blocks a)"
  shows "has_blob a (b_header_blob_hash r)"
proof -
  have "block_ok a r" and "roles_ok a" using assms by (simp_all add: archive_inv_def blocks_ok_def)
  then have "(b_header_blob_hash r, js ''block_header'') \<in> set (chain_blob_roles a)" and "roles_ok a"
    by (simp_all add: block_ok_def has_role_def)
  then show ?thesis unfolding roles_ok_def by fastforce
qed

section \<open>Sample data\<close>

definition sample_header :: substrate_header where
  "sample_header =
     \<lparr>hd_parentHash = js ''0x'' @ sample_hash 0, hd_number = js ''0x2'', hd_stateRoot = js ''0x'' @ sample_hash 0,
      hd_extrinsicsRoot = js ''0x'' @ sample_hash 0, hd_logs = []\<rparr>"

definition sample_chain :: "int \<Rightarrow> jsstr" where
  "sample_chain i = sample_hash (word_of_int i)"

definition sample_sources :: sources where
  "sample_sources =
     \<lparr>nd_getBlockHash = (\<lambda>h. Reply (js ''0x'' @ sample_chain \<lfloor>h\<rfloor>)), nd_getHeader = (\<lambda>_. Reply sample_header),
      nd_getBlock = (\<lambda>_. Reply \<lparr>sb_header = sample_header, sb_extrinsics = [js ''0x04ab'']\<rparr>),
      nd_getFinalizedHead = Reply (js ''0x'' @ sample_chain 2),
      ix_getBlockByHeight = (\<lambda>h. Reply (Some \<lparr>ib_hash = js ''0x'' @ sample_chain \<lfloor>h\<rfloor>,
        ib_transactions = [\<lparr>it_hash = js ''0x'' @ sample_hash 9, it_protocolVersion = 1, it_raw = js ''0xab''\<rparr>],
        ib_numPermissionedCandidates = 10, ib_numRegisteredCandidates = 5\<rparr>))\<rparr>"

definition sample_run :: sync_env where
  "sample_run = \<lparr>se_read = quiet 1 1, se_ingest = (\<lambda>_. quiet 2 2), se_faults = (\<lambda>_. no_faults), se_cursor = (\<lambda>_. quiet 3 3)\<rparr>"

definition sample_start :: sync_state where
  "sample_start = \<lparr>sy_archive = empty_archive, sy_lastDParameterJson = None\<rparr>"

definition sample_number :: "rat \<Rightarrow> jsstr" where
  "sample_number x = js ''1''"

lemma sample_consistent: "sync_consistent sample_sources sample_chain 2"
proof -
  have "js_includes (hexNoPrefix (js ''0x04ab'')) (hexNoPrefix (js ''0xab''))" by code_simp
  moreover have "parse_hex (js ''0x2'') = Some 2" "isSafeInteger 2" by code_simp+
  moreover have "(1 :: rat) \<in> of_int ` {0..<2 ^ 31}" by (rule image_eqI [of _ _ 1]) simp_all
  ultimately show ?thesis
    by (simp add: sync_consistent_def finalized_at_def sample_sources_def sample_header_def consistent_at_def consistent_block_def
        consistent_tx_def sample_chain_def)
qed

lemma sample_keyable: "keyable (js ''net'')"
  unfolding keyable_def by code_simp

lemma sample_quiet [simp]: "quiet_run sample_run"
  by (simp add: quiet_run_def sample_run_def)

lemma sample_ready: "ready net chain 0 sample_start" "sync_ok sha net (sy_archive sample_start)"
  by (simp_all add: ready_def agrees_def sample_start_def height_cursor_def cursor_height_def first_height_def
      sync_ok_def store_inv_def content_addressed_def)

section \<open>The service's properties\<close>

text \<open>
  C24. The sync cursor is never ahead of the archive. However many service instances overlap, fail or
  restart, and whatever the node, the indexer and the server answer: at every moment each height from
  genesis to the stored cursor has a canonical, finalized block whose header blob is stored under its hash.
\<close>

theorem sync_cursor_covered:
  assumes "(sync_step num sha net)\<^sup>*\<^sup>* f0 f" and "\<forall>w. ft_phase f0 w = Idle" and "sync_ok sha net (ft_archive f0)"
    and "keyable net" and "cursor_height (ft_archive f) (watermarkKey net) = Some x" and "0 \<le> i" and "of_int i \<le> x"
  shows "\<exists>r \<in> set (blocks (ft_archive f)). b_net r = net \<and> b_height r = i \<and> b_is_canonical r \<and> b_finalized r
    \<and> has_blob (ft_archive f) (b_header_blob_hash r)"
proof -
  have "fleet_ok sha net f0" using assms(2,3) by (simp add: fleet_ok_def)
  with assms(1,4) have ok: "sync_ok sha net (ft_archive f)" using sync_steps_keep fleet_okD(1) by blast
  with assms(5-7) have "archived net i (ft_archive f)" by (simp add: sync_ok_def archived_below_def)
  then obtain r where r: "r \<in> set (blocks (ft_archive f))" "b_net r = net" "b_height r = i" "b_is_canonical r" "b_finalized r"
    unfolding archived_def by blast
  have "archive_inv (ft_archive f)" using ok by (simp add: sync_ok_def store_inv_def)
  then have "has_blob (ft_archive f) (b_header_blob_hash r)" using r(1) archive_inv_header by blast
  with r show ?thesis by blast
qed

theorem sync_cursor_covered_witness:
  "\<exists>f. (sync_step sample_number pad_hash (js ''net''))\<^sup>*\<^sup>* \<lparr>ft_archive = empty_archive, ft_phase = (\<lambda>_. Idle), ft_memory = (\<lambda>_. None)\<rparr> f
     \<and> cursor_height (ft_archive f) (watermarkKey (js ''net'')) = Some 2
     \<and> (\<exists>r \<in> set (blocks (ft_archive f)). b_height r = 1 \<and> b_finalized r)"
proof -
  let ?f0 = "\<lparr>ft_archive = empty_archive, ft_phase = (\<lambda>_. Idle), ft_memory = (\<lambda>_. None)\<rparr>"
  obtain x s' where run: "syncOnce sample_number pad_hash sample_sources sample_run (js ''net'') (Some (of_int 10)) (seen_by ?f0 0) = (Inr x, s')"
    and r: "ready (js ''net'') sample_chain 3 s'"
    using syncOnce_ok [OF sample_consistent sample_keyable pad_hash_ok(2) sample_quiet order_refl sample_ready(1), of 10 sample_number]
    by (auto simp: seen_by_def sample_start_def)
  from r have c: "cursor_height (sy_archive s') (watermarkKey (js ''net'')) = Some 2"
    by (simp add: ready_def first_height_def split: option.splits)
  have st: "(sync_step sample_number pad_hash (js ''net''))\<^sup>*\<^sup>* ?f0 (moved ?f0 0 Idle s')"
    using syncOnce_steps [OF run] by simp
  have "sync_ok pad_hash (js ''net'') (ft_archive ?f0)" using sample_ready(2) by (simp add: sample_start_def)
  from sync_cursor_covered [OF st _ this sample_keyable, of 2 1] c
  have "\<exists>r \<in> set (blocks (sy_archive s')). b_height r = 1 \<and> b_finalized r" by auto
  with st c show ?thesis by (intro exI [of _ "moved ?f0 0 Idle s'"]) simp
qed

text \<open>
  Catching up: with a node and an indexer that agree up to the finalized height \<open>t\<close> and a server that
  answers, every call of syncOnce returns, and after \<open>k\<close> calls of \<open>m\<close> blocks each the
  cursor has moved \<open>k * m\<close> heights, or to the finalized head; everything below it is archived.
\<close>

lemma sync_catches_up:
  assumes "sync_consistent src chain t" and "keyable net" and "digest32 sha" and "1 \<le> m" and "list_all quiet_run ses"
    and "0 \<le> n" and "ready net chain n s" and "sync_ok sha net (sy_archive s)"
    and "run_calls (\<lambda>se. syncOnce num sha src se net (Some (of_int m))) ses s = (rs, s')"
  shows "list_all (\<lambda>r. \<not> isl r) rs \<and> cursor_of net s' = of_int (max n (min (t + 1) (n + int (length ses) * m)))
    \<and> archived_below net (cursor_of net s') (sy_archive s')"
proof -
  from syncOnce_calls [OF assms] have r: "list_all (\<lambda>r. \<not> isl r) rs" "ready net chain (max n (min (t + 1) (n + int (length ses) * m))) s'"
    "sync_ok sha net (sy_archive s')" by simp_all
  from r(3) have "archived_below net (cursor_of net s') (sy_archive s')"
    by (auto simp: sync_ok_def first_height_def archived_below_def split: option.splits)
  with r show ?thesis by (simp add: ready_def)
qed

text \<open>
  C26. The canonical encoding is JSON.stringify of the value with every object's members sorted by
  name, and two values that differ only in the order of members, at any depth, have the same text.
\<close>

theorem stableStringify_canonical:
  "stableStringify num v = JSON_text num (sorted_members v) \<and> (shuffled v w \<longrightarrow> stableStringify num v = stableStringify num w)"
  by (simp add: stableStringify_sorted shuffled_sorted)

theorem stableStringify_canonical_witness:
  "stableStringify sample_number (JObj [(js ''b'', JNull), (js ''a'', JNull)])
     = stableStringify sample_number (JObj [(js ''a'', JNull), (js ''b'', JNull)])"
proof -
  have "js ''a'' \<noteq> js ''b''" by (simp add: js_def)
  then have "shuffled (JObj [(js ''b'', JNull), (js ''a'', JNull)]) (JObj [(js ''a'', JNull), (js ''b'', JNull)])"
    by (intro shuffled.members) (auto intro: shuffled.same)
  then show ?thesis using stableStringify_canonical by blast
qed

end
