(* ===== verification/JsNumber.thy ===== *)
theory JsNumber
  imports SyncService JsonParse
begin

text \<open>
  JavaScript's numbers: IEEE 754 doubles with their rounding, as far as the command line and the benchmark code
  calculate with them, and \<^verbatim>\<open>Number\<close> of a text. A finite double is its rational value; the sign of zero is not kept
  (nothing here divides by zero or looks at it).
\<close>

section \<open>Arithmetic\<close>

datatype js_number = NaN | Infinite bool | Finite rat

text \<open>The double nearest to an exact result; beyond the largest it is infinite.\<close>

definition rounded :: "rat \<Rightarrow> js_number" where
  "rounded x = (case to_double x of None \<Rightarrow> Infinite (0 < x) | Some y \<Rightarrow> Finite y)"

fun js_neg :: "js_number \<Rightarrow> js_number" where
  "js_neg NaN = NaN"
| "js_neg (Infinite p) = Infinite (\<not> p)"
| "js_neg (Finite x) = Finite (- x)"

fun js_add :: "js_number \<Rightarrow> js_number \<Rightarrow> js_number" where
  "js_add NaN _ = NaN"
| "js_add _ NaN = NaN"
| "js_add (Infinite p) (Infinite q) = (if p = q then Infinite p else NaN)"
| "js_add (Infinite p) (Finite _) = Infinite p"
| "js_add (Finite _) (Infinite q) = Infinite q"
| "js_add (Finite x) (Finite y) = rounded (x + y)"

definition js_sub :: "js_number \<Rightarrow> js_number \<Rightarrow> js_number" where
  "js_sub x y = js_add x (js_neg y)"

fun js_mul :: "js_number \<Rightarrow> js_number \<Rightarrow> js_number" where
  "js_mul NaN _ = NaN"
| "js_mul _ NaN = NaN"
| "js_mul (Infinite p) (Infinite q) = Infinite (p = q)"
| "js_mul (Infinite p) (Finite y) = (if y = 0 then NaN else Infinite (p = (0 < y)))"
| "js_mul (Finite x) (Infinite q) = (if x = 0 then NaN else Infinite ((0 < x) = q))"
| "js_mul (Finite x) (Finite y) = rounded (x * y)"

text \<open>Division by a zero, whose sign the model does not know, does not occur: every divisor in the code is positive.\<close>

fun js_div :: "js_number \<Rightarrow> js_number \<Rightarrow> js_number" where
  "js_div NaN _ = NaN"
| "js_div _ NaN = NaN"
| "js_div (Infinite p) (Infinite q) = NaN"
| "js_div (Infinite p) (Finite y) = Infinite (p = (0 \<le> y))"
| "js_div (Finite x) (Infinite q) = Finite 0"
| "js_div (Finite x) (Finite y) = (if y = 0 then (if x = 0 then NaN else Infinite (0 < x)) else rounded (x / y))"

fun js_less :: "js_number \<Rightarrow> js_number \<Rightarrow> bool" where
  "js_less NaN _ = False"
| "js_less _ NaN = False"
| "js_less (Infinite p) (Infinite q) \<longleftrightarrow> \<not> p \<and> q"
| "js_less (Infinite p) (Finite _) \<longleftrightarrow> \<not> p"
| "js_less (Finite _) (Infinite q) \<longleftrightarrow> q"
| "js_less (Finite x) (Finite y) \<longleftrightarrow> x < y"

definition js_max :: "js_number \<Rightarrow> js_number \<Rightarrow> js_number" where
  "js_max x y = (if x = NaN \<or> y = NaN then NaN else if js_less x y then y else x)"

text \<open>\<^verbatim>\<open>Math.sqrt\<close>, correctly rounded: the square root of a positive double is never half way between two.\<close>

function isqrt :: "nat \<Rightarrow> nat" where
  "isqrt n = (if n = 0 then 0 else let s = 2 * isqrt (n div 4) in if (s + 1) * (s + 1) \<le> n then s + 1 else s)"
  by pat_completeness auto
termination by (relation "measure id") auto

declare isqrt.simps [simp del]

fun js_sqrt :: "js_number \<Rightarrow> js_number" where
  "js_sqrt NaN = NaN"
| "js_sqrt (Infinite p) = (if p then Infinite True else NaN)"
| "js_sqrt (Finite x) =
     (if x < 0 then NaN else if x = 0 then Finite 0
      else let e = log2_floor x div 2 - 52; z = x * 2 powi (- 2 * e); f = isqrt (nat \<lfloor>z\<rfloor>) in
        Finite (of_nat (if z < (of_nat f + 1 / 2) ^ 2 then f else f + 1) * 2 powi e))"

section \<open>\<^verbatim>\<open>Number\<close> of a text\<close>

definition trim :: "jsstr \<Rightarrow> jsstr" where
  "trim s = rev (dropWhile js_space (rev (dropWhile js_space s)))"

text \<open>A literal \<^verbatim>\<open>0x\<close>, \<^verbatim>\<open>0o\<close> or \<^verbatim>\<open>0b\<close>: one digit at least, and only digits of the base.\<close>

definition radix_literal :: "nat \<Rightarrow> jsstr \<Rightarrow> js_number" where
  "radix_literal b s =
     (if s \<noteq> [] \<and> list_all (\<lambda>c. case hex_value c of None \<Rightarrow> False | Some d \<Rightarrow> d < b) s
      then (case to_double (of_nat (foldl (\<lambda>n c. b * n + the (hex_value c)) 0 s)) of None \<Rightarrow> Infinite True | Some y \<Rightarrow> Finite y)
      else NaN)"

definition decimal_literal :: "bool \<Rightarrow> jsstr \<Rightarrow> js_number" where
  "decimal_literal neg s =
     (let (i, s2) = digits_of s;
          (f, s3) = (case s2 of [] \<Rightarrow> ([], s2) | c # cs \<Rightarrow> if c = 46 then digits_of cs else ([], s2)) in
      if i @ f = [] then NaN
      else case exp_part s3 of
        Some (e, []) \<Rightarrow> (case number_value neg i f e of JNum y \<Rightarrow> Finite y | _ \<Rightarrow> Infinite (\<not> neg))
      | _ \<Rightarrow> NaN)"

definition signed_literal :: "bool \<Rightarrow> jsstr \<Rightarrow> js_number" where
  "signed_literal neg s = (if s = js ''Infinity'' then Infinite (\<not> neg) else decimal_literal neg s)"

definition Number :: "jsstr \<Rightarrow> js_number" where
  "Number s =
     (let t = trim s; p = take 2 t in
      if t = [] then Finite 0
      else if p = js ''0x'' \<or> p = js ''0X'' then radix_literal 16 (drop 2 t)
      else if p = js ''0o'' \<or> p = js ''0O'' then radix_literal 8 (drop 2 t)
      else if p = js ''0b'' \<or> p = js ''0B'' then radix_literal 2 (drop 2 t)
      else if take 1 t = js ''-'' then signed_literal True (drop 1 t)
      else if take 1 t = js ''+'' then signed_literal False (drop 1 t)
      else signed_literal False t)"

lemma Number_dec:
  assumes "n < 2 ^ 53" and "trim (dec n) = dec n" and "list_all (\<lambda>p. take 2 (dec n) \<noteq> js p) [''0x'', ''0X'', ''0o'', ''0O'', ''0b'', ''0B'']"
    and "list_all (\<lambda>p. take 1 (dec n) \<noteq> js p) [''-'', ''+'']" and "list_all (\<lambda>p. dec n \<noteq> js p) [''Infinity'']"
  shows "Number (dec n) = Finite (of_nat n)"
proof -
  have d: "digits_of (dec n) = (dec n, [])" using digits_of_dec [of "[]" n] by (simp add: ends_def)
  have "to_double (of_nat n) = Some (of_nat n)" using to_double_int [of "int n"] assms(1) by simp
  then have "number_value False (dec n) [] 0 = JNum (of_nat n)" by (simp add: number_value_def)
  then have "decimal_literal False (dec n) = Finite (of_nat n)" by (simp add: decimal_literal_def d exp_part_def)
  then show ?thesis using assms(2-5) by (auto simp: Number_def Let_def signed_literal_def)
qed

section \<open>Facts about rounding\<close>

lemma powi_2_pos [simp]: "0 < (2 :: rat) powi k"
  by (simp add: zero_less_power_int)

lemma powi_2_less_iff: "(2 :: rat) powi a < 2 powi b \<longleftrightarrow> a < b"
proof -
  have "a < b \<Longrightarrow> (2 :: rat) powi a < 2 powi b" by (rule power_int_strict_increasing) simp_all
  moreover have "b \<le> a \<Longrightarrow> (2 :: rat) powi b \<le> 2 powi a" by (rule power_int_increasing) simp_all
  ultimately show ?thesis by (meson not_le)
qed

lemma powi_2_Suc: "(2 :: rat) powi (k + 1) = 2 * 2 powi k"
  by (simp add: power_int_add)

lemma log2_floor_bounds:
  assumes "0 < x"
  shows "2 powi log2_floor x \<le> x \<and> x < 2 powi (log2_floor x + 1)"
proof -
  obtain n d where q: "quotient_of x = (n, d)" by force
  have d: "0 < d" using quotient_of_denom_pos [OF q] .
  have x: "x = of_int n / of_int d" using quotient_of_div [OF q] .
  have n: "0 < n" using assms d by (simp add: x zero_less_divide_iff)
  let ?a = "floorlog 2 (nat n)" and ?b = "floorlog 2 (nat d)"
  have bounds: "2 ^ (floorlog 2 m - 1) \<le> m \<and> m < 2 ^ floorlog 2 m" "floorlog 2 m \<noteq> 0" if "0 < m" for m :: nat
    using floorlog_bounds [of m 2] that by (simp_all add: floorlog_def)
  have N: "2 powi (int ?a - 1) \<le> (of_int n :: rat)" "(of_int n :: rat) < 2 powi int ?a"
  proof -
    have "int (2 ^ (?a - 1)) \<le> n" "n < int (2 ^ ?a)" using bounds(1) [of "nat n"] n by linarith+
    then have "(of_int (int (2 ^ (?a - 1))) :: rat) \<le> of_int n" "(of_int n :: rat) < of_int (int (2 ^ ?a))" by (simp_all only: of_int_le_iff of_int_less_iff)
    moreover have "int ?a - 1 = int (?a - 1)" using bounds(2) [of "nat n"] n by simp
    ultimately show "2 powi (int ?a - 1) \<le> (of_int n :: rat)" "(of_int n :: rat) < 2 powi int ?a" by (simp_all only: power_int_of_nat) simp_all
  qed
  have D: "2 powi (int ?b - 1) \<le> (of_int d :: rat)" "(of_int d :: rat) < 2 powi int ?b"
  proof -
    have "int (2 ^ (?b - 1)) \<le> d" "d < int (2 ^ ?b)" using bounds(1) [of "nat d"] d by linarith+
    then have "(of_int (int (2 ^ (?b - 1))) :: rat) \<le> of_int d" "(of_int d :: rat) < of_int (int (2 ^ ?b))" by (simp_all only: of_int_le_iff of_int_less_iff)
    moreover have "int ?b - 1 = int (?b - 1)" using bounds(2) [of "nat d"] d by simp
    ultimately show "2 powi (int ?b - 1) \<le> (of_int d :: rat)" "(of_int d :: rat) < 2 powi int ?b" by (simp_all only: power_int_of_nat) simp_all
  qed
  define k where "k = int ?a - int ?b"
  have d': "0 < (of_int d :: rat)" using d by simp
  have "(of_int n :: rat) < 2 powi (k + 1) * 2 powi (int ?b - 1)" using N(2) by (simp add: k_def power_int_add [symmetric])
  also have "\<dots> \<le> 2 powi (k + 1) * of_int d" by (rule mult_left_mono [OF D(1)]) simp
  finally have up: "x < 2 powi (k + 1)" using d' by (simp add: x divide_less_eq)
  have "2 powi (k - 1) * (of_int d :: rat) \<le> 2 powi (k - 1) * 2 powi int ?b" by (rule mult_left_mono) (use D(2) in simp_all)
  also have "\<dots> = 2 powi (k - 1 + int ?b)" by (rule power_int_add [symmetric]) simp
  also have "\<dots> = 2 powi (int ?a - 1)" by (simp add: k_def)
  also have "\<dots> \<le> of_int n" by (rule N(1))
  finally have lo: "2 powi (k - 1) \<le> x" using d' by (simp add: x le_divide_eq)
  have "log2_floor x = (if 2 powi k \<le> x then k else k - 1)" by (simp add: log2_floor_def q k_def Let_def)
  with up lo show ?thesis by simp
qed

lemma round_even_error: "\<bar>of_int (round_even y) - y\<bar> \<le> 1 / 2"
proof -
  have "of_int \<lfloor>y\<rfloor> \<le> y" "y < of_int \<lfloor>y\<rfloor> + 1" by linarith+
  then show ?thesis unfolding round_even_def Let_def by (auto simp: abs_le_iff)
qed

lemma round_even_le: "y \<le> of_int j \<Longrightarrow> round_even y \<le> j"
proof -
  assume y: "y \<le> of_int j"
  show ?thesis
  proof (cases "y = of_int j")
    case False
    with y have "\<lfloor>y\<rfloor> + 1 \<le> j" by linarith
    then show ?thesis unfolding round_even_def Let_def by auto
  qed (simp add: round_even_int)
qed

text \<open>A result in the range of the normal numbers has a relative error of at most \<open>2^-53\<close>, and integers are not passed.\<close>

lemma rounded_bounds:
  assumes "1 / 1024 \<le> x" and "x \<le> 2 ^ 50"
  obtains y where "rounded x = Finite y" and "\<bar>y - x\<bar> \<le> x / 2 ^ 53" and "\<And>i. x \<le> of_int i \<Longrightarrow> i \<le> 2 ^ 52 \<Longrightarrow> y \<le> of_int i"
proof -
  have x: "0 < x" using assms(1) by (rule less_le_trans [rotated]) simp
  define l where "l = log2_floor x"
  have l: "2 powi l \<le> x" "x < 2 powi (l + 1)" using log2_floor_bounds [OF x] by (simp_all add: l_def)
  have "(2 :: rat) powi (- 10) < 2 powi (l + 1)" using l(2) assms(1) by (simp add: power_int_minus)
  then have l1: "- 11 \<le> l" by (simp only: powi_2_less_iff)
  have "(2 :: rat) powi l < 2 powi 51" using l(1) assms(2) by simp
  then have l2: "l \<le> 50" by (simp only: powi_2_less_iff)
  define e where "e = l - 52"
  have e: "max (- 1074) (log2_floor x - 52) = e" using l1 by (simp add: e_def l_def)
  define z where "z = x * 2 powi (- e)"
  have xz: "x = z * 2 powi e" by (simp add: z_def power_int_minus)
  define y :: rat where "y = of_int (round_even z) * 2 powi e"
  have "\<bar>of_int (round_even z) - z\<bar> * 2 powi e \<le> 1 / 2 * 2 powi e" by (rule mult_right_mono [OF round_even_error]) simp
  then have err: "\<bar>y - x\<bar> \<le> 2 powi e / 2" by (simp add: y_def xz abs_mult left_diff_distrib [symmetric])
  have "2 powi e / 2 = (2 powi l :: rat) / 2 ^ 53" by (simp add: e_def power_int_diff)
  then have rel: "\<bar>y - x\<bar> \<le> x / 2 ^ 53" using err l(1) by (simp add: divide_right_mono order_trans)
  have "x / 2 ^ 53 \<le> x" using x by (simp add: field_simps)
  then have "y \<le> 2 * x" using rel by linarith
  then have "y < 2 ^ 1024" using assms(2) by (rule le_less_trans [OF order_trans [OF _ mult_left_mono]]) simp_all
  then have fin: "rounded x = Finite y"
    using x by (simp add: rounded_def to_double_def e Let_def y_def z_def)
  have "y \<le> of_int i" if i: "x \<le> of_int i" "i \<le> 2 ^ 52" for i
  proof -
    have "e \<le> 0" using l2 by (simp add: e_def)
    then obtain k where k: "e = - int k" by (metis nat_0_le neg_0_le_iff_le minus_minus)
    have "z \<le> of_int (i * 2 ^ k)" using i(1) by (simp add: z_def k)
    then have "of_int (round_even z) \<le> (of_int (i * 2 ^ k) :: rat)" by (simp only: of_int_le_iff round_even_le)
    then show ?thesis by (simp add: y_def k power_int_minus field_simps)
  qed
  with fin rel that show ?thesis by blast
qed

end
