(* ===== verification/SyncCli.thy ===== *)
theory SyncCli
  imports SyncProperties Migrate JsNumber
begin

text \<open>
  The command-line entry point of the sync service (\<^verbatim>\<open>src/chain-archive-sync/sync-cli.ts\<close>): the environment
  variables, the start-up (client, then the archive's migrations) and the loop around \<^verbatim>\<open>syncOnce\<close>, which logs and
  retries until it is told to stop. A process is one session; the database outlives it.
\<close>

section \<open>Start-up\<close>

text \<open>The variables the process reads; \<open>None\<close> is an unset one.\<close>

record cli_vars =
  cv_ARCHIVE_PG :: "jsstr option"
  cv_NET :: "jsstr option"
  cv_ARCHIVE_SCHEMA :: "jsstr option"
  cv_MAX_BLOCKS :: "jsstr option"

definition cli_net :: "cli_vars \<Rightarrow> jsstr" where
  "cli_net v = option_default (cv_NET v) (js ''preprod'')"

definition cli_schema :: "cli_vars \<Rightarrow> jsstr" where
  "cli_schema v = option_default (cv_ARCHIVE_SCHEMA v) (js ''chain_archive'')"

definition cli_max_blocks :: "cli_vars \<Rightarrow> js_number" where
  "cli_max_blocks v = Number (option_default (cv_MAX_BLOCKS v) (js ''200''))"

text \<open>
  The limit as \<^verbatim>\<open>syncOnce\<close> uses it, in \<^verbatim>\<open>Math.min(tip, start + max - 1)\<close> and \<^verbatim>\<open>height <= end\<close>. With NaN and minus
  infinity no height passes the comparison, as with 0; plus infinity leaves the tip, as does every number from
  2^53 on, which no height exceeds. Only the end height that \<^verbatim>\<open>syncOnce\<close> reports differs, and the process does not
  read it.
\<close>

fun limit_of :: "js_number \<Rightarrow> rat" where
  "limit_of NaN = 0"
| "limit_of (Infinite positive) = (if positive then 2 ^ 53 else 0)"
| "limit_of (Finite x) = x"

text \<open>
  Migration \<^verbatim>\<open>001_chain_archive_core\<close> on a schema's content: \<open>None\<close> before the archive's tables exist; it creates
  them empty and cannot do so twice.
\<close>

definition archive_ups :: "nat \<Rightarrow> archive option \<Rightarrow> js_error + archive option" where
  "archive_ups i c = (case c of None \<Rightarrow> Inr (Some empty_archive) | Some _ \<Rightarrow> Inl (pg_error ''42P07'' None))"

section \<open>The loop\<close>

text \<open>What one turn of the loop meets: the answers of node and indexer, the store's statements, the final read.\<close>

record cli_turn =
  tn_sources :: sources
  tn_run :: sync_env
  tn_after :: pg_env

text \<open>The line a turn prints, and how long it waits before the next.\<close>

datatype cli_line = Synced "rat option" nat rat | Failed js_error

definition cli_wait :: "cli_line \<Rightarrow> nat" where
  "cli_wait l = (case l of Synced _ ingested _ \<Rightarrow> if ingested = 0 then 10000 else 0 | Failed _ \<Rightarrow> 15000)"

definition cli_iteration ::
  "(rat \<Rightarrow> jsstr) \<Rightarrow> (bytes \<Rightarrow> bytes) \<Rightarrow> jsstr \<Rightarrow> rat \<Rightarrow> cli_turn \<Rightarrow> sync_state \<Rightarrow> cli_line \<times> sync_state" where
  "cli_iteration num sha net limit t s =
     (case ebind (syncOnce num sha (tn_sources t) (tn_run t) net (Some limit)) (\<lambda>r.
             ebind (getSyncedHeight (tn_after t) net) (\<lambda>height. eret (height, r))) s of
        (Inr (height, r), s') \<Rightarrow> (Synced height (sr_ingestedBlocks r) (sr_targetTipHeight r), s')
      | (Inl e, s') \<Rightarrow> (Failed e, s'))"

text \<open>\<^verbatim>\<open>while (!stop)\<close>: as many turns as begin before the signal arrives.\<close>

fun cli_loop ::
  "(rat \<Rightarrow> jsstr) \<Rightarrow> (bytes \<Rightarrow> bytes) \<Rightarrow> jsstr \<Rightarrow> rat \<Rightarrow> cli_turn list \<Rightarrow> sync_state \<Rightarrow> cli_line list \<times> sync_state" where
  "cli_loop num sha net limit [] s = ([], s)"
| "cli_loop num sha net limit (t # ts) s =
     (case cli_iteration num sha net limit t s of (l, s1) \<Rightarrow>
        (case cli_loop num sha net limit ts s1 of (ls, s2) \<Rightarrow> (l # ls, s2)))"

text \<open>
  A process: it exits with status 1 without a connection string, dies of an uncaught error of the start-up, or
  runs the loop and ends when it is stopped. Tables that the bookkeeping promises but that are not there cannot
  occur (shown below); the statements on them would fail.
\<close>

datatype cli_end = ExitStatus1 | Uncaught js_error | Stopped "cli_line list"

definition sync_cli ::
  "(jsstr \<Rightarrow> int) \<Rightarrow> (nat \<Rightarrow> archive option \<Rightarrow> js_error + archive option) \<Rightarrow> (rat \<Rightarrow> jsstr) \<Rightarrow> (bytes \<Rightarrow> bytes)
    \<Rightarrow> cli_vars \<Rightarrow> mig_env \<Rightarrow> cli_turn list \<Rightarrow> archive option server \<Rightarrow> cli_end \<times> archive option server" where
  "sync_cli hash ups num sha v menv turns s =
     (if option_default (cv_ARCHIVE_PG v) [] = [] then (ExitStatus1, s)
      else case createClient \<lparr>co_connectionString = cv_ARCHIVE_PG v, co_schema = Some (cli_schema v), co_maxConnections = None,
          co_connectTimeout = None, co_statementTimeoutMs = None, co_lockTimeoutMs = None, co_idleInTxTimeoutMs = None\<rparr> of
        Inl e \<Rightarrow> (Uncaught e, s)
      | Inr _ \<Rightarrow>
          (case bootstrapChainArchiveSchema hash ups archive_ups menv (Some (cli_schema v)) s of
             (Inl e, s1) \<Rightarrow> (Uncaught e, s1)
           | (Inr _, s1) \<Rightarrow>
               (case ss_content (sv_schema s1) of
                  None \<Rightarrow> (Stopped (map (\<lambda>_. Failed (translatePostgresError (pg_error ''42P01'' None) None)) turns), s1)
                | Some a \<Rightarrow>
                    (case cli_loop num sha (cli_net v) (limit_of (cli_max_blocks v)) turns \<lparr>sy_archive = a, sy_lastDParameterJson = None\<rparr> of
                       (ls, s') \<Rightarrow> (Stopped ls, s1\<lparr>sv_schema := (sv_schema s1)\<lparr>ss_content := Some (sy_archive s')\<rparr>\<rparr>)))))"

text \<open>One process after another on the same database.\<close>

fun cli_sessions ::
  "(jsstr \<Rightarrow> int) \<Rightarrow> (nat \<Rightarrow> archive option \<Rightarrow> js_error + archive option) \<Rightarrow> (rat \<Rightarrow> jsstr) \<Rightarrow> (bytes \<Rightarrow> bytes)
    \<Rightarrow> cli_vars \<Rightarrow> (mig_env \<times> cli_turn list) list \<Rightarrow> archive option server \<Rightarrow> archive option server" where
  "cli_sessions hash ups num sha v [] s = s"
| "cli_sessions hash ups num sha v ((menv, turns) # rest) s =
     cli_sessions hash ups num sha v rest (snd (sync_cli hash ups num sha v menv turns s))"

section \<open>What one turn does\<close>

text \<open>A node may be down, slow or wrong about its head, but when it names the block at a height, it is the chain's.\<close>

definition honest :: "sources \<Rightarrow> (int \<Rightarrow> jsstr) \<Rightarrow> bool" where
  "honest src chain \<longleftrightarrow> (\<forall>i raw. nd_getBlockHash src (of_int i) = Reply raw \<longrightarrow> hexNoPrefix raw = chain i)"

text \<open>A turn that nothing disturbs, with sources that agree on the chain up to at least \<open>tip\<close>.\<close>

definition clean_turn :: "(int \<Rightarrow> jsstr) \<Rightarrow> int \<Rightarrow> cli_turn \<Rightarrow> bool" where
  "clean_turn chain tip t \<longleftrightarrow> quiet_run (tn_run t) \<and> (\<exists>tip' \<ge> tip. sync_consistent (tn_sources t) chain tip')"

lemma ingest_agrees:
  assumes h: "honest src chain" and run: "ingestOneBlock num sha src env fl net height s = (Inr (), s')" and net: "bind_text net = Inr net"
    and agr: "agrees net chain (sy_archive s)"
  shows "agrees net chain (sy_archive s') \<and> archive_watermarks (sy_archive s') = archive_watermarks (sy_archive s)"
proof -
  let ?a = "sy_archive s" and ?a' = "sy_archive s'"
  from run obtain bd j x where fetch: "fetch_bundle num src net height (sy_lastDParameterJson s) = Inr (bd, j)"
    and put: "putBlockBundle sha env fl bd ?a = (Inr x, ?a')"
    by (auto simp: ingestOneBlock_def on_archive_def elim!: ebind_InrE split: sum.splits prod.splits option.splits)
  from fetch obtain raw blk where blk: "bb_block bd = block_of num net height (hexNoPrefix raw) blk" and hash: "nd_getBlockHash src height = Reply raw"
    by (rule fetch_bundle_block)
  from putBlockBundle_effect [OF put] blk net obtain i hdr body st where i: "bind_int 64 height = Inr i"
    and wm: "archive_watermarks ?a' = archive_watermarks ?a"
    and rows: "blocks ?a' = blocks ?a \<or> blocks ?a' = blocks ?a @ [block_row_of (bb_block bd) hdr body net i st]"
    by (auto simp: block_of_def Let_def)
  have "height = of_int i" using i by (simp add: bind_int_def split: if_splits)
  with h hash have "hexNoPrefix raw = chain i" by (simp add: honest_def)
  then have "b_block_hash (block_row_of (bb_block bd) hdr body net i st) = hexToBuf (chain (b_height (block_row_of (bb_block bd) hdr body net i st)))"
    by (simp add: blk block_row_of_def block_of_def Let_def)
  with agr rows wm show ?thesis by (auto simp: agrees_def)
qed

lemma cursor_write_any:
  assumes "keyable net" and r: "ready net chain n s"
    and w: "on_archive (setWatermark env (watermarkKey net) (JObj [(js ''height'', JNum (of_int n))])) s = (res, s')"
  shows "ready net chain (case res of Inl _ \<Rightarrow> n | Inr _ \<Rightarrow> n + 1) s'"
proof -
  let ?w = "setWatermark env (watermarkKey net) (height_value (of_int n)) (sy_archive s)"
  have key: "bind_text (watermarkKey net) = Inr (watermarkKey net)" using assms(1) by (simp add: keyable_def)
  have hc: "height_cursor (sy_archive s) (watermarkKey net)" and agr: "agrees net chain (sy_archive s)" and c: "cursor_of net s = of_int n"
    using r by (simp_all add: ready_def)
  note hw = setWatermark_height [OF key hc, of env "of_int n"]
  have s': "sy_archive s' = snd ?w" "res = fst ?w" using w by (auto simp: on_archive_def height_literal split: prod.splits)
  have agr': "agrees net chain (snd ?w)" using agr by (simp add: agrees_def setWatermark_blocks)
  have "first_height (raised (of_int n) (cursor_height (sy_archive s) (watermarkKey net))) = of_int n + 1"
    using c by (auto simp: first_height_def raised_def max_def split: option.splits)
  with hw(1) have "res = Inr () \<Longrightarrow> cursor_of net s' = of_int (n + 1)" by (simp add: s')
  moreover have "res = Inl e \<Longrightarrow> cursor_of net s' = of_int n" for e using hw(2) c by (simp add: s')
  ultimately show ?thesis using agr' hw(3) by (cases res) (simp_all add: ready_def s')
qed

text \<open>Whatever fails on the way, the position stays on the chain and does not go back.\<close>

lemma ingest_loop_progress:
  assumes h: "honest src chain" and net: "keyable net"
  shows "ready net chain n s \<Longrightarrow> ingest_loop num sha src se net (of_int n) e s = (res, s') \<Longrightarrow> \<exists>n' \<ge> n. ready net chain n' s'"
proof (induction "nat (\<lfloor>e - of_int n\<rfloor> + 1)" arbitrary: n s res s' rule: less_induct)
  case less
  have nt: "bind_text net = Inr net" using net by (simp add: keyable_def)
  show ?case
  proof (cases "of_int n \<le> e")
    case False
    with less.prems show ?thesis by (auto simp: ingest_loop.simps [of num sha src se net "of_int n"] eret_def)
  next
    case True
    obtain r1 s1 where 1: "ingestOneBlock num sha src (se_ingest se (of_int n)) (se_faults se (of_int n)) net (of_int n) s = (r1, s1)" by force
    show ?thesis
    proof (cases r1)
      case (Inl x)
      with less.prems 1 True ingest_failed [of num sha src _ _ net _ s x s1] show ?thesis
        by (auto simp: ingest_loop.simps [of num sha src se net "of_int n"] ebind_def)
    next
      case (Inr u)
      then have "ingestOneBlock num sha src (se_ingest se (of_int n)) (se_faults se (of_int n)) net (of_int n) s = (Inr (), s1)" using 1 by simp
      from ingest_agrees [OF h this nt] less.prems(1) cursor_height_watermarks [of "sy_archive s1" "sy_archive s" "watermarkKey net"]
      have r1: "ready net chain n s1" by (auto simp: ready_def)
      obtain r2 s2 where 2: "on_archive (setWatermark (se_cursor se (of_int n)) (watermarkKey net) (JObj [(js ''height'', JNum (of_int n))])) s1 = (r2, s2)" by force
      note r2 = cursor_write_any [OF net r1 2]
      show ?thesis
      proof (cases r2)
        case (Inl x)
        with r2 less.prems(2) 1 2 True \<open>r1 = Inr u\<close> show ?thesis
          by (auto simp: ingest_loop.simps [of num sha src se net "of_int n"] ebind_def)
      next
        case (Inr v)
        obtain r3 s3 where 3: "ingest_loop num sha src se net (of_int (n + 1)) e s2 = (r3, s3)" by force
        have "nat (\<lfloor>e - of_int (n + 1)\<rfloor> + 1) < nat (\<lfloor>e - of_int n\<rfloor> + 1)" using True by (simp; linarith)
        from less.hyps [OF this _ 3] r2 Inr obtain n' where "n + 1 \<le> n'" "ready net chain n' s3" by auto
        moreover have "s' = s3" using less.prems(2) 1 2 3 True \<open>r1 = Inr u\<close> Inr
          by (cases r3) (simp_all add: ingest_loop.simps [of num sha src se net "of_int n"] ebind_def eret_def)
        ultimately show ?thesis by (intro exI [of _ n']) simp
      qed
    qed
  qed
qed

lemma syncOnce_progress:
  assumes "honest src chain" and "keyable net" and r: "ready net chain n s" and run: "syncOnce num sha src se net mb s = (res, s')"
  shows "\<exists>n' \<ge> n. ready net chain n' s'"
proof -
  consider "s' = s"
    | synced s1 e r1 where "getSyncedHeight (se_read se) net s = (Inr synced, s1)"
        "ingest_loop num sha src se net (first_height synced) e s1 = (r1, s')"
    using run
    by (auto simp: syncOnce_def Let_def ebind_def first_height_def dest: getSyncedHeight_reads split: sum.splits prod.splits if_splits)
  then show ?thesis
  proof cases
    case 1
    with r show ?thesis by blast
  next
    case (2 synced s1 e r1)
    have key: "bind_text (watermarkKey net) = Inr (watermarkKey net)" using assms(2) by (simp add: keyable_def)
    have s1: "s1 = s" by (rule getSyncedHeight_reads [OF 2(1)])
    have "first_height synced = of_int n" using getSyncedHeight_cursor [OF 2(1) key] r by (simp add: ready_def)
    with ingest_loop_progress [OF assms(1,2) r] 2(2) s1 show ?thesis by simp
  qed
qed

lemma cli_iteration_state:
  "snd (cli_iteration num sha net limit t s) = snd (syncOnce num sha (tn_sources t) (tn_run t) net (Some limit) s)"
  by (auto simp: cli_iteration_def ebind_def eret_def dest: getSyncedHeight_reads split: prod.splits sum.splits)

lemma cli_iteration_keeps:
  assumes "sync_ok sha net (sy_archive s)" and "keyable net"
  shows "sync_ok sha net (sy_archive (snd (cli_iteration num sha net limit t s)))"
  unfolding cli_iteration_state using syncOnce_keeps_ok [OF prod.collapse [symmetric] assms] .

lemma cli_iteration_progress:
  assumes "honest (tn_sources t) chain" and "keyable net" and "digest32 sha" and "1 \<le> m" and "0 \<le> n" and "ready net chain n s"
  shows "\<exists>n' \<ge> n. ready net chain n' (snd (cli_iteration num sha net (of_int m) t s))
    \<and> (clean_turn chain tip t \<longrightarrow> min (tip + 1) (n + m) \<le> n')"
proof (cases "clean_turn chain tip t")
  case True
  then obtain tip' where tip: "tip \<le> tip'" "sync_consistent (tn_sources t) chain tip'" and q: "quiet_run (tn_run t)" by (auto simp: clean_turn_def)
  from syncOnce_ok [OF tip(2) assms(2,3) q assms(5,6,4), of num] obtain x s' where
    "syncOnce num sha (tn_sources t) (tn_run t) net (Some (of_int m)) s = (Inr x, s')" "ready net chain (max n (min (tip' + 1) (n + m))) s'" by blast
  moreover have "n \<le> max n (min (tip' + 1) (n + m))" "min (tip + 1) (n + m) \<le> max n (min (tip' + 1) (n + m))" using tip(1) by linarith+
  ultimately show ?thesis unfolding cli_iteration_state by (metis snd_conv)
next
  case False
  with syncOnce_progress [OF assms(1,2,6) prod.collapse [symmetric]] show ?thesis by (auto simp: cli_iteration_state)
qed

lemma cli_loop_progress:
  assumes "keyable net" and "digest32 sha" and "1 \<le> m"
  shows "\<forall>t \<in> set ts. honest (tn_sources t) chain \<Longrightarrow> 0 \<le> n \<Longrightarrow> ready net chain n s \<Longrightarrow> sync_ok sha net (sy_archive s) \<Longrightarrow>
    \<exists>n' \<ge> n. ready net chain n' (snd (cli_loop num sha net (of_int m) ts s)) \<and> sync_ok sha net (sy_archive (snd (cli_loop num sha net (of_int m) ts s)))
      \<and> min (tip + 1) (n + m * int (length (filter (clean_turn chain tip) ts))) \<le> n'"
proof (induction ts arbitrary: n s)
  case Nil
  then show ?case by (intro exI [of _ n]) simp
next
  case (Cons t ts)
  obtain l s1 where 1: "cli_iteration num sha net (of_int m) t s = (l, s1)" by force
  from cli_iteration_progress [OF _ assms(1-3) Cons.prems(2,3), of t num tip] Cons.prems(1) 1 obtain n1 where
    n1: "n \<le> n1" "ready net chain n1 s1" "clean_turn chain tip t \<longrightarrow> min (tip + 1) (n + m) \<le> n1" by auto
  have ok1: "sync_ok sha net (sy_archive s1)" using cli_iteration_keeps [OF Cons.prems(4) assms(1), of num "of_int m" t] 1 by simp
  from Cons.IH [of n1 s1] Cons.prems n1 ok1 obtain n2 where
    n2: "n1 \<le> n2" "ready net chain n2 (snd (cli_loop num sha net (of_int m) ts s1))"
      "sync_ok sha net (sy_archive (snd (cli_loop num sha net (of_int m) ts s1)))"
      "min (tip + 1) (n1 + m * int (length (filter (clean_turn chain tip) ts))) \<le> n2" by auto
  let ?g = "m * int (length (filter (clean_turn chain tip) ts))"
  have "0 \<le> ?g" using assms(3) by simp
  then have "min (tip + 1) (n + m * int (length (filter (clean_turn chain tip) (t # ts)))) \<le> n2"
    using n1(1,3) n2(1,4) by (cases "clean_turn chain tip t") (auto simp: distrib_left min_le_iff_disj)
  moreover have "snd (cli_loop num sha net (of_int m) (t # ts) s) = snd (cli_loop num sha net (of_int m) ts s1)"
    using 1 by (simp split: prod.splits)
  ultimately show ?case using n1(1) n2(1-3) by (metis order_trans)
qed

section \<open>Processes, one after another\<close>

text \<open>The first height that the cursor of the schema's archive has not passed.\<close>

definition position :: "jsstr \<Rightarrow> archive option schema_state \<Rightarrow> rat" where
  "position net x = (case ss_content x of None \<Rightarrow> 0 | Some a \<Rightarrow> first_height (cursor_height a (watermarkKey net)))"

text \<open>Either the tables are not there yet, or the lineage is complete and the archive is at height \<open>n\<close> of the chain.\<close>

definition archive_at :: "(bytes \<Rightarrow> bytes) \<Rightarrow> jsstr \<Rightarrow> (int \<Rightarrow> jsstr) \<Rightarrow> int \<Rightarrow> archive option schema_state \<Rightarrow> bool" where
  "archive_at sha net chain n x \<longleftrightarrow>
     (case ss_content x of
        None \<Rightarrow> n = 0 \<and> ss_migrations x \<in> {None, Some [js ''000_schema'']}
      | Some a \<Rightarrow> 0 \<le> n \<and> ss_migrations x = Some [js ''000_schema'', js ''001_chain_archive_core'']
          \<and> sync_ok sha net a \<and> ready net chain n \<lparr>sy_archive = a, sy_lastDParameterJson = None\<rparr>)"

lemma ready_archive: "ready net chain n s \<longleftrightarrow> ready net chain n \<lparr>sy_archive = sy_archive s, sy_lastDParameterJson = None\<rparr>"
  by (simp add: ready_def)

lemma archive_at_position: "archive_at sha net chain n x \<Longrightarrow> position net x = of_int n"
  by (auto simp: archive_at_def position_def ready_def split: option.splits)

lemma archive_lineage: "chainArchiveMigrations archive_ups =
    [\<lparr>mg_name = js ''000_schema'', mg_up = schema_up\<rparr>, \<lparr>mg_name = js ''001_chain_archive_core'', mg_up = content_up (archive_ups 0)\<rparr>]"
  by (simp add: chainArchiveMigrations_def lineage_of_def)

lemma archive_reached:
  assumes "Migrate.reached (chainArchiveMigrations archive_ups) \<lparr>ss_migrations = None, ss_content = None\<rparr> k x"
  shows "archive_at sha net chain 0 x \<and> (k = 2 \<longrightarrow> ss_content x \<noteq> None)"
proof -
  have "k = 0 \<or> k = 1 \<or> k = 2" using assms by (auto simp: Migrate.reached_def archive_lineage)
  moreover note sample_ready [unfolded sample_start_def]
  ultimately show ?thesis
    using assms
    by (elim disjE) (auto simp: Migrate.reached_def archive_lineage step_def schema_up_def record_name_def content_up_def archive_ups_def archive_at_def)
qed

lemma bootstrap_keeps:
  assumes at0: "archive_at sha net chain n (sv_schema s)" and run: "bootstrapChainArchiveSchema hash ups archive_ups env (Some schema) s = (r, t)"
  shows "archive_at sha net chain n (sv_schema t) \<and> (\<not> isl r \<longrightarrow> ss_content (sv_schema t) \<noteq> None)"
proof -
  let ?L = "chainArchiveMigrations archive_ups" and ?x0 = "\<lparr>ss_migrations = None, ss_content = None\<rparr> :: archive option schema_state"
  let ?opts = "\<lparr>ro_schema = schema, ro_migrations = Some ?L, ro_allowFullPageWritesOff = False, ro_migrationLockTimeoutMs = None\<rparr>"
  have used: "lineage_used ups ?opts = ?L" by (simp add: lineage_used_def option_default_def)
  have run': "runMigrations hash ups env ?opts s = (r, t)" using run by (simp add: bootstrapChainArchiveSchema_def option_default_def)
  show ?thesis
  proof (cases "ss_content (sv_schema s)")
    case None
    with at0 have n: "n = 0" and m: "ss_migrations (sv_schema s) \<in> {None, Some [js ''000_schema'']}" by (simp_all add: archive_at_def)
    have "\<exists>k. Migrate.reached ?L ?x0 k (sv_schema s)"
    proof (cases "ss_migrations (sv_schema s) = None")
      case True
      then have "sv_schema s = ?x0" using None by simp
      then have "Migrate.reached ?L ?x0 0 (sv_schema s)" by (simp add: Migrate.reached_def)
      then show ?thesis ..
    next
      case False
      with m None have "sv_schema s = \<lparr>ss_migrations = Some [js ''000_schema''], ss_content = None\<rparr>" by simp
      then have "Migrate.reached ?L ?x0 1 (sv_schema s)"
        by (simp add: Migrate.reached_def archive_lineage step_def schema_up_def record_name_def)
      then show ?thesis ..
    qed
    then obtain k where "Migrate.reached (lineage_used ups ?opts) ?x0 k (sv_schema s)" by (auto simp: used)
    from runMigrations_reached [OF _ _ this run'] lineages_ok(2) [of archive_ups] obtain k' where
      k': "Migrate.reached ?L ?x0 k' (sv_schema t)" "\<not> isl r \<longrightarrow> k' = length ?L" by (auto simp: used)
    with archive_reached [OF k'(1), of sha net chain] n show ?thesis by (simp add: archive_lineage)
  next
    case (Some a)
    with at0 have "ss_migrations (sv_schema s) = Some [js ''000_schema'', js ''001_chain_archive_core'']" by (simp add: archive_at_def)
    from runMigrations_nothing [OF this _ run', unfolded used] have "sv_schema t = sv_schema s" by (simp add: archive_lineage)
    with at0 Some show ?thesis by simp
  qed
qed

lemma length_cli_loop: "length (fst (cli_loop num sha net limit ts s)) = length ts"
  by (induction ts arbitrary: s) (auto split: prod.splits, metis fst_conv)

lemma session_progress:
  assumes "keyable (cli_net v)" and "digest32 sha" and lim: "limit_of (cli_max_blocks v) = of_int m" and "1 \<le> m"
    and "\<forall>t \<in> set turns. honest (tn_sources t) chain" and at0: "archive_at sha (cli_net v) chain n (sv_schema s)"
    and run: "sync_cli hash ups num sha v menv turns s = (e, t)"
  shows "\<exists>n' \<ge> n. archive_at sha (cli_net v) chain n' (sv_schema t)
    \<and> (\<forall>ls. e = Stopped ls \<longrightarrow> length ls = length turns \<and> ss_content (sv_schema t) \<noteq> None
        \<and> min (tip + 1) (n + m * int (length (filter (clean_turn chain tip) turns))) \<le> n')"
proof (cases "\<exists>ls. e = Stopped ls")
  case False
  then have "sv_schema t = sv_schema s \<or> (\<exists>r. bootstrapChainArchiveSchema hash ups archive_ups menv (Some (cli_schema v)) s = (r, t))"
    using run by (auto simp: sync_cli_def split: if_splits sum.splits prod.splits option.splits)
  with at0 bootstrap_keeps [OF at0] False show ?thesis by (intro exI [of _ n]) auto
next
  case True
  then obtain s1 where b: "bootstrapChainArchiveSchema hash ups archive_ups menv (Some (cli_schema v)) s = (Inr (), s1)"
    using run by (auto simp: sync_cli_def split: if_splits sum.splits prod.splits option.splits)
  from bootstrap_keeps [OF at0 b] obtain a where a: "ss_content (sv_schema s1) = Some a" and at1: "archive_at sha (cli_net v) chain n (sv_schema s1)" by auto
  let ?s = "\<lparr>sy_archive = a, sy_lastDParameterJson = None\<rparr>"
  obtain ls s' where l: "cli_loop num sha (cli_net v) (of_int m) turns ?s = (ls, s')" by force
  from True run b a l have t: "e = Stopped ls" "t = s1\<lparr>sv_schema := (sv_schema s1)\<lparr>ss_content := Some (sy_archive s')\<rparr>\<rparr>"
    by (auto simp: sync_cli_def lim split: if_splits sum.splits)
  have "0 \<le> n" "ready (cli_net v) chain n ?s" "sync_ok sha (cli_net v) (sy_archive ?s)" using at1 a by (simp_all add: archive_at_def)
  from cli_loop_progress [OF assms(1,2,4,5) this, of num tip] l obtain n' where
    n': "n \<le> n'" "ready (cli_net v) chain n' s'" "sync_ok sha (cli_net v) (sy_archive s')"
      "min (tip + 1) (n + m * int (length (filter (clean_turn chain tip) turns))) \<le> n'" by auto
  have "archive_at sha (cli_net v) chain n' (sv_schema t)"
    using at1 a n' \<open>0 \<le> n\<close> ready_archive [of _ _ n' s'] by (simp add: archive_at_def t)
  moreover have "length ls = length turns" using length_cli_loop [of num sha "cli_net v" "of_int m" turns ?s] l by simp
  ultimately show ?thesis using n' t by (intro exI [of _ n']) simp
qed

lemma sessions_progress:
  assumes "keyable (cli_net v)" and "digest32 sha" and "limit_of (cli_max_blocks v) = of_int m" and "1 \<le> m"
  shows "\<forall>(menv, turns) \<in> set ss. \<forall>t \<in> set turns. honest (tn_sources t) chain \<Longrightarrow> archive_at sha (cli_net v) chain n (sv_schema s) \<Longrightarrow>
    \<exists>n' \<ge> n. archive_at sha (cli_net v) chain n' (sv_schema (cli_sessions hash ups num sha v ss s))"
proof (induction ss arbitrary: n s)
  case Nil
  then show ?case by auto
next
  case (Cons p ss)
  obtain menv turns where p: "p = (menv, turns)" by force
  from session_progress [OF assms _ Cons.prems(2) prod.collapse [symmetric], where turns = turns and menv = menv and tip = 0 and hash = hash and ups = ups and num = num] Cons.prems(1) p obtain n1 where
    n1: "n \<le> n1" "archive_at sha (cli_net v) chain n1 (sv_schema (snd (sync_cli hash ups num sha v menv turns s)))" by auto
  from Cons.IH [OF _ n1(2)] Cons.prems(1) n1(1) show ?case by (auto simp: p intro: order_trans)
qed

text \<open>
  C25. The sync process over restarts. Processes run one after another on a database that starts empty, each with
  any failures of its start-up and of any turn of its loop, and with a node that never names a wrong block at a
  height. Whenever one ends, however it ends: it has not lost ground; the archive, if there is one, holds a
  canonical finalized block of the chain at every height below its position, and no other canonical block. A
  process that was stopped has printed one line per turn, and its undisturbed turns have each moved the
  position by the configured number of blocks until it passed the tip, whatever the turns between them did.
\<close>

theorem sync_cli_resumes:
  assumes "keyable (cli_net v)" and "digest32 sha" and "limit_of (cli_max_blocks v) = of_int m" and "1 \<le> m"
    and "ss_migrations (sv_schema s0) = None" and "ss_content (sv_schema s0) = None"
    and "\<forall>(menv, turns) \<in> set sessions. \<forall>t \<in> set turns. honest (tn_sources t) chain" and "\<forall>t \<in> set turns. honest (tn_sources t) chain"
    and "s = cli_sessions hash ups num sha v sessions s0" and "sync_cli hash ups num sha v menv turns s = (e, t)"
  defines "net \<equiv> cli_net v"
  shows "position net (sv_schema s) \<le> position net (sv_schema t)
    \<and> (\<forall>a. ss_content (sv_schema t) = Some a \<longrightarrow> archived_below net (position net (sv_schema t)) a \<and> agrees net chain a)
    \<and> (\<forall>ls. e = Stopped ls \<longrightarrow> length ls = length turns \<and> ss_content (sv_schema t) \<noteq> None
        \<and> min (of_int tip + 1) (position net (sv_schema s) + of_int (m * int (length (filter (clean_turn chain tip) turns)))) \<le> position net (sv_schema t))"
proof -
  have "archive_at sha net chain 0 (sv_schema s0)" using assms(5,6) by (simp add: archive_at_def)
  from sessions_progress [OF assms(1-4,7), folded net_def, OF this, of hash ups num] assms(9) obtain n where
    n: "archive_at sha net chain n (sv_schema s)" by auto
  from session_progress [OF assms(1-4,8), folded net_def, OF n assms(10), of tip] obtain n' where
    n': "n \<le> n'" "archive_at sha net chain n' (sv_schema t)"
      "\<forall>ls. e = Stopped ls \<longrightarrow> length ls = length turns \<and> ss_content (sv_schema t) \<noteq> None
        \<and> min (tip + 1) (n + m * int (length (filter (clean_turn chain tip) turns))) \<le> n'" by blast
  have pos: "position net (sv_schema s) = of_int n" "position net (sv_schema t) = of_int n'" using n n'(2) archive_at_position by blast+
  have "archived_below net (position net (sv_schema t)) a \<and> agrees net chain a" if "ss_content (sv_schema t) = Some a" for a
    using n'(2) that by (auto simp: archive_at_def position_def ready_def sync_ok_def first_height_def archived_below_def split: option.splits)
  moreover have "min (of_int tip + 1) (of_int n + of_int (m * g)) \<le> (of_int n' :: rat)" if "min (tip + 1) (n + m * g) \<le> n'" for g
  proof -
    have "(of_int (min (tip + 1) (n + m * g)) :: rat) \<le> of_int n'" using that by (simp only: of_int_le_iff)
    then show ?thesis by (simp add: of_int_min)
  qed
  moreover have "of_int n \<le> (of_int n' :: rat)" using n'(1) by simp
  ultimately show ?thesis unfolding pos using n'(3) by blast
qed

text \<open>
  A limit below one block. \<^verbatim>\<open>MAX_BLOCKS\<close> is not checked: an empty value reads as 0 and a value that is not a number as
  NaN, and with either the process runs on, prints \<^verbatim>\<open>ingested=0\<close> and archives nothing, ever.
\<close>

lemma no_limit_no_progress:
  assumes "limit < 1"
  shows "snd (cli_loop num sha net limit ts s) = s"
proof (induction ts arbitrary: s)
  case (Cons t ts)
  have "ingest_loop num sha src se net h (min tip (h + limit - 1)) s1 = (Inr 0, s1)" for src se h tip s1
    using assms by (simp add: ingest_loop.simps [of num sha src se net h] eret_def min_def)
  then have "snd (syncOnce num sha (tn_sources t) (tn_run t) net (Some limit) s) = s"
    by (auto simp: syncOnce_def Let_def ebind_def eret_def dest: getSyncedHeight_reads split: prod.splits sum.splits)
  then have "snd (cli_iteration num sha net limit t s) = s" by (simp add: cli_iteration_state)
  with Cons.IH show ?case by (auto split: prod.splits) (metis snd_conv)
qed simp

lemma unchecked_limits:
  "cv_MAX_BLOCKS v = Some [] \<Longrightarrow> limit_of (cli_max_blocks v) < 1" "cv_MAX_BLOCKS v = Some (js ''many'') \<Longrightarrow> limit_of (cli_max_blocks v) < 1"
proof -
  have "Number [] = Finite 0" by (simp add: Number_def trim_def)
  then show "cv_MAX_BLOCKS v = Some [] \<Longrightarrow> limit_of (cli_max_blocks v) < 1" by (simp add: cli_max_blocks_def option_default_def)
  have "Number (js ''many'') = NaN" by code_simp
  then show "cv_MAX_BLOCKS v = Some (js ''many'') \<Longrightarrow> limit_of (cli_max_blocks v) < 1" by (simp add: cli_max_blocks_def option_default_def)
qed

lemma default_limit: "cv_MAX_BLOCKS v = None \<Longrightarrow> limit_of (cli_max_blocks v) = of_int 200"
proof -
  have dec: "dec 200 = js ''200''" by code_simp
  have "Number (dec 200) = Finite (of_nat 200)"
    by (rule Number_dec) (simp, unfold dec, code_simp+)
  then show "cv_MAX_BLOCKS v = None \<Longrightarrow> limit_of (cli_max_blocks v) = of_int 200"
    by (simp add: cli_max_blocks_def option_default_def dec)
qed

definition sample_vars :: cli_vars where
  "sample_vars = \<lparr>cv_ARCHIVE_PG = Some (js ''postgres://localhost/archive''), cv_NET = Some (js ''net''), cv_ARCHIVE_SCHEMA = None, cv_MAX_BLOCKS = None\<rparr>"

definition sample_turn :: cli_turn where
  "sample_turn = \<lparr>tn_sources = sample_sources, tn_run = sample_run, tn_after = quiet 4 4\<rparr>"

definition silent_turn :: cli_turn where
  "silent_turn = \<lparr>tn_sources = sample_sources\<lparr>nd_getFinalizedHead := NoResponse\<rparr>, tn_run = sample_run, tn_after = quiet 4 4\<rparr>"

definition no_archive :: "archive option server" where
  "no_archive = \<lparr>sv_schema = \<lparr>ss_migrations = None, ss_content = None\<rparr>, sv_locks = [], sv_widened = [], sv_reserved = []\<rparr>"

definition half_way :: "archive option server" where
  "half_way = no_archive\<lparr>sv_schema := \<lparr>ss_migrations = Some [js ''000_schema''], ss_content = None\<rparr>\<rparr>"

lemma sample_crash: "cli_sessions (\<lambda>_. 7) (\<lambda>_. Inr) sample_number pad_hash sample_vars [(lost_commit, [sample_turn])] no_archive = half_way"
proof -
  have "bootstrapChainArchiveSchema (\<lambda>_. 7) (\<lambda>_. Inr) archive_ups lost_commit (Some (js ''chain_archive'')) no_archive
      = (Inl (translatePostgresError (plain_error ''CONNECTION_CLOSED'') None), half_way)"
    by code_simp
  moreover have "\<not> isl (createClient \<lparr>co_connectionString = Some (js ''postgres://localhost/archive''), co_schema = Some (js ''chain_archive''),
      co_maxConnections = None, co_connectTimeout = None, co_statementTimeoutMs = None, co_lockTimeoutMs = None, co_idleInTxTimeoutMs = None\<rparr>)"
    by code_simp
  moreover have "js ''postgres://localhost/archive'' \<noteq> []" by (simp add: js_def)
  ultimately show ?thesis
    by (auto simp: sync_cli_def sample_vars_def cli_schema_def option_default_def split: sum.splits)
qed

lemma sample_stopped:
  "\<exists>ls. fst (sync_cli (\<lambda>_. 7) (\<lambda>_. Inr) sample_number pad_hash sample_vars calm [silent_turn, sample_turn] half_way) = Stopped ls"
proof -
  have "\<not> isl (fst (bootstrapChainArchiveSchema (\<lambda>_. 7) (\<lambda>_. Inr) archive_ups calm (Some (js ''chain_archive'')) half_way))" by code_simp
  moreover have "\<not> isl (createClient \<lparr>co_connectionString = Some (js ''postgres://localhost/archive''), co_schema = Some (js ''chain_archive''),
      co_maxConnections = None, co_connectTimeout = None, co_statementTimeoutMs = None, co_lockTimeoutMs = None, co_idleInTxTimeoutMs = None\<rparr>)"
    by code_simp
  moreover have "js ''postgres://localhost/archive'' \<noteq> []" by (simp add: js_def)
  ultimately show ?thesis
    by (auto simp: sync_cli_def sample_vars_def cli_schema_def option_default_def split: sum.splits prod.splits option.splits)
qed

text \<open>
  A first process dies when its connection is lost during the first commit; a second one meets a node that does
  not answer, then one that does, and has archived the three blocks.
\<close>

theorem sync_cli_resumes_witness:
  "3 \<le> position (js ''net'') (sv_schema (snd (sync_cli (\<lambda>_. 7) (\<lambda>_. Inr) sample_number pad_hash sample_vars calm [silent_turn, sample_turn]
     (cli_sessions (\<lambda>_. 7) (\<lambda>_. Inr) sample_number pad_hash sample_vars [(lost_commit, [sample_turn])] no_archive))))"
proof -
  have net: "cli_net sample_vars = js ''net''" by (simp add: cli_net_def sample_vars_def option_default_def)
  have lim: "limit_of (cli_max_blocks sample_vars) = of_int 200" by (rule default_limit) (simp add: sample_vars_def)
  have fresh: "ss_migrations (sv_schema no_archive) = None" "ss_content (sv_schema no_archive) = None" by (simp_all add: no_archive_def)
  have h: "honest (tn_sources sample_turn) sample_chain" "honest (tn_sources silent_turn) sample_chain"
    by (simp_all add: honest_def sample_turn_def silent_turn_def sample_sources_def)
  have "clean_turn sample_chain 2 sample_turn" using sample_consistent by (auto simp: clean_turn_def sample_turn_def)
  then have "1 \<le> length (filter (clean_turn sample_chain 2) [silent_turn, sample_turn])" by simp
  moreover obtain ls where "fst (sync_cli (\<lambda>_. 7) (\<lambda>_. Inr) sample_number pad_hash sample_vars calm [silent_turn, sample_turn] half_way) = Stopped ls"
    using sample_stopped by blast
  moreover have "position (js ''net'') (sv_schema half_way) = 0" by (simp add: position_def half_way_def)
  ultimately show ?thesis
    using sync_cli_resumes [OF _ pad_hash_ok(2) lim _ fresh _ _ refl prod.collapse [symmetric], where tip = 2 and chain = sample_chain and menv = calm
        and sessions = "[(lost_commit, [sample_turn])]" and turns = "[silent_turn, sample_turn]" and hash = "\<lambda>_. 7" and ups = "\<lambda>_. Inr" and num = sample_number]
      sample_keyable h
    by (auto simp: net sample_crash min_def simp del: cli_sessions.simps split: if_splits)
qed

end
