(* ===== verification/BenchStats.thy ===== *)
theory BenchStats
  imports JsNumber
begin

text \<open>
  The statistics of the benchmark harness: \<^verbatim>\<open>src/bench/stats.ts\<close> (\<^verbatim>\<open>summarize\<close>, \<^verbatim>\<open>measureManual\<close>), the argument reader of
  \<^verbatim>\<open>src/bench/harness.ts\<close> and the comparison of \<^verbatim>\<open>src/bench/smoke.ts\<close>. Samples are milliseconds, finite doubles; all
  arithmetic is rounded.
\<close>

section \<open>\<^verbatim>\<open>summarize\<close>\<close>

record latency_stats =
  ls_samples :: nat
  ls_min :: rat
  ls_max :: rat
  ls_mean :: js_number
  ls_sd :: js_number
  ls_cv :: js_number
  ls_p50 :: "rat option"
  ls_p95 :: "rat option"
  ls_p99 :: "rat option"

definition js_sum :: "js_number list \<Rightarrow> js_number" where
  "js_sum xs = foldl js_add (Finite 0) xs"

text \<open>\<^verbatim>\<open>(x - mean) ** 2\<close>: squaring a double rounds its exact square.\<close>

definition squared_deviation :: "js_number \<Rightarrow> rat \<Rightarrow> js_number" where
  "squared_deviation mean x = (let d = js_sub (Finite x) mean in js_mul d d)"

text \<open>
  The nearest-rank percentile: \<^verbatim>\<open>Math.min(n - 1, Math.max(0, Math.ceil((p / 100) * n) - 1))\<close> as an index; an index
  that is not a number reads as undefined.
\<close>

definition pct :: "rat list \<Rightarrow> rat \<Rightarrow> rat option" where
  "pct asc p =
     (let n = length asc in
      case js_mul (js_div (Finite p) (Finite 100)) (Finite (of_nat n)) of
        Finite v \<Rightarrow> Some (asc ! nat (min (int n - 1) (max 0 (\<lceil>v\<rceil> - 1))))
      | _ \<Rightarrow> None)"

definition summarize :: "rat list \<Rightarrow> js_error + latency_stats" where
  "summarize samplesMs =
     (if length samplesMs = 0 then Inl (plain_error ''summarize: no samples'')
      else
        let asc = sort samplesMs;
            n = length asc;
            mean = js_div (js_sum (map Finite asc)) (Finite (of_nat n));
            variance = (if 1 < n then js_div (js_sum (map (squared_deviation mean) asc)) (Finite (of_nat n - 1)) else Finite 0);
            sd = js_sqrt variance in
        Inr \<lparr>ls_samples = n, ls_min = asc ! 0, ls_max = asc ! (n - 1), ls_mean = mean, ls_sd = sd,
          ls_cv = (if js_less (Finite 0) mean then js_div sd mean else Finite 0),
          ls_p50 = pct asc 50, ls_p95 = pct asc 95, ls_p99 = pct asc 99\<rparr>)"

section \<open>\<^verbatim>\<open>measureManual\<close>\<close>

text \<open>
  \<open>now\<close> is \<^verbatim>\<open>performance.now()\<close> as a reading of the state, which the timed function moves on; \<open>prepare\<close> runs outside
  the timed region, with -1, -2 and so on for the warm-up and 0, 1 and so on for the samples.
\<close>

record 's manual_opts =
  mo_warmup :: nat
  mo_iterations :: nat
  mo_prepare :: "(int \<Rightarrow> (js_error, 's, unit) exec) option"

definition prepare_at :: "'s manual_opts \<Rightarrow> int \<Rightarrow> (js_error, 's, unit) exec" where
  "prepare_at opts i = (case mo_prepare opts of None \<Rightarrow> eret () | Some p \<Rightarrow> p i)"

definition timed :: "('s \<Rightarrow> js_number) \<Rightarrow> (js_error, 's, 'a) exec \<Rightarrow> (js_error, 's, js_number) exec" where
  "timed now fn s = ebind fn (\<lambda>_ s'. (Inr (js_sub (now s') (now s)), s')) s"

fun warm_up :: "'s manual_opts \<Rightarrow> (js_error, 's, 'a) exec \<Rightarrow> nat \<Rightarrow> nat \<Rightarrow> (js_error, 's, unit) exec" where
  "warm_up opts fn i 0 = eret ()"
| "warm_up opts fn i (Suc k) = ebind (prepare_at opts (-1 - int i)) (\<lambda>_. ebind fn (\<lambda>_. warm_up opts fn (Suc i) k))"

fun take_samples :: "'s manual_opts \<Rightarrow> ('s \<Rightarrow> js_number) \<Rightarrow> (js_error, 's, 'a) exec \<Rightarrow> nat \<Rightarrow> nat \<Rightarrow> (js_error, 's, js_number list) exec" where
  "take_samples opts now fn i 0 = eret []"
| "take_samples opts now fn i (Suc k) =
     ebind (prepare_at opts (int i)) (\<lambda>_. ebind (timed now fn) (\<lambda>x. ebind (take_samples opts now fn (Suc i) k) (\<lambda>xs. eret (x # xs))))"

definition measureManual :: "('s \<Rightarrow> js_number) \<Rightarrow> (js_error, 's, 'a) exec \<Rightarrow> 's manual_opts \<Rightarrow> (js_error, 's, js_number list) exec" where
  "measureManual now fn opts = ebind (warm_up opts fn 0 (mo_warmup opts)) (\<lambda>_. take_samples opts now fn 0 (mo_iterations opts))"

text \<open>A measurement that returns has one sample per iteration.\<close>

lemma take_samples_length: "take_samples opts now fn i k s = (Inr xs, t) \<Longrightarrow> length xs = k"
  by (induction opts now fn i k arbitrary: s xs t rule: take_samples.induct) (auto elim!: ebind_InrE)

lemma measureManual_length: "measureManual now fn opts s = (Inr xs, t) \<Longrightarrow> length xs = mo_iterations opts"
  unfolding measureManual_def by (elim ebind_InrE) (rule take_samples_length)

section \<open>Reading lists of numbers\<close>

fun split_commas :: "jsstr \<Rightarrow> jsstr list" where
  "split_commas [] = [[]]"
| "split_commas (c # cs) =
     (if c = 44 then [] # split_commas cs
      else case split_commas cs of [] \<Rightarrow> [[c]] | t # ts \<Rightarrow> (c # t) # ts)"

definition positive_numbers :: "js_number list \<Rightarrow> rat list" where
  "positive_numbers xs = List.map_filter (\<lambda>x. case x of Finite y \<Rightarrow> if 0 < y then Some y else None | _ \<Rightarrow> None) xs"

definition parseNums :: "jsstr option \<Rightarrow> rat list option" where
  "parseNums v =
     (case v of
        None \<Rightarrow> None
      | Some s \<Rightarrow>
          (if s = [] then None
           else let nums = positive_numbers (map (\<lambda>t. Number (trim t)) (split_commas s)) in if 0 < length nums then Some nums else None))"

section \<open>The smoke guard\<close>

definition REGRESSION_FACTOR :: js_number where
  "REGRESSION_FACTOR = Finite 10"

datatype smoke_line = Skipped string | Compared string js_number bool

definition compare_p99 :: "(string \<Rightarrow> js_number option) \<Rightarrow> string \<times> js_number \<Rightarrow> smoke_line" where
  "compare_p99 baseline m =
     (case baseline (fst m) of
        None \<Rightarrow> Skipped (fst m)
      | Some base \<Rightarrow>
          let ratio = (if js_less (Finite 0) base then js_div (snd m) base else Finite 1) in
          Compared (fst m) ratio (js_less REGRESSION_FACTOR ratio))"

definition smoke_flags :: "smoke_line list \<Rightarrow> nat" where
  "smoke_flags ls = length (filter (\<lambda>l. case l of Compared _ _ suspect \<Rightarrow> suspect | _ \<Rightarrow> False) ls)"

text \<open>What the guard reports, and its exit status: without a baseline nothing is compared; a warning does not fail the run.\<close>

datatype baseline_load = Loaded "string \<Rightarrow> js_number option" | Missing | Corrupt

definition smoke_report :: "baseline_load \<Rightarrow> (string \<times> js_number) list \<Rightarrow> smoke_line list option \<times> nat" where
  "smoke_report load measured =
     (case load of Loaded baseline \<Rightarrow> (Some (map (compare_p99 baseline) measured), 0) | _ \<Rightarrow> (None, 0))"

section \<open>The percentiles are exact order statistics\<close>

lemma log2_floor_unique: "0 < x \<Longrightarrow> 2 powi k \<le> x \<Longrightarrow> x < 2 powi (k + 1) \<Longrightarrow> log2_floor x = k"
proof -
  assume x: "0 < x" "2 powi k \<le> x" "x < 2 powi (k + 1)"
  from log2_floor_bounds [OF x(1)] x have "(2 :: rat) powi log2_floor x < 2 powi (k + 1)" "(2 :: rat) powi k < 2 powi (log2_floor x + 1)" by linarith+
  then show ?thesis by (simp only: powi_2_less_iff)
qed

text \<open>The three fractions as doubles: exact, and rounded down.\<close>

lemma fractions:
  "js_div (Finite 50) (Finite 100) = Finite (1 / 2)"
  "js_div (Finite 95) (Finite 100) = Finite (8556839292003942 / 2 ^ 53)"
  "js_div (Finite 99) (Finite 100) = Finite (8917127262193582 / 2 ^ 53)"
proof -
  have half: "log2_floor (1 / 2) = - 1" "log2_floor (19 / 20) = - 1" "log2_floor (99 / 100) = - 1"
    by (rule log2_floor_unique; simp add: power_int_minus)+
  have r: "round_even (4503599627370496) = 4503599627370496" using round_even_int [of 4503599627370496] by simp
  have f: "\<lfloor>42784196460019712 / 5 :: rat\<rfloor> = 8556839292003942" "\<lfloor>222928181554839552 / 25 :: rat\<rfloor> = 8917127262193582"
    by (rule floor_unique; simp)+
  show "js_div (Finite 50) (Finite 100) = Finite (1 / 2)"
    by (simp add: rounded_def to_double_def half Let_def power_int_minus r)
  show "js_div (Finite 95) (Finite 100) = Finite (8556839292003942 / 2 ^ 53)"
    by (simp add: rounded_def to_double_def half Let_def power_int_minus round_even_def f)
  show "js_div (Finite 99) (Finite 100) = Finite (8917127262193582 / 2 ^ 53)"
    by (simp add: rounded_def to_double_def half Let_def power_int_minus round_even_def f)
qed

lemma rank_exact:
  assumes c: "js_div (Finite (of_nat p)) (Finite 100) = Finite c" "c \<le> of_nat p / 100" "of_nat p / 100 - c \<le> 1 / 2 ^ 53" "1 / 2 \<le> c" "c \<le> 1"
    and n: "0 < n" "n < 2 ^ 40"
  obtains v where "js_mul (js_div (Finite (of_nat p)) (Finite 100)) (Finite (of_nat n)) = Finite v" and "\<lceil>v\<rceil> = \<lceil>of_nat (p * n) / 100 :: rat\<rceil>"
proof -
  define N :: rat where "N = of_nat n"
  have N: "1 \<le> N" "N \<le> 2 ^ 40"
    using n of_nat_le_iff [of 1 n, where ?'a = rat] of_nat_le_iff [of n "2 ^ 40", where ?'a = rat] by (auto simp: N_def)
  have low: "1 / 1024 \<le> c * N" using mult_mono [OF c(4) N(1)] c(4) by simp
  have high: "c * N \<le> 2 ^ 40" using mult_mono [OF c(5) N(2)] c(4) N by simp
  then have "c * N \<le> 2 ^ 50" by (rule order_trans) simp
  from rounded_bounds [OF low this] obtain v where
    v: "rounded (c * N) = Finite v" "\<bar>v - c * N\<bar> \<le> c * N / 2 ^ 53" "\<And>i. c * N \<le> of_int i \<Longrightarrow> i \<le> 2 ^ 52 \<Longrightarrow> v \<le> of_int i" by blast
  define m where "m = \<lceil>of_nat (p * n) / 100 :: rat\<rceil>"
  have x: "of_nat (p * n) / 100 = of_nat p / 100 * N" by (simp add: N_def)
  have "of_nat p / 100 \<le> (2 :: rat)" using c(3,5) by simp
  then have pn: "of_nat p / 100 * N \<le> 2 ^ 41" using mult_mono [of "of_nat p / 100" 2 N "2 ^ 40"] N by simp
  have "c * N \<le> of_nat p / 100 * N" using c(2) N(1) by (simp add: mult_right_mono)
  then have up: "c * N \<le> of_int m" using le_of_int_ceiling [of "of_nat (p * n) / 100 :: rat"] unfolding m_def x by linarith
  have "m \<le> 2 ^ 41" unfolding m_def x ceiling_le_iff using pn by simp
  then have le: "v \<le> of_int m" using v(3) [OF up] by simp
  have "(of_nat p / 100 - c) * N \<le> 1 / 2 ^ 53 * 2 ^ 40" using mult_mono [OF c(3) N(2)] N c(2) by simp
  then have near: "of_nat p / 100 * N - c * N \<le> 1 / 8192" by (simp add: left_diff_distrib)
  have "c * N / 2 ^ 53 \<le> 1 / 8192" using high by (simp add: mult.commute)
  with v(2) have "c * N - v \<le> 1 / 8192" by linarith
  with near have gap: "of_nat p / 100 * N - v < 1 / 100" by linarith
  have "of_int (m - 1) < (of_nat (p * n) / 100 :: rat)" unfolding m_def by linarith
  then have "of_int (100 * (m - 1)) < (of_int (int (p * n)) :: rat)" by simp
  then have "100 * (m - 1) + 1 \<le> int (p * n)" by (simp only: of_int_less_iff)
  then have "of_int (100 * (m - 1) + 1) \<le> (of_int (int (p * n)) :: rat)" by (simp only: of_int_le_iff)
  then have "of_int m - 1 + 1 / 100 \<le> of_nat p / 100 * N" by (simp add: N_def)
  then have "of_int m - 1 < v" using gap by linarith
  with le have "\<lceil>v\<rceil> = m" by linarith
  then have "\<lceil>v\<rceil> = \<lceil>of_nat (p * n) / 100 :: rat\<rceil>" by (simp only: m_def)
  moreover have "js_mul (js_div (Finite (of_nat p)) (Finite 100)) (Finite (of_nat n)) = Finite v"
    unfolding c(1) using v(1) by (simp add: N_def)
  ultimately show thesis by (intro that)
qed

text \<open>
  The element of rank \<open>k\<close> of a multiset of samples: at least \<open>k\<close> samples are no greater, and fewer than \<open>k\<close> are
  smaller.
\<close>

definition nearest_rank :: "nat \<Rightarrow> rat list \<Rightarrow> rat \<Rightarrow> bool" where
  "nearest_rank k xs v \<longleftrightarrow> v \<in> set xs \<and> k \<le> length (filter (\<lambda>x. x \<le> v) xs) \<and> length (filter (\<lambda>x. x < v) xs) < k"

lemma nearest_rank_sort:
  assumes "i < length xs"
  shows "nearest_rank (Suc i) xs (sort xs ! i)"
proof -
  define ys where "ys = sort xs"
  have ys: "sorted ys" "i < length ys" using assms by (simp_all add: ys_def)
  have count: "length (filter P xs) = length (filter P ys)" for P
    unfolding ys_def by (simp add: filter_sort)
  have split: "filter P ys = filter P (take k ys) @ filter P (drop k ys)" for P k
    by (metis append_take_drop_id filter_append)
  have "filter (\<lambda>x. x \<le> ys ! i) (take (Suc i) ys) = take (Suc i) ys"
    using sorted_nth_mono [OF ys(1) _ ys(2)] by (auto simp: filter_id_conv in_set_conv_nth less_Suc_eq_le)
  then have "Suc i \<le> length (filter (\<lambda>x. x \<le> ys ! i) ys)" using ys(2) by (simp add: split [of _ "Suc i"])
  moreover have "filter (\<lambda>x. x < ys ! i) (drop i ys) = []"
    using sorted_nth_mono [OF ys(1), of i] by (auto simp: filter_empty_conv in_set_conv_nth not_less)
  then have "length (filter (\<lambda>x. x < ys ! i) ys) \<le> i" using ys(2) by (simp add: split [of _ i] order_trans [OF length_filter_le])
  moreover have "ys ! i \<in> set xs" using ys(2) nth_mem [of i ys] by (simp add: ys_def)
  ultimately show ?thesis unfolding nearest_rank_def count ys_def by simp
qed

definition rank_of :: "nat \<Rightarrow> nat \<Rightarrow> nat" where
  "rank_of p n = nat \<lceil>of_nat (p * n) / 100 :: rat\<rceil>"

lemma pct_rank:
  assumes c: "js_div (Finite (of_nat p)) (Finite 100) = Finite c" "c \<le> of_nat p / 100" "of_nat p / 100 - c \<le> 1 / 2 ^ 53" "1 / 2 \<le> c" "c \<le> 1"
    and p: "0 < p" "p \<le> 100" and xs: "xs \<noteq> []" "length xs < 2 ^ 40"
  obtains v where "pct (sort xs) (of_nat p) = Some v" and "nearest_rank (rank_of p (length xs)) xs v"
proof -
  define n where "n = length xs"
  have n: "0 < n" "n < 2 ^ 40" using xs by (simp_all add: n_def)
  obtain r where r: "js_mul (js_div (Finite (of_nat p)) (Finite 100)) (Finite (of_nat n)) = Finite r" "\<lceil>r\<rceil> = \<lceil>of_nat (p * n) / 100 :: rat\<rceil>"
    by (rule rank_exact [OF c n])
  define m where "m = \<lceil>of_nat (p * n) / 100 :: rat\<rceil>"
  have "0 < of_nat (p * n) / (100 :: rat)" using p(1) n(1) by simp
  then have m1: "1 \<le> m" unfolding m_def by linarith
  have "p * n \<le> 100 * n" using p(2) by simp
  then have "of_nat (p * n) \<le> (of_nat (100 * n) :: rat)" by (simp only: of_nat_le_iff)
  then have m2: "m \<le> int n" unfolding m_def ceiling_le_iff by simp
  have "nat (min (int n - 1) (max 0 (\<lceil>r\<rceil> - 1))) = nat (m - 1)" unfolding r(2) m_def [symmetric] using m1 m2 by simp
  then have "pct (sort xs) (of_nat p) = Some (sort xs ! nat (m - 1))" using r(1) by (simp add: pct_def n_def Let_def)
  moreover have "nearest_rank (rank_of p (length xs)) xs (sort xs ! nat (m - 1))"
    using nearest_rank_sort [of "nat (m - 1)" xs] m1 m2
    unfolding rank_of_def n_def [symmetric] m_def [symmetric] by (simp add: Suc_nat_eq_nat_zadd1)
  ultimately show thesis by (rule that)
qed

lemma nearest_rank_mono:
  assumes "nearest_rank j xs v" and "nearest_rank k xs w" and "j \<le> k"
  shows "v \<le> w"
proof (rule ccontr)
  assume "\<not> v \<le> w"
  then have "length (filter (\<lambda>x. x \<le> w) xs) \<le> length (filter (\<lambda>x. x < v) xs)" by (induction xs) auto
  with assms show False by (auto simp: nearest_rank_def)
qed

lemma rank_of_mono: "p \<le> q \<Longrightarrow> rank_of p n \<le> rank_of q n"
  unfolding rank_of_def by (intro nat_mono ceiling_mono divide_right_mono) (auto simp: mult_right_mono)

lemma sort_ends:
  fixes xs :: "rat list"
  assumes "xs \<noteq> []"
  shows "sort xs ! 0 = Min (set xs)" and "sort xs ! (length xs - 1) = Max (set xs)"
proof -
  have mem: "sort xs ! i \<in> set xs" if "i < length xs" for i using nth_mem [of i "sort xs"] that by simp
  have ord: "sort xs ! 0 \<le> x \<and> x \<le> sort xs ! (length xs - 1)" if x: "x \<in> set xs" for x
  proof -
    obtain i where i: "i < length xs" "x = sort xs ! i" using x in_set_conv_nth [of x "sort xs"] by auto
    have last: "length xs - 1 < length (sort xs)" using i(1) by simp
    have "i \<le> length xs - 1" using i(1) by linarith
    then show ?thesis using i sorted_nth_mono [OF sorted_sort, of 0 i xs] sorted_nth_mono [OF sorted_sort _ last, of i] by simp
  qed
  show "sort xs ! 0 = Min (set xs)" using mem [of 0] ord assms by (intro Min_eqI [symmetric]) auto
  show "sort xs ! (length xs - 1) = Max (set xs)" using mem [of "length xs - 1"] ord assms by (intro Max_eqI [symmetric]) auto
qed

lemma percentiles:
  assumes "xs \<noteq> []" and "length xs < 2 ^ 40"
  obtains p50 p95 p99 where "pct (sort xs) 50 = Some p50" "nearest_rank (rank_of 50 (length xs)) xs p50"
    and "pct (sort xs) 95 = Some p95" "nearest_rank (rank_of 95 (length xs)) xs p95"
    and "pct (sort xs) 99 = Some p99" "nearest_rank (rank_of 99 (length xs)) xs p99"
proof -
  obtain p50 where "pct (sort xs) (of_nat 50) = Some p50" "nearest_rank (rank_of 50 (length xs)) xs p50"
    by (rule pct_rank [of 50 "1 / 2" xs]) (use assms fractions in simp_all)
  moreover obtain p95 where "pct (sort xs) (of_nat 95) = Some p95" "nearest_rank (rank_of 95 (length xs)) xs p95"
    by (rule pct_rank [of 95 "8556839292003942 / 2 ^ 53" xs]) (use assms fractions in simp_all)
  moreover obtain p99 where "pct (sort xs) (of_nat 99) = Some p99" "nearest_rank (rank_of 99 (length xs)) xs p99"
    by (rule pct_rank [of 99 "8917127262193582 / 2 ^ 53" xs]) (use assms fractions in simp_all)
  ultimately show thesis using that by simp
qed

text \<open>
  A summary is refused when there are no samples, and otherwise its percentiles are exact: although \<^verbatim>\<open>p / 100\<close> and
  its product with the sample count are rounded doubles (95/100 and 99/100 are both rounded down), for every sample
  count below 2^40 the index that \<^verbatim>\<open>Math.ceil\<close> gives is the nearest rank of exact arithmetic, so p50, p95 and p99 are
  samples with at least \<open>\<lceil>p n / 100\<rceil>\<close> samples at or below them and fewer than that many below; they are ordered, and
  lie between the least and the greatest sample. The order of the samples does not matter.
\<close>

lemma summarize_exact:
  "summarize [] = Inl (plain_error ''summarize: no samples'') \<and>
   (xs \<noteq> [] \<and> length xs < 2 ^ 40 \<longrightarrow>
     (\<exists>r p50 p95 p99. summarize xs = Inr r \<and> ls_samples r = length xs \<and>
        ls_p50 r = Some p50 \<and> nearest_rank (rank_of 50 (length xs)) xs p50 \<and>
        ls_p95 r = Some p95 \<and> nearest_rank (rank_of 95 (length xs)) xs p95 \<and>
        ls_p99 r = Some p99 \<and> nearest_rank (rank_of 99 (length xs)) xs p99 \<and>
        ls_min r = Min (set xs) \<and> ls_max r = Max (set xs) \<and>
        ls_min r \<le> p50 \<and> p50 \<le> p95 \<and> p95 \<le> p99 \<and> p99 \<le> ls_max r)) \<and>
   (\<forall>ys. sort ys = sort xs \<longrightarrow> summarize ys = summarize xs)"
proof (intro conjI impI allI)
  assume "xs \<noteq> [] \<and> length xs < 2 ^ 40"
  then have xs: "xs \<noteq> []" "length xs < 2 ^ 40" by blast+
  obtain p50 p95 p99 where p: "pct (sort xs) 50 = Some p50" "nearest_rank (rank_of 50 (length xs)) xs p50"
    "pct (sort xs) 95 = Some p95" "nearest_rank (rank_of 95 (length xs)) xs p95"
    "pct (sort xs) 99 = Some p99" "nearest_rank (rank_of 99 (length xs)) xs p99" by (rule percentiles [OF xs])
  have mem: "p50 \<in> set xs" "p99 \<in> set xs" using p by (simp_all add: nearest_rank_def)
  have "p50 \<le> p95" "p95 \<le> p99" by (rule nearest_rank_mono [OF p(2,4)] nearest_rank_mono [OF p(4,6)], simp add: rank_of_mono)+
  then show "\<exists>r p50 p95 p99. summarize xs = Inr r \<and> ls_samples r = length xs \<and>
        ls_p50 r = Some p50 \<and> nearest_rank (rank_of 50 (length xs)) xs p50 \<and>
        ls_p95 r = Some p95 \<and> nearest_rank (rank_of 95 (length xs)) xs p95 \<and>
        ls_p99 r = Some p99 \<and> nearest_rank (rank_of 99 (length xs)) xs p99 \<and>
        ls_min r = Min (set xs) \<and> ls_max r = Max (set xs) \<and>
        ls_min r \<le> p50 \<and> p50 \<le> p95 \<and> p95 \<le> p99 \<and> p99 \<le> ls_max r"
    using p mem sort_ends [OF xs(1)] xs(1) by (simp add: summarize_def Let_def)
next
  fix ys assume eq: "sort ys = sort xs"
  then have "length ys = length xs" by (metis length_sort)
  with eq show "summarize ys = summarize xs" by (simp only: summarize_def Let_def)
qed (simp add: summarize_def)

end
