(* ===== verification/BenchGc.thy ===== *)
theory BenchGc
  imports BenchStats CheckpointStore
begin

text \<open>
  The garbage-collection scale benchmark, \<^verbatim>\<open>src/bench/workloads/gc.ts\<close>: the fixture of live chunks it builds with SQL of
  its own, the timed passes of the real \<open>prune\<close>, and the rule that decides whether the curve has a cliff. The wording of
  the notes is left out; what they report is kept as data.
\<close>

section \<open>The cliff rule\<close>

definition K :: js_number where
  "K = Finite 2"

definition D_MS :: js_number where
  "D_MS = Finite 5000"

definition ENVELOPE_MIN_CHUNKS :: rat where
  "ENVELOPE_MIN_CHUNKS = 100000"

definition ENVELOPE_MAX_CHUNKS :: rat where
  "ENVELOPE_MAX_CHUNKS = 1000000"

definition GC_DECLARED_ENVELOPE :: "rat \<times> rat" where
  "GC_DECLARED_ENVELOPE = (ENVELOPE_MIN_CHUNKS, ENVELOPE_MAX_CHUNKS)"

record gc_point =
  gp_liveChunks :: nat
  gp_passMs :: js_number

datatype cliff_reason = NoCliff | K_superlinear | D_absolute

record cliff_determination =
  cd_met :: bool
  cd_reason :: cliff_reason
  cd_firstMetLiveChunks :: "nat option"

definition inEnvelope :: "rat \<Rightarrow> rat \<Rightarrow> gc_point \<Rightarrow> bool" where
  "inEnvelope envMin envMax p \<longleftrightarrow> envMin \<le> of_nat (gp_liveChunks p) \<and> of_nat (gp_liveChunks p) \<le> envMax"

definition superlinear :: "js_number \<Rightarrow> gc_point \<Rightarrow> gc_point \<Rightarrow> bool" where
  "superlinear k prev cur =
     (let chunkGrowth = js_div (Finite (of_nat (gp_liveChunks cur))) (js_max (Finite (of_nat (gp_liveChunks prev))) (Finite 1));
          durGrowth = js_div (gp_passMs cur) (js_max (gp_passMs prev) (rounded (1 / 1000))) in
      js_less (Finite 1) chunkGrowth \<and> js_less (js_mul k chunkGrowth) durGrowth)"

text \<open>The loop over the points, with the point before the current one.\<close>

fun adjudicate_from :: "rat \<Rightarrow> rat \<Rightarrow> js_number \<Rightarrow> js_number \<Rightarrow> gc_point option \<Rightarrow> gc_point list \<Rightarrow> cliff_determination" where
  "adjudicate_from envMin envMax k d prev [] = \<lparr>cd_met = False, cd_reason = NoCliff, cd_firstMetLiveChunks = None\<rparr>"
| "adjudicate_from envMin envMax k d prev (cur # rest) =
     (if \<not> inEnvelope envMin envMax cur then adjudicate_from envMin envMax k d (Some cur) rest
      else if js_less d (gp_passMs cur)
      then \<lparr>cd_met = True, cd_reason = D_absolute, cd_firstMetLiveChunks = Some (gp_liveChunks cur)\<rparr>
      else case prev of
          None \<Rightarrow> adjudicate_from envMin envMax k d (Some cur) rest
        | Some p \<Rightarrow>
            (if superlinear k p cur
             then \<lparr>cd_met = True, cd_reason = K_superlinear, cd_firstMetLiveChunks = Some (gp_liveChunks cur)\<rparr>
             else adjudicate_from envMin envMax k d (Some cur) rest))"

definition adjudicate :: "gc_point list \<Rightarrow> rat \<Rightarrow> rat \<Rightarrow> js_number \<Rightarrow> js_number \<Rightarrow> cliff_determination" where
  "adjudicate allPoints envMin envMax k d = adjudicate_from envMin envMax k d None allPoints"

section \<open>The fixture\<close>

text \<open>
  A statement outside a transaction: it takes effect as a whole or not at all. A number bound to \<^verbatim>\<open>::int\<close> travels as its
  decimal text, which the server reads as a 32-bit integer; from 10^21 on that text has an exponent.
\<close>

definition autocommit :: "'a dbrun \<Rightarrow> 'a dbrun" where
  "autocommit m d = (case m d of (Inl e, _) \<Rightarrow> (Inl e, d) | (Inr a, d') \<Rightarrow> (Inr a, d'))"

definition int_param :: "rat \<Rightarrow> js_error + int" where
  "int_param x =
     (if of_int \<lfloor>x\<rfloor> \<noteq> x \<or> 10 ^ 21 \<le> x then Inl (pg_error ''22P02'' None)
      else if 2 ^ 31 \<le> x then Inl (pg_error ''22003'' None)
      else Inr \<lfloor>x\<rfloor>)"

text \<open>\<^verbatim>\<open>sha256(g::text::bytea)\<close>, and \<^verbatim>\<open>decode(lpad(to_hex(g), 8, '0'), 'hex')\<close>: four bytes, the greatest first.\<close>

definition ascii_bytes :: "jsstr \<Rightarrow> bytes" where
  "ascii_bytes s = map (\<lambda>c. of_nat (unat c)) s"

definition fixture_hash :: "(bytes \<Rightarrow> bytes) \<Rightarrow> nat \<Rightarrow> bytes" where
  "fixture_hash sha g = sha (ascii_bytes (dec g))"

definition fixture_data :: "nat \<Rightarrow> bytes" where
  "fixture_data g = map (\<lambda>i. of_nat (g div 256 ^ i)) [3, 2, 1, 0]"

text \<open>Twenty-five minutes, in microseconds.\<close>

definition BACKDATE :: int where
  "BACKDATE = 25 * 60 * 1000000"

definition insert_fixture_chunk :: "(bytes \<Rightarrow> bytes) \<Rightarrow> pg_env \<Rightarrow> nat \<Rightarrow> unit dbrun" where
  "insert_fixture_chunk sha env g d =
     (case map_of (ckpt_chunks d) (fixture_hash sha g) of
        Some _ \<Rightarrow> (Inr (), d)
      | None \<Rightarrow> (Inr (), d\<lparr>ckpt_chunks := ckpt_chunks d @
          [(fixture_hash sha g, \<lparr>ch_data = fixture_data g, ch_created_at = env_now env - BACKDATE\<rparr>)]\<rparr>))"

definition insert_fixture_junction :: "(bytes \<Rightarrow> bytes) \<Rightarrow> int \<Rightarrow> nat \<Rightarrow> unit dbrun" where
  "insert_fixture_junction sha manifestId g d =
     (if list_ex (\<lambda>x. mc_manifest_id x = manifestId \<and> mc_position x = g) (ckpt_manifest_chunks d) then (Inr (), d)
      else insert_junction_row \<lparr>mc_manifest_id = manifestId, mc_position = g, mc_chunk_hash = fixture_hash sha g\<rparr> d)"

definition BATCH :: nat where
  "BATCH = 50000"

text \<open>The integers the server generates, or its refusal of a bound.\<close>

definition generate_series :: "rat \<Rightarrow> rat \<Rightarrow> js_error + nat list" where
  "generate_series a b =
     (case int_param a of
        Inl e \<Rightarrow> Inl e
      | Inr lo \<Rightarrow> (case int_param b of Inl e \<Rightarrow> Inl e | Inr hi \<Rightarrow> Inr [nat lo..<nat (hi + 1)]))"

definition populate_batch :: "(bytes \<Rightarrow> bytes) \<Rightarrow> pg_env \<Rightarrow> int \<Rightarrow> rat \<Rightarrow> rat \<Rightarrow> unit dbrun" where
  "populate_batch sha env manifestId s e =
     ebind (stmt env 0 (autocommit (ebind (elift (generate_series (s + 1) e)) (eforeach (insert_fixture_chunk sha env))))) (\<lambda>_.
       stmt env 1 (autocommit (ebind (elift (generate_series (s + 1) e)) (eforeach (insert_fixture_junction sha manifestId)))))"

text \<open>\<open>envs\<close> is the server at each batch of a call.\<close>

function populateChunks :: "(bytes \<Rightarrow> bytes) \<Rightarrow> (nat \<Rightarrow> pg_env) \<Rightarrow> int \<Rightarrow> nat \<Rightarrow> rat \<Rightarrow> unit dbrun" where
  "populateChunks sha envs manifestId s target =
     (if of_nat s < target
      then ebind (populate_batch sha (envs s) manifestId (of_nat s) (min (of_nat (s + BATCH)) target))
             (\<lambda>_. populateChunks sha envs manifestId (s + BATCH) target)
      else eret ())"
  by pat_completeness auto
termination
proof (relation "measure (\<lambda>(_, _, _, s, target). nat (\<lceil>target\<rceil> - int s))")
  fix sha :: "bytes \<Rightarrow> bytes" and envs :: "nat \<Rightarrow> pg_env" and mid :: int and s :: nat and target :: rat and x :: unit
  assume "of_nat s < target"
  then have "int s < \<lceil>target\<rceil>" by (simp add: less_ceiling_iff)
  then show "((sha, envs, mid, s + BATCH, target), sha, envs, mid, s, target) \<in> measure (\<lambda>(_, _, _, s, target). nat (\<lceil>target\<rceil> - int s))"
    by (simp add: BATCH_def)
qed simp

declare populateChunks.simps [simp del]

section \<open>The measured run\<close>

text \<open>
  The outside of a run: the server and the faults at every statement of the fixture and every pass, and the readings of
  \<^verbatim>\<open>performance.now()\<close> in the order they are taken (one at the start, three for every point).
\<close>

record gc_outside =
  go_setup :: pg_env
  go_populate :: "nat \<Rightarrow> nat \<Rightarrow> pg_env"
  go_pass :: "nat \<Rightarrow> pg_env"
  go_faults :: "nat \<Rightarrow> tx_faults"
  go_clock :: "nat \<Rightarrow> rat"

record gc_scale_opts =
  gs_points :: "rat list"
  gs_targetEnvelope :: "rat \<times> rat"
  gs_budgetMs :: js_number

definition measureGcPass :: "gc_outside \<Rightarrow> nat \<Rightarrow> js_number run" where
  "measureGcPass out i =
     ebind (prune (go_pass out i) (go_faults out i) (js ''gc'') (js ''bench'') 1000000 NoSignal)
       (\<lambda>_. eret (js_sub (Finite (go_clock out (3 * i + 3))) (Finite (go_clock out (3 * i + 2)))))"

fun gc_points :: "(bytes \<Rightarrow> bytes) \<Rightarrow> gc_outside \<Rightarrow> js_number \<Rightarrow> int \<Rightarrow> nat \<Rightarrow> nat \<Rightarrow> rat list \<Rightarrow> (gc_point list \<times> bool) run" where
  "gc_points sha out budgetMs manifestId i populated [] = eret ([], False)"
| "gc_points sha out budgetMs manifestId i populated (target # rest) =
     (if js_less budgetMs (js_sub (Finite (go_clock out (3 * i + 1))) (Finite (go_clock out 0))) then eret ([], True)
      else
        ebind (if of_nat populated < target
               then ebind (on_db (populateChunks sha (go_populate out i) manifestId populated target)) (\<lambda>_. eret (nat \<lfloor>target\<rfloor>))
               else eret populated) (\<lambda>populated'.
        ebind (measureGcPass out i) (\<lambda>passMs.
        ebind (gc_points sha out budgetMs manifestId (Suc i) populated' rest) (\<lambda>(points, stopped).
          eret (\<lparr>gp_liveChunks = populated', gp_passMs = passMs\<rparr> # points, stopped)))))"

definition truncate_checkpoints :: "unit dbrun" where
  "truncate_checkpoints d =
     (Inr (), d\<lparr>ckpt_manifest_chunks := [], ckpt_manifests := [], ckpt_chunks := [], ckpt_sequence_counters := []\<rparr>)"

record gc_curve =
  gc_targetMinChunks :: rat
  gc_targetMaxChunks :: rat
  gc_actualMinChunks :: nat
  gc_actualMaxChunks :: nat
  gc_cappedBelowTarget :: bool
  gc_stoppedForBudget :: bool
  gc_K :: js_number
  gc_D_ms :: js_number
  gc_curve_points :: "gc_point list"
  gc_cliffDetermination :: cliff_determination

definition gc_curve_of :: "gc_scale_opts \<Rightarrow> gc_point list \<Rightarrow> bool \<Rightarrow> gc_curve" where
  "gc_curve_of opts points stopped =
     (let actualMax = (if 0 < length points then gp_liveChunks (points ! (length points - 1)) else 0) in
      \<lparr>gc_targetMinChunks = fst (gs_targetEnvelope opts), gc_targetMaxChunks = snd (gs_targetEnvelope opts),
       gc_actualMinChunks = (if 0 < length points then gp_liveChunks (points ! 0) else 0), gc_actualMaxChunks = actualMax,
       gc_cappedBelowTarget = (of_nat actualMax < snd (gs_targetEnvelope opts)), gc_stoppedForBudget = stopped,
       gc_K = K, gc_D_ms = D_MS, gc_curve_points = points,
       gc_cliffDetermination = adjudicate points (fst (gs_targetEnvelope opts)) (snd (gs_targetEnvelope opts)) K D_MS\<rparr>)"

definition runGcScale :: "(bytes \<Rightarrow> bytes) \<Rightarrow> gc_outside \<Rightarrow> gc_scale_opts \<Rightarrow> gc_curve run" where
  "runGcScale sha out opts =
     ebind (on_db (stmt (go_setup out) 0 truncate_checkpoints)) (\<lambda>_.
     ebind (on_db (stmt (go_setup out) 1
              (insert_manifest (go_setup out) (js ''gc'') (js ''bench'') 1 (sha (ascii_bytes (js ''gc-manifest''))) None))) (\<lambda>row.
     ebind (gc_points sha out (gs_budgetMs opts) (m_id row) 0 0 (sort (gs_points opts))) (\<lambda>(points, stopped).
       eret (gc_curve_of opts points stopped))))"

section \<open>The fixture is what the curve says\<close>

definition other_rows :: "db \<Rightarrow> (kvkey \<times> kv_current_row) list \<times> kv_history_row list \<times> ((jsstr \<times> jsstr) \<times> watermark_row) list \<times> ((jsstr \<times> jsstr) \<times> tx_history_row) list" where
  "other_rows d = (kv_current d, kv_history d, watermarks d, transaction_history d)"

text \<open>
  The fixture of \<open>n\<close> live chunks: one complete manifest, the chunks of 1 to \<open>n\<close>, each with the junction row that
  references it, and each older than \<open>T\<close> by the backdating.
\<close>

definition fixture :: "(bytes \<Rightarrow> bytes) \<Rightarrow> int \<Rightarrow> int \<Rightarrow> nat \<Rightarrow> db \<Rightarrow> bool" where
  "fixture sha T mid n d \<longleftrightarrow>
     (\<exists>m. ckpt_manifests d = [m] \<and> m_id m = mid) \<and>
     map fst (ckpt_chunks d) = map (fixture_hash sha) [1..<Suc n] \<and>
     ckpt_manifest_chunks d = map (\<lambda>g. \<lparr>mc_manifest_id = mid, mc_position = g, mc_chunk_hash = fixture_hash sha g\<rparr>) [1..<Suc n] \<and>
     (\<forall>hr \<in> set (ckpt_chunks d). ch_created_at (snd hr) \<le> T - BACKDATE)"

lemma fixture_chunks:
  assumes inj: "inj_on (fixture_hash sha) {1..<b}" and T: "env_now env \<le> T" and ab: "1 \<le> a" "a \<le> b"
    and d: "map fst (ckpt_chunks d) = map (fixture_hash sha) [1..<a]" "\<forall>hr \<in> set (ckpt_chunks d). ch_created_at (snd hr) \<le> T - BACKDATE"
  shows "\<exists>cs. eforeach (insert_fixture_chunk sha env) [a..<b] d = (Inr (), d\<lparr>ckpt_chunks := cs\<rparr>) \<and>
    map fst cs = map (fixture_hash sha) [1..<b] \<and> (\<forall>hr \<in> set cs. ch_created_at (snd hr) \<le> T - BACKDATE)"
  using ab(2,1) inj
proof (induction b rule: dec_induct)
  case base
  then show ?case using d by (intro exI [of _ "ckpt_chunks d"]) simp
next
  case (step b)
  then have "inj_on (fixture_hash sha) {1..<b}" by (auto elim: inj_on_subset)
  with step obtain cs where cs: "eforeach (insert_fixture_chunk sha env) [a..<b] d = (Inr (), d\<lparr>ckpt_chunks := cs\<rparr>)"
    "map fst cs = map (fixture_hash sha) [1..<b]" "\<forall>hr \<in> set cs. ch_created_at (snd hr) \<le> T - BACKDATE" by blast
  have "fixture_hash sha b \<notin> fixture_hash sha ` set [1..<b]" using step.prems step.hyps by (force simp: inj_on_def)
  then have "fixture_hash sha b \<notin> set (map fst cs)" unfolding cs(2) by simp
  then have none: "map_of cs (fixture_hash sha b) = None" by (simp add: map_of_eq_None_iff)
  let ?cs = "cs @ [(fixture_hash sha b, \<lparr>ch_data = fixture_data b, ch_created_at = env_now env - BACKDATE\<rparr>)]"
  have "eforeach (insert_fixture_chunk sha env) [a..<Suc b] d = (Inr (), d\<lparr>ckpt_chunks := ?cs\<rparr>)"
    using step.hyps cs(1) none by (simp add: eforeach_append ebind_def insert_fixture_chunk_def)
  moreover have "map fst ?cs = map (fixture_hash sha) [1..<Suc b]" using cs(2) step by simp
  ultimately show ?case using cs(3) T by (intro exI [of _ ?cs]) auto
qed

lemma fixture_junctions:
  assumes ab: "1 \<le> a" "a \<le> b" and b: "b \<le> 2 ^ 31" and m: "list_ex (\<lambda>m. m_id m = mid) (ckpt_manifests d)"
    and c: "fixture_hash sha ` {1..<b} \<subseteq> dom (map_of (ckpt_chunks d))"
    and j: "ckpt_manifest_chunks d = map (\<lambda>g. \<lparr>mc_manifest_id = mid, mc_position = g, mc_chunk_hash = fixture_hash sha g\<rparr>) [1..<a]"
  shows "eforeach (insert_fixture_junction sha mid) [a..<b] d = (Inr (), d\<lparr>ckpt_manifest_chunks :=
    map (\<lambda>g. \<lparr>mc_manifest_id = mid, mc_position = g, mc_chunk_hash = fixture_hash sha g\<rparr>) [1..<b]\<rparr>)"
  using ab(2,1) b c
proof (induction b rule: dec_induct)
  case base
  then show ?case using j by simp
next
  case (step b)
  then have "fixture_hash sha b \<in> dom (map_of (ckpt_chunks d))" by (intro subsetD [OF step.prems(3)]) auto
  then have "map_of (ckpt_chunks d) (fixture_hash sha b) \<noteq> None" by auto
  moreover have "fixture_hash sha ` {1..<b} \<subseteq> dom (map_of (ckpt_chunks d))"
    by (rule order_trans [OF image_mono step.prems(3)]) auto
  ultimately show ?case
    using step m by (simp add: eforeach_append ebind_def insert_fixture_junction_def insert_junction_row_def list_ex_iff)
qed

lemma generate_series_nat: "e < 2 ^ 31 \<Longrightarrow> s < e \<Longrightarrow> generate_series (of_nat s + 1) (of_nat e) = Inr [Suc s..<Suc e]"
proof -
  assume e: "e < 2 ^ 31" and s: "s < e"
  have p: "int_param (of_nat n) = Inr (int n)" if "n < 2 ^ 31" for n
  proof -
    have "(of_nat n :: rat) < 2 ^ 31" using that of_nat_less_iff [of n "2 ^ 31", where ?'a = rat] by simp
    moreover from this have "(of_nat n :: rat) < 10 ^ 21" by (rule less_trans) simp
    ultimately show ?thesis by (simp add: int_param_def)
  qed
  have "int_param (of_nat s + 1) = Inr (int (Suc s))" using p [of "Suc s"] e s by (simp add: add.commute)
  with p [OF e] show ?thesis by (simp add: generate_series_def nat_add_distrib)
qed

lemma populate_batch_run:
  assumes fx: "fixture sha T mid s d" and e: "s < e" "e < 2 ^ 31" and inj: "inj_on (fixture_hash sha) {1..e}"
    and env: "env_faults env = (\<lambda>_. None)" "env_now env \<le> T"
  obtains d' where "populate_batch sha env mid (of_nat s) (of_nat e) d = (Inr (), d')" and "fixture sha T mid e d'"
    and "other_rows d' = other_rows d" and "ckpt_manifests d' = ckpt_manifests d"
proof -
  note f = fx [unfolded fixture_def]
  let ?rows = "\<lambda>n. map (\<lambda>g. \<lparr>mc_manifest_id = mid, mc_position = g, mc_chunk_hash = fixture_hash sha g\<rparr>) [1..<Suc n]"
  obtain cs where cs: "eforeach (insert_fixture_chunk sha env) [Suc s..<Suc e] d = (Inr (), d\<lparr>ckpt_chunks := cs\<rparr>)"
    "map fst cs = map (fixture_hash sha) [1..<Suc e]" "\<forall>hr \<in> set cs. ch_created_at (snd hr) \<le> T - BACKDATE"
    using fixture_chunks [of sha "Suc e" env T "Suc s" d] inj e env f by (auto simp: atLeastLessThanSuc_atLeastAtMost)
  have dom: "dom (map_of cs) = fixture_hash sha ` {1..<Suc e}" by (metis cs(2) dom_map_of_conv_image_fst image_set set_map set_upt)
  have "eforeach (insert_fixture_junction sha mid) [Suc s..<Suc e] (d\<lparr>ckpt_chunks := cs\<rparr>)
     = (Inr (), d\<lparr>ckpt_chunks := cs, ckpt_manifest_chunks := ?rows e\<rparr>)"
    using fixture_junctions [of "Suc s" "Suc e" mid "d\<lparr>ckpt_chunks := cs\<rparr>" sha] e f dom by auto
  then have "populate_batch sha env mid (of_nat s) (of_nat e) d = (Inr (), d\<lparr>ckpt_chunks := cs, ckpt_manifest_chunks := ?rows e\<rparr>)"
    using cs(1) e env(1) by (simp add: populate_batch_def generate_series_nat ebind_def autocommit_def del: upt_Suc)
  moreover have "fixture sha T mid e (d\<lparr>ckpt_chunks := cs, ckpt_manifest_chunks := ?rows e\<rparr>)"
    using f cs by (simp add: fixture_def)
  ultimately show thesis by (rule that) (simp_all add: other_rows_def)
qed

lemma populateChunks_run:
  assumes "fixture sha T mid s d" and "s \<le> n" and "n < 2 ^ 31" and inj: "inj_on (fixture_hash sha) {1..n}"
    and env: "\<forall>b. env_faults (envs b) = (\<lambda>_. None) \<and> env_now (envs b) \<le> T"
  obtains d' where "populateChunks sha envs mid s (of_nat n) d = (Inr (), d')" and "fixture sha T mid n d'"
    and "other_rows d' = other_rows d" and "ckpt_manifests d' = ckpt_manifests d"
proof -
  have "\<exists>d'. populateChunks sha envs mid s (of_nat n) d = (Inr (), d') \<and> fixture sha T mid n d' \<and>
      other_rows d' = other_rows d \<and> ckpt_manifests d' = ckpt_manifests d"
    using assms(1,2)
  proof (induction "n - s" arbitrary: s d rule: less_induct)
    case less
    show ?case
    proof (cases "s < n")
      case True
      define e where "e = min (s + BATCH) n"
      have e: "s < e" "e < 2 ^ 31" "e \<le> n" "min (of_nat (s + BATCH)) (of_nat n) = (of_nat e :: rat)"
        using True assms(3) by (auto simp: e_def BATCH_def min_def)
      have "inj_on (fixture_hash sha) {1..e}" by (rule inj_on_subset [OF inj]) (use e in auto)
      then obtain d1 where d1: "populate_batch sha (envs s) mid (of_nat s) (of_nat e) d = (Inr (), d1)" "fixture sha T mid e d1"
        "other_rows d1 = other_rows d" "ckpt_manifests d1 = ckpt_manifests d"
        using populate_batch_run [OF less.prems(1) e(1,2), of "envs s"] env by blast
      have run: "populateChunks sha envs mid s (of_nat n) d = populateChunks sha envs mid (s + BATCH) (of_nat n) d1"
        using True e(4) d1(1) by (subst populateChunks.simps) (simp add: ebind_def)
      show ?thesis
      proof (cases "s + BATCH \<le> n")
        case le: True
        then have "e = s + BATCH" by (simp add: e_def)
        with less.hyps [of "s + BATCH" d1] le d1 run True show ?thesis by (simp add: BATCH_def)
      next
        case False
        then have "e = n" "\<not> of_nat (s + BATCH) < (of_nat n :: rat)" by (simp_all add: e_def del: of_nat_add)
        with d1 run show ?thesis by (simp add: populateChunks.simps [of sha envs mid "s + BATCH"])
      qed
    next
      case False
      with less.prems show ?thesis by (simp add: populateChunks.simps)
    qed
  qed
  then show thesis using that by blast
qed

text \<open>A pass over the fixture: the single manifest is the newest of its kind, and every chunk is referenced.\<close>

lemma fixture_pruned:
  assumes fx: "fixture sha T mid n d"
  shows "delete_manifests w net 1000000 d = (Inr [], d)" and "delete_chunks env d = (Inr [], d)"
proof -
  obtain m where m: "ckpt_manifests d = [m]" using fx by (auto simp: fixture_def)
  then have "length (map m_seq (by_seq_desc (complete_manifests w net d))) \<le> 1"
    by (simp add: by_seq_desc_def complete_manifests_def)
  then have "prune_threshold w net 1000000 d = None" by (simp add: prune_threshold_def limit1_def)
  then have none: "superseded w net 1000000 d = (\<lambda>_. False)" by (intro ext) (simp add: superseded_def)
  show "delete_manifests w net 1000000 d = (Inr [], d)" by (simp add: delete_manifests_def none)
  have "\<not> reclaimable env d hr" if "hr \<in> set (ckpt_chunks d)" for hr
  proof -
    have "map mc_chunk_hash (ckpt_manifest_chunks d) = map fst (ckpt_chunks d)" using fx by (simp add: fixture_def comp_def del: upt_Suc)
    moreover have "fst hr \<in> set (map fst (ckpt_chunks d))" using that by simp
    ultimately have "fst hr \<in> set (map mc_chunk_hash (ckpt_manifest_chunks d))" by (simp only:)
    then show ?thesis by (auto simp: reclaimable_def list_ex_iff)
  qed
  then show "delete_chunks env d = (Inr [], d)" by (simp add: delete_chunks_def filter_empty_conv cong: filter_cong)
qed

definition nothing_pruned :: prune_result where
  "nothing_pruned = \<lparr>pr_prunedSequences = [], pr_reclaimedChunks = 0, pr_reclaimedBytes = 0\<rparr>"

lemma fixture_pass:
  assumes "fixture sha T mid n (w_db w)" and "env_faults env = (\<lambda>_. None)"
  shows "prune env no_faults (js ''gc'') (js ''bench'') 1000000 NoSignal w = (Inr nothing_pruned, settled w (w_db w))"
proof -
  have ids: "CheckpointIdSchema (js ''gc'')" "CheckpointIdSchema (js ''bench'')" by code_simp+
  have "pruneOnTx env (js ''gc'') (js ''bench'') 1000000 (w_db w) = (Inr nothing_pruned, w_db w)"
    using fixture_pruned [OF assms(1)] assms(2) by (simp add: pruneOnTx_def ebind_def nothing_pruned_def)
  then show ?thesis by (simp add: prune_def ids_ok ids own_transaction_run ebind_def MAX_SAFE_INTEGER_def)
qed

text \<open>The clock against the budget before point \<open>j\<close>, and the duration of its pass.\<close>

definition over_budget :: "gc_outside \<Rightarrow> js_number \<Rightarrow> nat \<Rightarrow> bool" where
  "over_budget out budgetMs j = js_less budgetMs (js_sub (Finite (go_clock out (3 * j + 1))) (Finite (go_clock out 0)))"

definition pass_ms :: "gc_outside \<Rightarrow> nat \<Rightarrow> js_number" where
  "pass_ms out j = js_sub (Finite (go_clock out (3 * j + 3))) (Finite (go_clock out (3 * j + 2)))"

definition measured :: "gc_outside \<Rightarrow> js_number \<Rightarrow> nat \<Rightarrow> nat list \<Rightarrow> gc_point list" where
  "measured out budgetMs i targets =
     map2 (\<lambda>t j. \<lparr>gp_liveChunks = t, gp_passMs = pass_ms out j\<rparr>) targets
       (takeWhile (\<lambda>j. \<not> over_budget out budgetMs j) [i..<i + length targets])"

lemma measured_Cons [simp]:
  "measured out budgetMs i (t # ts) =
     (if over_budget out budgetMs i then [] else \<lparr>gp_liveChunks = t, gp_passMs = pass_ms out i\<rparr> # measured out budgetMs (Suc i) ts)"
  by (simp add: measured_def upt_conv_Cons del: upt_Suc)

lemma measured_Nil [simp]: "measured out budgetMs i [] = []"
  by (simp add: measured_def)

definition outside_ok :: "gc_outside \<Rightarrow> int \<Rightarrow> bool" where
  "outside_ok out T \<longleftrightarrow>
     env_faults (go_setup out) = (\<lambda>_. None) \<and> (\<forall>i. env_faults (go_pass out i) = (\<lambda>_. None) \<and> go_faults out i = no_faults)
   \<and> (\<forall>i b. env_faults (go_populate out i b) = (\<lambda>_. None) \<and> env_now (go_populate out i b) \<le> T)"

lemma measureGcPass_run:
  assumes "outside_ok out T" and "fixture sha T mid n (w_db w)"
  shows "measureGcPass out i w = (Inr (pass_ms out i), settled w (w_db w))"
  using fixture_pass [OF assms(2), of "go_pass out i"] assms(1)
  by (simp add: measureGcPass_def outside_ok_def ebind_def pass_ms_def)

lemma gc_points_run:
  assumes ok: "outside_ok out T" and inj: "inj_on (fixture_hash sha) {1..N}" and N: "N < 2 ^ 31"
    and "fixture sha T mid p (w_db w)" and "sorted (p # ts)" and "\<forall>t \<in> set ts. t \<le> N"
  shows "\<exists>w'. gc_points sha out budgetMs mid i p (map of_nat ts) w
       = (Inr (measured out budgetMs i ts, \<exists>j \<in> {i..<i + length ts}. over_budget out budgetMs j), w')
     \<and> fixture sha T mid (last (p # map gp_liveChunks (measured out budgetMs i ts))) (w_db w')
     \<and> other_rows (w_db w') = other_rows (w_db w)"
  using assms(4-)
proof (induction ts arbitrary: i p w)
  case Nil
  then show ?case by simp
next
  case (Cons t ts)
  have range: "{i..<i + length (t # ts)} = insert i {Suc i..<Suc i + length ts}" by auto
  show ?case
  proof (cases "over_budget out budgetMs i")
    case True
    with Cons.prems show ?thesis unfolding range by (simp add: over_budget_def)
  next
    case False
    have t: "p \<le> t" "t < 2 ^ 31" "inj_on (fixture_hash sha) {1..t}"
      using Cons.prems N by (auto intro: inj_on_subset [OF inj])
    have env: "\<forall>b. env_faults (go_populate out i b) = (\<lambda>_. None) \<and> env_now (go_populate out i b) \<le> T"
      using ok by (simp add: outside_ok_def)
    obtain d' where d': "populateChunks sha (go_populate out i) mid p (of_nat t) (w_db w) = (Inr (), d')" "fixture sha T mid t d'"
        "other_rows d' = other_rows (w_db w)"
      by (rule populateChunks_run [OF Cons.prems(1) t env])
    define grow :: "nat run" where "grow = (if of_nat p < (of_nat t :: rat)
        then ebind (on_db (populateChunks sha (go_populate out i) mid p (of_nat t))) (\<lambda>_. eret (nat \<lfloor>of_nat t :: rat\<rfloor>))
        else eret p)"
    have pop: "grow w = (Inr t, w\<lparr>w_db := d'\<rparr>)"
      using d'(1) Cons.prems(2) by (auto simp: grow_def ebind_def on_db_def populateChunks.simps [of sha "go_populate out i" mid p])
    obtain w' where w': "gc_points sha out budgetMs mid (Suc i) t (map of_nat ts) (settled (w\<lparr>w_db := d'\<rparr>) d')
       = (Inr (measured out budgetMs (Suc i) ts, \<exists>j \<in> {Suc i..<Suc i + length ts}. over_budget out budgetMs j), w')"
     "fixture sha T mid (last (t # map gp_liveChunks (measured out budgetMs (Suc i) ts))) (w_db w')"
     "other_rows (w_db w') = other_rows (w_db w)"
      using Cons.IH [of t "settled (w\<lparr>w_db := d'\<rparr>) d'" "Suc i"] Cons.prems d' by auto
    have pass: "measureGcPass out i (w\<lparr>w_db := d'\<rparr>) = (Inr (pass_ms out i), settled (w\<lparr>w_db := d'\<rparr>) d')"
      using measureGcPass_run [OF ok, of sha mid t "w\<lparr>w_db := d'\<rparr>"] d'(2) by simp
    have "gc_points sha out budgetMs mid i p (map of_nat (t # ts)) w =
        (Inr (measured out budgetMs i (t # ts), \<exists>j \<in> {i..<i + length (t # ts)}. over_budget out budgetMs j), w')"
      using False unfolding range list.map gc_points.simps over_budget_def [symmetric] grow_def [symmetric]
      by (simp add: ebind_def pop pass w'(1))
    with w' False show ?thesis by simp
  qed
qed

lemma sort_of_nat: "sort (map of_nat ns) = map (of_nat :: nat \<Rightarrow> rat) (sort ns)"
proof -
  have "insort (of_nat n) (map of_nat ns) = map (of_nat :: nat \<Rightarrow> rat) (insort n ns)" for n ns by (induction ns) simp_all
  then show ?thesis by (induction ns) simp_all
qed

text \<open>The rule without the loop: where a point is a cliff, and the first one.\<close>

definition cliff_at :: "rat \<Rightarrow> rat \<Rightarrow> js_number \<Rightarrow> js_number \<Rightarrow> gc_point list \<Rightarrow> nat \<Rightarrow> bool" where
  "cliff_at envMin envMax k d pts i \<longleftrightarrow>
     inEnvelope envMin envMax (pts ! i) \<and>
     (js_less d (gp_passMs (pts ! i)) \<or> 0 < i \<and> superlinear k (pts ! (i - 1)) (pts ! i))"

lemma adjudicate_from_first:
  assumes "j \<le> length pts"
  shows "cd_firstMetLiveChunks (adjudicate_from envMin envMax k d (if j = 0 then None else Some (pts ! (j - 1))) (drop j pts))
     = map_option (\<lambda>i. gp_liveChunks (pts ! i)) (find (cliff_at envMin envMax k d pts) [j..<length pts])
   \<and> (cd_met (adjudicate_from envMin envMax k d (if j = 0 then None else Some (pts ! (j - 1))) (drop j pts))
     \<longleftrightarrow> (\<exists>i \<in> {j..<length pts}. cliff_at envMin envMax k d pts i))"
  using assms
proof (induction j rule: inc_induct)
  case base
  then show ?case by simp
next
  case (step j)
  then have j: "drop j pts = pts ! j # drop (Suc j) pts" "[j..<length pts] = j # [Suc j..<length pts]"
      "{j..<length pts} = insert j {Suc j..<length pts}"
    by (auto simp: Cons_nth_drop_Suc upt_conv_Cons)
  show ?case
  proof (cases "cliff_at envMin envMax k d pts j")
    case True
    then show ?thesis unfolding j by (auto simp: cliff_at_def split: option.splits)
  next
    case False
    then have "adjudicate_from envMin envMax k d (if j = 0 then None else Some (pts ! (j - 1))) (pts ! j # drop (Suc j) pts)
       = adjudicate_from envMin envMax k d (Some (pts ! j)) (drop (Suc j) pts)" by (auto simp: cliff_at_def)
    with step.IH False show ?thesis unfolding j by simp
  qed
qed

lemma adjudicate_first:
  "cd_firstMetLiveChunks (adjudicate pts envMin envMax k d)
     = map_option (\<lambda>i. gp_liveChunks (pts ! i)) (find (cliff_at envMin envMax k d pts) [0..<length pts])"
  "cd_met (adjudicate pts envMin envMax k d) \<longleftrightarrow> (\<exists>i < length pts. cliff_at envMin envMax k d pts i)"
  using adjudicate_from_first [of 0 pts envMin envMax k d] by (auto simp: adjudicate_def)

lemma gc_curve_of_simps:
  "gc_curve_points (gc_curve_of opts pts stopped) = pts"
  "gc_actualMaxChunks (gc_curve_of opts pts stopped) = last (0 # map gp_liveChunks pts)"
  "gc_cliffDetermination (gc_curve_of opts pts stopped)
     = adjudicate pts (fst (gs_targetEnvelope opts)) (snd (gs_targetEnvelope opts)) (Finite 2) (Finite 5000)"
  by (simp_all add: gc_curve_of_def Let_def last_map last_conv_nth K_def D_MS_def)

text \<open>
  C40. The garbage-collection curve measures what it says. On a server that answers, with integer points that fit the
  server's \<^verbatim>\<open>int\<close> and a hash that does not collide on the fixture's texts, the run ends with a curve whatever the database
  held before: its points are the requested counts in ascending order, cut at the first one the budget forbids; the chunk
  table then holds exactly as many rows as the last point claims, all of them past the grace window of \<open>prune\<close>, so the
  anti-join alone decides, and all of them referenced, so a pass finishes, deletes nothing and leaves the same fixture to the
  next point. The other modules' tables are untouched, and the verdict is the first point of the curve inside the
  envelope that breaks the absolute bound or grew too fast against the point measured before it.
\<close>

theorem gc_scale_sound:
  assumes "outside_ok out T" and "inj_on (fixture_hash sha) {1..N}" and "N < 2 ^ 31"
    and "gs_points opts = map of_nat ns" and "\<forall>n \<in> set ns. n \<le> N"
  shows "\<exists>curve w'. runGcScale sha out opts w = (Inr curve, w')
     \<and> gc_curve_points curve = measured out (gs_budgetMs opts) 0 (sort ns)
     \<and> gc_actualMaxChunks curve = last (0 # map gp_liveChunks (gc_curve_points curve))
     \<and> length (ckpt_chunks (w_db w')) = gc_actualMaxChunks curve
     \<and> (\<forall>(h, r) \<in> set (ckpt_chunks (w_db w')). ch_created_at r < T - GRACE_WINDOW)
     \<and> (\<forall>env. env_faults env = (\<lambda>_. None) \<longrightarrow>
          prune env no_faults (js ''gc'') (js ''bench'') 1000000 NoSignal w' = (Inr nothing_pruned, settled w' (w_db w')))
     \<and> other_rows (w_db w') = other_rows (w_db w)
     \<and> cd_firstMetLiveChunks (gc_cliffDetermination curve) = map_option (\<lambda>i. gp_liveChunks (gc_curve_points curve ! i))
         (find (cliff_at (fst (gs_targetEnvelope opts)) (snd (gs_targetEnvelope opts)) (Finite 2) (Finite 5000) (gc_curve_points curve))
            [0..<length (gc_curve_points curve)])"
proof -
  let ?pts = "measured out (gs_budgetMs opts) 0 (sort ns)"
  let ?m = "\<lparr>m_id = ckpt_next_id (w_db w), m_w = js ''gc'', m_net = js ''bench'', m_seq = 1, m_complete = True,
      m_manifest_hash = sha (ascii_bytes (js ''gc-manifest'')), m_label = None, m_created_at = env_now (go_setup out)\<rparr>"
  define w1 where "w1 = w\<lparr>w_db := snd (truncate_checkpoints (w_db w))\<rparr>"
  define w0 where "w0 = w1\<lparr>w_db := (w_db w1)\<lparr>ckpt_manifests := [?m], ckpt_next_id := ckpt_next_id (w_db w) + 1\<rparr>\<rparr>"
  have w0: "fixture sha T (m_id ?m) 0 (w_db w0)" "other_rows (w_db w0) = other_rows (w_db w)"
    by (simp_all add: w0_def w1_def truncate_checkpoints_def fixture_def other_rows_def)
  have "sorted (0 # sort ns)" "\<forall>t \<in> set (sort ns). t \<le> N" using assms(5) by simp_all
  from gc_points_run [OF assms(1,2,3) w0(1) this, of "gs_budgetMs opts" 0] obtain stopped w' where
    run: "gc_points sha out (gs_budgetMs opts) (m_id ?m) 0 0 (map of_nat (sort ns)) w0 = (Inr (?pts, stopped), w')"
    and fx: "fixture sha T (m_id ?m) (last (0 # map gp_liveChunks ?pts)) (w_db w')" and same: "other_rows (w_db w') = other_rows (w_db w0)"
    by blast
  have quiet: "env_faults (go_setup out) = (\<lambda>_. None)" using assms(1) by (simp add: outside_ok_def)
  have truncated: "on_db (stmt (go_setup out) 0 truncate_checkpoints) w = (Inr (), w1)"
    by (simp add: quiet on_db_def w1_def truncate_checkpoints_def)
  have inserted: "on_db (stmt (go_setup out) 1
      (insert_manifest (go_setup out) (js ''gc'') (js ''bench'') 1 (sha (ascii_bytes (js ''gc-manifest''))) None)) w1 = (Inr ?m, w0)"
    by (simp add: quiet on_db_def insert_manifest_def Let_def w0_def w1_def truncate_checkpoints_def)
  have "runGcScale sha out opts w = (Inr (gc_curve_of opts ?pts stopped), w')"
    using run unfolding runGcScale_def assms(4) sort_of_nat
    by (simp add: ebind_def truncated inserted del: One_nat_def)
  moreover have "map fst (ckpt_chunks (w_db w')) = map (fixture_hash sha) [1..<Suc (last (0 # map gp_liveChunks ?pts))]"
    using fx by (simp add: fixture_def)
  then have "length (ckpt_chunks (w_db w')) = last (0 # map gp_liveChunks ?pts)" by (metis length_map length_upt diff_Suc_1)
  moreover have "\<forall>(h, r) \<in> set (ckpt_chunks (w_db w')). ch_created_at r < T - GRACE_WINDOW"
    using fx by (force simp: fixture_def BACKDATE_def GRACE_WINDOW_def)
  moreover note fixture_pass [OF fx] same w0(2)
  ultimately show ?thesis
    unfolding gc_curve_of_simps by (intro exI [of _ "gc_curve_of opts ?pts stopped"] exI [of _ w']) (simp add: gc_curve_of_simps adjudicate_first)
qed

definition demo_outside :: gc_outside where
  "demo_outside = \<lparr>go_setup = quiet 0 1, go_populate = (\<lambda>_ _. quiet 0 1), go_pass = (\<lambda>_. quiet 0 1), go_faults = (\<lambda>_. no_faults),
     go_clock = of_nat\<rparr>"

definition demo_scale :: gc_scale_opts where
  "demo_scale = \<lparr>gs_points = map of_nat [2, 1], gs_targetEnvelope = GC_DECLARED_ENVELOPE, gs_budgetMs = Infinite True\<rparr>"

theorem gc_scale_sound_witness:
  "\<exists>curve w'. runGcScale id demo_outside demo_scale initial_world = (Inr curve, w')
     \<and> map gp_liveChunks (gc_curve_points curve) = [1, 2] \<and> length (ckpt_chunks (w_db w')) = 2"
proof -
  have ok: "outside_ok demo_outside 0" by (simp add: outside_ok_def demo_outside_def)
  have inj: "inj_on (fixture_hash id) {1..2}"
  proof -
    have "{1..2} = {1, 2 :: nat}" by auto
    moreover have "fixture_hash id 1 = [49]" "fixture_hash id 2 = [50]" by code_simp+
    ultimately show ?thesis by (simp add: inj_on_def)
  qed
  have points: "gs_points demo_scale = map of_nat [2, 1]" and bound: "\<forall>n \<in> set [2, 1]. n \<le> (2 :: nat)" by (simp_all add: demo_scale_def)
  have two: "(2 :: nat) < 2 ^ 31" by simp
  have budget: "\<not> over_budget demo_outside (gs_budgetMs demo_scale) j" for j
  proof -
    have "\<not> js_less (Infinite True) x" for x by (cases x) simp_all
    then show ?thesis by (simp add: over_budget_def demo_scale_def)
  qed
  have pts: "map gp_liveChunks (measured demo_outside (gs_budgetMs demo_scale) 0 (sort [2, 1])) = [1, 2]" by (simp add: budget)
  obtain curve w' where run: "runGcScale id demo_outside demo_scale initial_world = (Inr curve, w')"
    and eq: "gc_curve_points curve = measured demo_outside (gs_budgetMs demo_scale) 0 (sort [2, 1])"
    and len: "length (ckpt_chunks (w_db w')) = gc_actualMaxChunks curve"
      "gc_actualMaxChunks curve = last (0 # map gp_liveChunks (gc_curve_points curve))"
    using gc_scale_sound [OF ok inj two points bound, of initial_world] by blast
  have lives: "map gp_liveChunks (gc_curve_points curve) = [1, 2]" unfolding eq by (rule pts)
  then have "length (ckpt_chunks (w_db w')) = 2" by (simp add: len)
  with run lives show ?thesis by (intro exI conjI)
qed

end
