(* ===== verification/Deduplication.thy ===== *)
theory Deduplication
  imports CheckpointStore BenchStats
begin

text \<open>
  Deduplication of checkpoint chunks: what a save adds to the shared chunk table, and the ratio the benchmark derives
  from it (\<^verbatim>\<open>measureDedup\<close> of \<^verbatim>\<open>src/bench/workloads/checkpoint-store.ts\<close>).
\<close>

section \<open>The measurement\<close>

definition countChunks :: "int dbrun" where
  "countChunks d = (Inr (int (length (ckpt_chunks d))), d)"

definition dedup_opts :: save_opts where
  "dedup_opts = \<lparr>so_chunkSize = Some (64 * 1024), so_label = None, so_signal = NoSignal, so_tx = None\<rparr>"

text \<open>\<^verbatim>\<open>near[0] = near[0]! ^ 0xff\<close>\<close>

definition flip_first :: "bytes \<Rightarrow> bytes" where
  "flip_first base = (case base of [] \<Rightarrow> [] | b # bs \<Rightarrow> xor b 0xff # bs)"

record dedup_ratio =
  dd_referenced :: int
  dd_written :: int
  dd_ratio :: js_number

text \<open>\<open>base\<close> is what \<^verbatim>\<open>randomBytes\<close> gave; \<open>env1\<close> and \<open>env2\<close> are the server at the two saves.\<close>

definition measureDedup :: "(bytes \<Rightarrow> bytes) \<Rightarrow> pg_env \<Rightarrow> pg_env \<Rightarrow> tx_faults \<Rightarrow> tx_faults \<Rightarrow> bytes \<Rightarrow> dedup_ratio run" where
  "measureDedup sha env1 env2 fl1 fl2 base =
     ebind (save sha env1 fl1 (js ''w-dedup'') (js ''bench'') base dedup_opts) (\<lambda>_.
     ebind (on_db countChunks) (\<lambda>before.
     ebind (save sha env2 fl2 (js ''w-dedup2'') (js ''bench'') (flip_first base) dedup_opts) (\<lambda>summary.
     ebind (on_db countChunks) (\<lambda>after.
       let written = after - before; referenced = cs_chunkCount summary in
       eret \<lparr>dd_referenced = referenced, dd_written = written,
         dd_ratio = (if 0 < referenced then js_sub (Finite 1) (js_div (Finite (of_int written)) (Finite (of_int referenced))) else Finite 0)\<rparr>))))"

section \<open>What a save stores\<close>

lemma stored_saved:
  assumes inv: "ckpt_inv sha d" and free: "collision_free sha (stored_data d \<union> set chunks)"
  shows "stored_data (saved_db sha env w net chunks label d) = stored_data d \<union> set chunks"
proof -
  let ?rows = "dedupe_chunks [] (zip (map sha chunks) chunks)"
  define cs where "cs = fold (chunk_step (env_now env)) ?rows (ckpt_chunks d)"
  have old: "chunks_ok sha (ckpt_chunks d)" using inv by (simp add: ckpt_inv_def)
  note rows = dedupe_hashes [where sha = sha and chunks = chunks]
  have new: "chunks_ok sha cs" unfolding cs_def by (rule fold_chunk_ok [OF old]) (use rows(2) in blast)
  have distinct: "distinct (map fst (ckpt_chunks d))" using old by (simp add: chunks_ok_def)
  have sub: "(ch_data \<circ> snd) ` set cs \<subseteq> stored_data d \<union> set chunks"
  proof
    fix x assume "x \<in> (ch_data \<circ> snd) ` set cs"
    then have "x \<in> stored_data d \<union> snd ` set ?rows"
      unfolding cs_def stored_data_def by (rule fold_chunk_stored [OF _ distinct])
    with rows(2) show "x \<in> stored_data d \<union> set chunks" by blast
  qed
  have "x \<in> (ch_data \<circ> snd) ` set cs" if x: "x \<in> stored_data d \<union> set chunks" for x
  proof -
    have "map_of (ckpt_chunks d) (sha x) \<noteq> None \<or> sha x \<in> fst ` set ?rows"
      using x old rows(1) by (force simp: stored_data_def chunks_ok_def map_of_eq_None_iff)
    then have "map_of cs (sha x) \<noteq> None" unfolding cs_def fold_chunk_none by simp
    then obtain r where r: "(sha x, r) \<in> set cs" by (auto dest: map_of_SomeD)
    then have "sha (ch_data r) = sha x" using new by (auto simp: chunks_ok_def)
    moreover have "ch_data r \<in> stored_data d \<union> set chunks" using sub r by force
    ultimately have "ch_data r = x" using free x by (auto simp: collision_free_def dest: inj_onD)
    with r show ?thesis by force
  qed
  with sub have "(ch_data \<circ> snd) ` set cs = stored_data d \<union> set chunks" by blast
  then show ?thesis by (simp add: stored_data_def saved_db_def cs_def)
qed

lemma chunk_rows_count: "chunks_ok sha cs \<Longrightarrow> length cs = card ((ch_data \<circ> snd) ` set cs)"
proof -
  assume ok: "chunks_ok sha cs"
  have "inj_on (ch_data \<circ> snd) (set cs)"
  proof (rule inj_onI)
    fix x y assume xy: "x \<in> set cs" "y \<in> set cs" "(ch_data \<circ> snd) x = (ch_data \<circ> snd) y"
    have key: "fst z = sha (ch_data (snd z))" if "z \<in> set cs" for z using ok that by (cases z) (auto simp: chunks_ok_def)
    have "fst x = fst y" using key [OF xy(1)] key [OF xy(2)] xy(3) by simp
    with ok xy show "x = y" by (auto simp: chunks_ok_def distinct_map dest: inj_onD)
  qed
  moreover have "distinct cs" using ok by (simp add: chunks_ok_def distinct_map)
  ultimately show ?thesis using card_image [of "ch_data \<circ> snd" "set cs"] distinct_card [of cs] by (simp only:)
qed

lemma chunks_added:
  assumes inv: "ckpt_inv sha d" and free: "collision_free sha (stored_data d \<union> set chunks)"
  shows "length (ckpt_chunks (saved_db sha env w net chunks label d)) = length (ckpt_chunks d) + card (set chunks - stored_data d)"
proof -
  have "length (ckpt_chunks (saved_db sha env w net chunks label d)) = card (stored_data d \<union> set chunks)"
    using chunk_rows_count ckpt_inv_saved [OF inv] stored_saved [OF assms] by (metis ckpt_inv_def stored_data_def)
  also have "\<dots> = card (stored_data d) + card (set chunks - stored_data d)"
    using card_Un_disjoint [of "stored_data d" "set chunks - stored_data d"] by (simp add: stored_data_def)
  also have "card (stored_data d) = length (ckpt_chunks d)"
    using chunk_rows_count inv by (metis ckpt_inv_def stored_data_def)
  finally show ?thesis .
qed

text \<open>
  C14. A save stores every distinct chunk once: it adds one row to the chunk table for each distinct chunk of the payload
  that no earlier checkpoint of any wallet holds, and none for the others, whatever the payload, the chunk size or the
  repetitions inside it; afterwards the table holds exactly the chunks it held and those of the payload. A second save of the
  same payload adds nothing.
\<close>

theorem save_deduplicates:
  assumes "ckpt_inv sha (w_db world)" and "save_ok sha env w net data opts world"
  shows "\<exists>s world'. save sha env no_faults w net data opts world = (Inr s, world')
     \<and> cs_chunkCount s = int (length (splitChunks data (chunk_size opts)))
     \<and> length (ckpt_chunks (w_db world')) = length (ckpt_chunks (w_db world)) + card (set (splitChunks data (chunk_size opts)) - stored_data (w_db world))
     \<and> stored_data (w_db world') = stored_data (w_db world) \<union> set (splitChunks data (chunk_size opts))
     \<and> (\<forall>env2 w2 net2 opts2. save_ok sha env2 w2 net2 data opts2 world' \<and> chunk_size opts2 = chunk_size opts \<longrightarrow>
          length (ckpt_chunks (w_db (snd (save sha env2 no_faults w2 net2 data opts2 world')))) = length (ckpt_chunks (w_db world')))"
proof -
  let ?chunks = "splitChunks data (chunk_size opts)"
  have free: "collision_free sha (stored_data (w_db world) \<union> set ?chunks)" using assms(2) by (simp add: save_ok_def Let_def)
  obtain world' where run: "save sha env no_faults w net data opts world = (Inr (summary_view (new_ckpt sha env w net data opts (w_db world))), world')"
    and db: "w_db world' = saved_db sha env w net ?chunks (so_label opts) (w_db world)" by (rule save_run [OF assms])
  have inv: "ckpt_inv sha (w_db world')" by (simp add: db ckpt_inv_saved [OF assms(1)])
  have stored: "stored_data (w_db world') = stored_data (w_db world) \<union> set ?chunks" unfolding db by (rule stored_saved [OF assms(1) free])
  have again: "length (ckpt_chunks (w_db (snd (save sha env2 no_faults w2 net2 data opts2 world')))) = length (ckpt_chunks (w_db world'))"
    if ok2: "save_ok sha env2 w2 net2 data opts2 world'" and size: "chunk_size opts2 = chunk_size opts" for env2 w2 net2 opts2
  proof -
    have "collision_free sha (stored_data (w_db world') \<union> set ?chunks)" using ok2 by (simp add: save_ok_def Let_def size)
    note added = chunks_added [OF inv this, of env2 w2 net2 "so_label opts2"]
    show ?thesis by (rule save_run [OF inv ok2]) (use added in \<open>simp add: size stored\<close>)
  qed
  show ?thesis
    using run chunks_added [OF assms(1) free, of env w net "so_label opts"] stored again
    by (intro exI conjI) (auto simp: summary_view_def new_ckpt_def Let_def db)
qed

theorem save_deduplicates_witness:
  "\<exists>s world'. save pad32 (quiet 5000000 1) no_faults (js ''w'') (js ''n'') [1, 2, 3, 1, 2] demo_opts initial_world = (Inr s, world')
     \<and> cs_chunkCount s = 3 \<and> length (ckpt_chunks (w_db world')) = 3"
proof -
  have chunks: "splitChunks [1, 2, 3, 1, 2 :: byte] (chunk_size demo_opts) = [[1, 2], [3, 1], [2]]"
    by (simp add: splitChunks_def slices.simps chunk_size_def demo_opts_def)
  have "ckpt_inv pad32 (w_db initial_world)" by simp
  from save_deduplicates [OF this demo_save_ok] show ?thesis unfolding chunks by (auto simp: stored_data_def)
qed

section \<open>The measured ratio\<close>

lemma slices_Cons_tail: "0 < n \<Longrightarrow> 0 < i \<Longrightarrow> slices n i (x # xs) = slices n i (y # xs)"
proof (induction n i "x # xs" rule: slices.induct)
  case (1 n i)
  show ?case
  proof (cases "i < length (x # xs)")
    case True
    then have "slices n (i + n) (x # xs) = slices n (i + n) (y # xs)" using 1 by (auto simp: min_def)
    moreover have "drop i (x # xs) = drop i (y # xs)" using 1 by (cases i) simp_all
    ultimately show ?thesis using True 1 by (simp add: slices_step)
  qed simp
qed

lemma chunks_near:
  assumes "length base = 64 * 65536"
  obtains c rest where "splitChunks base 65536 = c # rest" and "splitChunks (flip_first base) 65536 = flip_first c # rest" and "length rest = 63"
proof -
  obtain b bs where base: "base = b # bs" using assms by (cases base) auto
  have split: "splitChunks xs 65536 = take 65536 xs # slices 65536 65536 xs" if "xs \<noteq> []" for xs :: bytes
    using that slices_step [of 65536 0 xs] by (simp add: splitChunks_def)
  have "length (slices 65536 65536 base) = 63" using length_slices [of 65536 65536 base] assms by simp
  moreover have "splitChunks (flip_first base) 65536 = flip_first (take 65536 base) # slices 65536 65536 base"
    using split [of "xor b 255 # bs"] slices_Cons_tail [of 65536 65536 "xor b 255" bs b] by (simp add: base flip_first_def)
  ultimately show thesis using that split [of base] base by blast
qed

lemma ratio_exact: "js_sub (Finite 1) (js_div (Finite 1) (Finite 64)) = Finite (63 / 64)"
proof -
  have l: "log2_floor (1 / 64) = - 6" "log2_floor (63 / 64) = - 1" by (rule log2_floor_unique; simp add: power_int_minus)+
  have r: "round_even 4503599627370496 = 4503599627370496" "round_even 8866461766385664 = 8866461766385664"
    using round_even_int [of 4503599627370496] round_even_int [of 8866461766385664] by simp_all
  have "js_div (Finite 1) (Finite 64) = Finite (1 / 64)" by (simp add: rounded_def to_double_def l Let_def power_int_minus r)
  then show ?thesis by (simp add: js_sub_def rounded_def to_double_def l Let_def power_int_minus r)
qed

text \<open>
  On a payload of 64 chunks whose flipped first chunk is new, the benchmark reports one written chunk of 64 referenced and
  the exact ratio 63/64.
\<close>

lemma measureDedup_ratio:
  assumes inv: "ckpt_inv sha (w_db w)" and len: "length base = 64 * 65536"
    and env: "env_faults env1 = (\<lambda>_. None)" "env_faults env2 = (\<lambda>_. None)"
    and seqs: "next_sequence (w_db w) (js ''w-dedup'') (js ''bench'') \<le> MAX_SAFE_INTEGER"
      "next_sequence (w_db w) (js ''w-dedup2'') (js ''bench'') \<le> MAX_SAFE_INTEGER"
    and free: "collision_free sha (stored_data (w_db w) \<union> set (splitChunks base 65536) \<union> {flip_first (take 65536 base)})"
    and fresh: "flip_first (take 65536 base) \<notin> stored_data (w_db w) \<union> set (splitChunks base 65536)"
  shows "\<exists>w'. measureDedup sha env1 env2 no_faults no_faults base w
     = (Inr \<lparr>dd_referenced = 64, dd_written = 1, dd_ratio = Finite (63 / 64)\<rparr>, w')"
proof -
  obtain c rest where chunks: "splitChunks base 65536 = c # rest" "splitChunks (flip_first base) 65536 = flip_first c # rest" "length rest = 63"
    by (rule chunks_near [OF len])
  have c: "take 65536 base = c" using chunks(1) slices_step [of 65536 0 base] len by (simp add: splitChunks_def)
  have label: "so_label dedup_opts = None" by (simp add: dedup_opts_def)
  have size: "chunk_size dedup_opts = 65536" by (simp add: chunk_size_def dedup_opts_def)
  have opts: "SaveCheckpointOptionsSchema dedup_opts" "label_ok (so_label dedup_opts)" "\<not> aborted (so_signal dedup_opts)" "so_tx dedup_opts = None"
    by (simp_all add: dedup_opts_def SaveCheckpointOptionsSchema_def label_ok_def)
  have ids: "CheckpointIdSchema (js ''w-dedup'')" "CheckpointIdSchema (js ''w-dedup2'')" "CheckpointIdSchema (js ''bench'')"
    "js ''w-dedup'' \<noteq> js ''w-dedup2''" by code_simp+
  have free1: "collision_free sha (stored_data (w_db w) \<union> set (c # rest))"
    using free by (auto simp: collision_free_def chunks(1) elim: inj_on_subset)
  have ok1: "save_ok sha env1 (js ''w-dedup'') (js ''bench'') base dedup_opts w"
    using opts ids env seqs free1 chunks by (simp add: save_ok_def size usable_def)
  obtain w1 s1 where w1: "save sha env1 no_faults (js ''w-dedup'') (js ''bench'') base dedup_opts w = (Inr s1, w1)"
    "w_db w1 = saved_db sha env1 (js ''w-dedup'') (js ''bench'') (c # rest) None (w_db w)"
    by (rule save_run [OF inv ok1]) (simp add: size chunks(1) label)
  have inv1: "ckpt_inv sha (w_db w1)" by (simp add: w1(2) ckpt_inv_saved [OF inv])
  have stored: "stored_data (w_db w1) = stored_data (w_db w) \<union> set (c # rest)" unfolding w1(2) by (rule stored_saved [OF inv free1])
  have free2: "collision_free sha (stored_data (w_db w1) \<union> set (flip_first c # rest))"
    using free by (auto simp: collision_free_def chunks(1) stored c elim: inj_on_subset)
  have "next_sequence (w_db w1) (js ''w-dedup2'') (js ''bench'') = next_sequence (w_db w) (js ''w-dedup2'') (js ''bench'')"
    using ids(4) by (simp add: w1(2) next_sequence_def)
  then have ok2: "save_ok sha env2 (js ''w-dedup2'') (js ''bench'') (flip_first base) dedup_opts w1"
    using opts ids env seqs free2 chunks by (simp add: save_ok_def size usable_def)
  obtain w2 where w2: "save sha env2 no_faults (js ''w-dedup2'') (js ''bench'') (flip_first base) dedup_opts w1
      = (Inr (summary_view (new_ckpt sha env2 (js ''w-dedup2'') (js ''bench'') (flip_first base) dedup_opts (w_db w1))), w2)"
    "w_db w2 = saved_db sha env2 (js ''w-dedup2'') (js ''bench'') (flip_first c # rest) None (w_db w1)"
    by (rule save_run [OF inv1 ok2]) (simp add: size chunks(2) label)
  have "set (flip_first c # rest) - stored_data (w_db w1) = {flip_first c}" using fresh by (auto simp: stored chunks(1) c)
  then have count: "length (ckpt_chunks (w_db w2)) = Suc (length (ckpt_chunks (w_db w1)))"
    using chunks_added [OF inv1 free2, of env2 "js ''w-dedup2''" "js ''bench''" None] by (simp add: w2(2))
  have referenced: "cs_chunkCount (summary_view (new_ckpt sha env2 (js ''w-dedup2'') (js ''bench'') (flip_first base) dedup_opts (w_db w1))) = 64"
    using chunks by (simp add: summary_view_def new_ckpt_def size)
  show ?thesis
    using ratio_exact by (intro exI [of _ w2]) (simp add: measureDedup_def ebind_def w1(1) w2(1) on_db_def countChunks_def count referenced)
qed

end
