(* ===== verification/Spec2Isabelle.thy ===== *)
theory Spec2Isabelle
  imports Lease HistoryExport WalletEnvelope TxReplay RolloverProperties MigrateRace WalletDatabase ExtensionRace SyncCli BenchGc Deduplication
begin

text \<open>
  UmbraDB: a PostgreSQL-backed store for wallet state and for an archive of the Midnight chain, written in
  TypeScript. This development models the program's own logic statement by statement and proves the
  properties that make its components correct.

  \<^bold>\<open>The program.\<close> A \<^emph>\<open>client\<close> is configured and checked, a \<^emph>\<open>migration runner\<close> probes the server's durability and
  brings a schema up to date, and on that schema stand five stores: a versioned key-value store
  (TemporalKV), a content-addressed checkpoint store, cursors (watermarks), a wallet's transaction history
  and the chain archive. They run their statements directly or in a caller's transaction of the transaction
  layer, and a writer lease keeps one writer per wallet. Above them, \<^verbatim>\<open>saveAndAdvance\<close> commits a checkpoint
  and a cursor together, the envelope store keeps a bundle of sub-wallet states as one checkpoint, the sync
  service copies finalized blocks from a node and an indexer into the archive, the rollover moves full
  DEFAULT partitions of the archive into ranges, and the replay decoder reads archived transactions back. A
  command-line process runs the sync service until it is stopped, and benchmarks measure the stores.

  \<^bold>\<open>How it is modelled.\<close> A computation that may throw is an \<open>exec\<close>: a function from a state to an error or a
  result and a new state, composed by \<open>ebind\<close> (\<open>Prelude\<close>). Errors are values of \<open>js_error\<close>; strings are lists
  of UTF-16 code units, bytes are 8-bit words, JavaScript values are \<open>jsval\<close>. PostgreSQL is the record of its
  tables, with every statement, constraint and trigger the code relies on written out; which statements fail,
  and how, is decided by an environment (\<open>pg_env\<close>, \<open>tx_faults\<close>, \<open>lease_env\<close>, \<open>mig_env\<close>), over which the theorems
  quantify. Code that is not part of the repository is an argument: SHA-256, \<^verbatim>\<open>hashtext\<close>, the printing of
  non-integer numbers, the date parser's extensions, the collation, the node and the indexer, the ledger
  library, and a caller's merge function and callbacks. Where a property needs something of them it is a named
  hypothesis (no hash collision among the data concerned, numbers that print the way they read), and its
  witness discharges it for a concrete function.

  \<^bold>\<open>Theories, sources and results.\<close>

  \<^item> \<open>Prelude\<close>: the execution monad, the driver's transaction bracket, sequences of calls, generic lemmas.
  \<^item> \<open>StorageErrors\<close> (\<^verbatim>\<open>interfaces/storage-errors.ts\<close>, \<^verbatim>\<open>postgres/errors.ts\<close>, \<^verbatim>\<open>postgres/abort.ts\<close>): the error classes, the
    translation of driver errors (total and idempotent), cancellation.
  \<^item> \<open>JsonText\<close>, \<open>JsFormat\<close>, \<open>JsonCodec\<close>, \<open>JsonParse\<close>: text safety and JSON validation
    (\<^verbatim>\<open>interfaces/temporal-kv.ts\<close>); decimal and ISO date text; \<^verbatim>\<open>JSON.stringify\<close> and UTF-8; \<^verbatim>\<open>JSON.parse\<close> and the fatal
    UTF-8 decoder. \<open>JsonParse\<close> proves that printing, encoding, decoding and parsing are inverse, and that the
    parser's fuel, twice the length of the text and one, is enough for every text.
  \<^item> \<open>Schema\<close>, \<open>Catalog\<close> (\<^verbatim>\<open>postgres/migrations\<close>): the rows of the wallet tables; the DDL of every wallet migration as
    statements on a catalog, with the server's refusals. A migration run that returns has built exactly the catalog
    of the current release, whatever failed in the runs before it, and the two hot tables have no index that
    prevents heap-only updates. \<open>ExtensionRace\<close>: migrations of different schemas as a step relation, in which no
    session fails on the extension another one is creating.
  \<^item> \<open>WalletDatabase\<close>: all wallet stores on one database. Under any calls and failures every store's invariant holds
    and the rows satisfy every type, NOT NULL, key, check, exclusion and foreign key of the migrated catalog.
  \<^item> \<open>TransactionLease\<close>, \<open>Lease\<close>
    (\<^verbatim>\<open>postgres/transaction-lease.ts\<close>): transactions are all or nothing and map errors exactly; runs of lease calls as a
    step relation, in which a wallet never has two writers.
  \<^item> \<open>TemporalKV\<close> (\<^verbatim>\<open>postgres/temporal-kv.ts\<close>): put, get, getAt, listKeys with the history trigger; refinement of an
    abstract versioned map, no lost update, an append-only history readable by version and by instant.
  \<^item> \<open>CheckpointStore\<close> (\<^verbatim>\<open>postgres/checkpoint-store.ts\<close>): save, load, history, prune; refinement of a list of
    checkpoints per wallet, the store's invariant, tamper evidence, the round trip. \<open>Deduplication\<close>: how many chunk rows a
    save adds, and the benchmark's measurement of it (\<^verbatim>\<open>bench/workloads/checkpoint-store.ts\<close>). \<open>Watermarks\<close> and
    \<open>SaveAndAdvance\<close> (\<^verbatim>\<open>postgres/watermarks.ts\<close>, \<^verbatim>\<open>postgres/save-and-advance.ts\<close>): the cursor never runs ahead of the
    checkpoint.
  \<^item> \<open>WalletEnvelope\<close> (\<^verbatim>\<open>wallet-state-envelope.ts\<close>): the envelope's schema, codec and store; the round trip through
    the checkpoint store, what decoding makes of arbitrary bytes, and that it always ends.
  \<^item> \<open>HistoryCodec\<close>, \<open>TxHistory\<close>, \<open>HistoryExport\<close> (\<^verbatim>\<open>transaction-history-storage.ts\<close>): the tagged content codec and its
    round trip, the writers as refinements of an abstract history, reads that never meet a corrupt row, the
    exported JSON text reading back.
  \<^item> \<open>ArchiveSchema\<close>, \<open>ChainArchive\<close>, \<open>ArchiveProperties\<close> (\<^verbatim>\<open>chain_archive/001_chain_archive_core.ts\<close>,
    \<^verbatim>\<open>postgres/chain-archive-store.ts\<close>): tables, constraints and triggers of the archive, every method of its
    store; integrity, append-only growth, atomic bundles, the canonical chain.
  \<^item> \<open>Rollover\<close>, \<open>RolloverProperties\<close> (\<^verbatim>\<open>postgres/chain-archive-rollover.ts\<close>): partitions, routing and the rollover; no
    row is lost, no height is without a place, and when a rollover succeeds.
  \<^item> \<open>SyncService\<close>, \<open>SyncProperties\<close>, \<open>TxReplay\<close> (\<^verbatim>\<open>chain-archive-sync/\<close>): the two clients, the canonical encoding,
    ingestion and the sync loop, with overlapping instances as a step relation; the cursor is covered, the
    service catches up; the replay decoder loses and reorders nothing.
  \<^item> \<open>Client\<close>, \<open>Migrate\<close>, \<open>MigrateRace\<close> (\<^verbatim>\<open>postgres/client.ts\<close>, \<^verbatim>\<open>postgres/migrate.ts\<close>, \<^verbatim>\<open>postgres/durability-probe.ts\<close>): configuration
    checks; the probe and the runner, whose calls apply every migration exactly once and in order whatever
    fails and leave no lock, search path or connection behind; concurrent callers as a step relation, which
    cannot apply a migration twice.
  \<^item> \<open>JsNumber\<close>: JavaScript numbers with their rounding, infinities and NaN, and \<^verbatim>\<open>Number\<close> of a text. \<open>SyncCli\<close>
    (\<^verbatim>\<open>chain-archive-sync/sync-cli.ts\<close>): the process around the sync service, its restarts, and that the position never
    moves back and advances with every undisturbed turn.
  \<^item> \<open>BenchStats\<close> (\<^verbatim>\<open>bench/stats.ts\<close>, \<^verbatim>\<open>bench/harness.ts\<close>, \<^verbatim>\<open>bench/smoke.ts\<close>): the latency statistics in rounded
    arithmetic, whose percentile ranks are nevertheless exact below 2^40 samples. \<open>BenchGc\<close> (\<^verbatim>\<open>bench/workloads/gc.ts\<close>):
    the garbage-collection curve over the checkpoint store's \<open>prune\<close>, which measures the counts it reports.

  \<^bold>\<open>Interfaces.\<close> What a client relies on is a locale, interpreted on the model's definitions: \<open>transaction_layer\<close>
  and \<open>co_commit\<close> (a co-commit on any atomic transaction layer), \<open>cursor_store\<close>, \<open>cas_store\<close> (versioned
  writes), \<open>payload_store\<close> (what the envelope needs of the checkpoint store), \<open>archive_writes\<close> and its extension
  \<open>archive_statements\<close> (what every statement of the archive store keeps).

  \<^bold>\<open>Bounds.\<close> Version numbers and sequence numbers carry the code's own limits (the server's bigint, JavaScript's
  safe integers). Loops are structural or have a termination proof; the JSON reader is the only definition
  with fuel.

  \<^bold>\<open>Not modelled.\<close> Statements of one call are atomic against other sessions except where a step relation says
  otherwise (leases, overlapping sync instances, concurrent migration runs, concurrent creation of the extension). Left
  out are: message texts of errors and the wording of log lines and notes; the catalog of the archive's schema beyond
  its tables, constraints, triggers and partitions; the driver and the server beyond the statements used; the
  search for the ledger library on disk; and of the benchmarks, starting the container, the sampling library, the loops
  that only call the stores repeatedly to time them, the server's statistics views and the written artifact.
\<close>

end
